(* ===== verification/Prelude.thy ===== *)
theory Prelude
  imports Main "HOL-Library.Word"
begin

text \<open>
  Shared vocabulary of the development: the fixed-width integer types of the C sources, byte
  buffers, string literals as byte lists, the C \<open>int\<close> cast, and the lemmas about bytes, words
  and lists that the component theories share.  The collection \<open>codec\<close> gathers the equations
  that take a big- or little-endian field apart and put it together again.
\<close>

unbundle bit_operations_syntax

type_synonym byte = "8 word"
type_synonym u16 = "16 word"
type_synonym u32 = "32 word"
type_synonym u64 = "64 word"

named_theorems codec \<open>equations of the byte encodings\<close>

section \<open>Bytes, strings and the C int cast\<close>

definition str :: "string \<Rightarrow> byte list" where
  "str s = map of_char s"

lemma str_simps [simp]:
  "str [] = []"
  "str (c # cs) = of_char c # str cs"
  by (simp_all add: str_def)

lemma length_str [simp]: "length (str s) = length s"
  by (simp add: str_def)

text \<open>\<open>(int)n\<close> of a \<open>size_t\<close>: the low 32 bits, read as two's complement.\<close>

definition c_int :: "nat \<Rightarrow> int" where
  "c_int n = sint (word_of_nat n :: u32)"

lemma c_int_small: "n < 2 ^ 31 \<Longrightarrow> c_int n = int n"
  by (simp add: c_int_def signed_of_nat signed_take_bit_int_eq_self)

lemma unat_word_of_nat:
  "n < 2 ^ LENGTH('a) \<Longrightarrow> unat (word_of_nat n :: 'a::len word) = n"
  by (simp add: unat_of_nat take_bit_nat_eq_self)

lemma unat_byte_less [simp]: "unat (b :: byte) < 256"
  using unsigned_less [of b] by simp

text \<open>A buffer slice and its replacement, as \<open>memcpy\<close> reads and writes them.\<close>

definition slice :: "nat \<Rightarrow> nat \<Rightarrow> 'a list \<Rightarrow> 'a list" where
  "slice off n xs = take n (drop off xs)"

definition blit :: "'a list \<Rightarrow> nat \<Rightarrow> 'a list \<Rightarrow> 'a list" where
  "blit xs off ys = take off xs @ ys @ drop (off + length ys) xs"

lemma length_slice [simp]: "off + n \<le> length xs \<Longrightarrow> length (slice off n xs) = n"
  by (simp add: slice_def)

lemma length_blit [simp]: "off + length ys \<le> length xs \<Longrightarrow> length (blit xs off ys) = length xs"
  by (simp add: blit_def)

lemma blit_Nil [simp]: "blit xs off [] = xs"
  by (simp add: blit_def)

lemma nth_blit:
  "off + length ys \<le> length xs \<Longrightarrow> i < length xs \<Longrightarrow>
   blit xs off ys ! i = (if off \<le> i \<and> i < off + length ys then ys ! (i - off) else xs ! i)"
  by (auto simp: blit_def nth_append min_def)

section \<open>Endian recombination\<close>

lemma bit_byte_field:
  fixes v :: "'a::len word"
  shows "bit (push_bit k (ucast (ucast (drop_bit k v) :: byte)) :: 'a word) n \<longleftrightarrow>
         k \<le> n \<and> n < k + 8 \<and> bit v n"
  by (auto simp: bit_simps dest: bit_imp_le_length)

lemma bit_byte_low:
  fixes v :: "'a::len word"
  shows "bit (ucast (ucast v :: byte) :: 'a word) n \<longleftrightarrow> n < 8 \<and> bit v n"
  by (auto simp: bit_simps dest: bit_imp_le_length)

lemma be16_split [codec]:
  fixes v :: u16
  shows "push_bit 8 (ucast (ucast (drop_bit 8 v) :: byte)) OR ucast (ucast v :: byte) = v"
  by (rule bit_word_eqI) (auto simp: bit_or_iff bit_byte_field bit_byte_low)

lemma be32_split [codec]:
  fixes v :: u32
  shows "push_bit 24 (ucast (ucast (drop_bit 24 v) :: byte)) OR
         push_bit 16 (ucast (ucast (drop_bit 16 v) :: byte)) OR
         push_bit 8 (ucast (ucast (drop_bit 8 v) :: byte)) OR ucast (ucast v :: byte) = v"
  by (rule bit_word_eqI) (auto simp: bit_or_iff bit_byte_field bit_byte_low)

lemma le32_split [codec]:
  fixes v :: u32
  shows "ucast (ucast v :: byte) OR push_bit 8 (ucast (ucast (drop_bit 8 v) :: byte)) OR
         push_bit 16 (ucast (ucast (drop_bit 16 v) :: byte)) OR
         push_bit 24 (ucast (ucast (drop_bit 24 v) :: byte)) = v"
  by (rule bit_word_eqI) (auto simp: bit_or_iff bit_byte_field bit_byte_low)

lemma le16_split [codec]:
  fixes v :: u16
  shows "ucast (ucast v :: byte) OR push_bit 8 (ucast (ucast (drop_bit 8 v) :: byte)) = v"
  by (rule bit_word_eqI) (auto simp: bit_or_iff bit_byte_field bit_byte_low)

section \<open>Masking with a repeating key\<close>

text \<open>The WebSocket masking loop \<open>out[i] = in[i] ^ mask[i % 4]\<close>, used by both peers.\<close>

definition ws_mask :: "byte list \<Rightarrow> byte list \<Rightarrow> byte list" where
  "ws_mask key payload = map (\<lambda>i. payload ! i XOR key ! (i mod 4)) [0..<length payload]"

lemma length_ws_mask [simp]: "length (ws_mask key payload) = length payload"
  by (simp add: ws_mask_def)

lemma nth_ws_mask [simp]:
  "i < length payload \<Longrightarrow> ws_mask key payload ! i = payload ! i XOR key ! (i mod 4)"
  by (simp add: ws_mask_def)

lemma ws_mask_involutive [simp]: "ws_mask key (ws_mask key payload) = payload"
  by (rule nth_equalityI) (simp_all add: xor.assoc)

section \<open>Big-endian numbers of bytes\<close>

definition be_value :: "byte list \<Rightarrow> nat" where
  "be_value bs = foldl (\<lambda>n b. n * 256 + unat b) 0 bs"

definition be_bytes :: "nat \<Rightarrow> nat \<Rightarrow> byte list" where
  "be_bytes k n = map (\<lambda>i. word_of_nat (n div 256 ^ (k - 1 - i))) [0..<k]"

lemma length_be_bytes [simp]: "length (be_bytes k n) = k"
  by (simp add: be_bytes_def)

lemma be_value_snoc: "be_value (bs @ [b]) = be_value bs * 256 + unat b"
  by (simp add: be_value_def)

lemma be_bytes_Suc: "be_bytes (Suc k) n = be_bytes k (n div 256) @ [word_of_nat n]"
proof -
  have "n div 256 ^ (k - i) = n div 256 div 256 ^ (k - 1 - i)" if "i < k" for i
  proof -
    have "k - i = Suc (k - 1 - i)" using that by simp
    then have "256 ^ (k - i) = 256 * (256 :: nat) ^ (k - 1 - i)" by (metis power_Suc)
    then show ?thesis by (simp only: div_mult2_eq)
  qed
  then show ?thesis by (simp add: be_bytes_def)
qed

lemma unat_byte_of_nat: "unat (word_of_nat n :: byte) = n mod 256"
  by (simp add: unat_of_nat take_bit_eq_mod)

lemma be_value_be_bytes [codec]: "be_value (be_bytes k n) = n mod 256 ^ k"
proof (induction k arbitrary: n)
  case 0
  then show ?case by (simp add: be_bytes_def be_value_def)
next
  case (Suc k)
  have "n mod 256 ^ Suc k = 256 * (n div 256 mod 256 ^ k) + n mod 256"
    by (simp add: mod_mult2_eq)
  then show ?case
    by (simp only: be_bytes_Suc be_value_snoc Suc unat_byte_of_nat mult.commute)
qed

section \<open>C strings\<close>

text \<open>The string in a buffer: the bytes before the first NUL.\<close>

definition c_str :: "byte list \<Rightarrow> byte list" where
  "c_str buf = takeWhile (\<lambda>b. b \<noteq> 0) buf"

text \<open>\<open>strstr\<close>: the index of the first occurrence.\<close>

fun find_sub :: "byte list \<Rightarrow> byte list \<Rightarrow> nat option" where
  "find_sub pat [] = (if pat = [] then Some 0 else None)"
| "find_sub pat (x # xs) =
     (if take (length pat) (x # xs) = pat then Some 0 else map_option Suc (find_sub pat xs))"

definition strstr :: "byte list \<Rightarrow> byte list \<Rightarrow> nat option" where
  "strstr haystack needle = find_sub needle (c_str haystack)"

text \<open>\<open>%u\<close>.\<close>

fun decimal :: "nat \<Rightarrow> byte list" where
  "decimal n = (if n < 10 then [word_of_nat (48 + n)] else decimal (n div 10) @ [word_of_nat (48 + n mod 10)])"

declare decimal.simps [simp del]

lemma find_sub_Some:
  "find_sub pat xs = Some i \<Longrightarrow> \<exists>rest. xs = take i xs @ pat @ rest \<and> i + length pat \<le> length xs"
proof (induction xs arbitrary: i)
  case Nil
  then show ?case by (simp split: if_splits)
next
  case (Cons x xs)
  show ?case
  proof (cases "take (length pat) (x # xs) = pat")
    case True
    with Cons.prems have "i = 0" by simp
    moreover have "x # xs = pat @ drop (length pat) (x # xs)"
      using True by (metis append_take_drop_id)
    moreover have "length pat \<le> length (x # xs)" using True by (metis length_take min.cobounded1)
    ultimately show ?thesis by (metis add_0 append_Nil take_0)
  next
    case False
    with Cons.prems obtain j where j: "find_sub pat xs = Some j" "i = Suc j" by auto
    from Cons.IH [OF j(1)] show ?thesis by (auto simp: j(2))
  qed
qed

lemma length_c_str: "length (c_str buf) \<le> length buf"
  by (simp add: c_str_def length_takeWhile_le)

lemma c_str_prefix: "\<exists>rest. buf = c_str buf @ rest"
  by (metis c_str_def takeWhile_dropWhile_id)

text \<open>An occurrence splits the buffer, up to the NUL or not.\<close>

lemma strstr_Some:
  assumes "strstr buf pat = Some i"
  shows "i + length pat \<le> length buf \<and> buf = take i buf @ pat @ drop (i + length pat) buf"
proof -
  obtain rest where b: "buf = c_str buf @ rest" using c_str_prefix by blast
  from find_sub_Some [OF assms [unfolded strstr_def]]
  obtain r where r: "c_str buf = take i (c_str buf) @ pat @ r" "i + length pat \<le> length (c_str buf)"
    by blast
  then have i: "i + length pat \<le> length buf" using length_c_str [of buf] by simp
  have t: "take i (c_str buf) = take i buf" using b r(2) by (metis take_append add_leD1 diff_is_0_eq append_Nil2 take_0)
  have "buf = take i buf @ pat @ (r @ rest)" using b r(1) t by simp
  moreover from this have "drop (i + length pat) buf = r @ rest"
    using i by (metis append_assoc append_eq_conv_conj length_append length_take min.absorb2 add_leD1)
  ultimately show ?thesis using i by simp
qed

lemma c_str_snoc: "c_str (buf @ [0]) = c_str buf"
  by (induction buf) (simp_all add: c_str_def)

lemma strstr_snoc: "strstr (buf @ [0]) pat = strstr buf pat"
  by (simp add: strstr_def c_str_snoc)

end
