(* ===== verification/GatewayProto.thy ===== *)
theory GatewayProto
  imports Prelude
begin

text \<open>
  The downstream framing between the gateways and \<open>gateway_client\<close>
  (\<open>wsh264/src/gateway_proto.c\<close>, \<open>wsh264/include/gateway_proto.h\<close>): a 16-byte stream
  announcement and a 16-byte header in front of every media payload.  A pointer argument the
  code tests against \<open>NULL\<close> is an \<open>option\<close>; a buffer is a byte list that the writer returns
  updated at the offsets the code writes.
\<close>

unbundle bit_operations_syntax

section \<open>Big-endian fields\<close>

definition write_be16 :: "byte list \<Rightarrow> nat \<Rightarrow> u16 \<Rightarrow> byte list" where
  "write_be16 p off v = p[off := ucast (drop_bit 8 v), off + 1 := ucast v]"

definition write_be32 :: "byte list \<Rightarrow> nat \<Rightarrow> u32 \<Rightarrow> byte list" where
  "write_be32 p off v =
     p[off := ucast (drop_bit 24 v), off + 1 := ucast (drop_bit 16 v),
       off + 2 := ucast (drop_bit 8 v), off + 3 := ucast v]"

definition read_be16 :: "byte list \<Rightarrow> nat \<Rightarrow> u16" where
  "read_be16 p off = push_bit 8 (ucast (p ! off)) OR ucast (p ! (off + 1))"

definition read_be32 :: "byte list \<Rightarrow> nat \<Rightarrow> u32" where
  "read_be32 p off =
     push_bit 24 (ucast (p ! off)) OR push_bit 16 (ucast (p ! (off + 1))) OR
     push_bit 8 (ucast (p ! (off + 2))) OR ucast (p ! (off + 3))"

lemma length_write_be [simp]:
  "length (write_be16 p off v) = length p"
  "length (write_be32 p off w) = length p"
  by (simp_all add: write_be16_def write_be32_def)

lemma nth_write_be16 [simp]:
  "off + 1 < length p \<Longrightarrow> write_be16 p off v ! i =
     (if i = off then ucast (drop_bit 8 v) else if i = off + 1 then ucast v else p ! i)"
  by (simp add: write_be16_def nth_list_update)

lemma nth_write_be32 [simp]:
  "off + 3 < length p \<Longrightarrow> write_be32 p off v ! i =
     (if i = off then ucast (drop_bit 24 v) else if i = off + 1 then ucast (drop_bit 16 v)
      else if i = off + 2 then ucast (drop_bit 8 v) else if i = off + 3 then ucast v else p ! i)"
  by (simp add: write_be32_def nth_list_update)

lemma read_write_be16 [codec]: "off + 1 < length p \<Longrightarrow> read_be16 (write_be16 p off v) off = v"
  by (simp add: read_be16_def be16_split)

lemma read_write_be32 [codec]: "off + 3 < length p \<Longrightarrow> read_be32 (write_be32 p off v) off = v"
  by (simp add: read_be32_def be32_split)

lemma read_be_cong:
  "p ! off = q ! off \<Longrightarrow> p ! (off + 1) = q ! (off + 1) \<Longrightarrow> read_be16 p off = read_be16 q off"
  "p ! off = q ! off \<Longrightarrow> p ! (off + 1) = q ! (off + 1) \<Longrightarrow> p ! (off + 2) = q ! (off + 2) \<Longrightarrow>
   p ! (off + 3) = q ! (off + 3) \<Longrightarrow> read_be32 p off = read_be32 q off"
  by (simp_all add: read_be16_def read_be32_def)

section \<open>Constants and records\<close>

abbreviation (input) GATEWAY_PROTO_INIT_MAGIC :: u32 where "GATEWAY_PROTO_INIT_MAGIC \<equiv> 0x47574931"
abbreviation (input) GATEWAY_PROTO_PACKET_MAGIC :: u32 where "GATEWAY_PROTO_PACKET_MAGIC \<equiv> 0x47575031"
abbreviation (input) GATEWAY_PROTO_STREAM_VIDEO :: byte where "GATEWAY_PROTO_STREAM_VIDEO \<equiv> 1"
abbreviation (input) GATEWAY_PROTO_STREAM_AUDIO :: byte where "GATEWAY_PROTO_STREAM_AUDIO \<equiv> 2"
abbreviation (input) GATEWAY_PROTO_FLAG_KEYFRAME :: byte where "GATEWAY_PROTO_FLAG_KEYFRAME \<equiv> 0x01"
abbreviation (input) GATEWAY_PROTO_FLAG_CONFIG :: byte where "GATEWAY_PROTO_FLAG_CONFIG \<equiv> 0x02"
abbreviation (input) GATEWAY_PROTO_INIT_SIZE :: nat where "GATEWAY_PROTO_INIT_SIZE \<equiv> 16"
abbreviation (input) GATEWAY_PROTO_PACKET_HEADER_SIZE :: nat
  where "GATEWAY_PROTO_PACKET_HEADER_SIZE \<equiv> 16"

record gateway_proto_init_info =
  version :: byte
  video_codec :: byte
  audio_codec :: byte
  audio_channels :: byte
  audio_sample_rate :: u32
  audio_sample_bits :: u16

record gateway_proto_media_info =
  stream_id :: byte
  flags :: byte
  seq_no :: u32
  payload_len :: u32

section \<open>Operations\<close>

definition gateway_proto_default_init ::
  "gateway_proto_init_info option \<Rightarrow> gateway_proto_init_info option" where
  "gateway_proto_default_init info =
     (case info of None \<Rightarrow> None
      | Some i \<Rightarrow> Some (i\<lparr>version := 1, video_codec := 1, audio_codec := 1, audio_channels := 1,
                         audio_sample_rate := 16000, audio_sample_bits := 16\<rparr>))"

definition gateway_proto_write_init ::
  "byte list option \<Rightarrow> gateway_proto_init_info option \<Rightarrow> int \<times> byte list option" where
  "gateway_proto_write_init out info =
     (case (out, info) of
        (Some b, Some i) \<Rightarrow>
          let b = write_be32 b 0 GATEWAY_PROTO_INIT_MAGIC;
              b = b[4 := version i, 5 := video_codec i, 6 := audio_codec i, 7 := audio_channels i];
              b = write_be32 b 8 (audio_sample_rate i);
              b = write_be16 b 12 (audio_sample_bits i);
              b = write_be16 b 14 0
          in (0, Some b)
      | _ \<Rightarrow> (-1, out))"

definition gateway_proto_read_init ::
  "gateway_proto_init_info option \<Rightarrow> byte list option \<Rightarrow> int \<times> gateway_proto_init_info option" where
  "gateway_proto_read_init info inp =
     (case (info, inp) of
        (Some i, Some b) \<Rightarrow>
          if read_be32 b 0 \<noteq> GATEWAY_PROTO_INIT_MAGIC then (-1, info)
          else (0, Some (i\<lparr>version := b ! 4, video_codec := b ! 5, audio_codec := b ! 6,
                          audio_channels := b ! 7, audio_sample_rate := read_be32 b 8,
                          audio_sample_bits := read_be16 b 12\<rparr>))
      | _ \<Rightarrow> (-1, info))"

definition gateway_proto_write_media_header ::
  "byte list option \<Rightarrow> gateway_proto_media_info option \<Rightarrow> int \<times> byte list option" where
  "gateway_proto_write_media_header out info =
     (case (out, info) of
        (Some b, Some i) \<Rightarrow>
          let b = write_be32 b 0 GATEWAY_PROTO_PACKET_MAGIC;
              b = b[4 := stream_id i, 5 := flags i];
              b = write_be16 b 6 0;
              b = write_be32 b 8 (seq_no i);
              b = write_be32 b 12 (payload_len i)
          in (0, Some b)
      | _ \<Rightarrow> (-1, out))"

definition gateway_proto_read_media_header ::
  "gateway_proto_media_info option \<Rightarrow> byte list option \<Rightarrow> int \<times> gateway_proto_media_info option" where
  "gateway_proto_read_media_header info inp =
     (case (info, inp) of
        (Some i, Some b) \<Rightarrow>
          if read_be32 b 0 \<noteq> GATEWAY_PROTO_PACKET_MAGIC then (-1, info)
          else (0, Some (i\<lparr>stream_id := b ! 4, flags := b ! 5, seq_no := read_be32 b 8,
                          payload_len := read_be32 b 12\<rparr>))
      | _ \<Rightarrow> (-1, info))"

section \<open>Round trips and the wire layout\<close>

text \<open>The fully written headers, whatever the buffer held before.\<close>

definition init_wire :: "gateway_proto_init_info \<Rightarrow> byte list" where
  "init_wire i = str ''GWI1'' @ [version i, video_codec i, audio_codec i, audio_channels i] @
     [ucast (drop_bit 24 (audio_sample_rate i)), ucast (drop_bit 16 (audio_sample_rate i)),
      ucast (drop_bit 8 (audio_sample_rate i)), ucast (audio_sample_rate i),
      ucast (drop_bit 8 (audio_sample_bits i)), ucast (audio_sample_bits i), 0, 0]"

definition media_wire :: "gateway_proto_media_info \<Rightarrow> byte list" where
  "media_wire i = str ''GWP1'' @ [stream_id i, flags i, 0, 0] @
     [ucast (drop_bit 24 (seq_no i)), ucast (drop_bit 16 (seq_no i)),
      ucast (drop_bit 8 (seq_no i)), ucast (seq_no i),
      ucast (drop_bit 24 (payload_len i)), ucast (drop_bit 16 (payload_len i)),
      ucast (drop_bit 8 (payload_len i)), ucast (payload_len i)]"

lemma length_wire [simp]: "length (init_wire i) = 16" "length (media_wire m) = 16"
  by (simp_all add: init_wire_def media_wire_def)

lemma list_of_length_16:
  "length b = 16 \<Longrightarrow> b = [b!0, b!1, b!2, b!3, b!4, b!5, b!6, b!7, b!8, b!9, b!10, b!11,
     b!12, b!13, b!14, b!15]"
  by (rule nth_equalityI) (auto simp: less_Suc_eq numeral_eq_Suc)

lemma write_init_wire:
  "length b = 16 \<Longrightarrow> gateway_proto_write_init (Some b) (Some i) = (0, Some (init_wire i))"
  by (subst list_of_length_16 [of b])
     (simp_all add: gateway_proto_write_init_def init_wire_def write_be32_def write_be16_def)

lemma write_media_wire:
  "length b = 16 \<Longrightarrow> gateway_proto_write_media_header (Some b) (Some i) = (0, Some (media_wire i))"
  by (subst list_of_length_16 [of b])
     (simp_all add: gateway_proto_write_media_header_def media_wire_def write_be32_def write_be16_def)

lemma bytes_of_read_be32:
  "ucast (drop_bit 24 (read_be32 p off)) = p ! off"
  "ucast (drop_bit 16 (read_be32 p off)) = p ! (off + 1)"
  "ucast (drop_bit 8 (read_be32 p off)) = p ! (off + 2)"
  "ucast (read_be32 p off) = p ! (off + 3)"
  unfolding read_be32_def
  by (rule bit_word_eqI, auto simp: bit_simps dest: bit_imp_le_length)+

lemma read_be32_eq_iff:
  "read_be32 p off = v \<longleftrightarrow>
   p ! off = ucast (drop_bit 24 v) \<and> p ! (off + 1) = ucast (drop_bit 16 v) \<and>
   p ! (off + 2) = ucast (drop_bit 8 v) \<and> p ! (off + 3) = ucast v"
  (is "_ \<longleftrightarrow> ?bytes")
proof
  assume v: "read_be32 p off = v"
  show ?bytes unfolding v [symmetric] by (simp only: bytes_of_read_be32)
next
  assume ?bytes
  then show "read_be32 p off = v" by (simp add: read_be32_def be32_split)
qed

lemma take_4_eq:
  "4 \<le> length b \<Longrightarrow> take 4 b = [w, x, y, z] \<longleftrightarrow> b ! 0 = w \<and> b ! 1 = x \<and> b ! 2 = y \<and> b ! 3 = z"
  by (cases b; cases "tl b"; cases "tl (tl b)"; cases "tl (tl (tl b))") auto

lemma magic_bytes:
  assumes "4 \<le> length b"
  shows "read_be32 b 0 = GATEWAY_PROTO_INIT_MAGIC \<longleftrightarrow> take 4 b = str ''GWI1''"
    and "read_be32 b 0 = GATEWAY_PROTO_PACKET_MAGIC \<longleftrightarrow> take 4 b = str ''GWP1''"
proof -
  have init: "ucast (drop_bit 24 GATEWAY_PROTO_INIT_MAGIC) = (71 :: byte)"
      "ucast (drop_bit 16 GATEWAY_PROTO_INIT_MAGIC) = (87 :: byte)"
      "ucast (drop_bit 8 GATEWAY_PROTO_INIT_MAGIC) = (73 :: byte)"
      "ucast GATEWAY_PROTO_INIT_MAGIC = (49 :: byte)"
    by simp_all
  have packet: "ucast (drop_bit 24 GATEWAY_PROTO_PACKET_MAGIC) = (71 :: byte)"
      "ucast (drop_bit 16 GATEWAY_PROTO_PACKET_MAGIC) = (87 :: byte)"
      "ucast (drop_bit 8 GATEWAY_PROTO_PACKET_MAGIC) = (80 :: byte)"
      "ucast GATEWAY_PROTO_PACKET_MAGIC = (49 :: byte)"
    by simp_all
  show "read_be32 b 0 = GATEWAY_PROTO_INIT_MAGIC \<longleftrightarrow> take 4 b = str ''GWI1''"
    unfolding read_be32_eq_iff init using assms by (simp add: take_4_eq numeral_2_eq_2)
  show "read_be32 b 0 = GATEWAY_PROTO_PACKET_MAGIC \<longleftrightarrow> take 4 b = str ''GWP1''"
    unfolding read_be32_eq_iff packet using assms by (simp add: take_4_eq numeral_2_eq_2)
qed

lemma read_init_wire: "gateway_proto_read_init (Some j) (Some (init_wire i)) = (0, Some i)"
proof -
  have "read_be32 (init_wire i) 0 = GATEWAY_PROTO_INIT_MAGIC"
    by (simp add: magic_bytes(1)) (simp add: init_wire_def)
  moreover have "read_be32 (init_wire i) 8 = audio_sample_rate i"
    by (simp add: read_be32_def init_wire_def codec)
  moreover have "read_be16 (init_wire i) 12 = audio_sample_bits i"
    by (simp add: read_be16_def init_wire_def codec)
  ultimately show ?thesis by (simp add: gateway_proto_read_init_def) (simp add: init_wire_def)
qed

lemma read_media_wire: "gateway_proto_read_media_header (Some j) (Some (media_wire i)) = (0, Some i)"
proof -
  have "read_be32 (media_wire i) 0 = GATEWAY_PROTO_PACKET_MAGIC"
    by (simp add: magic_bytes(2)) (simp add: media_wire_def)
  moreover have "read_be32 (media_wire i) 8 = seq_no i"
    by (simp add: read_be32_def media_wire_def codec)
  moreover have "read_be32 (media_wire i) 12 = payload_len i"
    by (simp add: read_be32_def media_wire_def codec)
  ultimately show ?thesis by (simp add: gateway_proto_read_media_header_def) (simp add: media_wire_def)
qed

lemma header_magic:
  assumes "4 \<le> length b"
  shows "take 4 b \<noteq> str ''GWP1'' \<Longrightarrow> gateway_proto_read_media_header (Some m) (Some b) = (-1, Some m)"
    and "take 4 b \<noteq> str ''GWI1'' \<Longrightarrow> gateway_proto_read_init (Some i) (Some b) = (-1, Some i)"
    and "fst (gateway_proto_read_media_header (Some m) (Some b)) = 0 \<longleftrightarrow> take 4 b = str ''GWP1''"
  using magic_bytes [OF assms]
  by (auto simp add: gateway_proto_read_media_header_def gateway_proto_read_init_def simp del: str_simps)

lemma wire_magic [simp]: "take 4 (media_wire i) = str ''GWP1''" "take 4 (init_wire j) = str ''GWI1''"
  by (simp_all add: media_wire_def init_wire_def)

text \<open>
  Stream announcement round trip.  Whatever the 16-byte buffer and the receiving structure
  held before, reading what \<open>gateway_proto_write_init\<close> wrote returns 0 and every field of the
  announcement that was written.
\<close>

theorem init_roundtrip:
  assumes "length b = GATEWAY_PROTO_INIT_SIZE"
  shows "gateway_proto_read_init (Some j) (snd (gateway_proto_write_init (Some b) (Some i))) =
         (0, Some i)"
  using assms by (simp add: write_init_wire read_init_wire)

theorem init_roundtrip_witness:
  "gateway_proto_read_init (Some \<lparr>version = 0, video_codec = 0, audio_codec = 0, audio_channels = 0,
       audio_sample_rate = 0, audio_sample_bits = 0\<rparr>)
     (snd (gateway_proto_write_init (Some (replicate 16 0xFF))
       (gateway_proto_default_init (Some \<lparr>version = 9, video_codec = 9, audio_codec = 9,
          audio_channels = 9, audio_sample_rate = 9, audio_sample_bits = 9\<rparr>)))) =
   (0, Some \<lparr>version = 1, video_codec = 1, audio_codec = 1, audio_channels = 1,
       audio_sample_rate = 16000, audio_sample_bits = 16\<rparr>)"
  by (simp add: gateway_proto_default_init_def init_roundtrip)

text \<open>
  Media header round trip.  Reading what \<open>gateway_proto_write_media_header\<close> wrote returns 0
  and the stream id, flags, sequence number and payload length that were written.
\<close>

theorem media_header_roundtrip:
  assumes "length b = GATEWAY_PROTO_PACKET_HEADER_SIZE"
  shows "gateway_proto_read_media_header (Some j)
           (snd (gateway_proto_write_media_header (Some b) (Some i))) = (0, Some i)"
  using assms by (simp add: write_media_wire read_media_wire)

theorem media_header_roundtrip_witness:
  "gateway_proto_read_media_header (Some \<lparr>stream_id = 0, flags = 0, seq_no = 0, payload_len = 0\<rparr>)
     (snd (gateway_proto_write_media_header (Some (replicate 16 0xAA))
        (Some \<lparr>stream_id = 1, flags = 3, seq_no = 0x01020304, payload_len = 1500\<rparr>))) =
   (0, Some \<lparr>stream_id = 1, flags = 3, seq_no = 0x01020304, payload_len = 1500\<rparr>)"
  by (simp add: media_header_roundtrip)

text \<open>
  A reader resynchronises on the magic only.  \<open>gateway_proto_read_media_header\<close> accepts a
  16-byte header exactly when it starts with the bytes \<open>GWP1\<close>, and
  \<open>gateway_proto_read_init\<close> exactly when it starts with \<open>GWI1\<close>; a rejected header leaves the
  caller's structure as it was, and no input is accepted by both.
\<close>

theorem headers_accepted_by_magic:
  assumes "length b = 16"
  shows "(fst (gateway_proto_read_media_header (Some m) (Some b)) = 0 \<longleftrightarrow> take 4 b = str ''GWP1'') \<and>
         (fst (gateway_proto_read_init (Some i) (Some b)) = 0 \<longleftrightarrow> take 4 b = str ''GWI1'') \<and>
         (take 4 b \<noteq> str ''GWP1'' \<longrightarrow>
            gateway_proto_read_media_header (Some m) (Some b) = (-1, Some m)) \<and>
         (fst (gateway_proto_read_init (Some i) (Some b)) = 0 \<longrightarrow>
            fst (gateway_proto_read_media_header (Some m) (Some b)) = -1)"
  using assms magic_bytes [of b]
  by (auto simp add: gateway_proto_read_media_header_def gateway_proto_read_init_def
        simp del: str_simps split: if_splits)

theorem headers_accepted_by_magic_witness:
  "fst (gateway_proto_read_media_header (Some \<lparr>stream_id = 0, flags = 0, seq_no = 0, payload_len = 0\<rparr>)
     (Some (str ''GWP1'' @ replicate 12 0))) = 0 \<and>
   gateway_proto_read_media_header (Some \<lparr>stream_id = 7, flags = 0, seq_no = 0, payload_len = 0\<rparr>)
     (Some (str ''GWI1'' @ replicate 12 0)) =
     (-1, Some \<lparr>stream_id = 7, flags = 0, seq_no = 0, payload_len = 0\<rparr>)"
  using headers_accepted_by_magic [of "str ''GWP1'' @ replicate 12 0"
      "\<lparr>stream_id = 0, flags = 0, seq_no = 0, payload_len = 0\<rparr>"]
    headers_accepted_by_magic [of "str ''GWI1'' @ replicate 12 0"
      "\<lparr>stream_id = 7, flags = 0, seq_no = 0, payload_len = 0\<rparr>"]
  by (simp add: of_char_Char)

end
