(* ===== verification/CryptoStream.thy ===== *)
theory CryptoStream
  imports GatewayProto
begin

text \<open>
  The encrypted media packet (\<open>wsh264/src/crypto_stream.c\<close>): an 8-byte header (magic, version,
  stream id, sequence number) followed by the payload, XORed with a ChaCha20 key stream whose
  nonce is the session nonce with the sequence number added to its last 32 bits.  The cipher
  itself (\<open>3rd_party/chacha\<close>, a submodule) is the parameter \<open>chacha20_xor\<close>, applied to the
  input bytes, the key, the nonce and the initial block counter.
\<close>

unbundle bit_operations_syntax

section \<open>Definitions\<close>

abbreviation (input) CRYPTO_STREAM_HEADER_SIZE :: nat where "CRYPTO_STREAM_HEADER_SIZE \<equiv> 8"
abbreviation (input) CRYPTO_STREAM_NONCE_SIZE :: nat where "CRYPTO_STREAM_NONCE_SIZE \<equiv> 12"
abbreviation (input) CRYPTO_STREAM_KEY_SIZE :: nat where "CRYPTO_STREAM_KEY_SIZE \<equiv> 32"
abbreviation (input) CRYPTO_STREAM_MAGIC0 :: byte where "CRYPTO_STREAM_MAGIC0 \<equiv> of_char (CHR ''C'')"
abbreviation (input) CRYPTO_STREAM_MAGIC1 :: byte where "CRYPTO_STREAM_MAGIC1 \<equiv> of_char (CHR ''H'')"
abbreviation (input) CRYPTO_STREAM_VERSION :: byte where "CRYPTO_STREAM_VERSION \<equiv> 1"

type_synonym cipher = "byte list \<Rightarrow> byte list \<Rightarrow> byte list \<Rightarrow> u32 \<Rightarrow> byte list"

definition g_crypto_stream_key :: "byte list" where
  "g_crypto_stream_key = str ''CarplayPoCChaChaStreamKey-v1!!!!''"

definition cs_read_be32 :: "byte list \<Rightarrow> nat \<Rightarrow> u32" where
  "cs_read_be32 p off =
     push_bit 24 (ucast (p ! off)) OR push_bit 16 (ucast (p ! (off + 1))) OR
     push_bit 8 (ucast (p ! (off + 2))) OR ucast (p ! (off + 3))"

definition cs_write_be32 :: "byte list \<Rightarrow> nat \<Rightarrow> u32 \<Rightarrow> byte list" where
  "cs_write_be32 p off v =
     p[off := ucast (drop_bit 24 v), off + 1 := ucast (drop_bit 16 v),
       off + 2 := ucast (drop_bit 8 v), off + 3 := ucast v]"

definition read_le32 :: "byte list \<Rightarrow> nat \<Rightarrow> u32" where
  "read_le32 p off =
     ucast (p ! off) OR push_bit 8 (ucast (p ! (off + 1))) OR
     push_bit 16 (ucast (p ! (off + 2))) OR push_bit 24 (ucast (p ! (off + 3)))"

definition write_le32 :: "byte list \<Rightarrow> nat \<Rightarrow> u32 \<Rightarrow> byte list" where
  "write_le32 p off v =
     p[off := ucast v, off + 1 := ucast (drop_bit 8 v),
       off + 2 := ucast (drop_bit 16 v), off + 3 := ucast (drop_bit 24 v)]"

definition crypto_stream_default_key :: "byte list \<Rightarrow> byte list" where
  "crypto_stream_default_key key = blit key 0 g_crypto_stream_key"

text \<open>
  The two sources of randomness are arguments: what reading \<open>/dev/urandom\<close> delivers (\<open>None\<close> when
  it cannot be opened) and the values \<open>rand()\<close> returns after \<open>srand\<close>.
\<close>

definition crypto_stream_fill_random ::
  "byte list option \<Rightarrow> (nat \<Rightarrow> u32) \<Rightarrow> byte list option \<Rightarrow> nat \<Rightarrow> int \<times> byte list option" where
  "crypto_stream_fill_random urandom rnd buf len =
     (case buf of
        None \<Rightarrow> (-1, None)
      | Some b \<Rightarrow>
          (case urandom of
             Some bs \<Rightarrow>
               if len \<le> length bs then (0, Some (blit b 0 (take len bs)))
               else (0, Some (blit b 0 (map (\<lambda>i. ucast (rnd i AND 0xFF)) [0..<len])))
           | None \<Rightarrow> (0, Some (blit b 0 (map (\<lambda>i. ucast (rnd i AND 0xFF)) [0..<len])))))"

definition crypto_stream_packet_nonce :: "byte list \<Rightarrow> byte list \<Rightarrow> u32 \<Rightarrow> byte list" where
  "crypto_stream_packet_nonce out_nonce session_nonce seq =
     (let out = blit out_nonce 0 (take CRYPTO_STREAM_NONCE_SIZE session_nonce);
          tail = read_le32 out 8;
          tail = tail + seq
      in write_le32 out 8 tail)"

definition crypto_stream_packet_size :: "nat \<Rightarrow> nat" where
  "crypto_stream_packet_size plaintext_len = CRYPTO_STREAM_HEADER_SIZE + plaintext_len"

text \<open>The local arrays \<open>key\<close> and \<open>nonce\<close> of the C functions start uninitialised.\<close>

definition crypto_stream_encrypt_packet ::
  "cipher \<Rightarrow> byte list option \<Rightarrow> nat \<Rightarrow> byte \<Rightarrow> u32 \<Rightarrow> byte list option \<Rightarrow> byte list option \<Rightarrow> nat \<Rightarrow>
   int \<times> byte list option" where
  "crypto_stream_encrypt_packet chacha20_xor out_packet out_packet_size sid seq session_nonce
       plaintext plaintext_len =
     (let packet_size = crypto_stream_packet_size plaintext_len in
      case (out_packet, plaintext, session_nonce) of
        (Some out, Some pt, Some sn) \<Rightarrow>
          if out_packet_size < packet_size then (-1, out_packet)
          else
            let out = out[0 := CRYPTO_STREAM_MAGIC0, 1 := CRYPTO_STREAM_MAGIC1,
                          2 := CRYPTO_STREAM_VERSION, 3 := sid];
                out = cs_write_be32 out 4 seq;
                key = crypto_stream_default_key (replicate CRYPTO_STREAM_KEY_SIZE 0);
                nonce = crypto_stream_packet_nonce (replicate CRYPTO_STREAM_NONCE_SIZE 0) sn seq;
                out = blit out CRYPTO_STREAM_HEADER_SIZE
                        (chacha20_xor (take plaintext_len pt) key nonce 1)
            in (c_int packet_size, Some out)
      | _ \<Rightarrow> (-1, out_packet))"

record decrypt_result =
  dr_rc :: int
  dr_plaintext :: "byte list option"
  dr_stream_id :: "byte option"
  dr_seq_no :: "u32 option"

definition crypto_stream_decrypt_packet ::
  "cipher \<Rightarrow> byte list option \<Rightarrow> nat \<Rightarrow> byte option \<Rightarrow> u32 option \<Rightarrow> byte list option \<Rightarrow>
   byte list option \<Rightarrow> nat \<Rightarrow> decrypt_result" where
  "crypto_stream_decrypt_packet chacha20_xor out_plaintext out_plaintext_size stream_id_out
       seq_no_out session_nonce packet packet_size =
     (let fail = \<lparr>dr_rc = -1, dr_plaintext = out_plaintext, dr_stream_id = stream_id_out,
                  dr_seq_no = seq_no_out\<rparr> in
      case (out_plaintext, session_nonce, packet) of
        (Some out, Some sn, Some pkt) \<Rightarrow>
          if packet_size < CRYPTO_STREAM_HEADER_SIZE then fail
          else if pkt ! 0 \<noteq> CRYPTO_STREAM_MAGIC0 \<or> pkt ! 1 \<noteq> CRYPTO_STREAM_MAGIC1 then fail
          else if pkt ! 2 \<noteq> CRYPTO_STREAM_VERSION then fail
          else
            let ciphertext_len = packet_size - CRYPTO_STREAM_HEADER_SIZE in
            if out_plaintext_size < ciphertext_len then fail
            else
              let seq = cs_read_be32 pkt 4;
                  key = crypto_stream_default_key (replicate CRYPTO_STREAM_KEY_SIZE 0);
                  nonce = crypto_stream_packet_nonce (replicate CRYPTO_STREAM_NONCE_SIZE 0) sn seq;
                  ct = take ciphertext_len (drop CRYPTO_STREAM_HEADER_SIZE pkt)
              in \<lparr>dr_rc = c_int ciphertext_len,
                  dr_plaintext = Some (blit out 0 (chacha20_xor ct key nonce 1)),
                  dr_stream_id = map_option (\<lambda>_. pkt ! 3) stream_id_out,
                  dr_seq_no = map_option (\<lambda>_. seq) seq_no_out\<rparr>
      | _ \<Rightarrow> fail)"

text \<open>
  What the callers rely on from the cipher: it XORs the input with a key stream that depends on
  the key, the nonce and the counter only (RFC 7539, the interface of the submodule).
\<close>

definition xor_stream_cipher :: "cipher \<Rightarrow> bool" where
  "xor_stream_cipher chacha20_xor \<longleftrightarrow>
     (\<exists>keystream. \<forall>input key nonce counter.
        chacha20_xor input key nonce counter =
        map (\<lambda>i. input ! i XOR keystream key nonce counter i) [0..<length input])"

section \<open>Field lemmas\<close>

lemma cs_be32 [simp]: "cs_read_be32 = read_be32" "cs_write_be32 = write_be32"
  by (simp_all add: fun_eq_iff cs_read_be32_def cs_write_be32_def read_be32_def write_be32_def)

lemma length_write_le32 [simp]: "length (write_le32 p off v) = length p"
  by (simp add: write_le32_def)

lemma nth_write_le32 [simp]:
  "off + 3 < length p \<Longrightarrow> write_le32 p off v ! i =
     (if i = off then ucast v else if i = off + 1 then ucast (drop_bit 8 v)
      else if i = off + 2 then ucast (drop_bit 16 v) else if i = off + 3 then ucast (drop_bit 24 v)
      else p ! i)"
  by (simp add: write_le32_def nth_list_update)

lemma read_write_le32 [codec]: "off + 3 < length p \<Longrightarrow> read_le32 (write_le32 p off v) off = v"
  by (simp add: read_le32_def le32_split)

lemma length_g_crypto_stream_key [simp]: "length g_crypto_stream_key = CRYPTO_STREAM_KEY_SIZE"
  by (simp add: g_crypto_stream_key_def)

lemma default_key_overwrites [simp]:
  "length key = CRYPTO_STREAM_KEY_SIZE \<Longrightarrow> crypto_stream_default_key key = g_crypto_stream_key"
  by (simp add: crypto_stream_default_key_def blit_def)

lemma packet_nonce_eq:
  "length out = CRYPTO_STREAM_NONCE_SIZE \<Longrightarrow> length sn = CRYPTO_STREAM_NONCE_SIZE \<Longrightarrow>
   crypto_stream_packet_nonce out sn seq = write_le32 sn 8 (read_le32 sn 8 + seq)"
  by (simp add: crypto_stream_packet_nonce_def blit_def)

lemma length_packet_nonce [simp]:
  "length out = CRYPTO_STREAM_NONCE_SIZE \<Longrightarrow> length sn = CRYPTO_STREAM_NONCE_SIZE \<Longrightarrow>
   length (crypto_stream_packet_nonce out sn seq) = CRYPTO_STREAM_NONCE_SIZE"
  by (simp add: packet_nonce_eq)

lemma cipher_length:
  "xor_stream_cipher c \<Longrightarrow> length (c input key nonce counter) = length input"
  by (auto simp: xor_stream_cipher_def)

lemma cipher_involutive:
  assumes "xor_stream_cipher c"
  shows "c (c input key nonce counter) key nonce counter = input"
  using assms unfolding xor_stream_cipher_def
  by (elim exE) (rule nth_equalityI, simp_all add: xor.assoc)

section \<open>Properties\<close>

lemma write_le32_eq_iff:
  assumes "length s = 12" and "length t = 12"
  shows "write_le32 s 8 v = write_le32 t 8 w \<longleftrightarrow> take 8 s = take 8 t \<and> v = w"
    (is "?eq \<longleftrightarrow> ?parts")
proof
  assume ?eq
  then have "read_le32 (write_le32 s 8 v) 8 = read_le32 (write_le32 t 8 w) 8"
    and nth: "\<And>i. write_le32 s 8 v ! i = write_le32 t 8 w ! i" by simp_all
  then have "v = w" using assms by (simp add: read_write_le32)
  moreover have "take 8 s = take 8 t"
  proof (rule nth_equalityI)
    fix i assume "i < length (take 8 s)"
    then show "take 8 s ! i = take 8 t ! i" using nth [of i] assms by simp
  qed (use assms in simp)
  ultimately show ?parts by simp
next
  assume ?parts
  then have "\<And>i. i < 8 \<Longrightarrow> s ! i = t ! i" by (metis nth_take)
  with \<open>?parts\<close> show ?eq
    using assms by (intro nth_equalityI) auto
qed

text \<open>
  No nonce is used twice.  Two packets get the same ChaCha20 nonce exactly when the first
  eight bytes of their session nonces agree and the 32-bit sums of nonce tail and sequence number
  do; so inside one session two different sequence numbers never share a nonce.
\<close>

theorem packet_nonce_unique:
  assumes "length o1 = CRYPTO_STREAM_NONCE_SIZE" and "length o2 = CRYPTO_STREAM_NONCE_SIZE"
    and "length s = CRYPTO_STREAM_NONCE_SIZE" and "length t = CRYPTO_STREAM_NONCE_SIZE"
  shows "(crypto_stream_packet_nonce o1 s m = crypto_stream_packet_nonce o2 t n \<longleftrightarrow>
           take 8 s = take 8 t \<and> read_le32 s 8 + m = read_le32 t 8 + n) \<and>
         (crypto_stream_packet_nonce o1 s m = crypto_stream_packet_nonce o2 s n \<longleftrightarrow> m = n)"
  using assms by (simp_all add: packet_nonce_eq write_le32_eq_iff)

theorem packet_nonce_unique_witness:
  "crypto_stream_packet_nonce (replicate 12 0) (str ''USBRelayV1!!'') 7 \<noteq>
     crypto_stream_packet_nonce (replicate 12 0xFF) (str ''USBRelayV1!!'') 8 \<and>
   crypto_stream_packet_nonce (replicate 12 0) (replicate 12 0) 1 =
     crypto_stream_packet_nonce (replicate 12 0) (replicate 8 0 @ [1, 0, 0, 0]) 0"
  using packet_nonce_unique [of "replicate 12 0" "replicate 12 0xFF" "str ''USBRelayV1!!''"
      "str ''USBRelayV1!!''" 7 8]
    packet_nonce_unique [of "replicate 12 0" "replicate 12 0" "replicate 12 0"
      "replicate 8 0 @ [1, 0, 0, 0]" 1 0]
  by (simp add: read_le32_def nth_append del: str_simps)

text \<open>The packet an accepted encryption leaves at the start of the output buffer.\<close>

definition packet_header :: "byte \<Rightarrow> u32 \<Rightarrow> byte list" where
  "packet_header sid seq =
     [CRYPTO_STREAM_MAGIC0, CRYPTO_STREAM_MAGIC1, CRYPTO_STREAM_VERSION, sid,
      ucast (drop_bit 24 seq), ucast (drop_bit 16 seq), ucast (drop_bit 8 seq), ucast seq]"

definition packet_wire :: "cipher \<Rightarrow> byte \<Rightarrow> u32 \<Rightarrow> byte list \<Rightarrow> byte list \<Rightarrow> byte list" where
  "packet_wire c sid seq sn pt =
     packet_header sid seq @
     c pt g_crypto_stream_key (crypto_stream_packet_nonce (replicate 12 0) sn seq) 1"

lemma length_packet_header [simp]: "length (packet_header sid seq) = 8"
  by (simp add: packet_header_def)

lemma length_packet_wire [simp]:
  "xor_stream_cipher c \<Longrightarrow> length (packet_wire c sid seq sn pt) = 8 + length pt"
  by (simp add: packet_wire_def cipher_length)

lemma write_header_bytes:
  assumes "8 \<le> length out"
  shows "write_be32 (out[0 := CRYPTO_STREAM_MAGIC0, 1 := CRYPTO_STREAM_MAGIC1,
            2 := CRYPTO_STREAM_VERSION, 3 := sid]) 4 seq = packet_header sid seq @ drop 8 out"
    (is "?w = ?h")
proof (rule nth_equalityI)
  fix i assume "i < length ?w"
  with assms consider "i = 0" | "i = 1" | "i = 2" | "i = 3" | "i = 4" | "i = 5" | "i = 6" | "i = 7"
    | "8 \<le> i" and "i < length out" by fastforce
  moreover have "out \<noteq> []" using assms by auto
  ultimately show "?w ! i = ?h ! i"
    using assms by cases (simp_all add: nth_append packet_header_def)
qed (use assms in simp)

lemma encrypt_packet_wire:
  assumes "xor_stream_cipher c" and "8 + length pt \<le> n" and "n \<le> length out"
  shows "crypto_stream_encrypt_packet c (Some out) n sid seq (Some sn) (Some pt) (length pt) =
         (c_int (8 + length pt),
          Some (packet_wire c sid seq sn pt @ drop (8 + length pt) out))"
  using assms write_header_bytes [of out sid seq]
  by (simp add: crypto_stream_encrypt_packet_def crypto_stream_packet_size_def Let_def
      packet_wire_def blit_def cipher_length add.commute [of _ 8])

lemma decrypt_ok:
  assumes "pkt ! 0 = CRYPTO_STREAM_MAGIC0" and "pkt ! 1 = CRYPTO_STREAM_MAGIC1"
    and "pkt ! 2 = CRYPTO_STREAM_VERSION" and "8 \<le> n" and "n - 8 \<le> out_size"
  shows "crypto_stream_decrypt_packet c (Some dest) out_size (Some sid') (Some seq') (Some sn)
           (Some pkt) n =
         \<lparr>dr_rc = c_int (n - 8),
          dr_plaintext = Some (blit dest 0 (c (take (n - 8) (drop 8 pkt)) g_crypto_stream_key
            (crypto_stream_packet_nonce (replicate 12 0) sn (read_be32 pkt 4)) 1)),
          dr_stream_id = Some (pkt ! 3), dr_seq_no = Some (read_be32 pkt 4)\<rparr>"
  using assms by (simp add: crypto_stream_decrypt_packet_def Let_def)

lemma decrypt_packet_wire:
  assumes "xor_stream_cipher c" and "8 + length pt < 2 ^ 31"
    and "length pt \<le> out_size" and "out_size \<le> length dest"
  shows "crypto_stream_decrypt_packet c (Some dest) out_size (Some sid') (Some seq')
           (Some sn) (Some (packet_wire c sid seq sn pt @ rest)) (8 + length pt) =
         \<lparr>dr_rc = int (length pt), dr_plaintext = Some (pt @ drop (length pt) dest),
          dr_stream_id = Some sid, dr_seq_no = Some seq\<rparr>"
proof -
  let ?p = "packet_wire c sid seq sn pt @ rest"
  have fields: "?p ! 0 = CRYPTO_STREAM_MAGIC0" "?p ! 1 = CRYPTO_STREAM_MAGIC1"
      "?p ! 2 = CRYPTO_STREAM_VERSION" "?p ! 3 = sid" "read_be32 ?p 4 = seq"
    by (simp_all add: packet_wire_def packet_header_def read_be32_def be32_split)
  have body: "take (length pt) (drop 8 ?p) =
      c pt g_crypto_stream_key (crypto_stream_packet_nonce (replicate 12 0) sn seq) 1"
    by (simp add: packet_wire_def cipher_length [OF assms(1)])
  show ?thesis
    using assms(2,3)
    by (subst decrypt_ok) (simp_all only: fields body add_diff_cancel_left' cipher_involutive
        [OF assms(1)], simp_all add: c_int_small blit_def)
qed

text \<open>
  C24: encryption then decryption is the identity.  A packet produced by
  \<open>crypto_stream_encrypt_packet\<close> (return value: the packet size) is decrypted under the same
  session nonce to the plaintext, the stream id and the sequence number that went in, and the
  return value is the plaintext length, for every plaintext whose packet fits a C \<open>int\<close>.
\<close>

theorem encrypt_decrypt_roundtrip:
  assumes "xor_stream_cipher chacha20_xor"
    and "8 + length pt \<le> length out" and "8 + length pt < 2 ^ 31"
    and "length pt \<le> out_size" and "out_size \<le> length dest"
  shows "crypto_stream_encrypt_packet chacha20_xor (Some out) (length out) sid seq (Some sn)
           (Some pt) (length pt) =
           (int (8 + length pt), Some (packet_wire chacha20_xor sid seq sn pt @ drop (8 + length pt) out)) \<and>
         crypto_stream_decrypt_packet chacha20_xor (Some dest) out_size (Some sid') (Some seq')
           (Some sn) (Some (packet_wire chacha20_xor sid seq sn pt @ drop (8 + length pt) out))
           (8 + length pt) =
         \<lparr>dr_rc = int (length pt), dr_plaintext = Some (pt @ drop (length pt) dest),
          dr_stream_id = Some sid, dr_seq_no = Some seq\<rparr>"
  using assms by (simp add: encrypt_packet_wire decrypt_packet_wire c_int_small)

text \<open>A concrete cipher of the assumed kind: the key stream is the nonce, byte by byte.\<close>

definition toy_cipher :: cipher where
  "toy_cipher inp key nonce counter =
     map (\<lambda>i. inp ! i XOR nonce ! (i mod 12)) [0..<length inp]"

lemma toy_cipher_xor: "xor_stream_cipher toy_cipher"
  unfolding xor_stream_cipher_def toy_cipher_def
  by (rule exI [of _ "\<lambda>key nonce counter i. nonce ! (i mod 12)"]) simp

theorem encrypt_decrypt_roundtrip_witness:
  "crypto_stream_encrypt_packet toy_cipher (Some (replicate 20 0)) 20 1 5 (Some (replicate 12 3))
     (Some (str ''frame'')) 5 =
     (13, Some (packet_wire toy_cipher 1 5 (replicate 12 3) (str ''frame'') @ replicate 7 0)) \<and>
   dr_plaintext (crypto_stream_decrypt_packet toy_cipher (Some (replicate 5 0)) 5 (Some 0) (Some 0)
     (Some (replicate 12 3))
     (Some (packet_wire toy_cipher 1 5 (replicate 12 3) (str ''frame'') @ replicate 7 0)) 13) =
     Some (str ''frame'')"
proof -
  have l: "length (str ''frame'') = 5" by simp
  show ?thesis
    using encrypt_decrypt_roundtrip [OF toy_cipher_xor, where pt = "str ''frame''" and
        out = "replicate 20 0" and dest = "replicate 5 0" and out_size = 5 and sid = 1 and seq = 5
        and sn = "replicate 12 3" and sid' = 0 and seq' = 0, unfolded l]
    by (simp del: str_simps)
qed

text \<open>
  What decryption accepts.  With all pointers given, \<open>crypto_stream_decrypt_packet\<close> fails
  with -1, writing nothing, exactly when the packet is shorter than its header, does not start
  with \<open>'C' 'H'\<close> and version 1, or its payload does not fit the output; otherwise it
  returns the payload length (as a C \<open>int\<close>) and the header's stream id.
\<close>

theorem decrypt_accepts:
  "dr_rc r = (if ok then c_int (packet_size - 8) else -1) \<and>
   dr_plaintext r = (if ok then Some (blit dest 0 (c (take (packet_size - 8) (drop 8 pkt))
        g_crypto_stream_key (crypto_stream_packet_nonce (replicate 12 0) sn (read_be32 pkt 4)) 1))
      else Some dest) \<and>
   dr_stream_id r = Some (if ok then pkt ! 3 else sid0)"
  if "r = crypto_stream_decrypt_packet c (Some dest) out_size (Some sid0) seq0 (Some sn)
            (Some pkt) packet_size"
    and "ok \<longleftrightarrow> 8 \<le> packet_size \<and> pkt ! 0 = CRYPTO_STREAM_MAGIC0 \<and> pkt ! 1 = CRYPTO_STREAM_MAGIC1 \<and>
           pkt ! 2 = CRYPTO_STREAM_VERSION \<and> packet_size - 8 \<le> out_size"
  using that by (auto simp: crypto_stream_decrypt_packet_def Let_def)

theorem decrypt_accepts_witness:
  "dr_rc (crypto_stream_decrypt_packet toy_cipher (Some [0]) 1 (Some 9) None (Some (replicate 12 0))
     (Some [0x43, 0x48, 2, 1, 0, 0, 0, 0, 5]) 9) = -1"
  using decrypt_accepts [OF refl refl, of toy_cipher "[0]" 1 9 None "replicate 12 0"
      "[0x43, 0x48, 2, 1, 0, 0, 0, 0, 5]" 9]
  by simp

end
