(* ===== verification/TcpTransport.thy ===== *)
theory TcpTransport
  imports Prelude
begin

text \<open>
  The stream sockets (\<open>gateway/tcp_transport.c\<close>).  The operating system's side of a socket is a
  script of what its calls will answer, in order: what \<open>recv\<close> will find (data in any
  segmentation, end of stream, an interrupted or a failing call) and what \<open>send\<close> will take.  A
  call on an exhausted script blocks for ever, which the model returns as \<open>None\<close>.  The reader
  contract \<open>byte_reader\<close> is what the frame decoders of the components rely on.
\<close>

section \<open>A socket and the environment behind it\<close>

datatype recv_event =
    RData byte "byte list"   \<comment> \<open>at least one byte is available\<close>
  | REof                     \<comment> \<open>recv returns 0\<close>
  | RIntr                    \<comment> \<open>recv returns -1 with EINTR\<close>
  | RFail                    \<comment> \<open>recv returns -1 with another error\<close>

datatype send_event =
    STake nat                \<comment> \<open>send takes up to this many bytes\<close>
  | SIntr
  | SFail

record sock =
  incoming :: "recv_event list"
  outgoing :: "send_event list"
  sent :: "byte list"        \<comment> \<open>the bytes handed to the network so far\<close>

text \<open>
  One \<open>recv(fd, buf, len, 0)\<close> with \<open>len > 0\<close>: the bytes it delivers and the script left.  A
  segment longer than \<open>len\<close> stays in the socket buffer for the next call.
\<close>

datatype 'a syscall = Done 'a | Eof | Intr | Failed

fun recv :: "recv_event list \<Rightarrow> nat \<Rightarrow> (byte list syscall \<times> recv_event list) option" where
  "recv [] len = None"
| "recv (RData b bs # es) len =
     (case drop len (b # bs) of
        [] \<Rightarrow> Some (Done (b # bs), es)
      | c # cs \<Rightarrow> Some (Done (take len (b # bs)), RData c cs # es))"
| "recv (REof # es) len = Some (Eof, REof # es)"
| "recv (RIntr # es) len = Some (Intr, es)"
| "recv (RFail # es) len = Some (Failed, es)"

text \<open>One \<open>send(fd, buf, len, MSG_NOSIGNAL)\<close> with \<open>len > 0\<close>.\<close>

fun send :: "sock \<Rightarrow> byte list \<Rightarrow> (nat syscall \<times> sock) option" where
  "send s buf =
     (case outgoing s of
        [] \<Rightarrow> None
      | STake n # es \<Rightarrow> Some (Done (min n (length buf)),
          s\<lparr>outgoing := es, sent := sent s @ take n buf\<rparr>)
      | SIntr # es \<Rightarrow> Some (Intr, s\<lparr>outgoing := es\<rparr>)
      | SFail # es \<Rightarrow> Some (Failed, s\<lparr>outgoing := es\<rparr>))"

text \<open>The bytes the peer sent before the first failure or end of stream.\<close>

fun stream_bytes :: "recv_event list \<Rightarrow> byte list" where
  "stream_bytes [] = []"
| "stream_bytes (RData b bs # es) = (b # bs) @ stream_bytes es"
| "stream_bytes (RIntr # es) = stream_bytes es"
| "stream_bytes (REof # es) = []"
| "stream_bytes (RFail # es) = []"

fun script_size :: "recv_event list \<Rightarrow> nat" where
  "script_size [] = 0"
| "script_size (RData b bs # es) = Suc (length bs) + Suc (script_size es)"
| "script_size (_ # es) = Suc (script_size es)"

lemma recv_shrinks [termination_simp]:
  "recv es len = Some (Done bs, es') \<Longrightarrow> 0 < len \<Longrightarrow> script_size es' < script_size es"
proof (induction es len rule: recv.induct)
  case (2 b bs0 es len)
  have "Suc (length cs) \<le> length bs0" if "drop len (b # bs0) = c # cs" for c cs
    using that "2.prems"(2) by (metis length_drop list.size(4) Suc_eq_plus1 diff_le_mono2
        diff_Suc_1 Suc_leI One_nat_def)
  with "2.prems" show ?case by (fastforce split: list.splits)
qed auto

lemma recv_intr_shrinks [termination_simp]:
  "recv es len = Some (Intr, es') \<Longrightarrow> script_size es' < script_size es"
  by (induction es len rule: recv.induct) (auto split: list.splits)

text \<open>What one call delivers is a non-empty prefix of the stream, cut at \<open>len\<close>.\<close>

lemma recv_Done:
  "recv es len = Some (Done bs, es') \<Longrightarrow> 0 < len \<Longrightarrow>
   bs \<noteq> [] \<and> length bs \<le> len \<and> stream_bytes es = bs @ stream_bytes es'"
proof (induction es len rule: recv.induct)
  case (2 b bs0 es len)
  show ?case
  proof (cases "drop len (b # bs0)")
    case Nil
    with "2.prems" show ?thesis by auto
  next
    case (Cons c cs)
    then have "take len (b # bs0) @ c # cs = b # bs0" by (metis append_take_drop_id)
    with Cons "2.prems" show ?thesis by auto
  qed
qed auto

lemma recv_other:
  "recv es len = Some (Intr, es') \<Longrightarrow> stream_bytes es' = stream_bytes es"
  "recv es len = Some (Eof, es') \<Longrightarrow> stream_bytes es = [] \<and> es' = es"
  "recv es len = Some (Failed, es') \<Longrightarrow> stream_bytes es = []"
  by (induction es len rule: recv.induct) (auto split: list.splits)

section \<open>Exact reads and full writes\<close>

text \<open>
  \<open>tcp_transport_read_exact\<close>: the return value (1, 0 on end of stream, -1 on failure), the
  bytes copied into the buffer, and the socket.  \<open>None\<close>: the call never returns.
\<close>

function read_loop ::
  "recv_event list \<Rightarrow> nat \<Rightarrow> byte list \<Rightarrow> (int \<times> byte list \<times> recv_event list) option" where
  "read_loop es len buf =
     (if length buf < len then
        (case recv es (len - length buf) of
           None \<Rightarrow> None
         | Some (Eof, es') \<Rightarrow> Some (0, buf, es')
         | Some (Intr, es') \<Rightarrow> read_loop es' len buf
         | Some (Failed, es') \<Rightarrow> Some (-1, buf, es')
         | Some (Done bs, es') \<Rightarrow> read_loop es' len (buf @ bs))
      else Some (1, buf, es))"
  by pat_completeness auto
termination
  by (relation "measure (\<lambda>(es, len, buf). script_size es)")
     (auto intro: recv_shrinks recv_intr_shrinks)

declare read_loop.simps [simp del]

definition tcp_transport_read_exact :: "sock \<Rightarrow> nat \<Rightarrow> (int \<times> byte list \<times> sock) option" where
  "tcp_transport_read_exact fd len =
     (case read_loop (incoming fd) len [] of
        None \<Rightarrow> None
      | Some (rc, buf, es) \<Rightarrow> Some (rc, buf, fd\<lparr>incoming := es\<rparr>))"

lemma outgoing_send [termination_simp]:
  "send s buf = Some (r, s') \<Longrightarrow> length (outgoing s') < length (outgoing s)"
  by (auto split: list.splits send_event.splits)

declare send.simps [simp del]

function tcp_transport_write_all :: "sock \<Rightarrow> byte list \<Rightarrow> (int \<times> sock) option" where
  "tcp_transport_write_all fd buf =
     (if buf \<noteq> [] then
        (case send fd buf of
           None \<Rightarrow> None
         | Some (Intr, fd') \<Rightarrow> tcp_transport_write_all fd' buf
         | Some (Done n, fd') \<Rightarrow> tcp_transport_write_all fd' (drop n buf)
         | Some (_, fd') \<Rightarrow> Some (-1, fd'))
      else Some (0, fd))"
  by pat_completeness auto
termination
  by (relation "measure (\<lambda>(fd, buf). length (outgoing fd))") (auto intro: outgoing_send)

declare tcp_transport_write_all.simps [simp del]

text \<open>
  \<open>tcp_transport_peek_status\<close>: a one-byte \<open>MSG_PEEK | MSG_DONTWAIT\<close> read: 1 data, 0 end of
  stream, 2 nothing to read now or interrupted, -1 failure.
\<close>

fun tcp_transport_peek_status :: "sock \<Rightarrow> int" where
  "tcp_transport_peek_status fd =
     (case incoming fd of
        RData _ _ # _ \<Rightarrow> 1
      | REof # _ \<Rightarrow> 0
      | RIntr # _ \<Rightarrow> 2
      | [] \<Rightarrow> 2
      | RFail # _ \<Rightarrow> -1)"

section \<open>Correctness against the byte stream\<close>

lemma read_loop_ok:
  "read_loop es len buf = Some (rc, out, es') \<Longrightarrow> length buf \<le> len \<Longrightarrow>
   (rc = 1 \<and> length out = len \<and> buf @ stream_bytes es = out @ stream_bytes es') \<or>
   (rc \<in> {0, -1} \<and> length out < len \<and> buf @ stream_bytes es = out)"
proof (induction es len buf rule: read_loop.induct)
  case (1 es len buf)
  show ?case
  proof (cases "length buf < len")
    case False
    with "1.prems" show ?thesis by (auto simp: read_loop.simps [of es])
  next
    case True
    then have pos: "0 < len - length buf" by simp
    obtain r es1 where r: "recv es (len - length buf) = Some (r, es1)"
      using "1.prems" True by (cases "recv es (len - length buf)") (auto simp: read_loop.simps [of es])
    show ?thesis
    proof (cases r)
      case (Done bs)
      note d = recv_Done [OF r [unfolded Done] pos]
      then have "length bs \<le> len - length buf" by simp
      with True have "length (buf @ bs) \<le> len" by simp
      with "1.IH"(1) [OF True r refl Done] "1.prems" True r Done d show ?thesis
        by (auto simp: read_loop.simps [of es])
    next
      case Intr
      with "1.IH"(2) [OF True r refl Intr] "1.prems" True r recv_other(1) [OF r [unfolded Intr]]
      show ?thesis by (auto simp: read_loop.simps [of es])
    next
      case Eof
      with "1.prems" True r recv_other(2) [OF r [unfolded Eof]] show ?thesis
        by (auto simp: read_loop.simps [of es])
    next
      case Failed
      with "1.prems" True r recv_other(3) [OF r [unfolded Failed]] show ?thesis
        by (auto simp: read_loop.simps [of es])
    qed
  qed
qed

lemma recv_progress:
  "stream_bytes es \<noteq> [] \<Longrightarrow>
   \<exists>r es'. recv es len = Some (r, es') \<and> (r = Intr \<or> (\<exists>bs. r = Done bs))"
  by (induction es len rule: recv.induct) (auto split: list.splits)

lemma read_loop_returns:
  "length buf \<le> len \<Longrightarrow> len \<le> length buf + length (stream_bytes es) \<Longrightarrow>
   \<exists>es'. read_loop es len buf = Some (1, buf @ take (len - length buf) (stream_bytes es), es')"
proof (induction es len buf rule: read_loop.induct)
  case (1 es len buf)
  show ?case
  proof (cases "length buf < len")
    case False
    with "1.prems" show ?thesis by (auto simp: read_loop.simps [of es])
  next
    case True
    then have pos: "0 < len - length buf" by simp
    have "stream_bytes es \<noteq> []" using True "1.prems" by auto
    then obtain r es1 where r: "recv es (len - length buf) = Some (r, es1)"
        "r = Intr \<or> (\<exists>bs. r = Done bs)"
      using recv_progress by blast
    from r(2) consider bs where "r = Done bs" | "r = Intr" by blast
    then show ?thesis
    proof cases
      case 1
      note d = recv_Done [OF r(1) [unfolded 1] pos]
      then have "length bs \<le> len - length buf" by simp
      with True have "length (buf @ bs) \<le> len" by simp
      moreover have "len \<le> length (buf @ bs) + length (stream_bytes es1)"
        using "1.prems"(2) d by simp
      ultimately obtain es' where "read_loop es1 len (buf @ bs) =
          Some (1, (buf @ bs) @ take (len - length (buf @ bs)) (stream_bytes es1), es')"
        using "1.IH"(1) [OF True r(1) refl 1] by blast
      with True r 1 d show ?thesis by (auto simp: read_loop.simps [of es])
    next
      case 2
      with "1.IH"(2) [OF True r(1) refl 2] "1.prems" True r recv_other(1) show ?thesis
        by (simp add: read_loop.simps [of es])
    qed
  qed
qed

text \<open>
  The reader contract: a read of \<open>n\<close> bytes succeeds exactly when the peer sent at least \<open>n\<close> more
  bytes before it failed or closed, and takes exactly those bytes off the stream.  Outer
  \<open>None\<close>: the read blocks for ever; inner \<open>None\<close>: it reports a failure.
\<close>

locale byte_reader =
  fixes read :: "'s \<Rightarrow> nat \<Rightarrow> (byte list option \<times> 's) option"
    and avail :: "'s \<Rightarrow> byte list"
    and wf :: "'s \<Rightarrow> bool"
  assumes read_sound: "wf s \<Longrightarrow> read s n = Some (Some bs, s') \<Longrightarrow>
      length bs = n \<and> avail s = bs @ avail s' \<and> wf s'"
    and read_complete: "wf s \<Longrightarrow> n \<le> length (avail s) \<Longrightarrow> \<exists>bs s'. read s n = Some (Some bs, s')"
begin

lemma read_success:
  assumes "wf s" and "avail s = bs @ rest" and "length bs = n"
  obtains s' where "read s n = Some (Some bs, s')" "avail s' = rest" "wf s'"
proof -
  obtain cs s' where r: "read s n = Some (Some cs, s')"
    using read_complete [OF assms(1), of n] assms(2,3) by auto
  note sound = read_sound [OF assms(1) r]
  then have "cs @ avail s' = bs @ rest" and "length cs = length bs" using assms(2,3) by simp_all
  then have "cs = bs" and "avail s' = rest" by simp_all
  moreover have "wf s'" using sound by simp
  ultimately show thesis using r that by simp
qed

lemma read_fails:
  assumes "wf s" and "length (avail s) < n"
  shows "read s n = None \<or> (\<exists>s'. read s n = Some (None, s'))"
  using read_sound [OF assms(1), of n] assms(2)
  by (cases "read s n") (force split: option.splits prod.splits)+

lemma read_deterministic_stream:
  "wf s \<Longrightarrow> wf t \<Longrightarrow> avail s = avail t \<Longrightarrow> read s n = Some (Some bs, s') \<Longrightarrow>
   \<exists>t'. read t n = Some (Some bs, t') \<and> avail t' = avail s'"
proof -
  assume wf: "wf s" "wf t" and eq: "avail s = avail t" and r: "read s n = Some (Some bs, s')"
  from read_sound [OF wf(1) r] eq have a: "avail t = bs @ avail s'" "length bs = n" by auto
  obtain t' where "read t n = Some (Some bs, t')" "avail t' = avail s'"
    by (rule read_success [OF wf(2) a])
  then show "\<exists>t'. read t n = Some (Some bs, t') \<and> avail t' = avail s'" by blast
qed

end

text \<open>The exact read as a reader: success is return value 1.\<close>

definition tcp_read :: "sock \<Rightarrow> nat \<Rightarrow> (byte list option \<times> sock) option" where
  "tcp_read fd len =
     (case tcp_transport_read_exact fd len of
        None \<Rightarrow> None
      | Some (rc, buf, fd') \<Rightarrow> Some (if rc = 1 then Some buf else None, fd'))"

definition sock_stream :: "sock \<Rightarrow> byte list" where
  "sock_stream fd = stream_bytes (incoming fd)"

interpretation tcp: byte_reader tcp_read sock_stream "\<lambda>_. True"
proof unfold_locales
  fix s s' n bs
  assume "tcp_read s n = Some (Some bs, s')"
  then obtain es where "read_loop (incoming s) n [] = Some (1, bs, es)" "s' = s\<lparr>incoming := es\<rparr>"
    by (auto simp: tcp_read_def tcp_transport_read_exact_def split: option.splits if_splits)
  with read_loop_ok [of "incoming s" n "[]" 1 bs es]
  show "length bs = n \<and> sock_stream s = bs @ sock_stream s' \<and> True"
    by (simp add: sock_stream_def)
next
  fix s :: sock and n assume "n \<le> length (sock_stream s)"
  then show "\<exists>bs s'. tcp_read s n = Some (Some bs, s')"
    using read_loop_returns [of "[]" n "incoming s"]
    by (auto simp: tcp_read_def tcp_transport_read_exact_def sock_stream_def)
qed

text \<open>
  C25: \<open>tcp_transport_read_exact\<close> is independent of segmentation.  If the peer sends at least
  \<open>len\<close> bytes before it closes or fails, the call returns 1 with exactly the first \<open>len\<close> bytes,
  however the bytes are cut into segments and however often the call is interrupted, and leaves
  the rest of the stream; if it sends fewer, the call never returns 1.
\<close>

theorem read_exact_stream:
  "(len \<le> length (sock_stream fd) \<longrightarrow>
     (\<exists>fd'. tcp_transport_read_exact fd len = Some (1, take len (sock_stream fd), fd') \<and>
            sock_stream fd' = drop len (sock_stream fd))) \<and>
   (length (sock_stream fd) < len \<longrightarrow>
     (case tcp_transport_read_exact fd len of
        None \<Rightarrow> True
      | Some (rc, buf, fd') \<Rightarrow> rc \<in> {0, -1} \<and> buf = sock_stream fd))"
proof (intro conjI impI)
  assume "len \<le> length (sock_stream fd)"
  then obtain es where "read_loop (incoming fd) len [] =
      Some (1, take len (sock_stream fd), es)"
    using read_loop_returns [of "[]" len "incoming fd"] by (auto simp: sock_stream_def)
  moreover from read_loop_ok [OF this] have "stream_bytes es = drop len (sock_stream fd)"
    by (simp add: sock_stream_def) (metis append_take_drop_id same_append_eq)
  ultimately show "\<exists>fd'. tcp_transport_read_exact fd len = Some (1, take len (sock_stream fd), fd') \<and>
                 sock_stream fd' = drop len (sock_stream fd)"
    by (simp add: tcp_transport_read_exact_def sock_stream_def)
next
  assume "length (sock_stream fd) < len"
  then show "case tcp_transport_read_exact fd len of None \<Rightarrow> True
           | Some (rc, buf, fd') \<Rightarrow> rc \<in> {0, -1} \<and> buf = sock_stream fd"
    using read_loop_ok [of "incoming fd" len "[]"]
    by (fastforce simp: tcp_transport_read_exact_def sock_stream_def split: option.splits)
qed

definition demo_sock :: sock where
  "demo_sock = \<lparr>incoming = [RIntr, RData 1 [2], RIntr, RData 3 [4, 5], REof],
                outgoing = [STake 2, SIntr, STake 0, STake 7], sent = [9]\<rparr>"

theorem read_exact_stream_witness:
  "\<exists>fd'. tcp_transport_read_exact demo_sock 4 = Some (1, [1, 2, 3, 4], fd') \<and> sock_stream fd' = [5]"
  using read_exact_stream [of 4 demo_sock] by (simp add: sock_stream_def demo_sock_def)

section \<open>Full writes\<close>

lemma send_Done:
  "send s buf = Some (Done n, s') \<Longrightarrow>
   n \<le> length buf \<and> sent s' = sent s @ take n buf \<and> incoming s' = incoming s"
  by (auto simp: send.simps min_def split: list.splits send_event.splits)

lemma send_other:
  "send s buf = Some (r, s') \<Longrightarrow> (\<And>n. r \<noteq> Done n) \<Longrightarrow>
   sent s' = sent s \<and> incoming s' = incoming s \<and> r \<in> {Intr, Failed}"
  by (auto simp: send.simps split: list.splits send_event.splits)

lemma write_all_effect:
  "tcp_transport_write_all fd buf = Some (rc, fd') \<Longrightarrow>
   incoming fd' = incoming fd \<and>
   ((rc = 0 \<and> sent fd' = sent fd @ buf) \<or>
    (rc = -1 \<and> (\<exists>k < length buf. sent fd' = sent fd @ take k buf)))"
proof (induction fd buf rule: tcp_transport_write_all.induct)
  case (1 fd buf)
  show ?case
  proof (cases "buf = []")
    case True
    with "1.prems" show ?thesis by (simp add: tcp_transport_write_all.simps)
  next
    case False
    obtain r fd1 where r: "send fd buf = Some (r, fd1)"
      using "1.prems" False
      by (cases "send fd buf") (auto simp: tcp_transport_write_all.simps [of fd])
    show ?thesis
    proof (cases r)
      case (Done n)
      note d = send_Done [OF r [unfolded Done]]
      have step: "tcp_transport_write_all fd1 (drop n buf) = Some (rc, fd')"
        using "1.prems" False r Done by (simp add: tcp_transport_write_all.simps [of fd])
      have split: "take n buf @ take k (drop n buf) = take (n + k) buf" for k
        by (simp add: take_add)
      from "1.IH"(1) [OF False r refl Done step]
      consider "rc = 0" "sent fd' = sent fd1 @ drop n buf" "incoming fd' = incoming fd1"
        | k where "rc = -1" "k < length (drop n buf)" "sent fd' = sent fd1 @ take k (drop n buf)"
            "incoming fd' = incoming fd1" by blast
      then show ?thesis
      proof cases
        case 1
        with d show ?thesis by simp
      next
        case (2 k)
        then have "n + k < length buf" by simp
        moreover have "sent fd' = sent fd @ take (n + k) buf" using 2(3) d by (simp add: split)
        moreover have "incoming fd' = incoming fd" using 2(4) d by simp
        ultimately show ?thesis using 2(1) by auto
      qed
    next
      case Intr
      with "1.IH"(2) [OF False r refl Intr] "1.prems" False r send_other [OF r] show ?thesis
        by (simp add: tcp_transport_write_all.simps [of fd])
    next
      case Eof
      then show ?thesis using send_other [OF r] by simp
    next
      case Failed
      with "1.prems" False r send_other [OF r] show ?thesis
        by (auto simp: tcp_transport_write_all.simps [of fd] intro: exI [of _ 0])
    qed
  qed
qed

text \<open>How many bytes the network takes before the first failing call.\<close>

fun send_capacity :: "send_event list \<Rightarrow> nat" where
  "send_capacity [] = 0"
| "send_capacity (STake n # es) = n + send_capacity es"
| "send_capacity (SIntr # es) = send_capacity es"
| "send_capacity (SFail # es) = 0"

lemma write_all_returns:
  "length buf \<le> send_capacity (outgoing fd) \<Longrightarrow>
   \<exists>fd'. tcp_transport_write_all fd buf = Some (0, fd')"
proof (induction fd buf rule: tcp_transport_write_all.induct)
  case (1 fd buf)
  show ?case
  proof (cases "buf = []")
    case True
    then show ?thesis by (simp add: tcp_transport_write_all.simps)
  next
    case False
    then obtain e es where out: "outgoing fd = e # es"
      using "1.prems" by (cases "outgoing fd") auto
    show ?thesis
    proof (cases e)
      case (STake n)
      let ?fd = "fd\<lparr>outgoing := es, sent := sent fd @ take n buf\<rparr>"
      have r: "send fd buf = Some (Done (min n (length buf)), ?fd)"
        using out STake by (simp add: send.simps)
      have "length (drop (min n (length buf)) buf) \<le> send_capacity (outgoing ?fd)"
        using "1.prems" out STake by simp
      from "1.IH"(1) [OF False r refl refl this] False r show ?thesis
        by (simp add: tcp_transport_write_all.simps [of fd])
    next
      case SIntr
      have r: "send fd buf = Some (Intr, fd\<lparr>outgoing := es\<rparr>)"
        using out SIntr by (simp add: send.simps)
      have "length buf \<le> send_capacity (outgoing (fd\<lparr>outgoing := es\<rparr>))"
        using "1.prems" out SIntr by simp
      from "1.IH"(2) [OF False r refl refl this] False r show ?thesis
        by (simp add: tcp_transport_write_all.simps [of fd])
    next
      case SFail
      with out "1.prems" False show ?thesis by simp
    qed
  qed
qed

text \<open>
  The writer contract: a write that returns 0 appended exactly the buffer to what the peer will
  receive; any other return value leaves a proper prefix of it on the wire.
\<close>

locale byte_writer =
  fixes wr :: "'s \<Rightarrow> byte list \<Rightarrow> (int \<times> 's) option"
    and wire :: "'s \<Rightarrow> byte list"
  assumes write_ok: "wr s buf = Some (0, s') \<Longrightarrow> wire s' = wire s @ buf"
    and write_err: "wr s buf = Some (rc, s') \<Longrightarrow> rc \<noteq> 0 \<Longrightarrow>
          \<exists>k < length buf. wire s' = wire s @ take k buf"
begin

lemma write_prefix:
  "wr s buf = Some (rc, s') \<Longrightarrow> \<exists>k. wire s' = wire s @ take k buf"
  by (cases "rc = 0") (metis order_refl take_all write_ok, metis write_err)

lemma write_two:
  assumes "wr s a = Some (0, s1)" and "wr s1 b = Some (rc, s2)"
  shows "\<exists>k. wire s2 = wire s @ a @ take k b"
  using write_ok [OF assms(1)] write_prefix [OF assms(2)] by auto

end

interpretation tcp: byte_writer tcp_transport_write_all sent
  by unfold_locales (use write_all_effect in fastforce)+

text \<open>
  C26: \<open>tcp_transport_write_all\<close> sends everything or reports it.  Return value 0 means exactly the
  buffer was appended to the wire, -1 that a proper prefix was; the incoming side is untouched;
  and when the network takes as many bytes as the buffer holds before its first failure, the call
  does return 0, whatever the sizes of the partial sends and however often it is interrupted.
\<close>

theorem write_all_delivers:
  "(tcp_transport_write_all fd buf = Some (rc, fd') \<longrightarrow>
      incoming fd' = incoming fd \<and>
      (rc = 0 \<and> sent fd' = sent fd @ buf \<or>
       rc = -1 \<and> (\<exists>k < length buf. sent fd' = sent fd @ take k buf))) \<and>
   (length buf \<le> send_capacity (outgoing fd) \<longrightarrow>
      (\<exists>fd'. tcp_transport_write_all fd buf = Some (0, fd') \<and> sent fd' = sent fd @ buf))"
  using write_all_effect write_all_returns tcp.write_ok by blast

theorem write_all_delivers_witness:
  "\<exists>fd'. tcp_transport_write_all demo_sock [7, 8, 6, 5] = Some (0, fd') \<and>
         sent fd' = [9, 7, 8, 6, 5]"
  using write_all_delivers [where buf = "[7, 8, 6, 5]" and fd = demo_sock] by (simp add: demo_sock_def)

section \<open>Descriptors\<close>

text \<open>A descriptor that may be invalid, as \<open>None\<close>: every call on it fails.\<close>

definition recv_fd ::
  "sock option \<Rightarrow> nat \<Rightarrow> (byte list syscall \<times> sock option) option" where
  "recv_fd sk len =
     (case sk of
        None \<Rightarrow> Some (Failed, None)
      | Some s \<Rightarrow> (case recv (incoming s) len of
                    None \<Rightarrow> None
                  | Some (r, es) \<Rightarrow> Some (r, Some (s\<lparr>incoming := es\<rparr>))))"

definition fd_script :: "sock option \<Rightarrow> recv_event list" where
  "fd_script sk = (case sk of None \<Rightarrow> [] | Some s \<Rightarrow> incoming s)"

lemma fd_script_shrinks:
  "recv_fd sk len = Some (Done bs, sk') \<Longrightarrow> 0 < len \<Longrightarrow> script_size (fd_script sk') < script_size (fd_script sk)"
  "recv_fd sk len = Some (Intr, sk') \<Longrightarrow> script_size (fd_script sk') < script_size (fd_script sk)"
  by (auto simp: recv_fd_def fd_script_def intro: recv_shrinks recv_intr_shrinks split: option.splits)

lemma recv_fd_cases:
  assumes "recv_fd sk len = Some (r, sk')"
  shows "r = Done bs \<Longrightarrow> 0 < len \<Longrightarrow>
      bs \<noteq> [] \<and> length bs \<le> len \<and> stream_bytes (fd_script sk) = bs @ stream_bytes (fd_script sk')"
    and "r = Intr \<Longrightarrow> stream_bytes (fd_script sk') = stream_bytes (fd_script sk)"
    and "r = Eof \<or> r = Failed \<Longrightarrow> stream_bytes (fd_script sk) = []"
  using assms recv_Done [of _ len bs] recv_other
  by (auto simp: recv_fd_def fd_script_def split: option.splits)

text \<open>What can be read before the first interruption, failure or end of stream.\<close>

fun lwip_bytes :: "recv_event list \<Rightarrow> byte list" where
  "lwip_bytes (RData b bs # es) = (b # bs) @ lwip_bytes es"
| "lwip_bytes es = []"

lemma recv_lwip:
  "recv es len = Some (Done bs, es') \<Longrightarrow> 0 < len \<Longrightarrow>
     bs \<noteq> [] \<and> length bs \<le> len \<and> lwip_bytes es = bs @ lwip_bytes es'"
  "0 < len \<Longrightarrow> lwip_bytes es \<noteq> [] \<Longrightarrow> \<exists>bs es'. recv es len = Some (Done bs, es')"
proof -
  show "bs \<noteq> [] \<and> length bs \<le> len \<and> lwip_bytes es = bs @ lwip_bytes es'"
    if r: "recv es len = Some (Done bs, es')" and len: "0 < len"
  proof (cases es)
    case (Cons e es1)
    show ?thesis
    proof (cases e)
      case (RData x xs)
      show ?thesis
      proof (cases "drop len (x # xs)")
        case Nil
        then show ?thesis using r \<open>es = e # es1\<close> RData by auto
      next
        case (Cons y ys)
        have "bs = take len (x # xs)" "es' = RData y ys # es1"
          using r \<open>es = e # es1\<close> RData Cons by auto
        moreover have "x # xs = take len (x # xs) @ y # ys" using Cons by (metis append_take_drop_id)
        ultimately show ?thesis using \<open>es = e # es1\<close> RData len
          by (cases len) (simp_all only: lwip_bytes.simps append_assoc [symmetric], simp_all)
      qed
    qed (use r Cons in simp_all)
  qed (use r in simp)
  show "\<exists>bs es'. recv es len = Some (Done bs, es')" if "0 < len" "lwip_bytes es \<noteq> []"
    using that(2) by (cases es rule: lwip_bytes.cases) (auto split: list.split)
qed

lemma recv_fd_lwip:
  "recv_fd sk len = Some (Done bs, sk') \<Longrightarrow> 0 < len \<Longrightarrow>
     bs \<noteq> [] \<and> length bs \<le> len \<and> lwip_bytes (fd_script sk) = bs @ lwip_bytes (fd_script sk')"
  "0 < len \<Longrightarrow> lwip_bytes (fd_script sk) \<noteq> [] \<Longrightarrow> \<exists>bs sk'. recv_fd sk len = Some (Done bs, sk')"
proof -
  show "bs \<noteq> [] \<and> length bs \<le> len \<and> lwip_bytes (fd_script sk) = bs @ lwip_bytes (fd_script sk')"
    if "recv_fd sk len = Some (Done bs, sk')" "0 < len"
    using that recv_lwip(1) by (auto simp: recv_fd_def fd_script_def split: option.splits)
  show "\<exists>bs sk'. recv_fd sk len = Some (Done bs, sk')" if "0 < len" "lwip_bytes (fd_script sk) \<noteq> []"
  proof (cases sk)
    case None
    with that show ?thesis by (simp add: fd_script_def)
  next
    case (Some s)
    with recv_lwip(2) [OF that(1), of "incoming s"] that(2) show ?thesis
      by (auto simp: recv_fd_def fd_script_def)
  qed
qed

section \<open>Opening and closing sockets\<close>

text \<open>
  The calls that open sockets, over what the operating system answers: for every address of
  \<open>getaddrinfo\<close> the descriptor \<open>socket\<close> returns and whether \<open>connect\<close> succeeds; the list
  returned with the result holds the descriptors the function closed.
\<close>

abbreviation (input) TCP_TRANSPORT_INVALID_SOCKET :: int where
  "TCP_TRANSPORT_INVALID_SOCKET \<equiv> -1"

fun connect_loop :: "(int \<times> bool) list \<Rightarrow> int \<Rightarrow> int list \<Rightarrow> int \<times> int list" where
  "connect_loop [] fd closed = (fd, closed)"
| "connect_loop ((s, connected) # rps) fd closed =
     (if s < 0 then connect_loop rps s closed
      else if connected then (s, closed)
      else connect_loop rps TCP_TRANSPORT_INVALID_SOCKET (closed @ [s]))"

definition tcp_transport_connect :: "(int \<times> bool) list option \<Rightarrow> int \<times> int list" where
  "tcp_transport_connect addresses =
     (case addresses of
        None \<Rightarrow> (TCP_TRANSPORT_INVALID_SOCKET, [])
      | Some rps \<Rightarrow> connect_loop rps TCP_TRANSPORT_INVALID_SOCKET [])"

datatype accept_event = AConn nat | AIntr | AFail

fun tcp_transport_accept :: "accept_event list \<Rightarrow> (int \<times> accept_event list) option" where
  "tcp_transport_accept [] = None"
| "tcp_transport_accept (AConn fd # es) = Some (int fd, es)"
| "tcp_transport_accept (AIntr # es) = tcp_transport_accept es"
| "tcp_transport_accept (AFail # es) = Some (TCP_TRANSPORT_INVALID_SOCKET, es)"

definition tcp_transport_listen :: "int \<Rightarrow> int \<Rightarrow> int \<Rightarrow> int \<Rightarrow> int \<times> int list" where
  "tcp_transport_listen fd setsockopt_rc bind_rc listen_rc =
     (if fd < 0 then (TCP_TRANSPORT_INVALID_SOCKET, [])
      else if setsockopt_rc \<noteq> 0 then (TCP_TRANSPORT_INVALID_SOCKET, [fd])
      else if bind_rc \<noteq> 0 then (TCP_TRANSPORT_INVALID_SOCKET, [fd])
      else if listen_rc \<noteq> 0 then (TCP_TRANSPORT_INVALID_SOCKET, [fd])
      else (fd, []))"

text \<open>The descriptors shut down and closed by \<open>tcp_transport_shutdown_close\<close>.\<close>

definition tcp_transport_shutdown_close :: "int \<Rightarrow> int list" where
  "tcp_transport_shutdown_close fd = (if fd = TCP_TRANSPORT_INVALID_SOCKET then [] else [fd])"

definition opened :: "(int \<times> bool) list \<Rightarrow> int list" where
  "opened rps = filter (\<lambda>s. 0 \<le> s) (map fst rps)"

lemma opened_simps [simp]:
  "opened [] = []"
  "opened ((s, connected) # rps) = (if 0 \<le> s then s # opened rps else opened rps)"
  by (simp_all add: opened_def)

lemma connect_loop_ok:
  "connect_loop rps fd closed = (r, cl) \<Longrightarrow> fd < 0 \<Longrightarrow> 0 \<le> r \<Longrightarrow>
   \<exists>tried rest. rps = tried @ (r, True) # rest \<and> cl = closed @ opened tried"
proof (induction rps fd closed rule: connect_loop.induct)
  case (2 s connected rps fd closed)
  consider "s < 0" | "0 \<le> s" "connected" | "0 \<le> s" "\<not> connected" by linarith
  then show ?case
  proof cases
    case 1
    with 2 obtain d rest where "rps = d @ (r, True) # rest" "cl = closed @ opened d" by auto
    with 1 show ?thesis by (intro exI [of _ "(s, connected) # d"] exI [of _ rest]) simp
  next
    case 2
    with "2.prems" show ?thesis by (intro exI [of _ "[]"] exI [of _ rps]) simp
  next
    case 3
    with 2 obtain d rest where "rps = d @ (r, True) # rest" "cl = (closed @ [s]) @ opened d" by auto
    with 3 show ?thesis by (intro exI [of _ "(s, connected) # d"] exI [of _ rest]) simp
  qed
qed simp

lemma connect_loop_fail:
  "connect_loop rps fd closed = (r, cl) \<Longrightarrow> fd < 0 \<Longrightarrow> r < 0 \<Longrightarrow>
   cl = closed @ opened rps \<and> (\<forall>s. 0 \<le> s \<longrightarrow> (s, True) \<notin> set rps)"
  by (induction rps fd closed rule: connect_loop.induct) (auto split: if_splits)

text \<open>
  Opening a connection leaks no descriptor.  When \<open>tcp_transport_connect\<close> returns a
  descriptor it is the first one that connected, and every socket opened before it has been
  closed; when it returns an invalid one, every socket it opened has been closed and no address
  that got a socket could be connected.
\<close>

theorem connect_no_leak:
  assumes "tcp_transport_connect (Some rps) = (r, closed)"
  shows "(0 \<le> r \<longrightarrow> (\<exists>tried rest. rps = tried @ (r, True) # rest \<and> closed = opened tried)) \<and>
         (r < 0 \<longrightarrow> closed = opened rps \<and> (\<forall>s. 0 \<le> s \<longrightarrow> (s, True) \<notin> set rps))"
  using assms connect_loop_ok connect_loop_fail
  by (intro conjI impI; fastforce simp: tcp_transport_connect_def)

theorem connect_no_leak_witness:
  "tcp_transport_connect (Some [(-1, False), (4, False), (5, True), (6, True)]) = (5, [4]) \<and>
   (\<exists>tried rest. [(-1, False), (4, False), (5, True), (6, True)] = tried @ (5, True) # rest \<and>
      [4] = opened tried)"
proof -
  have r: "tcp_transport_connect (Some [(-1, False), (4, False), (5, True), (6, True)]) = (5, [4])"
    by (simp add: tcp_transport_connect_def)
  show ?thesis using r connect_no_leak [OF r] by simp
qed

end
