(* ===== verification/Utf8.thy ===== *)
theory Utf8
  imports Prelude
begin

text \<open>
  The UTF-8 validator (\<open>wsh264/src/utf8.c\<close>) the WebSocket server runs over text frames and close
  reasons: the table-driven automaton as the source has it, a specification by the scalar values
  a byte string encodes, and the proof that the two agree.
\<close>

section \<open>The table and the automaton\<close>

abbreviation (input) UTF8_ACCEPT :: u32 where "UTF8_ACCEPT \<equiv> 0"
abbreviation (input) UTF8_REJECT :: u32 where "UTF8_REJECT \<equiv> 1"

definition utf8d :: "byte list" where
  "utf8d = [
    0,0,0,0,0,0,0,0,0,0,0,0,0,0,0,0,0,0,0,0,0,0,0,0,0,0,0,0,0,0,0,0,
    0,0,0,0,0,0,0,0,0,0,0,0,0,0,0,0,0,0,0,0,0,0,0,0,0,0,0,0,0,0,0,0,
    0,0,0,0,0,0,0,0,0,0,0,0,0,0,0,0,0,0,0,0,0,0,0,0,0,0,0,0,0,0,0,0,
    0,0,0,0,0,0,0,0,0,0,0,0,0,0,0,0,0,0,0,0,0,0,0,0,0,0,0,0,0,0,0,0,
    1,1,1,1,1,1,1,1,1,1,1,1,1,1,1,1,9,9,9,9,9,9,9,9,9,9,9,9,9,9,9,9,
    7,7,7,7,7,7,7,7,7,7,7,7,7,7,7,7,7,7,7,7,7,7,7,7,7,7,7,7,7,7,7,7,
    8,8,2,2,2,2,2,2,2,2,2,2,2,2,2,2,2,2,2,2,2,2,2,2,2,2,2,2,2,2,2,2,
    0xa,0x3,0x3,0x3,0x3,0x3,0x3,0x3,0x3,0x3,0x3,0x3,0x3,0x4,0x3,0x3,
    0xb,0x6,0x6,0x6,0x5,0x8,0x8,0x8,0x8,0x8,0x8,0x8,0x8,0x8,0x8,0x8,
    0x0,0x1,0x2,0x3,0x5,0x8,0x7,0x1,0x1,0x1,0x4,0x6,0x1,0x1,0x1,0x1,
    1,1,1,1,1,1,1,1,1,1,1,1,1,1,1,1,1,0,1,1,1,1,1,0,1,0,1,1,1,1,1,1,
    1,2,1,1,1,1,1,2,1,2,1,1,1,1,1,1,1,1,1,1,1,1,1,2,1,1,1,1,1,1,1,1,
    1,2,1,1,1,1,1,1,1,2,1,1,1,1,1,1,1,1,1,1,1,1,1,3,1,3,1,1,1,1,1,1,
    1,3,1,1,1,1,1,3,1,3,1,1,1,1,1,1,1,3,1,1,1,1,1,1,1,1,1,1,1,1,1,1]"

definition decode :: "u32 \<Rightarrow> u32 \<Rightarrow> byte \<Rightarrow> u32 \<times> u32" where
  "decode state codep b =
     (let type = (ucast (utf8d ! unat b) :: u32);
          codep' = (if state \<noteq> UTF8_ACCEPT then (ucast b AND 0x3f) OR push_bit 6 codep
                    else drop_bit (unat type) 0xff AND ucast b)
      in (ucast (utf8d ! unat (256 + state * 16 + type)), codep'))"

text \<open>The loops: the state and the code point after the bytes.\<close>

fun decode_all :: "byte list \<Rightarrow> u32 \<Rightarrow> u32 \<Rightarrow> u32 \<times> u32" where
  "decode_all [] state codep = (state, codep)"
| "decode_all (b # bs) state codep =
     (let (state', codep') = decode state codep b in decode_all bs state' codep')"

text \<open>
  The code point is uninitialised in the source and never read before it is written; it starts
  as 0 here.  \<open>is_utf8\<close> stops at the first NUL of the string.
\<close>

definition is_utf8_len_state :: "byte list \<Rightarrow> u32 \<Rightarrow> u32" where
  "is_utf8_len_state s state = fst (decode_all s state 0)"

definition is_utf8_len :: "byte list \<Rightarrow> bool" where
  "is_utf8_len s \<longleftrightarrow> fst (decode_all s 0 0) = UTF8_ACCEPT"

definition is_utf8 :: "byte list \<Rightarrow> bool" where
  "is_utf8 s \<longleftrightarrow> fst (decode_all (takeWhile (\<lambda>b. b \<noteq> 0) s) 0 0) = UTF8_ACCEPT"

section \<open>The specification: Unicode scalar values\<close>

definition scalar_value :: "nat \<Rightarrow> bool" where
  "scalar_value c \<longleftrightarrow> c < 0xD800 \<or> (0xE000 \<le> c \<and> c < 0x110000)"

definition utf8_encode :: "nat \<Rightarrow> byte list" where
  "utf8_encode c = map word_of_nat
     (if c < 0x80 then [c]
      else if c < 0x800 then [0xC0 + c div 64, 0x80 + c mod 64]
      else if c < 0x10000 then [0xE0 + c div 4096, 0x80 + c div 64 mod 64, 0x80 + c mod 64]
      else [0xF0 + c div 262144, 0x80 + c div 4096 mod 64, 0x80 + c div 64 mod 64,
            0x80 + c mod 64])"

definition utf8_text :: "byte list \<Rightarrow> bool" where
  "utf8_text s \<longleftrightarrow> (\<exists>cs. list_all scalar_value cs \<and> s = concat (map utf8_encode cs))"

section \<open>Reading the table by ranges\<close>

definition byte_class :: "nat \<Rightarrow> nat" where
  "byte_class b =
     (if b < 0x80 then 0 else if b < 0x90 then 1 else if b < 0xA0 then 9
      else if b < 0xC0 then 7 else if b < 0xC2 then 8 else if b < 0xE0 then 2
      else if b = 0xE0 then 10 else if b = 0xED then 4 else if b < 0xF0 then 3
      else if b = 0xF0 then 11 else if b < 0xF4 then 6 else if b = 0xF4 then 5 else 8)"

definition transition :: "nat \<Rightarrow> nat \<Rightarrow> nat" where
  "transition s t =
     (if s = 0 then (if t = 0 then 0 else if t = 2 then 2 else if t = 3 then 3
                     else if t = 4 then 5 else if t = 5 then 8 else if t = 6 then 7
                     else if t = 10 then 4 else if t = 11 then 6 else 1)
      else if s = 2 then (if t \<in> {1, 7, 9} then 0 else 1)
      else if s = 3 then (if t \<in> {1, 7, 9} then 2 else 1)
      else if s = 4 then (if t = 7 then 2 else 1)
      else if s = 5 then (if t \<in> {1, 9} then 2 else 1)
      else if s = 6 then (if t \<in> {7, 9} then 3 else 1)
      else if s = 7 then (if t \<in> {1, 7, 9} then 3 else 1)
      else if s = 8 then (if t = 1 then 3 else 1)
      else 1)"

lemma utf8d_split:
  "utf8d = map (\<lambda>b. word_of_nat (byte_class b)) [0..<256] @
           map (\<lambda>i. word_of_nat (transition (i div 16) (i mod 16))) [0..<144]"
  by code_simp

lemma byte_class_less: "byte_class b < 12"
  by (simp add: byte_class_def)

lemma transition_le: "transition s t \<le> 8"
  by (simp add: transition_def)

lemma utf8d_class: "b < 256 \<Longrightarrow> utf8d ! b = word_of_nat (byte_class b)"
  by (subst utf8d_split) (simp add: nth_append)

lemma utf8d_transition:
  "s \<le> 8 \<Longrightarrow> t < 16 \<Longrightarrow> utf8d ! (256 + (s * 16 + t)) = word_of_nat (transition s t)"
proof -
  assume le: "s \<le> 8" "t < 16"
  then have "s * 16 + t < 144" "(s * 16 + t) div 16 = s" "(s * 16 + t) mod 16 = t" by simp_all
  then show ?thesis by (subst utf8d_split) (simp add: nth_append)
qed

lemma table_word: "n < 256 \<Longrightarrow> (ucast (word_of_nat n :: byte) :: u32) = word_of_nat n"
  by (rule word_unat_eq_iff [THEN iffD2]) (simp add: unat_of_nat unsigned_ucast_eq take_bit_nat_eq_self_iff)

lemma decode_state:
  assumes "s \<le> 8" and "b < 256"
  shows "fst (decode (word_of_nat s) cp (word_of_nat b)) = word_of_nat (transition s (byte_class b))"
proof -
  let ?t = "byte_class b"
  have t: "?t < 12" by (rule byte_class_less)
  have b: "unat (word_of_nat b :: byte) = b" using assms by (simp add: unat_of_nat)
  have "unat (256 + word_of_nat s * 16 + word_of_nat ?t :: u32)
      = unat (word_of_nat (256 + (s * 16 + ?t)) :: u32)" by (simp add: ac_simps)
  also have "\<dots> = 256 + (s * 16 + ?t)" using t assms by (intro unat_word_of_nat) simp
  finally have i: "unat (256 + word_of_nat s * 16 + word_of_nat ?t :: u32) = 256 + (s * 16 + ?t)" .
  have "transition s ?t < 12" using transition_le [of s ?t] by simp
  with i b t assms show ?thesis
    by (simp add: decode_def Let_def utf8d_class table_word utf8d_transition)
qed

lemma continuation_bits:
  assumes "b < 256"
  shows "(ucast (word_of_nat b :: byte) AND 0x3f) OR push_bit 6 (word_of_nat cp) =
         (word_of_nat (cp * 64 + b mod 64) :: u32)"
proof -
  let ?x = "take_bit 6 (word_of_nat b) :: u32" and ?y = "push_bit 6 (word_of_nat cp) :: u32"
  have m: "ucast (word_of_nat b :: byte) AND 0x3f = ?x"
    using assms by (simp add: table_word take_bit_eq_mask mask_eq_exp_minus_1)
  have "?x AND ?y = 0" by (rule bit_word_eqI) (auto simp: bit_simps)
  then have "?x OR ?y = ?x + ?y" by (simp add: disjunctive_add_eq_or)
  also have "\<dots> = word_of_nat (cp * 64 + b mod 64)"
    by (simp add: take_bit_of_nat push_bit_of_nat)
       (simp add: take_bit_eq_mod push_bit_eq_mult ac_simps)
  finally show ?thesis by (simp add: m)
qed

lemma leading_bits:
  "b < 256 \<Longrightarrow> t < 12 \<Longrightarrow>
   drop_bit t 0xff AND ucast (word_of_nat b :: byte) = (word_of_nat (b mod 2 ^ (8 - t)) :: u32)"
proof -
  assume b: "b < 256" "t < 12"
  have "(0xff :: u32) = mask 8" by (simp add: mask_eq_exp_minus_1)
  then have "(drop_bit t 0xff :: u32) = mask (8 - t)"
    by (simp add: bit_eq_iff bit_simps) auto
  then have "drop_bit t 0xff AND ucast (word_of_nat b :: byte) = (take_bit (8 - t) (word_of_nat b) :: u32)"
    using b by (simp add: table_word take_bit_eq_mask and.commute)
  then show ?thesis by (simp add: take_bit_of_nat) (simp add: take_bit_eq_mod)
qed

text \<open>The automaton on numbers: state, byte and code point.\<close>

fun run :: "nat list \<Rightarrow> nat \<Rightarrow> nat \<Rightarrow> nat \<times> nat" where
  "run [] s cp = (s, cp)"
| "run (b # bs) s cp = run bs (transition s (byte_class b))
     (if s = 0 then b mod 2 ^ (8 - byte_class b) else cp * 64 + b mod 64)"

lemma decode_step:
  assumes "s \<le> 8" "b < 256"
  shows "decode (word_of_nat s) (word_of_nat cp) (word_of_nat b) =
         (word_of_nat (transition s (byte_class b)),
          word_of_nat (if s = 0 then b mod 2 ^ (8 - byte_class b) else cp * 64 + b mod 64))"
proof (rule prod_eqI)
  show "fst (decode (word_of_nat s) (word_of_nat cp) (word_of_nat b)) =
    fst (word_of_nat (transition s (byte_class b)) :: u32,
      word_of_nat (if s = 0 then b mod 2 ^ (8 - byte_class b) else cp * 64 + b mod 64) :: u32)"
    using decode_state [OF assms] by simp
next
  have z: "word_of_nat s = (0 :: u32) \<longleftrightarrow> s = 0"
    using assms(1) unat_word_of_nat [of s, where 'a = 32] by auto
  have t: "byte_class b < 12" by (rule byte_class_less)
  then have "unat (ucast (utf8d ! b) :: u32) = byte_class b"
    using assms(2) by (simp add: utf8d_class table_word unat_word_of_nat)
  then have "snd (decode (word_of_nat s) (word_of_nat cp) (word_of_nat b)) =
      (if s = 0 then drop_bit (byte_class b) 0xff AND ucast (word_of_nat b :: byte)
       else (ucast (word_of_nat b :: byte) AND 0x3f) OR push_bit 6 (word_of_nat cp))"
    using assms(2) by (simp add: decode_def Let_def z unat_word_of_nat)
  then show "snd (decode (word_of_nat s) (word_of_nat cp) (word_of_nat b)) =
    snd (word_of_nat (transition s (byte_class b)) :: u32,
      word_of_nat (if s = 0 then b mod 2 ^ (8 - byte_class b) else cp * 64 + b mod 64) :: u32)"
    by (simp only: continuation_bits [OF assms(2)] leading_bits [OF assms(2) t] snd_conv) simp
qed

lemma decode_all_run:
  "s \<le> 8 \<Longrightarrow> list_all (\<lambda>b. b < 256) bs \<Longrightarrow>
   decode_all (map word_of_nat bs) (word_of_nat s) (word_of_nat cp) =
   map_prod word_of_nat word_of_nat (run bs s cp)"
proof (induction bs s cp rule: run.induct)
  case (1 s cp)
  then show ?case by simp
next
  case (2 b bs s cp)
  from 2(1) [OF transition_le] 2(2,3) show ?case
    by (simp only: run.simps decode_all.simps list.map list.pred_inject decode_step Let_def prod.case
        split: if_split)
qed

lemma run_state_le: "s \<le> 8 \<Longrightarrow> fst (run bs s cp) \<le> 8"
  by (induction bs s cp rule: run.induct) (simp_all add: transition_le)

section \<open>The automaton accepts exactly UTF-8\<close>

fun encode_scalar :: "nat \<Rightarrow> nat list" where
  "encode_scalar c =
     (if c < 0x80 then [c]
      else if c < 0x800 then [0xC0 + c div 64, 0x80 + c mod 64]
      else if c < 0x10000 then [0xE0 + c div 4096, 0x80 + c div 64 mod 64, 0x80 + c mod 64]
      else [0xF0 + c div 262144, 0x80 + c div 4096 mod 64, 0x80 + c div 64 mod 64,
            0x80 + c mod 64])"

declare encode_scalar.simps [simp del]

lemma utf8_encode_scalar: "utf8_encode c = map word_of_nat (encode_scalar c)"
  by (simp add: utf8_encode_def encode_scalar.simps)

lemma continuation:
  "r < 64 \<Longrightarrow> byte_class (0x80 + r) = (if r < 16 then 1 else if r < 32 then 9 else 7)"
  "r < 64 \<Longrightarrow> (0x80 + r) mod 64 = r"
  using mod_mult_self4 [of 64 2 r] by (simp_all add: byte_class_def)

lemma split_64:
  fixes c :: nat
  shows "c = c div 64 * 64 + c mod 64"
    and "c = (c div 4096 * 64 + c div 64 mod 64) * 64 + c mod 64"
    and "c = ((c div 262144 * 64 + c div 4096 mod 64) * 64 + c div 64 mod 64) * 64 + c mod 64"
proof -
  have d: "c div 4096 = c div 64 div 64" "c div 262144 = c div 64 div 64 div 64"
    by (simp_all add: div_mult2_eq [symmetric])
  have m: "n = n div 64 * 64 + n mod 64" for n :: nat by simp
  have two: "c = (j * 64 + p) * 64 + r" if "c = k * 64 + r" "k = j * 64 + p" for c k j p r :: nat
    using that by simp
  have three: "c = ((i * 64 + u) * 64 + p) * 64 + r"
    if "c = k * 64 + r" "k = j * 64 + p" "j = i * 64 + u" for c k j i u p r :: nat
    using that by simp
  show "c = c div 64 * 64 + c mod 64" by (rule m)
  show "c = (c div 4096 * 64 + c div 64 mod 64) * 64 + c mod 64"
    unfolding d by (rule two [OF m m])
  show "c = ((c div 262144 * 64 + c div 4096 mod 64) * 64 + c div 64 mod 64) * 64 + c mod 64"
    unfolding d by (rule three [OF m m m])
qed

lemma run_encode:
  assumes "scalar_value c"
  shows "run (encode_scalar c @ rest) 0 cp = run rest 0 c"
proof -
  have "c < 0x80 \<or> (0x80 \<le> c \<and> c < 0x800) \<or> (0x800 \<le> c \<and> c < 0x10000) \<or>
      (0x10000 \<le> c \<and> c < 0x110000)"
    using assms unfolding scalar_value_def by arith
  then consider "c < 0x80" | "0x80 \<le> c" "c < 0x800" | "0x800 \<le> c" "c < 0x10000"
    | "0x10000 \<le> c" "c < 0x110000" by blast
  then show ?thesis
  proof cases
    case 1
    then show ?thesis by (simp add: encode_scalar.simps byte_class_def transition_def)
  next
    case 2
    define q r where "q = c div 64" and "r = c mod 64"
    have c: "c = q * 64 + r" "r < 64" by (simp_all add: q_def r_def)
    have q: "2 \<le> q" "q < 32" using 2 c by linarith+
    have e: "encode_scalar c = [0xC0 + q, 0x80 + r]"
      using 2 by (simp add: encode_scalar.simps q_def r_def)
    have t: "byte_class (0xC0 + q) = 2" using q by (simp add: byte_class_def)
    have m: "(0xC0 + q) mod 64 = q" using q mod_mult_self4 [of 64 3 q] by simp
    show ?thesis using t m by (simp add: e transition_def continuation c(2) c(1) [symmetric])
  next
    case 3
    define q p r where "q = c div 4096" and "p = c div 64 mod 64" and "r = c mod 64"
    have c: "c = (q * 64 + p) * 64 + r" "p < 64" "r < 64"
      unfolding q_def p_def r_def by (rule split_64) simp_all
    have c': "c = q * 4096 + p * 64 + r" using c(1) by simp
    have q: "q < 16" using 3 c' by linarith
    have e: "encode_scalar c = [0xE0 + q, 0x80 + p, 0x80 + r]"
      using 3 by (simp add: encode_scalar.simps q_def p_def r_def)
    have lo: "32 \<le> p" if "q = 0" using 3(1) c(3) c' that by simp
    have sur: "p < 32" if "q = 13" using assms c that by (auto simp: scalar_value_def)
    have t: "byte_class (0xE0 + q) = (if q = 0 then 10 else if q = 13 then 4 else 3)"
      using q by (simp add: byte_class_def)
    have m: "(0xE0 + q) mod 2 ^ (8 - byte_class (0xE0 + q)) = q"
      using q mod_mult_self4 [of 32 7 q] by (auto simp: t)
    have "run ([0xE0 + q, 0x80 + p, 0x80 + r] @ rest) 0 cp = run rest 0 ((q * 64 + p) * 64 + r)"
      using t m c(2,3) lo sur
      by (cases "q = 0"; cases "q = 13") (auto simp: transition_def continuation)
    then show ?thesis unfolding e c(1) [symmetric] .
  next
    case 4
    define q u p r where "q = c div 262144" and "u = c div 4096 mod 64"
      and "p = c div 64 mod 64" and "r = c mod 64"
    have c: "c = ((q * 64 + u) * 64 + p) * 64 + r" "u < 64" "p < 64" "r < 64"
      unfolding q_def u_def p_def r_def by (rule split_64) simp_all
    have c': "c = q * 262144 + u * 4096 + p * 64 + r" using c(1) by simp
    have q: "q < 5" using 4 c' by linarith
    have e: "encode_scalar c = [0xF0 + q, 0x80 + u, 0x80 + p, 0x80 + r]"
      using 4 by (simp add: encode_scalar.simps q_def u_def p_def r_def)
    have lo: "16 \<le> u" if "q = 0" using 4(1) c(3,4) c' that by simp
    have hi: "u < 16" if "q = 4" using 4(2) c' that by simp
    have t: "byte_class (0xF0 + q) = (if q = 0 then 11 else if q = 4 then 5 else 6)"
      using q by (simp add: byte_class_def)
    have m: "(0xF0 + q) mod 2 ^ (8 - byte_class (0xF0 + q)) = q"
      using q mod_mult_self4 [of 4 60 q] by (auto simp: t)
    have "run ([0xF0 + q, 0x80 + u, 0x80 + p, 0x80 + r] @ rest) 0 cp =
        run rest 0 (((q * 64 + u) * 64 + p) * 64 + r)"
      using t m c(2,3,4) lo hi
      by (cases "q = 0"; cases "q = 4") (auto simp: transition_def continuation)
    then show ?thesis unfolding e c(1) [symmetric] .
  qed
qed

lemma run_reject [simp]: "fst (run bs 1 cp) = 1"
  by (induction bs arbitrary: cp) (simp_all add: transition_def)

lemma class_range:
  "byte_class b = 0 \<longleftrightarrow> b < 0x80"
  "byte_class b = 1 \<longleftrightarrow> 0x80 \<le> b \<and> b < 0x90"
  "byte_class b = 9 \<longleftrightarrow> 0x90 \<le> b \<and> b < 0xA0"
  "byte_class b = 7 \<longleftrightarrow> 0xA0 \<le> b \<and> b < 0xC0"
  "byte_class b = 2 \<longleftrightarrow> 0xC2 \<le> b \<and> b < 0xE0"
  "byte_class b = 10 \<longleftrightarrow> b = 0xE0"
  "byte_class b = 4 \<longleftrightarrow> b = 0xED"
  "byte_class b = 3 \<longleftrightarrow> 0xE0 < b \<and> b < 0xF0 \<and> b \<noteq> 0xED"
  "byte_class b = 11 \<longleftrightarrow> b = 0xF0"
  "byte_class b = 6 \<longleftrightarrow> 0xF0 < b \<and> b < 0xF4"
  "byte_class b = 5 \<longleftrightarrow> b = 0xF4"
  by (auto simp: byte_class_def)

lemma follow:
  "s \<notin> {0, 1} \<Longrightarrow> s \<le> 8 \<Longrightarrow> transition s t \<noteq> 1 \<Longrightarrow>
   (t = 1 \<or> t = 7 \<or> t = 9) \<and> (s = 4 \<longrightarrow> t = 7) \<and> (s = 5 \<longrightarrow> t \<noteq> 7) \<and>
   (s = 6 \<longrightarrow> t \<noteq> 1) \<and> (s = 8 \<longrightarrow> t = 1) \<and>
   transition s t = (if s = 2 then 0 else if s \<in> {3, 4, 5} then 2 else 3)"
  by (auto simp: transition_def split: if_splits)

lemma accept_follow:
  assumes "fst (run bs s cp) = 0" and "s \<notin> {0, 1}" and "s \<le> 8"
  obtains b bs' cp' where "bs = b # bs'" "0x80 \<le> b" "b < 0xC0"
    "s = 4 \<Longrightarrow> 0xA0 \<le> b" "s = 5 \<Longrightarrow> b < 0xA0" "s = 6 \<Longrightarrow> 0x90 \<le> b" "s = 8 \<Longrightarrow> b < 0x90"
    "fst (run bs' (if s = 2 then 0 else if s \<in> {3, 4, 5} then 2 else 3) cp') = 0"
proof (cases bs)
  case Nil
  with assms show ?thesis by simp
next
  case (Cons b bs')
  have "transition s (byte_class b) \<noteq> 1"
    using assms(1) run_reject [of bs'] by (auto simp: Cons)
  note f = follow [OF assms(2,3) this]
  from assms(1,2) have "fst (run bs' (transition s (byte_class b)) (cp * 64 + b mod 64)) = 0"
    by (simp add: Cons)
  then have "fst (run bs' (if s = 2 then 0 else if s \<in> {3, 4, 5} then 2 else 3)
      (cp * 64 + b mod 64)) = 0" using f by simp
  with f show ?thesis using Cons by (intro that [of b bs']) (auto simp: class_range class_range(2) [unfolded One_nat_def])
qed

text \<open>A well-formed sequence of two, three or four bytes is the encoding of a scalar value.\<close>

lemma encode_two:
  assumes "2 \<le> q" "q < 32" "r < 64"
  shows "scalar_value (q * 64 + r) \<and> encode_scalar (q * 64 + r) = [0xC0 + q, 0x80 + r]"
  using assms by (simp add: scalar_value_def encode_scalar.simps)

lemma div_mod_64:
  fixes k r :: nat
  assumes "r < 64"
  shows "(k * 64 + r) div 64 = k" and "(k * 64 + r) mod 64 = r"
  using assms by (simp_all add: div_mult_self3 mod_mult_self3)

lemma encode_three:
  assumes "q < 16" "p < 64" "r < 64" "q = 0 \<Longrightarrow> 32 \<le> p" "q = 13 \<Longrightarrow> p < 32"
  shows "scalar_value ((q * 64 + p) * 64 + r) \<and>
         encode_scalar ((q * 64 + p) * 64 + r) = [0xE0 + q, 0x80 + p, 0x80 + r]"
proof -
  let ?c = "(q * 64 + p) * 64 + r"
  have d: "?c div 64 = q * 64 + p" "?c mod 64 = r" "(q * 64 + p) div 64 = q" "(q * 64 + p) mod 64 = p"
    using div_mod_64 assms(2,3) by blast+
  have "?c div 4096 = ?c div 64 div 64" by (simp add: div_mult2_eq [symmetric])
  with d have e: "?c div 4096 = q" by simp
  have r: "0x800 \<le> ?c" "?c < 0x10000" using assms by (cases "q = 0"; simp)+
  then have r': "\<not> ?c < 0x800" "\<not> ?c < 0x80" by linarith+
  have "encode_scalar ?c = [0xE0 + ?c div 4096, 0x80 + ?c div 64 mod 64, 0x80 + ?c mod 64]"
    by (simp only: encode_scalar.simps [of ?c] r r' if_False if_True)
  moreover have "q < 13 \<or> q = 13 \<or> 14 \<le> q" by linarith
  then have "scalar_value ?c" using assms by (auto simp: scalar_value_def)
  ultimately show ?thesis unfolding d e by simp
qed

lemma encode_four:
  assumes "q < 5" "u < 64" "p < 64" "r < 64" "q = 0 \<Longrightarrow> 16 \<le> u" "q = 4 \<Longrightarrow> u < 16"
  shows "scalar_value (((q * 64 + u) * 64 + p) * 64 + r) \<and>
         encode_scalar (((q * 64 + u) * 64 + p) * 64 + r) =
           [0xF0 + q, 0x80 + u, 0x80 + p, 0x80 + r]"
proof -
  let ?k = "(q * 64 + u) * 64 + p"
  let ?c = "?k * 64 + r"
  have d: "?c div 64 = ?k" "?c mod 64 = r" "?k div 64 = q * 64 + u" "?k mod 64 = p"
    "(q * 64 + u) div 64 = q" "(q * 64 + u) mod 64 = u"
    using div_mod_64 assms(2,3,4) by blast+
  have "?c div 4096 = ?c div 64 div 64" "?c div 262144 = ?c div 64 div 64 div 64"
    by (simp_all add: div_mult2_eq [symmetric])
  with d have e: "?c div 4096 = q * 64 + u" "?c div 262144 = q" by simp_all
  have r: "0x10000 \<le> ?c" "?c < 0x110000" using assms by (cases "q = 0"; cases "q = 4"; simp)+
  then have r': "\<not> ?c < 0x10000" "\<not> ?c < 0x800" "\<not> ?c < 0x80" by linarith+
  have "encode_scalar ?c = [0xF0 + ?c div 262144, 0x80 + ?c div 4096 mod 64,
      0x80 + ?c div 64 mod 64, 0x80 + ?c mod 64]"
    by (simp only: encode_scalar.simps [of ?c] r' if_False)
  moreover have "scalar_value ?c" using r by (simp add: scalar_value_def)
  ultimately show ?thesis unfolding d e by simp
qed

lemma low_range: "0x80 \<le> b \<Longrightarrow> b < 0xC0 \<Longrightarrow> \<exists>r < 64. b = 0x80 + (r :: nat)"
  by (rule exI [of _ "b - 0x80"]) simp

text \<open>An accepted byte string starts with the encoding of a scalar value.\<close>

lemma accept_scalar:
  assumes "fst (run (a # bs) 0 cp) = 0" and "a < 256"
  obtains c rest cp' where "scalar_value c" "a # bs = encode_scalar c @ rest"
    "fst (run rest 0 cp') = 0"
proof -
  let ?t = "byte_class a"
  obtain x where x: "fst (run bs (transition 0 ?t) x) = 0" using assms(1) by simp
  have "transition 0 ?t \<noteq> 1" using x run_reject [of bs x] by auto
  then have "?t \<in> {0, 2, 3, 4, 5, 6, 10, 11}" by (auto simp: transition_def split: if_splits)
  then consider "?t = 0" "a < 0x80" | "?t = 2" "0xC2 \<le> a" "a < 0xE0"
    | "?t = 10 \<or> ?t = 3 \<or> ?t = 4" "0xE0 \<le> a" "a < 0xF0"
    | "?t = 11 \<or> ?t = 6 \<or> ?t = 5" "0xF0 \<le> a" "a < 0xF5"
    using assms(2) by (auto simp: class_range)
  then show thesis
  proof cases
    case 1
    with x show ?thesis
      by (intro that [of a bs x])
         (simp_all add: scalar_value_def encode_scalar.simps transition_def)
  next
    case 2
    then have "fst (run bs 2 x) = 0" using x by (simp add: transition_def)
    then obtain b bs' y where b: "bs = b # bs'" "0x80 \<le> b" "b < 0xC0" "fst (run bs' 0 y) = 0"
      by (rule accept_follow) auto
    obtain r where r: "r < 64" "b = 0x80 + r" using low_range b by blast
    obtain q where q: "a = 0xC0 + q" using 2(2) le_Suc_ex [of "0xC0" a] by auto
    have "scalar_value (q * 64 + r) \<and> encode_scalar (q * 64 + r) = [a, b]"
      using encode_two [of q r] 2 r q by simp
    with b show ?thesis by (intro that [of "q * 64 + r" bs' y]) simp_all
  next
    case 3
    let ?s = "if ?t = 10 then 4 else if ?t = 3 then 3 else 5 :: nat"
    have "fst (run bs ?s x) = 0" using x 3(1) by (auto simp: transition_def)
    then obtain b bs1 y where b: "bs = b # bs1" "0x80 \<le> b" "b < 0xC0"
        "?s = 4 \<Longrightarrow> 0xA0 \<le> b" "?s = 5 \<Longrightarrow> b < 0xA0" "fst (run bs1 2 y) = 0"
      by (rule accept_follow) (auto split: if_splits)
    obtain d bs2 z where d: "bs1 = d # bs2" "0x80 \<le> d" "d < 0xC0" "fst (run bs2 0 z) = 0"
      using b(6) by (rule accept_follow) auto
    obtain p where p: "p < 64" "b = 0x80 + p" using low_range b by blast
    obtain r where r: "r < 64" "d = 0x80 + r" using low_range d by blast
    obtain q where q: "a = 0xE0 + q" using 3(2) le_Suc_ex [of "0xE0" a] by auto
    have "q = 0 \<Longrightarrow> ?t = 10" "q = 13 \<Longrightarrow> ?t = 4" using q by (simp_all add: class_range)
    then have "q = 0 \<Longrightarrow> 32 \<le> p" "q = 13 \<Longrightarrow> p < 32" using b(4,5) p(2) by simp_all
    then have "scalar_value ((q * 64 + p) * 64 + r) \<and>
        encode_scalar ((q * 64 + p) * 64 + r) = [a, b, d]"
      using encode_three [of q p r] 3(3) p r q by simp
    with b d show ?thesis by (intro that [of "(q * 64 + p) * 64 + r" bs2 z]) simp_all
  next
    case 4
    let ?s = "if ?t = 11 then 6 else if ?t = 6 then 7 else 8 :: nat"
    have "fst (run bs ?s x) = 0" using x 4(1) by (auto simp: transition_def)
    then obtain b bs1 y where b: "bs = b # bs1" "0x80 \<le> b" "b < 0xC0"
        "?s = 6 \<Longrightarrow> 0x90 \<le> b" "?s = 8 \<Longrightarrow> b < 0x90" "fst (run bs1 3 y) = 0"
      by (rule accept_follow) (auto split: if_splits)
    obtain d bs2 z where d: "bs1 = d # bs2" "0x80 \<le> d" "d < 0xC0" "fst (run bs2 2 z) = 0"
      using b(6) by (rule accept_follow) auto
    obtain e bs3 w where e: "bs2 = e # bs3" "0x80 \<le> e" "e < 0xC0" "fst (run bs3 0 w) = 0"
      using d(4) by (rule accept_follow) auto
    obtain u where u: "u < 64" "b = 0x80 + u" using low_range b by blast
    obtain p where p: "p < 64" "d = 0x80 + p" using low_range d by blast
    obtain r where r: "r < 64" "e = 0x80 + r" using low_range e by blast
    obtain q where q: "a = 0xF0 + q" using 4(2) le_Suc_ex [of "0xF0" a] by auto
    have "q = 0 \<Longrightarrow> ?t = 11" "q = 4 \<Longrightarrow> ?t = 5" using q by (simp_all add: class_range)
    then have "q = 0 \<Longrightarrow> 16 \<le> u" "q = 4 \<Longrightarrow> u < 16" using b(4,5) u(2) by simp_all
    then have "scalar_value (((q * 64 + u) * 64 + p) * 64 + r) \<and>
        encode_scalar (((q * 64 + u) * 64 + p) * 64 + r) = [a, b, d, e]"
      using encode_four [of q u p r] 4(3) u p r q by simp
    with b d e show ?thesis
      by (intro that [of "((q * 64 + u) * 64 + p) * 64 + r" bs3 w]) simp_all
  qed
qed

lemma encode_scalar_not_Nil: "encode_scalar c \<noteq> []"
  by (simp add: encode_scalar.simps)

lemma accept_text:
  "fst (run bs 0 cp) = 0 \<Longrightarrow> list_all (\<lambda>b. b < 256) bs \<Longrightarrow>
   \<exists>cs. list_all scalar_value cs \<and> bs = concat (map encode_scalar cs)"
proof (induction "length bs" arbitrary: bs cp rule: less_induct)
  case less
  show ?case
  proof (cases bs)
    case Nil
    then show ?thesis by (intro exI [of _ "[]"]) simp
  next
    case (Cons a as)
    then obtain c rest x where c: "scalar_value c" "bs = encode_scalar c @ rest"
        "fst (run rest 0 x) = 0"
      using accept_scalar [of a as cp] less.prems by auto
    then have "length rest < length bs" "list_all (\<lambda>b. b < 256) rest"
      using encode_scalar_not_Nil [of c] less.prems(2) by (simp_all add: list_all_iff)
    with less.hyps [of rest x] c obtain cs where
      "list_all scalar_value cs" "rest = concat (map encode_scalar cs)" by blast
    with c show ?thesis by (intro exI [of _ "c # cs"]) simp
  qed
qed

lemma run_text:
  "list_all scalar_value cs \<Longrightarrow> fst (run (concat (map encode_scalar cs)) 0 cp) = 0"
  by (induction cs arbitrary: cp) (simp_all add: run_encode)

lemma is_utf8_len_run: "is_utf8_len s \<longleftrightarrow> fst (run (map unat s) 0 0) = 0"
proof -
  have b: "list_all (\<lambda>b. b < 256) (map unat s)"
    by (simp add: list_all_iff)
  have m: "map word_of_nat (map unat s) = s" by (simp add: comp_def)
  have "fst (run (map unat s) 0 0) \<le> 8" by (rule run_state_le) simp
  then have z: "word_of_nat (fst (run (map unat s) 0 0)) = (0 :: u32) \<longleftrightarrow> fst (run (map unat s) 0 0) = 0"
    using unat_word_of_nat [of "fst (run (map unat s) 0 0)", where 'a = 32] by auto
  show ?thesis
    using decode_all_run [of 0 "map unat s" 0, unfolded m] b z by (simp add: is_utf8_len_def)
qed

lemma encode_scalar_bytes: "scalar_value c \<Longrightarrow> list_all (\<lambda>b. b < 256) (encode_scalar c)"
proof -
  assume "scalar_value c"
  then have "c < 0x110000" by (auto simp: scalar_value_def)
  then have "c div 262144 < 16" by (simp add: less_mult_imp_div_less)
  moreover have "c < 0x10000 \<longrightarrow> c div 4096 < 32" by (auto intro: less_mult_imp_div_less)
  moreover have "c < 0x800 \<longrightarrow> c div 64 < 64" by (auto intro: less_mult_imp_div_less)
  moreover have "128 + n mod 64 < 256" for n :: nat
    using mod_less_divisor [of 64 n] by linarith
  ultimately show ?thesis by (simp add: encode_scalar.simps)
qed

lemma unat_bytes: "list_all (\<lambda>b. b < 256) xs \<Longrightarrow> map unat (map word_of_nat xs :: byte list) = xs"
  by (induction xs) (simp_all add: unat_word_of_nat)

lemma utf8_text_scalars:
  "utf8_text s \<longleftrightarrow> (\<exists>cs. list_all scalar_value cs \<and> map unat s = concat (map encode_scalar cs))"
proof -
  have rt: "map word_of_nat (map unat s) = s" by (simp add: comp_def)
  have enc: "concat (map utf8_encode cs) = map word_of_nat (concat (map encode_scalar cs))" for cs
    by (simp add: map_concat comp_def utf8_encode_scalar [abs_def])
  have "list_all scalar_value cs \<Longrightarrow> list_all (\<lambda>b. b < 256) (concat (map encode_scalar cs))" for cs
    using encode_scalar_bytes by (auto simp: list_all_iff)
  then have "s = concat (map utf8_encode cs) \<longleftrightarrow> map unat s = concat (map encode_scalar cs)"
    if "list_all scalar_value cs" for cs
    using that unat_bytes rt enc by metis
  then show ?thesis unfolding utf8_text_def by blast
qed

lemma is_utf8_len_text: "is_utf8_len s \<longleftrightarrow> utf8_text s"
proof -
  have "list_all (\<lambda>b. b < 256) (map unat s)" by (simp add: list_all_iff)
  then show ?thesis
    unfolding is_utf8_len_run utf8_text_scalars using accept_text run_text by metis
qed

text \<open>
  C28: the validator accepts exactly UTF-8.  \<open>is_utf8_len\<close> holds of a byte string if and only if it
  is the concatenation of the encodings of Unicode scalar values (no surrogates, nothing above
  U+10FFFF, no overlong form, no truncated sequence); \<open>is_utf8\<close> says the same of the bytes before
  the first NUL.
\<close>

theorem is_utf8_correct:
  "(is_utf8_len s \<longleftrightarrow> utf8_text s) \<and> (is_utf8 s \<longleftrightarrow> utf8_text (takeWhile (\<lambda>b. b \<noteq> 0) s))"
  using is_utf8_len_text by (simp add: is_utf8_len_def is_utf8_def)

section \<open>Validation across fragments\<close>

lemma decode_all_append:
  "decode_all (a @ b) st cp = (case decode_all a st cp of (st', cp') \<Rightarrow> decode_all b st' cp')"
  by (induction a st cp rule: decode_all.induct) (auto split: prod.splits)

text \<open>The code point register does not influence the state.\<close>

lemma decode_all_codepoint: "fst (decode_all s st cp) = fst (decode_all s st cp')"
proof (induction s arbitrary: st cp cp')
  case (Cons b bs)
  have "fst (decode st cp b) = fst (decode st cp' b)" by (simp add: decode_def Let_def)
  then show ?case using Cons by (auto split: prod.splits)
qed simp

lemma is_utf8_len_state_append:
  "is_utf8_len_state (a @ b) st = is_utf8_len_state b (is_utf8_len_state a st)"
  unfolding is_utf8_len_state_def decode_all_append
  by (metis decode_all_codepoint case_prod_beta)

lemma fragments_concat:
  "foldl (\<lambda>st frag. is_utf8_len_state frag st) st frags = is_utf8_len_state (concat frags) st"
proof (induction frags arbitrary: st)
  case Nil
  then show ?case by (simp add: is_utf8_len_state_def)
next
  case (Cons a frags)
  then show ?case by (simp add: is_utf8_len_state_append)
qed

lemma decode_all_state:
  assumes "unat st \<le> 8"
  shows "fst (decode_all s st cp) = word_of_nat (fst (run (map unat s) (unat st) (unat cp)))"
proof -
  have "map word_of_nat (map unat s) = s" by (simp add: comp_def)
  moreover have "list_all (\<lambda>b. b < 256) (map unat s)" by (simp add: list_all_iff)
  ultimately show ?thesis
    using decode_all_run [OF assms, of "map unat s" "unat cp"] by simp
qed

text \<open>
  Validation of a fragmented message.  Threading the state of \<open>is_utf8_len_state\<close> through the
  fragments ends in the accepting state exactly when the whole message is UTF-8, although the
  cuts may fall inside a character; the rejecting state is never left; and from any state up to 8
  the next state is again at most 8, so that the table index
  \<open>256 + state * 16 + utf8d[byte]\<close> stays inside the table.
\<close>

theorem utf8_fragments:
  "(foldl (\<lambda>st frag. is_utf8_len_state frag st) UTF8_ACCEPT frags = UTF8_ACCEPT \<longleftrightarrow>
      utf8_text (concat frags)) \<and>
   is_utf8_len_state s UTF8_REJECT = UTF8_REJECT \<and>
   (unat st \<le> 8 \<longrightarrow> unat (is_utf8_len_state s st) \<le> 8 \<and>
      256 + unat st * 16 + unat (utf8d ! unat (b :: byte)) < length utf8d)"
proof (intro conjI impI)
  show "foldl (\<lambda>st frag. is_utf8_len_state frag st) UTF8_ACCEPT frags = UTF8_ACCEPT \<longleftrightarrow>
      utf8_text (concat frags)"
    unfolding fragments_concat
    using is_utf8_len_text [of "concat frags"] by (simp add: is_utf8_len_state_def is_utf8_len_def)
  show "is_utf8_len_state s UTF8_REJECT = UTF8_REJECT"
    using run_reject [of "map unat s" 0] by (simp add: is_utf8_len_state_def decode_all_state)
next
  assume st: "unat st \<le> 8"
  have "fst (run (map unat s) (unat st) 0) \<le> 8" using st by (rule run_state_le)
  then show "unat (is_utf8_len_state s st) \<le> 8"
    using st by (simp add: is_utf8_len_state_def decode_all_state unat_word_of_nat)
  have "length utf8d = 400" by (simp add: utf8d_def)
  moreover have "unat (utf8d ! unat b) < 12"
    using byte_class_less [of "unat b"]
    by (simp only: utf8d_class [OF unat_byte_less]) (simp add: unat_word_of_nat)
  ultimately show "256 + unat st * 16 + unat (utf8d ! unat b) < length utf8d"
    using st by simp
qed

theorem utf8_fragments_witness:
  "foldl (\<lambda>st frag. is_utf8_len_state frag st) 0 [[0xE2, 0x82], [0xAC]] = 0 \<and>
   utf8_text (concat [[0xE2, 0x82], [0xAC]]) \<and>
   unat (is_utf8_len_state [0xE2, 0x82] (0 :: u32)) \<le> 8"
proof -
  have "utf8_text (concat [[0xE2, 0x82], [0xAC]])"
    unfolding utf8_text_def
    by (intro exI [of _ "[0x20AC]"]) (simp add: scalar_value_def utf8_encode_def)
  then show ?thesis
    using utf8_fragments [of "[[0xE2, 0x82], [0xAC]]" "[0xE2, 0x82]" 0 0] by simp
qed

end
