(* ===== verification/Base64.thy ===== *)
theory Base64
  imports Prelude
begin

text \<open>
  The Base64 coder (\<open>wsh264/src/base64.c\<close>), which carries the session nonce in the
  \<open>crypto_init\<close> message and the accept key of the WebSocket handshake: the encoder with its line
  feeds, the table-driven decoder, the sizes both allocate, and their round trip.  \<open>size_t\<close> has
  \<open>w\<close> bits (64 on the gateway, 32 on the Ameba board).
\<close>

section \<open>Encoding\<close>

definition base64_table :: "byte list" where
  "base64_table = str ''ABCDEFGHIJKLMNOPQRSTUVWXYZabcdefghijklmnopqrstuvwxyz0123456789+/''"

abbreviation (input) eq_sign :: byte where "eq_sign \<equiv> 0x3d"
abbreviation (input) newline :: byte where "newline \<equiv> 0x0a"

definition base64_quad :: "byte \<Rightarrow> byte \<Rightarrow> byte \<Rightarrow> byte list" where
  "base64_quad a b c =
     [base64_table ! unat (drop_bit 2 a),
      base64_table ! unat (push_bit 4 (a AND 0x03) OR drop_bit 4 b),
      base64_table ! unat (push_bit 2 (b AND 0x0f) OR drop_bit 6 c),
      base64_table ! unat (c AND 0x3f)]"

text \<open>
  The loop over whole blocks and the tail, with \<open>line_len\<close>: what is written from \<open>pos\<close> on, up to
  the terminating NUL.
\<close>

fun base64_encode_loop :: "byte list \<Rightarrow> nat \<Rightarrow> byte list" where
  "base64_encode_loop (a # b # c # rest) line_len =
     base64_quad a b c @
     (if 72 \<le> line_len + 4 then newline # base64_encode_loop rest 0
      else base64_encode_loop rest (line_len + 4))"
| "base64_encode_loop [a, b] line_len =
     [base64_table ! unat (drop_bit 2 a),
      base64_table ! unat (push_bit 4 (a AND 0x03) OR drop_bit 4 b),
      base64_table ! unat (push_bit 2 (b AND 0x0f)), eq_sign, newline]"
| "base64_encode_loop [a] line_len =
     [base64_table ! unat (drop_bit 2 a), base64_table ! unat (push_bit 4 (a AND 0x03)),
      eq_sign, eq_sign, newline]"
| "base64_encode_loop [] line_len = (if line_len \<noteq> 0 then [newline] else [])"

definition base64_olen :: "nat \<Rightarrow> nat \<Rightarrow> nat" where
  "base64_olen w len =
     (let olen = (len * 4 mod 2 ^ w div 3 + 4) mod 2 ^ w;
          olen = (olen + olen div 72) mod 2 ^ w
      in (olen + 1) mod 2 ^ w)"

text \<open>The buffer written, its NUL included, or \<open>None\<close>; \<open>out_len\<close> is its length less one.\<close>

definition base64_encode :: "nat \<Rightarrow> bool \<Rightarrow> byte list \<Rightarrow> byte list option" where
  "base64_encode w malloc_ok src =
     (if base64_olen w (length src) < length src then None
      else if \<not> malloc_ok then None
      else Some (base64_encode_loop src 0 @ [0]))"

section \<open>Decoding\<close>

definition dtable :: "byte list" where
  "dtable = (fold (\<lambda>i t. t[unat (base64_table ! i) := word_of_nat i]) [0..<64]
               (replicate 256 0x80))[unat eq_sign := 0]"

definition decode_block :: "byte list \<Rightarrow> byte list" where
  "decode_block block =
     [push_bit 2 (block ! 0) OR drop_bit 4 (block ! 1),
      push_bit 4 (block ! 1) OR drop_bit 2 (block ! 2),
      push_bit 6 (block ! 2) OR block ! 3]"

fun base64_decode_loop :: "byte list \<Rightarrow> byte list \<Rightarrow> nat \<Rightarrow> byte list \<Rightarrow> byte list option" where
  "base64_decode_loop [] block pad out = Some out"
| "base64_decode_loop (b # bs) block pad out =
     (let tmp = dtable ! unat b in
      if tmp = 0x80 then base64_decode_loop bs block pad out
      else
        let pad = (if b = eq_sign then pad + 1 else pad);
            block = block @ [tmp] in
        if length block = 4 then
          let out = out @ decode_block block in
          if pad \<noteq> 0 then
            if pad = 1 then Some (take (length out - 1) out)
            else if pad = 2 then Some (take (length out - 2) out)
            else None
          else base64_decode_loop bs [] pad out
        else base64_decode_loop bs block pad out)"

definition base64_count :: "byte list \<Rightarrow> nat" where
  "base64_count src = length (filter (\<lambda>b. dtable ! unat b \<noteq> 0x80) src)"

definition base64_decode :: "bool \<Rightarrow> byte list \<Rightarrow> byte list option" where
  "base64_decode malloc_ok src =
     (let count = base64_count src in
      if count = 0 \<or> count mod 4 \<noteq> 0 then None
      else if \<not> malloc_ok then None
      else base64_decode_loop src [] 0 [])"

section \<open>The tables\<close>

lemma dtable_table_all:
  "map (\<lambda>b. dtable ! unat b) base64_table = map word_of_nat [0..<64]"
  by code_simp

lemma dtable_newline: "dtable ! unat newline = 0x80"
  by code_simp

lemma dtable_eq: "dtable ! unat eq_sign = 0"
  by code_simp

lemma length_table: "length base64_table = 64"
  by (simp add: base64_table_def)

lemma table_no_eq: "eq_sign \<notin> set base64_table"
  by code_simp

lemma dtable_table: "i < 64 \<Longrightarrow> dtable ! unat (base64_table ! i) = word_of_nat i"
  using arg_cong [OF dtable_table_all, of "\<lambda>xs. xs ! i"] by (simp add: length_table)

lemma table_neq_eq: "i < 64 \<Longrightarrow> base64_table ! i \<noteq> eq_sign"
  using table_no_eq by (metis length_table nth_mem)

section \<open>Round trip\<close>

lemma table_entry:
  "x < 64 \<Longrightarrow> dtable ! unat (base64_table ! unat x) = (x :: byte)"
  "x < 64 \<Longrightarrow> dtable ! unat (base64_table ! unat x) \<noteq> 0x80"
  "x < 64 \<Longrightarrow> base64_table ! unat x \<noteq> eq_sign"
proof -
  assume x: "x < 64"
  then have i: "unat x < 64" by (simp add: word_less_nat_alt)
  show e: "dtable ! unat (base64_table ! unat x) = x" using dtable_table [OF i] by simp
  show "dtable ! unat (base64_table ! unat x) \<noteq> 0x80"
    unfolding e using x by auto
  show "base64_table ! unat x \<noteq> eq_sign" using table_neq_eq [OF i] .
qed

text \<open>The six-bit groups of three bytes.\<close>

lemma byte_bits: "n < 8 \<Longrightarrow> n = 0 \<or> n = 1 \<or> n = 2 \<or> n = 3 \<or> n = 4 \<or> n = 5 \<or> n = 6 \<or> n = (7::nat)"
  by linarith

lemma byte_eqI:
  fixes x y :: byte
  assumes "bit x 0 = bit y 0" "bit x 1 = bit y 1" "bit x 2 = bit y 2" "bit x 3 = bit y 3"
    "bit x 4 = bit y 4" "bit x 5 = bit y 5" "bit x 6 = bit y 6" "bit x 7 = bit y 7"
  shows "x = y"
proof (rule bit_word_eqI)
  fix n assume "n < LENGTH(8)"
  then have "n < 8" by simp
  from byte_bits [OF this] show "bit x n = bit y n" by (elim disjE) (simp_all only: assms)
qed

lemma sextet_lessI:
  fixes x :: byte
  assumes "\<not> bit x 6" and "\<not> bit x 7"
  shows "x < 64"
proof -
  have "take_bit 6 x = x" by (rule byte_eqI) (use assms in \<open>simp_all add: bit_take_bit_iff\<close>)
  then have "unat x = take_bit 6 (unat x)" by (metis unsigned_take_bit_eq)
  then have "unat x < 64" using take_bit_nat_less_exp [of 6 "unat x"] by simp
  then show ?thesis by (simp add: word_less_nat_alt)
qed

lemma byte_masks: "(0x03 :: byte) = mask 2" "(0x0f :: byte) = mask 4" "(0x3f :: byte) = mask 6"
  by (simp_all add: mask_eq_exp_minus_1)

lemma sextet_less:
  fixes a b c :: byte
  shows "drop_bit 2 a < 64" "push_bit 4 (a AND 0x03) OR drop_bit 4 b < 64"
    "push_bit 2 (b AND 0x0f) OR drop_bit 6 c < 64" "c AND 0x3f < 64"
    "push_bit 4 (a AND 0x03) < 64" "push_bit 2 (b AND 0x0f) < 64"
  unfolding byte_masks by (rule sextet_lessI; simp add: bit_simps; auto dest: bit_imp_le_length)+

lemma decode_block_quad:
  fixes a b c :: byte
  shows "decode_block [drop_bit 2 a, push_bit 4 (a AND 0x03) OR drop_bit 4 b,
           push_bit 2 (b AND 0x0f) OR drop_bit 6 c, c AND 0x3f] = [a, b, c]"
    and "take 2 (decode_block [drop_bit 2 a, push_bit 4 (a AND 0x03) OR drop_bit 4 b,
           push_bit 2 (b AND 0x0f), 0]) = [a, b]"
    and "take 1 (decode_block [drop_bit 2 a, push_bit 4 (a AND 0x03), 0, 0]) = [a]"
  unfolding decode_block_def byte_masks
  by (simp; intro conjI byte_eqI; simp add: bit_simps)+

text \<open>One decoded character, and a whole quartet.\<close>

lemma sextet_neq: "x < 64 \<Longrightarrow> x \<noteq> (0x80 :: byte)"
  by auto

lemma decode_char:
  "x < 64 \<Longrightarrow> length block < 3 \<Longrightarrow>
   base64_decode_loop (base64_table ! unat x # bs) block pad out =
   base64_decode_loop bs (block @ [x]) pad out"
  using sextet_neq [of x] by (simp add: table_entry)

lemma decode_last:
  "x < 64 \<Longrightarrow> length block = 3 \<Longrightarrow>
   base64_decode_loop (base64_table ! unat x # bs) block 0 out =
   base64_decode_loop bs [] 0 (out @ decode_block (block @ [x]))"
  using sextet_neq [of x] by (simp add: table_entry Let_def)

lemma decode_pads:
  "length block = 3 \<Longrightarrow> pad < 2 \<Longrightarrow>
   base64_decode_loop (eq_sign # bs) block pad out =
   Some (out @ take (2 - pad) (decode_block (block @ [0])))"
  "length block = 2 \<Longrightarrow>
   base64_decode_loop (eq_sign # bs) block pad out =
   base64_decode_loop bs (block @ [0]) (pad + 1) out"
  using dtable_eq by (auto simp: decode_block_def less_2_cases_iff Let_def)

lemma decode_newline:
  "base64_decode_loop (newline # bs) block pad out = base64_decode_loop bs block pad out"
  using dtable_newline by simp

lemma decode_quartets:
  assumes "x0 < 64" "x1 < 64"
  shows "x2 < 64 \<Longrightarrow> x3 < 64 \<Longrightarrow>
      base64_decode_loop (base64_table ! unat x0 # base64_table ! unat x1 #
        base64_table ! unat x2 # base64_table ! unat x3 # bs) [] 0 out =
      base64_decode_loop bs [] 0 (out @ decode_block [x0, x1, x2, x3])"
    and "x2 < 64 \<Longrightarrow>
      base64_decode_loop (base64_table ! unat x0 # base64_table ! unat x1 #
        base64_table ! unat x2 # eq_sign # bs) [] 0 out =
      Some (out @ take 2 (decode_block [x0, x1, x2, 0]))"
    and "base64_decode_loop (base64_table ! unat x0 # base64_table ! unat x1 #
        eq_sign # eq_sign # bs) [] 0 out =
      Some (out @ take 1 (decode_block [x0, x1, 0, 0]))"
  using assms by (simp_all add: decode_char decode_last decode_pads del: base64_decode_loop.simps)

lemma decode_encode_loop:
  "base64_decode_loop (base64_encode_loop src l) [] 0 out = Some (out @ src)"
proof (induction src l arbitrary: out rule: base64_encode_loop.induct)
  case (1 a b c rest l)
  have "base64_decode_loop (base64_quad a b c @ ws) [] 0 out =
      base64_decode_loop ws [] 0 (out @ [a, b, c])" for ws
    by (simp only: base64_quad_def append.simps decode_quartets(1) sextet_less decode_block_quad)
  with 1 show ?case
    by (simp add: decode_newline del: base64_decode_loop.simps)
next
  case (2 a b l)
  show ?case
    by (simp only: base64_encode_loop.simps decode_quartets(2) sextet_less decode_block_quad)
next
  case (3 a l)
  show ?case
    by (simp only: base64_encode_loop.simps decode_quartets(3) sextet_less decode_block_quad)
next
  case (4 l)
  then show ?case using dtable_newline by simp
qed

text \<open>The decoder counts four characters for every three bytes begun.\<close>

lemma base64_count_simps [simp]:
  "base64_count [] = 0"
  "base64_count (b # bs) = (if dtable ! unat b \<noteq> 0x80 then 1 else 0) + base64_count bs"
  "base64_count (xs @ ys) = base64_count xs + base64_count ys"
  by (simp_all add: base64_count_def)

lemma count_entry:
  "(x :: byte) < 64 \<Longrightarrow> base64_count (base64_table ! unat x # bs) = Suc (base64_count bs)"
  "base64_count (eq_sign # bs) = Suc (base64_count bs)"
  "base64_count (newline # bs) = base64_count bs"
  using table_entry(2) [of x] dtable_eq dtable_newline by simp_all

lemma count_encode_loop: "base64_count (base64_encode_loop src l) = (length src + 2) div 3 * 4"
proof (induction src l rule: base64_encode_loop.induct)
  case (1 a b c rest l)
  have "base64_count (base64_quad a b c) = 4"
    by (simp only: base64_quad_def count_entry sextet_less base64_count_simps(1))
  moreover have "(length (a # b # c # rest) + 2) div 3 = (length rest + 2) div 3 + 1"
    using div_add_self2 [of 3 "length rest + 2"] by simp
  ultimately show ?case using 1
    by (simp only: base64_encode_loop.simps base64_count_simps(3) count_entry(3) if_distrib
        add_mult_distrib split: if_split) simp
next
  case (2 a b l)
  have "base64_count (base64_encode_loop [a, b] l) = 4"
    by (simp only: base64_encode_loop.simps count_entry sextet_less base64_count_simps(1))
  then show ?case by simp
next
  case (3 a l)
  have "base64_count (base64_encode_loop [a] l) = 4"
    by (simp only: base64_encode_loop.simps count_entry sextet_less base64_count_simps(1))
  then show ?case by simp
next
  case (4 l)
  then show ?case using dtable_newline by simp
qed

lemma dtable_nul: "dtable ! 0 = 0x80"
  by code_simp

lemma decode_nul: "base64_decode_loop (bs @ [0]) block pad out = base64_decode_loop bs block pad out"
  by (induction bs block pad out rule: base64_decode_loop.induct) (simp_all add: dtable_nul Let_def)

text \<open>
  C30: encoding and decoding again is the identity.  Whatever non-empty byte string
  \<open>base64_encode\<close> encoded, \<open>base64_decode\<close> of its output, with or without the terminating NUL,
  returns it; the encoding of the empty string is rejected.
\<close>

theorem base64_roundtrip:
  assumes "base64_encode w True src = Some out"
  shows "(src \<noteq> [] \<longrightarrow> base64_decode True (butlast out) = Some src \<and> base64_decode True out = Some src) \<and>
         (src = [] \<longrightarrow> base64_decode True out = None)"
proof -
  have out: "out = base64_encode_loop src 0 @ [0]"
    using assms by (simp add: base64_encode_def split: if_splits)
  have some: "base64_decode True (butlast out) = Some src \<and> base64_decode True out = Some src"
    if "src \<noteq> []"
  proof -
    have "(length src + 2) div 3 \<noteq> 0" using that by (cases src) simp_all
    then show ?thesis
      using decode_encode_loop [of src 0 "[]"]
      by (simp add: out base64_decode_def count_encode_loop decode_nul dtable_nul)
  qed
  have none: "base64_decode True out = None" if "src = []"
    using that by (simp add: out base64_decode_def dtable_nul)
  show ?thesis using some none by blast
qed

theorem base64_roundtrip_witness:
  "base64_encode 64 True [1, 2, 250, 255] = Some (str ''AQL6/w=='' @ [10, 0]) \<and>
   base64_decode True (str ''AQL6/w=='' @ [10]) = Some [1, 2, 250, 255]"
proof -
  have e: "base64_encode 64 True [1, 2, 250, 255] = Some (str ''AQL6/w=='' @ [10, 0])"
  proof -
    have "base64_encode_loop [1, 2, 250, 255] 0 = str ''AQL6/w=='' @ [10]" by code_simp
    then show ?thesis by (simp add: base64_encode_def base64_olen_def)
  qed
  show ?thesis using base64_roundtrip [OF e] by (simp add: e)
qed

section \<open>The allocated sizes\<close>

lemma length_quad [simp]: "length (base64_quad a b c) = 4"
  by (simp add: base64_quad_def)

lemma length_encode_loop:
  "length (base64_encode_loop src l) \<le> 4 * ((length src + 2) div 3) + (4 * (length src div 3) + l) div 72 + 1"
proof (induction src l rule: base64_encode_loop.induct)
  case (1 a b c rest l)
  have d: "(length (a # b # c # rest) + 2) div 3 = (length rest + 2) div 3 + 1"
      "length (a # b # c # rest) div 3 = length rest div 3 + 1"
    using div_add_self2 [of 3 "length rest + 2"] div_add_self2 [of 3 "length rest"] by simp_all
  show ?case
  proof (cases "72 \<le> l + 4")
    case True
    have "(4 * (length rest div 3) + 0) div 72 + 1 = (4 * (length rest div 3) + 72) div 72" by simp
    also have "\<dots> \<le> (4 * (length rest div 3 + 1) + l) div 72"
      by (rule div_le_mono) (use True in simp)
    finally show ?thesis using 1(1) [OF True] True by (simp only: d base64_encode_loop.simps) simp
  next
    case False
    with 1(2) [OF False] show ?thesis by (simp only: d base64_encode_loop.simps) (simp add: ac_simps)
  qed
qed simp_all

lemma olen_enough:
  "4 * ((n + 2) div 3) + 4 * (n div 3) div 72 + 2 \<le> 4 * n div 3 + 4 + (4 * n div 3 + 4) div 72 + (1 :: nat)"
proof -
  define k where "k = n div 3"
  have "n = 3 * k \<or> n = 3 * k + 1 \<or> n = 3 * k + 2" unfolding k_def by presburger
  then show ?thesis
  proof (elim disjE)
    assume n: "n = 3 * k"
    have "4 * k div 72 \<le> (4 * k + 4) div 72" by (rule div_le_mono) simp
    moreover have "(3 * k + 2) div 3 = k" "4 * (3 * k) div 3 = 4 * k" by simp_all
    ultimately show ?thesis by (simp add: n)
  next
    assume n: "n = 3 * k + 1"
    have "4 * k div 72 \<le> (4 * k + 5) div 72" by (rule div_le_mono) simp
    moreover have "(3 * k + 1 + 2) div 3 = k + 1" "4 * (3 * k + 1) div 3 = 4 * k + 1" "(3 * k + 1) div 3 = k"
      by simp_all
    ultimately show ?thesis by (simp only: n) simp
  next
    assume n: "n = 3 * k + 2"
    have "4 * k div 72 \<le> (4 * k + 6) div 72" by (rule div_le_mono) simp
    moreover have "(3 * k + 2 + 2) div 3 = k + 1" "4 * (3 * k + 2) div 3 = 4 * k + 2" "(3 * k + 2) div 3 = k"
      by simp_all
    ultimately show ?thesis by (simp only: n) simp
  qed
qed

text \<open>The overflow test \<open>olen < len\<close> catches every wrap of the size computation.\<close>

lemma olen_exact:
  assumes w: "8 \<le> w" and n: "n < 2 ^ w" and guard: "n \<le> base64_olen w n"
  shows "base64_olen w n = 4 * n div 3 + 4 + (4 * n div 3 + 4) div 72 + 1"
proof -
  define M :: nat where "M = 2 ^ w"
  have "(2 :: nat) ^ 8 \<le> 2 ^ w" using w by (rule power_increasing) simp
  then have M: "256 \<le> M" by (simp add: M_def)
  define v where "v = n * 4 mod M"
  have v: "v < M" using M by (simp add: v_def)
  have o1: "(v div 3 + 4) mod M = v div 3 + 4" using v M by simp
  have o2: "(v div 3 + 4 + (v div 3 + 4) div 72) mod M = v div 3 + 4 + (v div 3 + 4) div 72"
    using v M by (intro mod_less) linarith
  have o3: "(v div 3 + 4 + (v div 3 + 4) div 72 + 1) mod M = v div 3 + 4 + (v div 3 + 4) div 72 + 1"
    using v M by (intro mod_less) linarith
  have olen: "base64_olen w n = v div 3 + 4 + (v div 3 + 4) div 72 + 1"
    unfolding base64_olen_def Let_def M_def [symmetric] v_def [symmetric] o1 o2 o3 ..
  have "4 * n < M"
  proof (rule ccontr)
    assume "\<not> 4 * n < M"
    then have "M \<le> 4 * n" by simp
    moreover have "n * 4 = n * 4 div M * M + v" by (simp add: v_def)
    moreover have "1 \<le> n * 4 div M" using \<open>M \<le> 4 * n\<close> M by (simp add: Suc_leI div_greater_zero_iff)
    then have "M \<le> n * 4 div M * M" by simp
    ultimately have "M + v \<le> 4 * n" by linarith
    with guard v M show False unfolding olen by linarith
  qed
  then have "v = 4 * n" by (simp add: v_def mult.commute)
  then show ?thesis by (simp add: olen)
qed

lemma decode_loop_length:
  "base64_decode_loop bs block pad out = Some r \<Longrightarrow> length block < 4 \<Longrightarrow>
   length r \<le> length out + (length block + base64_count bs) div 4 * 3"
proof (induction bs block pad out rule: base64_decode_loop.induct)
  case (1 block pad out)
  then show ?case by simp
next
  case (2 b bs block pad out)
  show ?case
  proof (cases "dtable ! unat b = 0x80")
    case True
    with 2(1) [OF refl True] 2(4,5) show ?thesis by simp
  next
    case False
    let ?pad = "if b = eq_sign then pad + 1 else pad"
    show ?thesis
    proof (cases "length block = 3")
      case three: True
      have l: "length (decode_block (block @ [dtable ! unat b])) = 3" by (simp add: decode_block_def)
      have q: "(length block + base64_count (b # bs)) div 4 = base64_count bs div 4 + 1"
        using three False by simp
      show ?thesis
      proof (cases "?pad = 0")
        case True
        with 2(2) [OF refl False refl refl _ refl] 2(4) False three l q show ?thesis
          by (simp add: Let_def)
      next
        case pad: False
        with 2(4) False three l q show ?thesis
          by (auto simp: Let_def split: if_splits)
      qed
    next
      case three: False
      with 2(3) [OF refl False refl refl] 2(4,5) False show ?thesis
        by (simp add: Let_def)
    qed
  qed
qed

text \<open>
  C32: neither coder writes outside the buffer it allocates.  The encoder's output with its NUL fits
  in the \<open>olen\<close> bytes it asked for, for every length and \<open>size_t\<close> width: whenever the computation
  of \<open>olen\<close> wraps, the test \<open>olen < len\<close> has already refused.  The decoder writes at most the
  \<open>count / 4 * 3\<close> bytes it asked for.
\<close>

theorem base64_bounds:
  "(8 \<le> w \<and> length src < 2 ^ w \<and> base64_encode w ok src = Some out \<longrightarrow>
      length out \<le> base64_olen w (length src)) \<and>
   (base64_decode ok src = Some out' \<longrightarrow> length out' \<le> base64_count src div 4 * 3)"
proof (intro conjI impI, elim conjE)
  assume a: "8 \<le> w" "length src < 2 ^ w" "base64_encode w ok src = Some out"
  then have out: "out = base64_encode_loop src 0 @ [0]" and g: "length src \<le> base64_olen w (length src)"
    by (auto simp: base64_encode_def split: if_splits)
  show "length out \<le> base64_olen w (length src)"
    using length_encode_loop [of src 0] olen_enough [of "length src"] olen_exact [OF a(1,2) g]
    by (simp add: out)
next
  assume "base64_decode ok src = Some out'"
  then show "length out' \<le> base64_count src div 4 * 3"
    using decode_loop_length [of src "[]" 0 "[]" out']
    by (simp add: base64_decode_def Let_def split: if_splits)
qed

theorem base64_bounds_witness:
  "base64_encode 32 True [1, 2, 250, 255] = Some (str ''AQL6/w=='' @ [10, 0]) \<and>
   length (str ''AQL6/w=='' @ [10, 0]) \<le> base64_olen 32 (length [1, 2, 250, 255 :: byte])"
proof -
  have "base64_encode_loop [1, 2, 250, 255] 0 = str ''AQL6/w=='' @ [10]" by code_simp
  then have e: "base64_encode 32 True [1, 2, 250, 255] = Some (str ''AQL6/w=='' @ [10, 0])"
    by (simp add: base64_encode_def base64_olen_def)
  show ?thesis using base64_bounds [where w = 32 and ok = True and src = "[1, 2, 250, 255]" and out = "str ''AQL6/w=='' @ [10, 0]"] by (simp add: e)
qed

end
