(* ===== verification/Sha1.thy ===== *)
theory Sha1
  imports Prelude
begin

text \<open>
  SHA-1 (\<open>wsh264/src/sha1.c\<close>), which the handshake hashes the client's key with: the context, its
  byte-wise input, padding and result, against a specification in the form of the standard
  (padding, message schedule and a single 80-step round function).
\<close>

section \<open>The implementation\<close>

record SHA1Context =
  Intermediate_Hash :: "u32 list"
  Length_Low :: u32
  Length_High :: u32
  Message_Block_Index :: nat
  Message_Block :: "byte list"
  Computed :: bool
  Corrupted :: int

abbreviation (input) shaSuccess :: int where "shaSuccess \<equiv> 0"
abbreviation (input) shaNull :: int where "shaNull \<equiv> 1"
abbreviation (input) shaStateError :: int where "shaStateError \<equiv> 3"

definition SHA1CircularShift :: "nat \<Rightarrow> u32 \<Rightarrow> u32" where
  "SHA1CircularShift bits w = push_bit bits w OR drop_bit (32 - bits) w"

definition SHA1Reset :: "SHA1Context \<Rightarrow> SHA1Context" where
  "SHA1Reset context = context
     \<lparr>Length_Low := 0, Length_High := 0, Message_Block_Index := 0,
      Intermediate_Hash := [0x67452301, 0xEFCDAB89, 0x98BADCFE, 0x10325476, 0xC3D2E1F0],
      Computed := False, Corrupted := 0\<rparr>"

text \<open>The array \<open>W\<close>: sixteen big-endian words of the block, then the recurrence.\<close>

definition message_words :: "byte list \<Rightarrow> u32 list" where
  "message_words block = map (\<lambda>t.
     push_bit 24 (ucast (block ! (t * 4))) OR push_bit 16 (ucast (block ! (t * 4 + 1))) OR
     push_bit 8 (ucast (block ! (t * 4 + 2))) OR ucast (block ! (t * 4 + 3))) [0..<16]"

definition schedule :: "byte list \<Rightarrow> u32 list" where
  "schedule block = fold (\<lambda>t W. W @
     [SHA1CircularShift 1 (W ! (t - 3) XOR W ! (t - 8) XOR W ! (t - 14) XOR W ! (t - 16))])
     [16..<80] (message_words block)"

text \<open>One turn of the four loops, which differ in the function of \<open>B, C, D\<close> and the constant.\<close>

definition sha1_round ::
  "(u32 \<Rightarrow> u32 \<Rightarrow> u32 \<Rightarrow> u32) \<Rightarrow> u32 \<Rightarrow> u32 list \<Rightarrow> nat \<Rightarrow>
   u32 \<times> u32 \<times> u32 \<times> u32 \<times> u32 \<Rightarrow> u32 \<times> u32 \<times> u32 \<times> u32 \<times> u32" where
  "sha1_round f k W t = (\<lambda>(A, B, C, D, E).
     (SHA1CircularShift 5 A + f B C D + E + W ! t + k, A, SHA1CircularShift 30 B, C, D))"

definition SHA1ProcessMessageBlock :: "SHA1Context \<Rightarrow> SHA1Context" where
  "SHA1ProcessMessageBlock context =
     (let H = Intermediate_Hash context;
          W = schedule (Message_Block context);
          s0 = (H ! 0, H ! 1, H ! 2, H ! 3, H ! 4);
          s1 = fold (sha1_round (\<lambda>B C D. (B AND C) OR (NOT B AND D)) 0x5A827999 W) [0..<20] s0;
          s2 = fold (sha1_round (\<lambda>B C D. B XOR C XOR D) 0x6ED9EBA1 W) [20..<40] s1;
          s3 = fold (sha1_round (\<lambda>B C D. (B AND C) OR (B AND D) OR (C AND D)) 0x8F1BBCDC W)
                 [40..<60] s2;
          (A, B, C, D, E) = fold (sha1_round (\<lambda>B C D. B XOR C XOR D) 0xCA62C1D6 W) [60..<80] s3
      in context\<lparr>Intermediate_Hash := [H ! 0 + A, H ! 1 + B, H ! 2 + C, H ! 3 + D, H ! 4 + E],
                 Message_Block_Index := 0\<rparr>)"

definition put_byte :: "SHA1Context \<Rightarrow> byte \<Rightarrow> SHA1Context" where
  "put_byte context b = context
     \<lparr>Message_Block := (Message_Block context)[Message_Block_Index context := b],
      Message_Block_Index := Message_Block_Index context + 1\<rparr>"

text \<open>The body of the loop of \<open>SHA1Input\<close>.\<close>

definition input_byte :: "SHA1Context \<Rightarrow> byte \<Rightarrow> SHA1Context" where
  "input_byte context b =
     (let context = put_byte context b;
          context = context\<lparr>Length_Low := Length_Low context + 8\<rparr>;
          context =
            (if Length_Low context = 0 then
               let context = context\<lparr>Length_High := Length_High context + 1\<rparr>
               in if Length_High context = 0 then context\<lparr>Corrupted := 1\<rparr> else context
             else context)
      in if Message_Block_Index context = 64 then SHA1ProcessMessageBlock context else context)"

fun input_loop :: "SHA1Context \<Rightarrow> byte list \<Rightarrow> SHA1Context" where
  "input_loop context [] = context"
| "input_loop context (b # bs) =
     (if Corrupted context \<noteq> 0 then context else input_loop (input_byte context b) bs)"

definition SHA1Input :: "SHA1Context \<Rightarrow> byte list \<Rightarrow> int \<times> SHA1Context" where
  "SHA1Input context message_array =
     (if message_array = [] then (shaSuccess, context)
      else if Computed context then (shaStateError, context\<lparr>Corrupted := shaStateError\<rparr>)
      else if Corrupted context \<noteq> 0 then (Corrupted context, context)
      else (shaSuccess, input_loop context message_array))"

text \<open>\<open>while (Message_Block_Index < n) Message_Block[Message_Block_Index++] = 0\<close>.\<close>

function pad_zeros :: "nat \<Rightarrow> SHA1Context \<Rightarrow> SHA1Context" where
  "pad_zeros n context =
     (if Message_Block_Index context < n then pad_zeros n (put_byte context 0) else context)"
  by pat_completeness auto
termination
  by (relation "measure (\<lambda>(n, context). n - Message_Block_Index context)") (auto simp: put_byte_def)

declare pad_zeros.simps [simp del]

definition SHA1PadMessage :: "SHA1Context \<Rightarrow> SHA1Context" where
  "SHA1PadMessage context =
     (let context =
        (if 55 < Message_Block_Index context then
           pad_zeros 56 (SHA1ProcessMessageBlock (pad_zeros 64 (put_byte context 0x80)))
         else pad_zeros 56 (put_byte context 0x80));
        hi = Length_High context; lo = Length_Low context
      in SHA1ProcessMessageBlock (context\<lparr>Message_Block := blit (Message_Block context) 56
           [ucast (drop_bit 24 hi), ucast (drop_bit 16 hi), ucast (drop_bit 8 hi), ucast hi,
            ucast (drop_bit 24 lo), ucast (drop_bit 16 lo), ucast (drop_bit 8 lo), ucast lo]\<rparr>))"

definition SHA1Result :: "SHA1Context \<Rightarrow> int \<times> byte list option \<times> SHA1Context" where
  "SHA1Result context =
     (if Corrupted context \<noteq> 0 then (Corrupted context, None, context)
      else
        let context =
          (if \<not> Computed context then
             (SHA1PadMessage context)
               \<lparr>Message_Block := replicate 64 0, Length_Low := 0, Length_High := 0, Computed := True\<rparr>
           else context)
        in (shaSuccess,
            Some (map (\<lambda>i. ucast (drop_bit (8 * (3 - i mod 4)) (Intermediate_Hash context ! (i div 4))))
              [0..<20]),
            context))"

section \<open>The specification, in the form of the standard\<close>

definition rotl :: "nat \<Rightarrow> u32 \<Rightarrow> u32" where
  "rotl n w = word_rotl n w"

definition sha1_f :: "nat \<Rightarrow> u32 \<Rightarrow> u32 \<Rightarrow> u32 \<Rightarrow> u32" where
  "sha1_f t b c d =
     (if t < 20 then (b AND c) OR (NOT b AND d)
      else if t < 40 then b XOR c XOR d
      else if t < 60 then (b AND c) OR (b AND d) OR (c AND d)
      else b XOR c XOR d)"

definition sha1_K :: "nat \<Rightarrow> u32" where
  "sha1_K t = (if t < 20 then 0x5A827999 else if t < 40 then 0x6ED9EBA1
               else if t < 60 then 0x8F1BBCDC else 0xCA62C1D6)"

function sha1_W :: "byte list \<Rightarrow> nat \<Rightarrow> u32" where
  "sha1_W block t =
     (if t < 16 then word_of_nat (be_value (slice (4 * t) 4 block))
      else rotl 1 (sha1_W block (t - 3) XOR sha1_W block (t - 8) XOR sha1_W block (t - 14) XOR
                   sha1_W block (t - 16)))"
  by pat_completeness auto
termination by (relation "measure snd") auto

declare sha1_W.simps [simp del]

definition sha1_step ::
  "byte list \<Rightarrow> nat \<Rightarrow> u32 \<times> u32 \<times> u32 \<times> u32 \<times> u32 \<Rightarrow> u32 \<times> u32 \<times> u32 \<times> u32 \<times> u32" where
  "sha1_step block t = (\<lambda>(a, b, c, d, e).
     (rotl 5 a + sha1_f t b c d + e + sha1_W block t + sha1_K t, a, rotl 30 b, c, d))"

definition sha1_compress :: "u32 list \<Rightarrow> byte list \<Rightarrow> u32 list" where
  "sha1_compress H block =
     (case fold (sha1_step block) [0..<80] (H ! 0, H ! 1, H ! 2, H ! 3, H ! 4) of
        (a, b, c, d, e) \<Rightarrow> [H ! 0 + a, H ! 1 + b, H ! 2 + c, H ! 3 + d, H ! 4 + e])"

function chunks :: "byte list \<Rightarrow> byte list list" where
  "chunks xs = (if length xs < 64 then [] else take 64 xs # chunks (drop 64 xs))"
  by pat_completeness auto
termination by (relation "measure length") auto

declare chunks.simps [simp del]

definition sha1_pad :: "byte list \<Rightarrow> byte list" where
  "sha1_pad msg = msg @ [0x80] @ replicate ((119 - length msg mod 64) mod 64) 0 @ be_bytes 8 (8 * length msg)"

definition sha1_init :: "u32 list" where
  "sha1_init = [0x67452301, 0xEFCDAB89, 0x98BADCFE, 0x10325476, 0xC3D2E1F0]"

definition sha1 :: "byte list \<Rightarrow> byte list" where
  "sha1 msg = concat (map (\<lambda>w. be_bytes 4 (unat w)) (foldl sha1_compress sha1_init (chunks (sha1_pad msg))))"

section \<open>The block function\<close>

lemma circular_shift_rotl:
  "0 < n \<Longrightarrow> n < 32 \<Longrightarrow> SHA1CircularShift n w = rotl n w"
proof -
  assume n: "0 < n" "n < 32"
  show ?thesis
  proof (rule bit_word_eqI)
    fix i assume "i < LENGTH(32)"
    then have i: "i < 32" by simp
    have "(i + (32 - n)) mod 32 = (if i < n then i + (32 - n) else i - n)"
    proof (cases "i < n")
      case False
      then have "i + (32 - n) = 32 + (i - n)" using n by simp
      then show ?thesis using i False by (simp only: if_False mod_add_self1) simp
    qed (use n in simp)
    then have "bit (rotl n w) i = (if i < n then bit w (i + (32 - n)) else bit w (i - n))"
      using i n by (simp add: rotl_def bit_word_rotl_iff)
    moreover have "bit w j \<Longrightarrow> j < 32" for j using bit_imp_le_length [of w j] by simp
    then have "bit (SHA1CircularShift n w) i = (if i < n then bit w (i + (32 - n)) else bit w (i - n))"
      using i n by (auto simp: SHA1CircularShift_def bit_simps ac_simps) (fastforce simp: ac_simps)+
    ultimately show "bit (SHA1CircularShift n w) i = bit (rotl n w) i" by simp
  qed
qed

lemma or_is_add: "x AND y = 0 \<Longrightarrow> x OR y = x + (y :: u32)"
  by (simp add: disjunctive_add_eq_or)

lemma four_bytes_value:
  fixes b0 b1 b2 b3 :: byte
  shows "push_bit 24 (ucast b0) OR push_bit 16 (ucast b1) OR push_bit 8 (ucast b2) OR ucast b3 =
         (word_of_nat (be_value [b0, b1, b2, b3]) :: u32)"
proof -
  have bb: "bit b n \<Longrightarrow> n < 8" for b :: byte and n
    using bit_imp_le_length [of b n] by simp
  have z: "push_bit 8 (ucast b2) AND (ucast b3 :: u32) = 0"
    "push_bit 16 (ucast b1) AND (push_bit 8 (ucast b2) OR (ucast b3 :: u32)) = 0"
    "push_bit 24 (ucast b0) AND (push_bit 16 (ucast b1) OR push_bit 8 (ucast b2) OR (ucast b3 :: u32)) = 0"
    by (rule bit_word_eqI; use bb in \<open>fastforce simp: bit_simps\<close>)+
  have u: "(ucast b :: u32) = word_of_nat (unat b)" for b :: byte
    by (simp add: unsigned_ucast_eq word_unat_eq_iff unat_of_nat take_bit_nat_eq_self)
  have "push_bit 24 (ucast b0) OR push_bit 16 (ucast b1) OR push_bit 8 (ucast b2) OR ucast b3 =
      push_bit 24 (ucast b0) + (push_bit 16 (ucast b1) + (push_bit 8 (ucast b2) + (ucast b3 :: u32)))"
    by (subst or_is_add [OF z(3)], subst or_is_add [OF z(2)], subst or_is_add [OF z(1)]) (rule refl)
  also have "\<dots> = word_of_nat (unat b0 * 2 ^ 24 + (unat b1 * 2 ^ 16 + (unat b2 * 2 ^ 8 + unat b3)))"
    by (simp only: u push_bit_eq_mult of_nat_add of_nat_mult of_nat_power of_nat_numeral)
  also have "unat b0 * 2 ^ 24 + (unat b1 * 2 ^ 16 + (unat b2 * 2 ^ 8 + unat b3)) =
      be_value [b0, b1, b2, b3]" by (simp add: be_value_def)
  finally show ?thesis .
qed

lemma message_words_spec:
  "t < 16 \<Longrightarrow> length block = 64 \<Longrightarrow> message_words block ! t = sha1_W block t"
proof -
  assume t: "t < 16" and len: "length block = 64"
  have "slice (4 * t) 4 block = [block ! (t * 4), block ! (t * 4 + 1), block ! (t * 4 + 2), block ! (t * 4 + 3)]"
    using t len by (intro nth_equalityI) (auto simp: slice_def less_Suc_eq numeral_eq_Suc)
  then show ?thesis
    using t by (simp add: message_words_def sha1_W.simps [of block t] four_bytes_value)
qed

lemma schedule_prefix:
  assumes "length block = 64"
  shows "16 \<le> n \<Longrightarrow> fold (\<lambda>t W. W @
     [SHA1CircularShift 1 (W ! (t - 3) XOR W ! (t - 8) XOR W ! (t - 14) XOR W ! (t - 16))])
     [16..<n] (message_words block) = map (sha1_W block) [0..<n]"
proof (induction n)
  case (Suc n)
  show ?case
  proof (cases "16 \<le> n")
    case True
    let ?W = "map (sha1_W block) [0..<n]"
    have "SHA1CircularShift 1 (?W ! (n - 3) XOR ?W ! (n - 8) XOR ?W ! (n - 14) XOR ?W ! (n - 16)) =
        sha1_W block n"
      using True by (simp add: sha1_W.simps [of block n] circular_shift_rotl)
    with Suc True show ?thesis by simp
  next
    case False
    then have "Suc n = 16" using Suc.prems by simp
    then show ?thesis using message_words_spec [OF _ assms]
      by (simp only:) (rule nth_equalityI; simp add: message_words_def [of block, THEN arg_cong [of _ _ length]])
  qed
qed simp

lemma schedule_spec: "length block = 64 \<Longrightarrow> t < 80 \<Longrightarrow> schedule block ! t = sha1_W block t"
proof -
  assume "length block = 64" "t < 80"
  moreover from this have "schedule block = map (sha1_W block) [0..<80]"
    unfolding schedule_def by (intro schedule_prefix) simp_all
  ultimately show ?thesis by (metis nth_map_upt add_0 diff_zero)
qed

lemma fold_rounds:
  "(\<And>t s. t \<in> set ts \<Longrightarrow> f t s = g t s) \<Longrightarrow> fold f ts s = fold g ts s"
  by (induction ts arbitrary: s) simp_all

lemma process_block_compress:
  assumes "length (Message_Block context) = 64"
  shows "SHA1ProcessMessageBlock context = context
    \<lparr>Intermediate_Hash := sha1_compress (Intermediate_Hash context) (Message_Block context),
     Message_Block_Index := 0\<rparr>"
proof -
  let ?W = "schedule (Message_Block context)" and ?step = "sha1_step (Message_Block context)"
  have W: "?W ! t = sha1_W (Message_Block context) t" if "t < 80" for t
    using schedule_spec [OF assms that] .
  have rounds:
    "fold (sha1_round (\<lambda>B C D. (B AND C) OR (NOT B AND D)) 0x5A827999 ?W) [0..<20] s = fold ?step [0..<20] s"
    "fold (sha1_round (\<lambda>B C D. B XOR C XOR D) 0x6ED9EBA1 ?W) [20..<40] s = fold ?step [20..<40] s"
    "fold (sha1_round (\<lambda>B C D. (B AND C) OR (B AND D) OR (C AND D)) 0x8F1BBCDC ?W) [40..<60] s =
       fold ?step [40..<60] s"
    "fold (sha1_round (\<lambda>B C D. B XOR C XOR D) 0xCA62C1D6 ?W) [60..<80] s = fold ?step [60..<80] s"
    for s
    by (rule fold_rounds;
        auto simp: sha1_round_def sha1_step_def sha1_f_def sha1_K_def W circular_shift_rotl)+
  have "[0..<80] = [0..<20] @ [20..<40] @ [40..<60] @ [60..<80 :: nat]"
    using upt_add_eq_append [of 0 20 60] upt_add_eq_append [of 20 40 40] upt_add_eq_append [of 40 60 20]
    by simp
  moreover obtain A B C D E where "fold ?step [60..<80] (fold ?step [40..<60] (fold ?step [20..<40]
      (fold ?step [0..<20] (Intermediate_Hash context ! 0, Intermediate_Hash context ! 1,
        Intermediate_Hash context ! 2, Intermediate_Hash context ! 3,
        Intermediate_Hash context ! 4)))) = (A, B, C, D, E)"
    by (metis prod_cases5)
  ultimately show ?thesis
    by (simp only: SHA1ProcessMessageBlock_def Let_def rounds sha1_compress_def fold_append comp_def
        prod.case)
qed

section \<open>Input, padding, result\<close>

text \<open>
  A context that has taken in \<open>msg\<close>: whole blocks compressed, the rest in the block buffer, the
  bit count exact.
\<close>

definition holds_message :: "SHA1Context \<Rightarrow> byte list \<Rightarrow> bool" where
  "holds_message context msg \<longleftrightarrow>
     length (Message_Block context) = 64 \<and> Message_Block_Index context < 64 \<and>
     \<not> Computed context \<and> Corrupted context = 0 \<and>
     unat (Length_High context) * 2 ^ 32 + unat (Length_Low context) = 8 * length msg \<and>
     (\<exists>full. 64 dvd length full \<and>
        msg = full @ take (Message_Block_Index context) (Message_Block context) \<and>
        Intermediate_Hash context = foldl sha1_compress sha1_init (chunks full))"

lemma reset_holds: "length (Message_Block context) = 64 \<Longrightarrow> holds_message (SHA1Reset context) []"
  by (auto simp: holds_message_def SHA1Reset_def sha1_init_def chunks.simps)

lemma chunks_append: "64 dvd length xs \<Longrightarrow> chunks (xs @ ys) = chunks xs @ chunks ys"
proof (induction xs rule: chunks.induct)
  case (1 xs)
  show ?case
  proof (cases "length xs < 64")
    case True
    with 1(2) have "xs = []" by (auto elim: dvdE)
    then show ?thesis by (simp add: chunks.simps)
  next
    case False
    then have "64 dvd length (drop 64 xs)" using 1(2) by (simp add: dvd_diff_nat)
    with 1(1) [OF False] False show ?thesis by (simp add: chunks.simps [of xs] chunks.simps [of "xs @ ys"])
  qed
qed

lemma chunks_block: "length b = 64 \<Longrightarrow> chunks b = [b]"
  by (simp add: chunks.simps [of b]) (simp add: chunks.simps)

lemma be_bytes_4: "be_bytes 4 (unat (v :: u32)) =
   [ucast (drop_bit 24 v), ucast (drop_bit 16 v), ucast (drop_bit 8 v), ucast v]"
proof -
  have "unat v < 2 ^ 32" using unsigned_less [of v] by simp
  then have u: "(ucast (drop_bit k v) :: byte) = word_of_nat (unat v div 2 ^ k)" for k
    by (simp add: word_unat_eq_iff unat_of_nat unsigned_ucast_eq unsigned_drop_bit_eq take_bit_eq_mod)
       (simp add: drop_bit_eq_div)
  show ?thesis
    using u [of 0] by (simp add: be_bytes_def u upt_rec)
qed

lemma be_bytes_8:
  assumes "l < 2 ^ 32"
  shows "be_bytes 8 (h * 2 ^ 32 + l) = be_bytes 4 h @ be_bytes 4 l"
proof -
  have hi: "(h * 2 ^ 32 + l) div 256 ^ 7 = h div 256 ^ 3" "(h * 2 ^ 32 + l) div 256 ^ 6 = h div 256 ^ 2"
    "(h * 2 ^ 32 + l) div 256 ^ 5 = h div 256 ^ 1" "(h * 2 ^ 32 + l) div 256 ^ 4 = h div 256 ^ 0"
  proof -
    have d: "(h * 2 ^ 32 + l) div (2 ^ 32 * m) = h div m" for m
      using assms by (simp add: div_mult2_eq)
    show "(h * 2 ^ 32 + l) div 256 ^ 7 = h div 256 ^ 3" using d [of "256 ^ 3"] by simp
    show "(h * 2 ^ 32 + l) div 256 ^ 6 = h div 256 ^ 2" using d [of "256 ^ 2"] by simp
    show "(h * 2 ^ 32 + l) div 256 ^ 5 = h div 256 ^ 1" using d [of "256 ^ 1"] by simp
    show "(h * 2 ^ 32 + l) div 256 ^ 4 = h div 256 ^ 0" using d [of 1] by simp
  qed
  have lo: "word_of_nat ((h * 2 ^ 32 + l) div 256 ^ k) = (word_of_nat (l div 256 ^ k) :: byte)"
    if "k < 4" for k
  proof -
    have "(h * 2 ^ 32 + l) div 256 ^ k = h * 256 ^ (3 - k) * 256 + l div 256 ^ k"
    proof -
      have "h * 2 ^ 32 = h * 256 ^ (3 - k) * 256 * 256 ^ k"
      proof -
        have "k = 0 \<or> k = 1 \<or> k = 2 \<or> k = 3" using that by linarith
        then show ?thesis by (elim disjE) simp_all
      qed
      then show ?thesis by (metis div_mult_self3 power_not_zero zero_neq_numeral)
    qed
    then have "(h * 2 ^ 32 + l) div 256 ^ k mod 256 = l div 256 ^ k mod 256"
      by (simp only: mod_mult_self3)
    then show ?thesis by (simp only: word_of_nat_eq_iff) (simp add: take_bit_eq_mod)
  qed
  show ?thesis
    using hi lo [of 0] lo [of 1] lo [of 2] lo [of 3] by (simp add: be_bytes_def upt_rec)
qed

lemma input_byte_holds:
  assumes "holds_message c msg" and "8 * (length msg + 1) < 2 ^ 64"
  shows "holds_message (input_byte c b) (msg @ [b])"
proof -
  let ?i = "Message_Block_Index c" and ?blk = "(Message_Block c)[Message_Block_Index c := b]"
  let ?lo = "Length_Low c" and ?hi = "Length_High c"
  from assms(1) obtain full where h: "length (Message_Block c) = 64" "?i < 64" "\<not> Computed c"
      "Corrupted c = 0" and cnt: "unat ?hi * 2 ^ 32 + unat ?lo = 8 * length msg"
    and full: "64 dvd length full" "msg = full @ take ?i (Message_Block c)"
      "Intermediate_Hash c = foldl sha1_compress sha1_init (chunks full)"
    by (auto simp: holds_message_def)
  have "take (Suc ?i) ?blk = take ?i ?blk @ [?blk ! ?i]"
    by (rule take_Suc_conv_app_nth) (simp add: h)
  moreover have "take ?i ?blk = take ?i (Message_Block c)" "?blk ! ?i = b" using h by simp_all
  ultimately have blk: "length ?blk = 64" "take (?i + 1) ?blk = take ?i (Message_Block c) @ [b]"
    using h by (simp_all only: Suc_eq_plus1 length_list_update)
  have msg: "msg @ [b] = full @ take (?i + 1) ?blk"
    by (simp only: blk(2)) (simp add: full(2))
  have l8: "8 dvd unat ?lo"
  proof -
    have "unat ?lo = 8 * length msg - unat ?hi * 2 ^ 32" using cnt by simp
    then show ?thesis by (simp add: dvd_diff_nat)
  qed
  have l32: "unat ?lo < 2 ^ 32" using unsigned_less [of ?lo] by simp
  have plus: "unat (?lo + 8) = (if unat ?lo + 8 < 2 ^ 32 then unat ?lo + 8 else 0)"
  proof -
    have "unat ?lo + 8 \<le> 2 ^ 32" using l8 l32 by (auto elim!: dvdE)
    then show ?thesis by (auto simp: unat_word_ariths)
  qed
  have high: "unat (?hi + 1) = unat ?hi + 1" if "unat ?lo + 8 = 2 ^ 32"
  proof -
    have "unat ?hi + 1 < 2 ^ 32" using that cnt assms(2) by simp
    then show ?thesis by (simp add: unat_word_ariths)
  qed
  let ?c = "put_byte c b"
  define c' where "c' = (let context = ?c\<lparr>Length_Low := Length_Low ?c + 8\<rparr> in
     if Length_Low context = 0 then
       let context = context\<lparr>Length_High := Length_High context + 1\<rparr>
       in if Length_High context = 0 then context\<lparr>Corrupted := 1\<rparr> else context
     else context)"
  have c': "Message_Block c' = ?blk" "Message_Block_Index c' = ?i + 1" "\<not> Computed c'"
      "Corrupted c' = 0" "Intermediate_Hash c' = Intermediate_Hash c"
      "unat (Length_High c') * 2 ^ 32 + unat (Length_Low c') = 8 * length (msg @ [b])"
  proof -
    show "Message_Block c' = ?blk" "Message_Block_Index c' = ?i + 1" "\<not> Computed c'"
      "Intermediate_Hash c' = Intermediate_Hash c"
      using h by (simp_all add: c'_def put_byte_def Let_def)
    have "Corrupted c' = 0 \<and>
        unat (Length_High c') * 2 ^ 32 + unat (Length_Low c') = 8 * length (msg @ [b])"
    proof (cases "unat ?lo + 8 < 2 ^ 32")
      case True
      then have p: "unat (?lo + 8) = unat ?lo + 8" using plus by simp
      then have nz: "?lo + 8 \<noteq> 0" by (metis add_eq_0_iff_both_eq_0 unat_0 zero_neq_numeral)
      have "Length_Low c' = ?lo + 8" "Length_High c' = ?hi" "Corrupted c' = 0"
        using nz h by (simp_all add: c'_def put_byte_def Let_def)
      then show ?thesis using p cnt by simp
    next
      case False
      then have s: "unat ?lo + 8 = 2 ^ 32" using l8 l32 by (auto elim!: dvdE)
      have z: "?lo + 8 = 0" using plus False by (simp add: unat_eq_zero)
      have hz: "?hi + 1 \<noteq> 0" using high [OF s] by (metis add_is_0 unat_0 one_neq_zero)
      have "Length_Low c' = 0" "Length_High c' = ?hi + 1" "Corrupted c' = 0"
        using z hz h by (simp_all add: c'_def put_byte_def Let_def)
      then show ?thesis using high [OF s] s cnt by simp
    qed
    then show "Corrupted c' = 0"
      "unat (Length_High c') * 2 ^ 32 + unat (Length_Low c') = 8 * length (msg @ [b])" by auto
  qed
  have out: "input_byte c b = (if ?i + 1 = 64 then SHA1ProcessMessageBlock c' else c')"
    using c'(2) by (simp add: input_byte_def c'_def Let_def)
  show ?thesis
  proof (cases "?i + 1 = 64")
    case True
    then have "take 64 ?blk = ?blk" using blk by simp
    then have full': "msg @ [b] = full @ ?blk" using msg True by simp
    have "chunks (full @ ?blk) = chunks full @ [?blk]"
      using chunks_append [OF full(1)] chunks_block [OF blk(1)] by simp
    moreover have "64 dvd length (full @ ?blk)" using full(1) blk(1) by simp
    ultimately show ?thesis
      using True c' blk(1) full(3) full'
      by (simp add: out holds_message_def process_block_compress)
  next
    case False
    then show ?thesis
      using c' blk(1) full(1,3) msg h(2)
      by (auto simp: out holds_message_def)
  qed
qed

lemma input_loop_holds:
  "holds_message c msg \<Longrightarrow> 8 * (length msg + length bs) < 2 ^ 64 \<Longrightarrow>
   holds_message (input_loop c bs) (msg @ bs)"
proof (induction bs arbitrary: c msg)
  case (Cons b bs)
  have "8 * (length msg + 1) < 2 ^ 64" using Cons.prems(2) by simp
  from input_byte_holds [OF Cons.prems(1) this, of b]
  have "holds_message (input_loop (input_byte c b) bs) ((msg @ [b]) @ bs)"
    using Cons.prems(2) by (intro Cons.IH) simp_all
  moreover have "Corrupted c = 0" using Cons.prems(1) by (simp add: holds_message_def)
  ultimately show ?case by simp
qed simp

lemma pad_zeros_eq:
  "Message_Block_Index c \<le> n \<Longrightarrow> n \<le> length (Message_Block c) \<Longrightarrow>
   pad_zeros n c = c\<lparr>Message_Block := take (Message_Block_Index c) (Message_Block c) @
       replicate (n - Message_Block_Index c) 0 @ drop n (Message_Block c), Message_Block_Index := n\<rparr>"
proof (induction n c rule: pad_zeros.induct)
  case (1 n c)
  let ?i = "Message_Block_Index c"
  show ?case
  proof (cases "?i < n")
    case True
    let ?c = "put_byte c 0"
    have c: "Message_Block_Index ?c = ?i + 1" "Message_Block ?c = (Message_Block c)[?i := 0]"
      by (simp_all add: put_byte_def)
    have "take (Suc ?i) ((Message_Block c)[?i := 0]) = take ?i ((Message_Block c)[?i := 0]) @
        [(Message_Block c)[?i := 0] ! ?i]"
      by (rule take_Suc_conv_app_nth) (use True 1(3) in simp)
    then have t: "take (?i + 1) ((Message_Block c)[?i := 0]) = take ?i (Message_Block c) @ [0]"
      using True 1(3) by simp
    have r: "replicate (n - ?i) (0 :: byte) = 0 # replicate (n - (?i + 1)) 0"
      using True by (metis Suc_diff_Suc Suc_eq_plus1 replicate_Suc)
    have "pad_zeros n c = pad_zeros n ?c" using True by (simp add: pad_zeros.simps [of n c])
    also have "\<dots> = ?c\<lparr>Message_Block := take (?i + 1) ((Message_Block c)[?i := 0]) @
        replicate (n - (?i + 1)) 0 @ drop n ((Message_Block c)[?i := 0]), Message_Block_Index := n\<rparr>"
      using 1(1) [OF True] True 1(3) by (simp only: c) simp
    finally show ?thesis using True by (simp only: t r) (simp add: put_byte_def)
  next
    case False
    with 1(2) have "n = ?i" by simp
    then show ?thesis by (simp add: pad_zeros.simps [of ?i c])
  qed
qed

lemma put_byte_simps [simp]:
  "Message_Block (put_byte c b) = (Message_Block c)[Message_Block_Index c := b]"
  "Message_Block_Index (put_byte c b) = Message_Block_Index c + 1"
  "Intermediate_Hash (put_byte c b) = Intermediate_Hash c"
  "Length_Low (put_byte c b) = Length_Low c" "Length_High (put_byte c b) = Length_High c"
  "Corrupted (put_byte c b) = Corrupted c" "Computed (put_byte c b) = Computed c"
  by (simp_all add: put_byte_def)

text \<open>The block buffer after \<open>0x80\<close> and zeros up to \<open>n\<close>.\<close>

lemma pad_block:
  assumes "length (Message_Block c) = 64" "Message_Block_Index c < n" "n \<le> 64"
  shows "pad_zeros n (put_byte c 0x80) = c
    \<lparr>Message_Block := take (Message_Block_Index c) (Message_Block c) @ [0x80] @
        replicate (n - 1 - Message_Block_Index c) 0 @ drop n (Message_Block c),
     Message_Block_Index := n\<rparr>"
proof -
  let ?i = "Message_Block_Index c" and ?b = "(Message_Block c)[Message_Block_Index c := 0x80]"
  have "take (Suc ?i) ?b = take ?i ?b @ [?b ! ?i]"
    by (rule take_Suc_conv_app_nth) (use assms in simp)
  then have t: "take (?i + 1) ?b = take ?i (Message_Block c) @ [0x80]" using assms by simp
  have "pad_zeros n (put_byte c 0x80) = (put_byte c 0x80)\<lparr>Message_Block :=
      take (?i + 1) ?b @ replicate (n - (?i + 1)) 0 @ drop n ?b, Message_Block_Index := n\<rparr>"
    using pad_zeros_eq [of "put_byte c 0x80" n] assms by simp
  then show ?thesis using assms by (simp only: t) (simp add: put_byte_def)
qed

lemma pad_message_hash:
  assumes "holds_message c msg" and "8 * length msg < 2 ^ 64"
  shows "Intermediate_Hash (SHA1PadMessage c) = foldl sha1_compress sha1_init (chunks (sha1_pad msg))"
    and "Corrupted (SHA1PadMessage c) = 0"
proof -
  let ?i = "Message_Block_Index c" and ?p = "take (Message_Block_Index c) (Message_Block c)"
  let ?len = "be_bytes 8 (8 * length msg)"
  from assms(1) obtain full where h: "length (Message_Block c) = 64" "?i < 64" "Corrupted c = 0"
      and cnt: "unat (Length_High c) * 2 ^ 32 + unat (Length_Low c) = 8 * length msg"
    and full: "64 dvd length full" "msg = full @ ?p"
      "Intermediate_Hash c = foldl sha1_compress sha1_init (chunks full)"
    by (auto simp: holds_message_def)
  have lp: "length ?p = ?i" using h by simp
  have i: "length msg mod 64 = ?i" using full(1,2) h lp by (auto elim!: dvdE)
  have "unat (Length_Low c) < 2 ^ 32" using unsigned_less [of "Length_Low c"] by simp
  from be_bytes_8 [OF this, of "unat (Length_High c)", unfolded cnt be_bytes_4]
  have len: "[ucast (drop_bit 24 (Length_High c)), ucast (drop_bit 16 (Length_High c)),
      ucast (drop_bit 8 (Length_High c)), ucast (Length_High c), ucast (drop_bit 24 (Length_Low c)),
      ucast (drop_bit 16 (Length_Low c)), ucast (drop_bit 8 (Length_Low c)), ucast (Length_Low c)] = ?len"
    by simp
  have l8: "length ?len = 8" by (simp add: be_bytes_def)
  have "Intermediate_Hash (SHA1PadMessage c) = foldl sha1_compress sha1_init (chunks (sha1_pad msg)) \<and>
      Corrupted (SHA1PadMessage c) = 0"
  proof (cases "55 < ?i")
    case False
    let ?last = "?p @ [0x80] @ replicate (55 - ?i) 0 @ ?len"
    have z: "(119 - ?i) mod 64 = 55 - ?i"
      using mod_add_self1 [of 64 "55 - ?i"] False by simp
    have ll: "length ?last = 64" using lp l8 False by simp
    have "blit (?p @ [0x80] @ replicate (55 - ?i) 0 @ drop 56 (Message_Block c)) 56 ?len = ?last"
    proof -
      have "56 - ?i = Suc (55 - ?i)" using False by simp
      then show ?thesis using h l8 lp False by (simp add: blit_def)
    qed
    then have "SHA1PadMessage c = (SHA1ProcessMessageBlock (c\<lparr>Message_Block_Index := 56, Message_Block := ?last\<rparr>))"
      using False h pad_block [of c 56] by (simp add: SHA1PadMessage_def Let_def len)
    moreover have "chunks (sha1_pad msg) = chunks full @ [?last]"
      using chunks_append [OF full(1), of ?last] chunks_block [OF ll] i z
      by (simp add: sha1_pad_def) (simp add: full(2))
    ultimately show ?thesis using ll full(3) h by (simp add: process_block_compress)
  next
    case True
    let ?one = "?p @ [0x80] @ replicate (63 - ?i) 0" and ?last = "replicate 56 0 @ ?len"
    have z: "(119 - ?i) mod 64 = (63 - ?i) + 56" using True h(2) by simp
    have ll: "length ?one = 64" "length ?last = 64" using lp l8 True h(2) by simp_all
    let ?c1 = "c\<lparr>Message_Block := ?one, Message_Block_Index := 64\<rparr>"
    have c1: "pad_zeros 64 (put_byte c 0x80) = ?c1"
      using True h pad_block [of c 64] by simp
    let ?c2 = "SHA1ProcessMessageBlock ?c1"
    have c2: "?c2 = c\<lparr>Message_Block := ?one, Message_Block_Index := 0,
        Intermediate_Hash := sha1_compress (Intermediate_Hash c) ?one\<rparr>"
      using ll by (simp add: process_block_compress)
    let ?H = "sha1_compress (Intermediate_Hash c) ?one"
    let ?c3 = "c\<lparr>Message_Block := replicate 56 0 @ drop 56 ?one, Message_Block_Index := 56,
        Intermediate_Hash := ?H\<rparr>"
    have c3: "pad_zeros 56 ?c2 = ?c3"
      unfolding c2 using ll by (subst pad_zeros_eq) simp_all
    have b: "blit (replicate 56 0 @ drop 56 ?one) 56 ?len = ?last"
      using ll l8 by (simp add: blit_def)
    have "SHA1PadMessage c = SHA1ProcessMessageBlock (?c3\<lparr>Message_Block := blit (Message_Block ?c3) 56 ?len\<rparr>)"
      using True by (simp only: SHA1PadMessage_def Let_def c1 c3 if_True) (simp add: len)
    also have "\<dots> = SHA1ProcessMessageBlock (c\<lparr>Message_Block_Index := 56,
        Intermediate_Hash := ?H, Message_Block := ?last\<rparr>)"
      using b by simp
    finally have "SHA1PadMessage c = SHA1ProcessMessageBlock (c\<lparr>Message_Block_Index := 56,
        Intermediate_Hash := ?H, Message_Block := ?last\<rparr>)" .
    moreover have "sha1_pad msg = full @ (?one @ ?last)"
    proof -
      have "replicate ((119 - length msg mod 64) mod 64) (0 :: byte) =
          replicate (63 - ?i) 0 @ replicate 56 0"
        by (simp only: i z replicate_add)
      then show ?thesis by (simp only: sha1_pad_def) (simp add: full(2))
    qed
    then have "chunks (sha1_pad msg) = chunks full @ [?one, ?last]"
      using chunks_append [OF full(1), of "?one @ ?last"] chunks_append [of ?one ?last]
        chunks_block [OF ll(1)] chunks_block [OF ll(2)] ll(1) by simp
    ultimately show ?thesis using ll full(3) h by (simp add: process_block_compress)
  qed
  then show "Intermediate_Hash (SHA1PadMessage c) = foldl sha1_compress sha1_init (chunks (sha1_pad msg))"
    and "Corrupted (SHA1PadMessage c) = 0" by auto
qed

lemma length_compress [simp]: "length (sha1_compress H block) = 5"
  by (simp add: sha1_compress_def split: prod.split)

lemma length_foldl_compress: "length H = 5 \<Longrightarrow> length (foldl sha1_compress H bs) = 5"
  by (induction bs rule: rev_induct) simp_all

text \<open>The twenty octets read from the five words.\<close>

lemma digest_octets:
  assumes "length (H :: u32 list) = 5"
  shows "map (\<lambda>i. ucast (drop_bit (8 * (3 - i mod 4)) (H ! (i div 4)))) [0..<20] =
         concat (map (\<lambda>w. be_bytes 4 (unat w)) H)"
proof -
  from assms obtain a b c d e where "H = [a, b, c, d, e]"
    by (auto simp: length_Suc_conv numeral_eq_Suc)
  then show ?thesis by (simp add: be_bytes_4 upt_rec)
qed

definition sha1_inputs :: "SHA1Context \<Rightarrow> byte list list \<Rightarrow> SHA1Context" where
  "sha1_inputs = foldl (\<lambda>c m. snd (SHA1Input c m))"

lemma sha1_inputs_holds:
  "holds_message c msg \<Longrightarrow> 8 * (length msg + length (concat ms)) < 2 ^ 64 \<Longrightarrow>
   holds_message (sha1_inputs c ms) (msg @ concat ms)"
proof (induction ms arbitrary: c msg)
  case (Cons m ms)
  have "holds_message (snd (SHA1Input c m)) (msg @ m)"
    using Cons.prems input_loop_holds [of c msg m]
    by (auto simp: SHA1Input_def holds_message_def)
  then have "holds_message (sha1_inputs (snd (SHA1Input c m)) ms) ((msg @ m) @ concat ms)"
    using Cons.prems(2) by (intro Cons.IH) simp_all
  then show ?case by (simp add: sha1_inputs_def)
qed (simp add: sha1_inputs_def)

lemma sha1_result:
  assumes "length (Message_Block context) = 64" and "8 * length (concat ms) < 2 ^ 64"
  shows "\<exists>done. SHA1Result (sha1_inputs (SHA1Reset context) ms) = (shaSuccess, Some (sha1 (concat ms)), done) \<and>
           SHA1Result done = (shaSuccess, Some (sha1 (concat ms)), done) \<and>
           (\<forall>b bs. fst (SHA1Input done (b # bs)) = shaStateError \<and>
              fst (SHA1Result (snd (SHA1Input done (b # bs)))) = shaStateError)"
proof -
  let ?c = "sha1_inputs (SHA1Reset context) ms"
  have h: "holds_message ?c (concat ms)"
    using sha1_inputs_holds [OF reset_holds [OF assms(1)], of ms] assms(2) by simp
  note pad = pad_message_hash [OF h assms(2)]
  have len: "length (foldl sha1_compress sha1_init (chunks (sha1_pad (concat ms)))) = 5"
    by (rule length_foldl_compress) (simp add: sha1_init_def)
  let ?fin = "(SHA1PadMessage ?c)
    \<lparr>Message_Block := replicate 64 0, Length_Low := 0, Length_High := 0, Computed := True\<rparr>"
  have c: "Corrupted ?c = 0" "\<not> Computed ?c" using h by (simp_all add: holds_message_def)
  have "SHA1Result ?c = (shaSuccess, Some (sha1 (concat ms)), ?fin)"
    using c by (simp only: SHA1Result_def Let_def) (simp add: pad sha1_def digest_octets [OF len, symmetric])
  moreover have "SHA1Result ?fin = (shaSuccess, Some (sha1 (concat ms)), ?fin)"
    using c by (simp only: SHA1Result_def Let_def) (simp add: pad sha1_def digest_octets [OF len, symmetric])
  moreover have "fst (SHA1Input ?fin (b # bs)) = shaStateError \<and>
      fst (SHA1Result (snd (SHA1Input ?fin (b # bs)))) = shaStateError" for b bs
    by (simp add: SHA1Input_def SHA1Result_def)
  ultimately show ?thesis by blast
qed

text \<open>
  C29: the implementation computes SHA-1.  After \<open>SHA1Reset\<close> and any sequence of \<open>SHA1Input\<close> calls
  whose data adds up to less than 2^61 bytes, \<open>SHA1Result\<close> succeeds and its 20 octets are the
  digest the standard assigns to the concatenation, wherever the calls cut it; a further non-empty
  input is refused with \<open>shaStateError\<close>, and no result is given after it.
\<close>

theorem sha1_correct:
  assumes "length (Message_Block context) = 64" and "8 * length (concat ms) < 2 ^ 64"
  shows "\<exists>done. SHA1Result (sha1_inputs (SHA1Reset context) ms) = (shaSuccess, Some (sha1 (concat ms)), done) \<and>
           SHA1Result done = (shaSuccess, Some (sha1 (concat ms)), done) \<and>
           (\<forall>b bs. fst (SHA1Input done (b # bs)) = shaStateError \<and>
              fst (SHA1Result (snd (SHA1Input done (b # bs)))) = shaStateError)"
  by (rule sha1_result [OF assms])

definition demo_context :: SHA1Context where
  "demo_context = \<lparr>Intermediate_Hash = [], Length_Low = 7, Length_High = 7, Message_Block_Index = 9,
     Message_Block = replicate 64 1, Computed = True, Corrupted = 3\<rparr>"

theorem sha1_correct_witness:
  "\<exists>done. SHA1Result (sha1_inputs (SHA1Reset demo_context) [str ''ab'', [], str ''c'']) =
     (shaSuccess, Some (sha1 (str ''abc'')), done)"
  using sha1_correct [of demo_context "[str ''ab'', [], str ''c'']"] by (auto simp: demo_context_def)

end
