(* ===== verification/Frames.thy ===== *)
theory Frames
  imports TcpTransport
begin

text \<open>
  The WebSocket framing that the upstream client of the gateway, the Ameba board and the server
  share: the layout of a frame on the wire, the header a client writes, and the frame receiver,
  which the gateway and the board contain in identical code over different readers.  The receiver
  is proved once, over the reader contract.
\<close>

section \<open>The wire format\<close>

text \<open>The length field, with the mask bit or 0 as \<open>mbit\<close>.\<close>

definition length_field :: "byte \<Rightarrow> nat \<Rightarrow> byte list" where
  "length_field mbit n =
     (if n \<le> 125 then [mbit OR word_of_nat n]
      else if n \<le> 0xFFFF then (mbit OR 126) # be_bytes 2 n
      else (mbit OR 127) # be_bytes 8 n)"

definition frame_bytes :: "byte \<Rightarrow> byte list option \<Rightarrow> byte list \<Rightarrow> byte list" where
  "frame_bytes b0 key payload =
     (case key of
        None \<Rightarrow> b0 # length_field 0 (length payload) @ payload
      | Some k \<Rightarrow> b0 # length_field 0x80 (length payload) @ k @ ws_mask k payload)"

section \<open>Receiving a frame\<close>

text \<open>
  A read that blocks for ever makes the receiver block (\<open>None\<close>); one that fails makes it return -1
  (\<open>Some (None, s)\<close>).
\<close>

definition read_then ::
  "('a option \<times> 's) option \<Rightarrow> ('a \<Rightarrow> 's \<Rightarrow> ('b option \<times> 's) option) \<Rightarrow> ('b option \<times> 's) option" where
  "read_then r f =
     (case r of
        None \<Rightarrow> None
      | Some (None, s) \<Rightarrow> Some (None, s)
      | Some (Some x, s) \<Rightarrow> f x s)"

lemma read_then_simps [simp]:
  "read_then None f = None"
  "read_then (Some (None, s)) f = Some (None, s)"
  "read_then (Some (Some x, s)) f = f x s"
  by (simp_all add: read_then_def)

text \<open>\<open>payload_len = (payload_len << 8) | ext[i]\<close> over the bytes, in a \<open>size_t\<close> of \<open>w\<close> bits.\<close>

definition size_of_bytes :: "nat \<Rightarrow> byte list \<Rightarrow> nat" where
  "size_of_bytes w ext = foldl (\<lambda>n b. n * 256 mod 2 ^ w + unat b) 0 ext"

definition recv_length ::
  "('s \<Rightarrow> nat \<Rightarrow> (byte list option \<times> 's) option) \<Rightarrow> nat \<Rightarrow> byte \<Rightarrow> 's \<Rightarrow> (nat option \<times> 's) option" where
  "recv_length read w b1 s =
     (let payload_len = unat (b1 AND 0x7F) in
      if payload_len = 126 then read_then (read s 2) (\<lambda>ext s. Some (Some (size_of_bytes w ext), s))
      else if payload_len = 127 then
        read_then (read s 8) (\<lambda>ext s. Some (Some (size_of_bytes w ext), s))
      else Some (Some payload_len, s))"

text \<open>
  The receiver: the opcode and the payload, \<open>None\<close> standing for the NULL of an empty one.
  \<open>malloc_ok n\<close> says whether \<open>malloc(n)\<close> succeeds.
\<close>

definition recv_frame_via ::
  "('s \<Rightarrow> nat \<Rightarrow> (byte list option \<times> 's) option) \<Rightarrow> nat \<Rightarrow> (nat \<Rightarrow> bool) \<Rightarrow> 's \<Rightarrow>
   ((byte \<times> byte list option) option \<times> 's) option" where
  "recv_frame_via read w malloc_ok s =
     read_then (read s 2) (\<lambda>header s.
     read_then (recv_length read w (header ! 1) s) (\<lambda>payload_len s.
     read_then (if header ! 1 AND 0x80 \<noteq> 0 then read s 4 else Some (Some [0, 0, 0, 0], s)) (\<lambda>key s.
       if payload_len > 0 then
         if \<not> malloc_ok payload_len then Some (None, s)
         else read_then (read s payload_len) (\<lambda>payload s.
           Some (Some (header ! 0 AND 0x0F,
             Some (if header ! 1 AND 0x80 \<noteq> 0 then ws_mask key payload else payload)), s))
       else Some (Some (header ! 0 AND 0x0F, None), s))))"

lemma size_of_bytes_value:
  assumes "8 \<le> w"
  shows "size_of_bytes w ext = be_value ext mod 2 ^ w"
proof (induction ext rule: rev_induct)
  case (snoc b ext)
  have "(2 :: nat) ^ w = 256 * 2 ^ (w - 8)"
    using assms power_add [of "2 :: nat" 8 "w - 8"] by simp
  moreover have "size_of_bytes w (ext @ [b]) = size_of_bytes w ext * 256 mod 2 ^ w + unat b"
    by (simp add: size_of_bytes_def)
  moreover have "(be_value ext * 256 + unat b) mod (256 * 2 ^ (w - 8)) =
      be_value ext * 256 mod (256 * 2 ^ (w - 8)) + unat b"
    by (simp add: mod_mult2_eq mult.commute [of _ 256] div_mult_self3 add.commute)
  ultimately show ?case
    by (simp add: snoc be_value_snoc mod_mult_left_eq)
qed (simp add: size_of_bytes_def be_value_def)

section \<open>The second byte of a frame\<close>

lemma length_bits:
  assumes "n < 128"
  shows "(0x80 OR word_of_nat n) AND 0x7F = (word_of_nat n :: byte)"
    and "(word_of_nat n :: byte) AND 0x7F = word_of_nat n"
    and "(0x80 OR word_of_nat n) AND 0x80 = (0x80 :: byte)"
    and "(word_of_nat n :: byte) AND 0x80 = 0"
proof -
  let ?x = "word_of_nat n :: byte"
  have m: "(0x7F :: byte) = mask 7" by (simp add: mask_eq_exp_minus_1)
  have "(0x80 :: byte) = 2 ^ 7" by simp
  then have h: "bit (0x80 :: byte) i \<longleftrightarrow> i = 7" for i
    by (simp only: bit_exp_iff possible_bit_word) auto
  have "take_bit 7 n = n" using assms by (simp add: take_bit_nat_eq_self_iff)
  then have x: "?x AND mask 7 = ?x"
    by (simp add: take_bit_eq_mask [symmetric] take_bit_of_nat)
  then have low: "bit ?x i \<Longrightarrow> i < 7" for i
    by (metis bit_and_iff bit_mask_iff)
  show "?x AND 0x7F = ?x" unfolding m by (rule x)
  show "(0x80 OR ?x) AND 0x7F = ?x"
    unfolding m
  proof (rule bit_word_eqI)
    fix i
    show "bit ((0x80 OR ?x) AND mask 7) i = bit ?x i"
      unfolding bit_or_iff bit_and_iff bit_mask_iff h using low [of i] by auto
  qed
  show "?x AND 0x80 = 0"
  proof (rule bit_word_eqI)
    fix i
    show "bit (?x AND 0x80) i = bit (0 :: byte) i"
      unfolding bit_and_iff h using low [of 7] by auto
  qed
  show "(0x80 OR ?x) AND 0x80 = 0x80"
    by (rule bit_word_eqI) (auto simp: bit_simps h)
qed

lemma length_field_first:
  assumes "mbit = 0 \<or> mbit = 0x80"
  shows "\<exists>b1 ext. length_field mbit n = b1 # ext \<and> (b1 AND 0x80 \<noteq> 0 \<longleftrightarrow> mbit = 0x80) \<and>
     unat (b1 AND 0x7F) = (if n \<le> 125 then n else if n \<le> 0xFFFF then 126 else 127) \<and>
     ext = (if n \<le> 125 then [] else if n \<le> 0xFFFF then be_bytes 2 n else be_bytes 8 n)"
proof -
  let ?v = "if n \<le> 125 then n else if n \<le> 0xFFFF then 126 else 127 :: nat"
  have v: "?v < 128" by simp
  have f: "length_field mbit n = (mbit OR word_of_nat ?v) #
      (if n \<le> 125 then [] else if n \<le> 0xFFFF then be_bytes 2 n else be_bytes 8 n)"
    by (simp add: length_field_def)
  have u: "unat (word_of_nat ?v :: byte) = ?v" using v by (intro unat_word_of_nat) simp
  have "unat ((mbit OR word_of_nat ?v) AND 0x7F) = ?v"
    using assms length_bits(1,2) [OF v] u by auto
  moreover have "(mbit OR word_of_nat ?v) AND 0x80 \<noteq> 0 \<longleftrightarrow> mbit = 0x80"
    using assms length_bits(3,4) [OF v] by auto
  ultimately show ?thesis unfolding f by blast
qed

section \<open>Correctness over the reader contract\<close>

context byte_reader
begin

lemma recv_length_ok:
  assumes "wf s" and "avail s = ext @ rest" and "16 \<le> w" and "n < 2 ^ w" and "n < 2 ^ 64"
    and "unat (b1 AND 0x7F) = (if n \<le> 125 then n else if n \<le> 0xFFFF then 126 else 127)"
    and "ext = (if n \<le> 125 then [] else if n \<le> 0xFFFF then be_bytes 2 n else be_bytes 8 n)"
  obtains s' where "recv_length read w b1 s = Some (Some n, s')" "avail s' = rest" "wf s'"
proof -
  consider "n \<le> 125" | "125 < n" "n \<le> 0xFFFF" | "0xFFFF < n" by linarith
  then show thesis
  proof cases
    case 1
    with assms that [of s] show ?thesis by (simp add: recv_length_def)
  next
    case 2
    then have "avail s = be_bytes 2 n @ rest" using assms by simp
    then obtain s' where s': "read s 2 = Some (Some (be_bytes 2 n), s')" "avail s' = rest" "wf s'"
      by (rule read_success [OF assms(1)]) simp
    moreover have "size_of_bytes w (be_bytes 2 n) = n"
      using 2 assms(3,4) by (simp add: size_of_bytes_value be_value_be_bytes)
    ultimately show ?thesis using 2 assms(6) that [of s'] by (simp add: recv_length_def)
  next
    case 3
    then have "avail s = be_bytes 8 n @ rest" using assms by simp
    then obtain s' where s': "read s 8 = Some (Some (be_bytes 8 n), s')" "avail s' = rest" "wf s'"
      by (rule read_success [OF assms(1)]) simp
    moreover have "size_of_bytes w (be_bytes 8 n) = n"
      using 3 assms(3-5) by (simp add: size_of_bytes_value be_value_be_bytes)
    ultimately show ?thesis using 3 assms(6) that [of s'] by (simp add: recv_length_def)
  qed
qed

text \<open>A frame in front of the stream is received as sent.\<close>

lemma recv_frame_ok:
  assumes wf: "wf s" and stream: "avail s = frame_bytes b0 key payload @ rest"
    and key: "\<And>k. key = Some k \<Longrightarrow> length k = 4"
    and size: "16 \<le> w" "length payload < 2 ^ w" "length payload < 2 ^ 64"
    and malloc: "payload \<noteq> [] \<Longrightarrow> malloc_ok (length payload)"
  obtains s' where "recv_frame_via read w malloc_ok s =
      Some (Some (b0 AND 0x0F, if payload = [] then None else Some payload), s')"
    "avail s' = rest" "wf s'"
proof -
  let ?mbit = "if key = None then 0 else 0x80 :: byte" and ?n = "length payload"
  let ?key = "case key of None \<Rightarrow> [] | Some k \<Rightarrow> k"
  let ?body = "case key of None \<Rightarrow> payload | Some k \<Rightarrow> ws_mask k payload"
  obtain b1 ext where lf: "length_field ?mbit ?n = b1 # ext"
    and mb: "b1 AND 0x80 \<noteq> 0 \<longleftrightarrow> key \<noteq> None"
    and len: "unat (b1 AND 0x7F) = (if ?n \<le> 125 then ?n else if ?n \<le> 0xFFFF then 126 else 127)"
      "ext = (if ?n \<le> 125 then [] else if ?n \<le> 0xFFFF then be_bytes 2 ?n else be_bytes 8 ?n)"
  proof (cases key)
    case None
    then show ?thesis using length_field_first [of 0 ?n] that by auto
  next
    case (Some k)
    then show ?thesis using length_field_first [of "0x80" ?n] that by auto
  qed
  have "frame_bytes b0 key payload = [b0, b1] @ ext @ ?key @ ?body"
    using lf by (cases key) (simp_all add: frame_bytes_def)
  then have "avail s = [b0, b1] @ (ext @ ?key @ ?body @ rest)" using stream by simp
  then obtain s1 where s1: "read s 2 = Some (Some [b0, b1], s1)" "avail s1 = ext @ ?key @ ?body @ rest" "wf s1"
    by (rule read_success [OF wf, where n = 2]) simp_all
  obtain s2 where s2: "recv_length read w b1 s1 = Some (Some ?n, s2)" "avail s2 = ?key @ ?body @ rest" "wf s2"
    by (rule recv_length_ok [OF s1(3,2) size len])
  obtain s3 where s3: "(if b1 AND 0x80 \<noteq> 0 then read s2 4 else Some (Some [0, 0, 0, 0], s2)) =
      Some (Some (if key = None then [0, 0, 0, 0] else ?key), s3)" "avail s3 = ?body @ rest" "wf s3"
  proof (cases key)
    case None
    with s2 mb that [of s2] show ?thesis by simp
  next
    case (Some k)
    then have "avail s2 = k @ (?body @ rest)" using s2 by simp
    then obtain s3 where "read s2 4 = Some (Some k, s3)" "avail s3 = ?body @ rest" "wf s3"
      by (rule read_success [OF s2(3)]) (simp add: key Some)
    with mb Some that [of s3] show ?thesis by simp
  qed
  show thesis
  proof (cases "payload = []")
    case True
    then have "avail s3 = rest" using s3(2) by (cases key) (simp_all add: ws_mask_def)
    with True s3(1,3) that [of s3] show ?thesis by (simp add: recv_frame_via_def s1(1) s2(1))
  next
    case False
    have "length ?body = ?n" by (cases key) simp_all
    then obtain s4 where s4: "read s3 ?n = Some (Some ?body, s4)" "avail s4 = rest" "wf s4"
      by (rule read_success [OF s3(3,2)])
    have "recv_frame_via read w malloc_ok s = Some (Some (b0 AND 0x0F, Some payload), s4)"
      using False malloc mb s3(1) s4(1) by (cases key) (auto simp: recv_frame_via_def s1(1) s2(1))
    with False s4 that show ?thesis by simp
  qed
qed

text \<open>Whatever is received was in front of the stream, and exactly that much was taken.\<close>

lemma read_thenE:
  assumes "read_then r f = Some (Some y, t)"
  obtains x s where "r = Some (Some x, s)" "f x s = Some (Some y, t)"
  using assms by (cases r) (auto simp: read_then_def split: option.splits)

lemma recv_frame_consumes:
  assumes "wf s" and "recv_frame_via read w malloc_ok s = Some (Some (opcode, payload), s')"
  shows "\<exists>used. avail s = used @ avail s' \<and> 2 \<le> length used \<and> wf s' \<and>
           opcode = used ! 0 AND 0x0F \<and>
           (\<forall>p. payload = Some p \<longrightarrow> length p + 2 \<le> length used)"
proof -
  obtain hdr s1 where h: "read s 2 = Some (Some hdr, s1)"
    and r1: "read_then (recv_length read w (hdr ! 1) s1) (\<lambda>payload_len s.
     read_then (if hdr ! 1 AND 0x80 \<noteq> 0 then read s 4 else Some (Some [0, 0, 0, 0], s)) (\<lambda>key s.
       if payload_len > 0 then
         if \<not> malloc_ok payload_len then Some (None, s)
         else read_then (read s payload_len) (\<lambda>payload s.
           Some (Some (hdr ! 0 AND 0x0F,
             Some (if hdr ! 1 AND 0x80 \<noteq> 0 then ws_mask key payload else payload)), s))
       else Some (Some (hdr ! 0 AND 0x0F, None), s))) = Some (Some (opcode, payload), s')"
    using assms(2) unfolding recv_frame_via_def by (rule read_thenE)
  note h' = read_sound [OF assms(1) h]
  then have wf1: "wf s1" and l2: "length hdr = 2" by simp_all
  obtain n s2 where l: "recv_length read w (hdr ! 1) s1 = Some (Some n, s2)"
    and r2: "read_then (if hdr ! 1 AND 0x80 \<noteq> 0 then read s2 4 else Some (Some [0, 0, 0, 0], s2)) (\<lambda>key s.
       if n > 0 then
         if \<not> malloc_ok n then Some (None, s)
         else read_then (read s n) (\<lambda>payload s.
           Some (Some (hdr ! 0 AND 0x0F,
             Some (if hdr ! 1 AND 0x80 \<noteq> 0 then ws_mask key payload else payload)), s))
       else Some (Some (hdr ! 0 AND 0x0F, None), s)) = Some (Some (opcode, payload), s')"
    using r1 by (rule read_thenE)
  have "\<exists>ext. avail s1 = ext @ avail s2 \<and> wf s2"
  proof -
    have ext: "\<exists>ext. avail s1 = ext @ avail s2 \<and> wf s2"
      if "read_then (read s1 k) (\<lambda>ext s. Some (Some (size_of_bytes w ext), s)) = Some (Some n, s2)" for k
      using that by (rule read_thenE) (use read_sound [OF wf1] in blast)
    show ?thesis
      using l ext wf1 by (auto simp: recv_length_def Let_def split: if_splits)
  qed
  then obtain ext where ext: "avail s1 = ext @ avail s2" "wf s2" by blast
  obtain key s3 where k: "(if hdr ! 1 AND 0x80 \<noteq> 0 then read s2 4 else Some (Some [0, 0, 0, 0], s2)) = Some (Some key, s3)"
    and r3: "(if n > 0 then
         if \<not> malloc_ok n then Some (None, s3)
         else read_then (read s3 n) (\<lambda>payload s.
           Some (Some (hdr ! 0 AND 0x0F,
             Some (if hdr ! 1 AND 0x80 \<noteq> 0 then ws_mask key payload else payload)), s))
       else Some (Some (hdr ! 0 AND 0x0F, None), s3)) = Some (Some (opcode, payload), s')"
    using r2 by (rule read_thenE)
  obtain kb where kb: "avail s2 = kb @ avail s3" "wf s3"
    using k read_sound [OF ext(2)] ext(2) by (cases "hdr ! 1 AND 0x80 \<noteq> 0") auto
  show ?thesis
  proof (cases "n > 0")
    case False
    with r3 have e: "s' = s3" "opcode = hdr ! 0 AND 0x0F" "payload = None" by auto
    show ?thesis
      using h' ext kb l2 by (intro exI [of _ "hdr @ ext @ kb"]) (simp add: e nth_append)
  next
    case True
    with r3 have ok: "malloc_ok n" by (auto split: if_splits)
    with True r3 have "read_then (read s3 n) (\<lambda>payload s. Some (Some (hdr ! 0 AND 0x0F,
        Some (if hdr ! 1 AND 0x80 \<noteq> 0 then ws_mask key payload else payload)), s)) =
        Some (Some (opcode, payload), s')" by simp
    then obtain body s4 where b: "read s3 n = Some (Some body, s4)"
      and e: "s' = s4" "opcode = hdr ! 0 AND 0x0F"
        "payload = Some (if hdr ! 1 AND 0x80 \<noteq> 0 then ws_mask key body else body)"
      by (rule read_thenE) simp
    note b' = read_sound [OF kb(2) b]
    show ?thesis
      using h' ext kb l2 b' by (intro exI [of _ "hdr @ ext @ kb @ body"]) (auto simp: e nth_append)
  qed
qed

end

end
