(* ===== verification/WsUpstream.thy ===== *)
theory WsUpstream
  imports Frames CryptoStream
begin

text \<open>
  The gateway's WebSocket client (\<open>gateway/ws_upstream_client.c\<close>): connecting with the HTTP
  upgrade, the reader that first drains the bytes received behind the HTTP header, sending masked
  frames, receiving frames, closing.  \<open>size_t\<close> has 64 bits here.
\<close>

section \<open>State and reading\<close>

text \<open>\<open>fd = None\<close> is \<open>TCP_TRANSPORT_INVALID_SOCKET\<close>; every call on it fails.\<close>

record ws_upstream_client =
  fd :: "sock option"
  prebuffer :: "byte list option"
  prebuffer_off :: nat

definition write_fd :: "sock option \<Rightarrow> byte list \<Rightarrow> (int \<times> sock option) option" where
  "write_fd sk buf =
     (case sk of
        None \<Rightarrow> Some (if buf = [] then 0 else -1, None)
      | Some s \<Rightarrow> map_option (\<lambda>(rc, s'). (rc, Some s')) (tcp_transport_write_all s buf))"

definition unread :: "ws_upstream_client \<Rightarrow> byte list" where
  "unread client = (case prebuffer client of None \<Rightarrow> [] | Some pb \<Rightarrow> drop (prebuffer_off client) pb)"

text \<open>The step of \<open>ws_read_some\<close> that copies from the prebuffer.\<close>

definition take_prebuffer :: "ws_upstream_client \<Rightarrow> nat \<Rightarrow> byte list \<times> ws_upstream_client" where
  "take_prebuffer client room =
     (case prebuffer client of
        None \<Rightarrow> ([], client)
      | Some pb \<Rightarrow>
          let avail = length pb - prebuffer_off client;
              n = (if room < avail then room else avail);
              off = prebuffer_off client + n
          in (slice (prebuffer_off client) n pb,
              if off = length pb then client\<lparr>prebuffer := None, prebuffer_off := 0\<rparr>
              else client\<lparr>prebuffer_off := off\<rparr>))"

lemma take_prebuffer_props:
  assumes "unread client \<noteq> []" and "take_prebuffer client room = (bs, client')"
  shows "unread client = bs @ unread client'" and "fd client' = fd client"
    and "length bs \<le> room" and "0 < room \<Longrightarrow> bs \<noteq> []"
proof -
  obtain pb where pb: "prebuffer client = Some pb" "prebuffer_off client < length pb"
    using assms(1) by (cases "prebuffer client") (auto simp: unread_def)
  let ?off = "prebuffer_off client"
  let ?n = "if room < length pb - ?off then room else length pb - ?off"
  have bs: "bs = take ?n (drop ?off pb)"
    using assms(2) pb by (simp add: take_prebuffer_def Let_def slice_def split: if_splits)
  have c: "client' = (if ?off + ?n = length pb then client\<lparr>prebuffer := None, prebuffer_off := 0\<rparr>
      else client\<lparr>prebuffer_off := ?off + ?n\<rparr>)"
    using assms(2) pb by (simp add: take_prebuffer_def Let_def split: if_splits)
  have "unread client' = drop (?off + ?n) pb"
    using pb by (simp add: c unread_def)
  then show "unread client = bs @ unread client'"
    using pb by (simp add: bs unread_def) (metis append_take_drop_id drop_drop add.commute)
  show "fd client' = fd client" by (simp add: c)
  show "length bs \<le> room" by (simp add: bs)
  show "0 < room \<Longrightarrow> bs \<noteq> []" using pb(2) by (auto simp: bs)
qed

lemma unread_fd [simp]: "unread (client\<lparr>fd := sk\<rparr>) = unread client"
  by (simp add: unread_def split: option.split)

function ws_read_loop ::
  "ws_upstream_client \<Rightarrow> nat \<Rightarrow> byte list \<Rightarrow> (int \<times> byte list \<times> ws_upstream_client) option" where
  "ws_read_loop client len dest =
     (if length dest < len then
        (if unread client \<noteq> [] then
           ws_read_loop (snd (take_prebuffer client (len - length dest))) len
             (dest @ fst (take_prebuffer client (len - length dest)))
         else
           (case recv_fd (fd client) (len - length dest) of
              None \<Rightarrow> None
            | Some (Eof, sk') \<Rightarrow> Some (0, dest, client\<lparr>fd := sk'\<rparr>)
            | Some (Intr, sk') \<Rightarrow> ws_read_loop (client\<lparr>fd := sk'\<rparr>) len dest
            | Some (Failed, sk') \<Rightarrow> Some (-1, dest, client\<lparr>fd := sk'\<rparr>)
            | Some (Done bs, sk') \<Rightarrow> ws_read_loop (client\<lparr>fd := sk'\<rparr>) len (dest @ bs)))
      else Some (1, dest, client))"
  by pat_completeness auto
termination
proof (relation "measure (\<lambda>(client, len, dest). length (unread client) + script_size (fd_script (fd client)))",
    goal_cases)
  case 1
  then show ?case by simp
next
  case (2 client len dest)
  obtain bs c' where t: "take_prebuffer client (len - length dest) = (bs, c')" by fastforce
  note p = take_prebuffer_props [OF 2(2) t]
  have "0 < length bs" using p(4) 2(1) by simp
  then show ?case using p(1,2) by (simp add: t)
next
  case (3 client len dest x r sk')
  then show ?case by (auto intro: fd_script_shrinks)
next
  case (4 client len dest x r sk')
  then show ?case by (auto intro: fd_script_shrinks)
qed

declare ws_read_loop.simps [simp del]

definition ws_read_some ::
  "ws_upstream_client \<Rightarrow> nat \<Rightarrow> (int \<times> byte list \<times> ws_upstream_client) option" where
  "ws_read_some client len = ws_read_loop client len []"

text \<open>What is still to be read: the prebuffer, then the socket.\<close>

definition client_stream :: "ws_upstream_client \<Rightarrow> byte list" where
  "client_stream client = unread client @ stream_bytes (fd_script (fd client))"

definition ws_read :: "ws_upstream_client \<Rightarrow> nat \<Rightarrow> (byte list option \<times> ws_upstream_client) option" where
  "ws_read client len =
     (case ws_read_some client len of
        None \<Rightarrow> None
      | Some (rc, dest, client') \<Rightarrow> Some (if rc \<le> 0 then None else Some dest, client'))"

section \<open>The reader contract\<close>

lemma ws_read_loop_ok:
  "ws_read_loop client len dest = Some (rc, out, client') \<Longrightarrow> length dest \<le> len \<Longrightarrow> 0 < rc \<Longrightarrow>
   length out = len \<and> dest @ client_stream client = out @ client_stream client'"
proof (induction client len dest rule: ws_read_loop.induct)
  case (1 client len dest)
  show ?case
  proof (cases "length dest < len")
    case False
    with "1.prems" show ?thesis by (auto simp: ws_read_loop.simps [of client])
  next
    case lt: True
    show ?thesis
    proof (cases "unread client \<noteq> []")
      case True
      obtain bs c' where t: "take_prebuffer client (len - length dest) = (bs, c')" by fastforce
      note p = take_prebuffer_props [OF True t]
      have "ws_read_loop c' len (dest @ bs) = Some (rc, out, client')"
        using "1.prems"(1) lt True t by (simp add: ws_read_loop.simps [of client])
      moreover have "length (dest @ bs) \<le> len" using p(3) lt by simp
      ultimately have "length out = len \<and> (dest @ bs) @ client_stream c' = out @ client_stream client'"
        using "1.IH"(1) [OF lt True] "1.prems"(3) by (simp add: t)
      then show ?thesis using p(1,2) by (simp add: client_stream_def)
    next
      case no: False
      obtain r sk' where r: "recv_fd (fd client) (len - length dest) = Some (r, sk')"
        using "1.prems"(1) lt no
        by (cases "recv_fd (fd client) (len - length dest)") (auto simp: ws_read_loop.simps [of client])
      show ?thesis
      proof (cases r)
        case (Done bs)
        have d: "bs \<noteq> []" "length bs \<le> len - length dest"
          "stream_bytes (fd_script (fd client)) = bs @ stream_bytes (fd_script sk')"
          using recv_fd_cases(1) [OF r Done] lt by simp_all
        have "ws_read_loop (client\<lparr>fd := sk'\<rparr>) len (dest @ bs) = Some (rc, out, client')"
          using "1.prems"(1) lt no r Done by (simp add: ws_read_loop.simps [of client])
        moreover have "length (dest @ bs) \<le> len" using d(2) lt by simp
        ultimately have "length out = len \<and>
            (dest @ bs) @ client_stream (client\<lparr>fd := sk'\<rparr>) = out @ client_stream client'"
          using "1.IH"(2) [OF lt no r refl Done] "1.prems"(3) by blast
        then show ?thesis using d(3) no by (simp add: client_stream_def)
      next
        case Intr
        have "ws_read_loop (client\<lparr>fd := sk'\<rparr>) len dest = Some (rc, out, client')"
          using "1.prems"(1) lt no r Intr by (simp add: ws_read_loop.simps [of client])
        then have "length out = len \<and>
            dest @ client_stream (client\<lparr>fd := sk'\<rparr>) = out @ client_stream client'"
          using "1.IH"(3) [OF lt no r refl Intr] "1.prems"(2,3) by blast
        then show ?thesis using recv_fd_cases(2) [OF r Intr] by (simp add: client_stream_def)
      next
        case Eof
        with "1.prems" lt no r show ?thesis by (simp add: ws_read_loop.simps [of client])
      next
        case Failed
        with "1.prems" lt no r show ?thesis by (simp add: ws_read_loop.simps [of client])
      qed
    qed
  qed
qed

lemma ws_read_loop_returns:
  "length dest \<le> len \<Longrightarrow> len \<le> length dest + length (client_stream client) \<Longrightarrow>
   \<exists>out client'. ws_read_loop client len dest = Some (1, out, client')"
proof (induction client len dest rule: ws_read_loop.induct)
  case (1 client len dest)
  show ?case
  proof (cases "length dest < len")
    case False
    with "1.prems" show ?thesis by (auto simp: ws_read_loop.simps [of client])
  next
    case lt: True
    show ?thesis
    proof (cases "unread client \<noteq> []")
      case True
      obtain bs c' where t: "take_prebuffer client (len - length dest) = (bs, c')" by fastforce
      note p = take_prebuffer_props [OF True t]
      have "length (dest @ bs) \<le> len" "len \<le> length (dest @ bs) + length (client_stream c')"
        using p "1.prems" lt by (simp_all add: client_stream_def)
      then obtain out client' where "ws_read_loop c' len (dest @ bs) = Some (1, out, client')"
        using "1.IH"(1) [OF lt True] by (auto simp: t)
      with lt True t show ?thesis by (simp add: ws_read_loop.simps [of client])
    next
      case no: False
      have "stream_bytes (fd_script (fd client)) \<noteq> []"
        using "1.prems" lt no by (auto simp: client_stream_def)
      then obtain r sk' where r: "recv_fd (fd client) (len - length dest) = Some (r, sk')"
          "r = Intr \<or> (\<exists>bs. r = Done bs)"
        using recv_progress [of _ "len - length dest"]
        by (cases "fd client") (fastforce simp: recv_fd_def fd_script_def)+
      from r(2) consider bs where "r = Done bs" | "r = Intr" by blast
      then show ?thesis
      proof cases
        case (1 bs)
        have d: "length bs \<le> len - length dest"
          "stream_bytes (fd_script (fd client)) = bs @ stream_bytes (fd_script sk')"
          using recv_fd_cases(1) [OF r(1) 1] lt by simp_all
        have "length (dest @ bs) \<le> len"
          "len \<le> length (dest @ bs) + length (client_stream (client\<lparr>fd := sk'\<rparr>))"
          using d "1.prems" lt by (simp_all add: client_stream_def)
        then obtain out client' where "ws_read_loop (client\<lparr>fd := sk'\<rparr>) len (dest @ bs) = Some (1, out, client')"
          using "1.IH"(2) [OF lt no r(1) refl 1] by blast
        with lt no r(1) 1 show ?thesis by (simp add: ws_read_loop.simps [of client])
      next
        case 2
        have "len \<le> length dest + length (client_stream (client\<lparr>fd := sk'\<rparr>))"
          using recv_fd_cases(2) [OF r(1) 2] "1.prems"(2) by (simp add: client_stream_def)
        then obtain out client' where "ws_read_loop (client\<lparr>fd := sk'\<rparr>) len dest = Some (1, out, client')"
          using "1.IH"(3) [OF lt no r(1) refl 2 "1.prems"(1)] by blast
        with lt no r(1) 2 show ?thesis by (simp add: ws_read_loop.simps [of client])
      qed
    qed
  qed
qed

interpretation upstream: byte_reader ws_read client_stream "\<lambda>_. True"
proof unfold_locales
  fix s s' n bs
  assume "ws_read s n = Some (Some bs, s')"
  then obtain rc where "ws_read_loop s n [] = Some (rc, bs, s')" "0 < rc"
    by (auto simp: ws_read_def ws_read_some_def split: option.splits if_splits)
  with ws_read_loop_ok [of s n "[]" rc bs s']
  show "length bs = n \<and> client_stream s = bs @ client_stream s' \<and> True" by simp
next
  fix s n assume "n \<le> length (client_stream s)"
  then show "\<exists>bs s'. ws_read s n = Some (Some bs, s')"
    using ws_read_loop_returns [of "[]" n s] by (auto simp: ws_read_def ws_read_some_def)
qed

section \<open>Frames\<close>

definition masked_header :: "byte \<Rightarrow> nat \<Rightarrow> byte list \<Rightarrow> byte list" where
  "masked_header opcode len key =
     [0x80 OR opcode] @
     (if len \<le> 125 then [0x80 OR word_of_nat len]
      else if len \<le> 0xFFFF then [0x80 OR 126, word_of_nat (drop_bit 8 len), word_of_nat len]
      else [0x80 OR 127] @ map (\<lambda>i. word_of_nat (drop_bit (i * 8) len)) [7, 6, 5, 4, 3, 2, 1, 0]) @
     key"

definition ws_send_masked_frame ::
  "byte list option \<Rightarrow> (nat \<Rightarrow> u32) \<Rightarrow> (nat \<Rightarrow> bool) \<Rightarrow> sock option \<Rightarrow> byte \<Rightarrow> byte list \<Rightarrow>
   (int \<times> sock option) option" where
  "ws_send_masked_frame urandom rnd malloc_ok sk opcode payload =
     (let (rc, key) = crypto_stream_fill_random urandom rnd (Some [0, 0, 0, 0]) 4 in
      if rc \<noteq> 0 then Some (-1, sk)
      else
        (case write_fd sk (masked_header opcode (length payload) (the key)) of
           None \<Rightarrow> None
         | Some (rc, sk) \<Rightarrow>
             if rc \<noteq> 0 then Some (-1, sk)
             else if length payload = 0 then Some (0, sk)
             else if \<not> malloc_ok (length payload) then Some (-1, sk)
             else (case write_fd sk (ws_mask (the key) payload) of
                     None \<Rightarrow> None
                   | Some (rc, sk) \<Rightarrow> Some (if rc \<noteq> 0 then -1 else 0, sk))))"

definition ws_upstream_send_text ::
  "byte list option \<Rightarrow> (nat \<Rightarrow> u32) \<Rightarrow> (nat \<Rightarrow> bool) \<Rightarrow> ws_upstream_client option \<Rightarrow> byte list option \<Rightarrow>
   (int \<times> ws_upstream_client option) option" where
  "ws_upstream_send_text urandom rnd malloc_ok client text =
     (case (client, text) of
        (Some c, Some t) \<Rightarrow>
          map_option (\<lambda>(rc, sk). (rc, Some (c\<lparr>fd := sk\<rparr>)))
            (ws_send_masked_frame urandom rnd malloc_ok (fd c) 0x1 (c_str t))
      | _ \<Rightarrow> Some (-1, client))"

definition ws_upstream_send_close ::
  "byte list option \<Rightarrow> (nat \<Rightarrow> u32) \<Rightarrow> (nat \<Rightarrow> bool) \<Rightarrow> ws_upstream_client option \<Rightarrow> u16 \<Rightarrow>
   (int \<times> ws_upstream_client option) option" where
  "ws_upstream_send_close urandom rnd malloc_ok client code =
     (case client of
        None \<Rightarrow> Some (-1, None)
      | Some c \<Rightarrow>
          map_option (\<lambda>(rc, sk). (rc, Some (c\<lparr>fd := sk\<rparr>)))
            (ws_send_masked_frame urandom rnd malloc_ok (fd c) 0x8 [ucast (drop_bit 8 code), ucast code]))"

definition ws_upstream_recv_frame ::
  "(nat \<Rightarrow> bool) \<Rightarrow> ws_upstream_client \<Rightarrow> ((byte \<times> byte list option) option \<times> ws_upstream_client) option" where
  "ws_upstream_recv_frame malloc_ok client = recv_frame_via ws_read 64 malloc_ok client"

definition ws_upstream_fd :: "ws_upstream_client option \<Rightarrow> sock option" where
  "ws_upstream_fd client = (case client of None \<Rightarrow> None | Some c \<Rightarrow> fd c)"

definition ws_upstream_close :: "ws_upstream_client \<Rightarrow> ws_upstream_client" where
  "ws_upstream_close client = client\<lparr>prebuffer := None, prebuffer_off := 0, fd := None\<rparr>"

definition fd_sent :: "sock option \<Rightarrow> byte list" where
  "fd_sent sk = (case sk of None \<Rightarrow> [] | Some s \<Rightarrow> sent s)"

interpretation upstream_writer: byte_writer write_fd fd_sent
proof unfold_locales
  fix s s' buf
  assume "write_fd s buf = Some (0, s')"
  then show "fd_sent s' = fd_sent s @ buf"
    using tcp.write_ok by (auto simp: write_fd_def fd_sent_def split: option.splits if_splits)
next
  fix s s' buf and rc :: int
  assume "write_fd s buf = Some (rc, s')" "rc \<noteq> 0"
  then show "\<exists>k < length buf. fd_sent s' = fd_sent s @ take k buf"
    using tcp.write_err by (fastforce simp: write_fd_def fd_sent_def split: option.splits if_splits)
qed

lemma masked_header_wire:
  "masked_header opcode (length payload) key @ ws_mask key payload = frame_bytes (0x80 OR opcode) (Some key) payload"
proof -
  have two: "be_bytes 2 n = [word_of_nat (drop_bit 8 n), word_of_nat n]" for n
    by (simp add: be_bytes_def drop_bit_eq_div upt_rec)
  have eight: "be_bytes 8 n = map (\<lambda>i. word_of_nat (drop_bit (i * 8) n)) [7, 6, 5, 4, 3, 2, 1, 0]" for n
    by (simp add: be_bytes_def drop_bit_eq_div upt_rec)
  show ?thesis
    by (simp add: masked_header_def frame_bytes_def length_field_def two eight)
qed

lemma random_key:
  "\<exists>key. crypto_stream_fill_random urandom rnd (Some [0, 0, 0, 0]) 4 = (0, Some key) \<and> length key = 4"
  by (auto simp: crypto_stream_fill_random_def length_blit split: option.split)

text \<open>
  C31: a frame sent is a well-formed masked frame.  When \<open>ws_send_masked_frame\<close> returns 0, exactly
  one RFC 6455 frame was appended to the wire: FIN with the opcode, the shortest length form, a
  four-byte key and the payload masked with it; when it returns anything else, a proper prefix of
  such a frame was.
\<close>

theorem send_masked_frame_wire:
  assumes "ws_send_masked_frame urandom rnd malloc_ok sk opcode payload = Some (rc, sk')"
  shows "\<exists>key. length key = 4 \<and>
     (rc = 0 \<and> fd_sent sk' = fd_sent sk @ frame_bytes (0x80 OR opcode) (Some key) payload \<or>
      rc = -1 \<and> (\<exists>k < length (frame_bytes (0x80 OR opcode) (Some key) payload).
        fd_sent sk' = fd_sent sk @ take k (frame_bytes (0x80 OR opcode) (Some key) payload)))"
proof -
  obtain key where key: "crypto_stream_fill_random urandom rnd (Some [0, 0, 0, 0]) 4 = (0, Some key)"
      "length key = 4"
    using random_key by blast
  let ?h = "masked_header opcode (length payload) key" and ?b = "ws_mask key payload"
  let ?f = "frame_bytes (0x80 OR opcode) (Some key) payload"
  have f: "?f = ?h @ ?b" by (simp add: masked_header_wire)
  obtain rc1 sk1 where w1: "write_fd sk ?h = Some (rc1, sk1)"
    using assms key(1) by (cases "write_fd sk ?h") (auto simp: ws_send_masked_frame_def)
  have "rc = 0 \<and> fd_sent sk' = fd_sent sk @ ?f \<or>
      rc = -1 \<and> (\<exists>k < length ?f. fd_sent sk' = fd_sent sk @ take k ?f)"
  proof (cases "rc1 = 0")
    case False
    with assms key(1) w1 have e: "rc = -1" "sk' = sk1"
      by (auto simp: ws_send_masked_frame_def)
    obtain k where "k < length ?h" "fd_sent sk1 = fd_sent sk @ take k ?h"
      using upstream_writer.write_err [OF w1 False] by blast
    then show ?thesis using e f by (intro disjI2 conjI exI [of _ k]) auto
  next
    case True
    note ok1 = upstream_writer.write_ok [OF w1 [unfolded True]]
    show ?thesis
    proof (cases "payload = []")
      case True
      then have "?f = masked_header opcode 0 key" using f by (simp add: ws_mask_def)
      moreover have "rc = 0" "sk' = sk1"
        using assms key(1) w1 \<open>rc1 = 0\<close> True by (simp_all add: ws_send_masked_frame_def)
      ultimately show ?thesis using ok1 True by simp
    next
      case ne: False
      show ?thesis
      proof (cases "malloc_ok (length payload)")
        case False
        with assms key(1) w1 \<open>rc1 = 0\<close> ne have "rc = -1" "sk' = sk1"
          by (auto simp: ws_send_masked_frame_def)
        then show ?thesis using ok1 ne f by (intro disjI2 conjI exI [of _ "length ?h"]) auto
      next
        case True
        obtain rc2 where w2: "write_fd sk1 ?b = Some (rc2, sk')" and rc: "rc = (if rc2 \<noteq> 0 then -1 else 0)"
          using assms key(1) w1 \<open>rc1 = 0\<close> ne True
          by (auto simp: ws_send_masked_frame_def split: option.splits)
        show ?thesis
        proof (cases "rc2 = 0")
          case True
          then show ?thesis using upstream_writer.write_ok [OF w2 [unfolded True]] ok1 rc f by simp
        next
          case False
          obtain k where k: "k < length ?b" "fd_sent sk' = fd_sent sk1 @ take k ?b"
            using upstream_writer.write_err [OF w2 False] by blast
          then show ?thesis using ok1 rc False f by (intro disjI2 conjI exI [of _ "length ?h + k"]) auto
        qed
      qed
    qed
  qed
  with key(2) show ?thesis by blast
qed

text \<open>
  C20: receiving is the inverse of framing.  If the bytes still to be read, the prebuffer included,
  start with any frame, masked or not, of fewer than 2^64 bytes, \<open>ws_upstream_recv_frame\<close> returns
  its opcode and its unmasked payload and leaves exactly the bytes behind the frame, however the
  network segments them.
\<close>

theorem recv_frame_roundtrip:
  assumes "client_stream client = frame_bytes b0 key payload @ rest"
    and "\<forall>k. key = Some k \<longrightarrow> length k = 4" and "length payload < 2 ^ 64"
    and "payload \<noteq> [] \<longrightarrow> malloc_ok (length payload)"
  shows "\<exists>client'. ws_upstream_recv_frame malloc_ok client =
     Some (Some (b0 AND 0x0F, if payload = [] then None else Some payload), client') \<and>
     client_stream client' = rest"
proof -
  obtain client' where "recv_frame_via ws_read 64 malloc_ok client =
      Some (Some (b0 AND 0x0F, if payload = [] then None else Some payload), client')"
      "client_stream client' = rest"
    by (rule upstream.recv_frame_ok [OF TrueI assms(1), of 64 malloc_ok]) (use assms in simp_all)
  then show ?thesis by (auto simp: ws_upstream_recv_frame_def)
qed

definition demo_client :: ws_upstream_client where
  "demo_client = \<lparr>fd = Some demo_sock, prebuffer = Some [0x82, 0x03, 7], prebuffer_off = 0\<rparr>"

theorem send_masked_frame_wire_witness:
  "\<exists>sk' key. ws_send_masked_frame (Some [1, 2, 3, 4]) (\<lambda>_. 0) (\<lambda>_. True)
       (Some (demo_sock\<lparr>outgoing := [STake 9, SIntr, STake 9]\<rparr>)) 1 [5, 6] = Some (0, sk') \<and>
     length key = 4 \<and> fd_sent sk' = 9 # frame_bytes 0x81 (Some key) [5, 6]"
proof -
  have r: "ws_send_masked_frame (Some [1, 2, 3, 4]) (\<lambda>_. 0) (\<lambda>_. True)
       (Some (demo_sock\<lparr>outgoing := [STake 9, SIntr, STake 9]\<rparr>)) 1 [5, 6] =
     Some (0, Some (demo_sock\<lparr>outgoing := [], sent := [9, 0x81, 0x82, 1, 2, 3, 4, 4, 4]\<rparr>))"
    by (simp add: ws_send_masked_frame_def crypto_stream_fill_random_def blit_def write_fd_def
        masked_header_def tcp_transport_write_all.simps send.simps demo_sock_def ws_mask_def upt_rec)
  show ?thesis
    using send_masked_frame_wire [OF r] r by (auto simp: fd_sent_def demo_sock_def)
qed

theorem recv_frame_roundtrip_witness:
  "\<exists>client'. ws_upstream_recv_frame (\<lambda>_. True) demo_client = Some (Some (2, Some [7, 1, 2]), client') \<and>
     client_stream client' = [3, 4, 5]"
proof -
  have s: "client_stream demo_client = frame_bytes 0x82 None [7, 1, 2] @ [3, 4, 5]"
    by (simp add: client_stream_def demo_client_def unread_def fd_script_def demo_sock_def
        frame_bytes_def length_field_def)
  show ?thesis using recv_frame_roundtrip [OF s, of "\<lambda>_. True"] by simp
qed

text \<open>
  A frame is only ever delivered from bytes that were received.  When
  \<open>ws_upstream_recv_frame\<close> succeeds, the bytes it took are the front of the stream, its opcode is
  the low half of the first of them, and the payload is no longer than they are: a truncated
  frame is never delivered.
\<close>

theorem recv_frame_sound:
  assumes "ws_upstream_recv_frame malloc_ok client = Some (Some (opcode, payload), client')"
  shows "\<exists>used. client_stream client = used @ client_stream client' \<and> 2 \<le> length used \<and>
     opcode = used ! 0 AND 0x0F \<and> (\<forall>p. payload = Some p \<longrightarrow> length p + 2 \<le> length used)"
  using upstream.recv_frame_consumes [OF TrueI assms [unfolded ws_upstream_recv_frame_def]] by blast

theorem recv_frame_sound_witness:
  "\<exists>client' used. ws_upstream_recv_frame (\<lambda>_. True) demo_client = Some (Some (2, Some [7, 1, 2]), client') \<and>
     client_stream demo_client = used @ client_stream client' \<and> 5 \<le> length used"
proof -
  have s: "client_stream demo_client = frame_bytes 0x82 None [7, 1, 2] @ [3, 4, 5]"
    by (simp add: client_stream_def demo_client_def unread_def fd_script_def demo_sock_def
        frame_bytes_def length_field_def)
  obtain client' where r: "recv_frame_via ws_read 64 (\<lambda>_. True) demo_client =
      Some (Some (0x82 AND 0x0F, if [7, 1, 2] = ([] :: byte list) then None else Some [7, 1, 2]), client')"
    by (rule upstream.recv_frame_ok [OF TrueI s, of 64 "\<lambda>_. True"]) simp_all
  then have r': "ws_upstream_recv_frame (\<lambda>_. True) demo_client = Some (Some (2, Some [7, 1, 2]), client')"
    by (simp add: ws_upstream_recv_frame_def)
  show ?thesis using recv_frame_sound [OF r'] r' by fastforce
qed

section \<open>Connecting and closing\<close>

definition crlf :: "byte list" where
  "crlf = [0x0D, 0x0A]"

definition upgrade_request :: "byte list \<Rightarrow> byte list \<Rightarrow> u16 \<Rightarrow> byte list" where
  "upgrade_request path host port =
     str ''GET '' @ c_str path @ str '' HTTP/1.1'' @ crlf @
     str ''Host: '' @ c_str host @ str '':'' @ decimal (unat port) @ crlf @
     str ''Upgrade: websocket'' @ crlf @
     str ''Connection: Upgrade'' @ crlf @
     str ''Sec-WebSocket-Key: dGhlIHNhbXBsZSBub25jZQ=='' @ crlf @
     str ''Sec-WebSocket-Version: 13'' @ crlf @ crlf"

text \<open>
  The loop that reads the response into \<open>response[4096]\<close>: whether it is accepted and the bytes
  that go to the prebuffer.
\<close>

function handshake_loop ::
  "(nat \<Rightarrow> bool) \<Rightarrow> recv_event list \<Rightarrow> byte list \<Rightarrow> (int \<times> byte list option \<times> recv_event list) option" where
  "handshake_loop malloc_ok es response =
     (if length response + 1 < 4096 then
        (case recv es (4096 - length response - 1) of
           None \<Rightarrow> None
         | Some (Eof, es) \<Rightarrow> Some (-1, None, es)
         | Some (Intr, es) \<Rightarrow> handshake_loop malloc_ok es response
         | Some (Failed, es) \<Rightarrow> Some (-1, None, es)
         | Some (Done bs, es) \<Rightarrow>
             (case strstr (response @ bs @ [0]) (crlf @ crlf) of
                None \<Rightarrow> handshake_loop malloc_ok es (response @ bs)
              | Some header_end \<Rightarrow>
                  let header_len = header_end + 4;
                      extra = length (response @ bs) - header_len
                  in if strstr (response @ bs @ [0]) (str ''101'') = None then Some (-1, None, es)
                     else if extra > 0 then
                       if malloc_ok extra then Some (0, Some (drop header_len (response @ bs)), es)
                       else Some (-1, None, es)
                     else Some (0, None, es)))
      else Some (-1, None, es))"
  by pat_completeness auto
termination
  by (relation "measure (\<lambda>(malloc_ok, es, response). script_size es)")
     (auto intro: recv_shrinks recv_intr_shrinks)

declare handshake_loop.simps [simp del]

text \<open>
  \<open>connected\<close> is the socket \<open>tcp_transport_connect\<close> returned for the host and port.
\<close>

definition ws_upstream_connect ::
  "(nat \<Rightarrow> bool) \<Rightarrow> sock option \<Rightarrow> byte list \<Rightarrow> u16 \<Rightarrow> byte list option \<Rightarrow>
   (int \<times> ws_upstream_client) option" where
  "ws_upstream_connect malloc_ok connected host port path =
     (let client = \<lparr>fd = connected, prebuffer = None, prebuffer_off = 0\<rparr> in
      case connected of
        None \<Rightarrow> Some (-1, client)
      | Some s \<Rightarrow>
          let request = upgrade_request (case path of None \<Rightarrow> str ''/'' | Some p \<Rightarrow> p) host port in
          if 512 \<le> length request then Some (-1, ws_upstream_close client)
          else
            (case tcp_transport_write_all s request of
               None \<Rightarrow> None
             | Some (rc, s) \<Rightarrow>
                 if rc \<noteq> 0 then Some (-1, ws_upstream_close (client\<lparr>fd := Some s\<rparr>))
                 else
                   (case handshake_loop malloc_ok (incoming s) [] of
                      None \<Rightarrow> None
                    | Some (rc, pb, es) \<Rightarrow>
                        let client = client\<lparr>fd := Some (s\<lparr>incoming := es\<rparr>)\<rparr> in
                        if rc \<noteq> 0 then Some (-1, ws_upstream_close client)
                        else Some (0, client\<lparr>prebuffer := pb\<rparr>))))"

lemma header_split:
  assumes "strstr (all @ [0]) (crlf @ crlf) = Some h"
  shows "h + 4 \<le> length all" and "all = take h all @ (crlf @ crlf) @ drop (h + 4) all"
proof -
  have c: "length (crlf @ crlf) = 4" by (simp add: crlf_def)
  have "strstr all (crlf @ crlf) = Some h" using assms strstr_snoc [of all "crlf @ crlf"] by simp
  note found = strstr_Some [OF this, unfolded c]
  show "h + 4 \<le> length all" by (rule found [THEN conjunct1])
  show "all = take h all @ (crlf @ crlf) @ drop (h + 4) all" by (rule found [THEN conjunct2])
qed

lemma handshake_loop_ok:
  "handshake_loop malloc_ok es response = Some (rc, pb, es') \<Longrightarrow>
   rc \<in> {0, -1} \<and>
   (rc = 0 \<longrightarrow> (\<exists>header. response @ stream_bytes es =
      header @ crlf @ crlf @ (case pb of None \<Rightarrow> [] | Some b \<Rightarrow> b) @ stream_bytes es' \<and>
      length header + 4 < 4096))"
proof (induction malloc_ok es response rule: handshake_loop.induct)
  case (1 malloc_ok es response)
  show ?case
  proof (cases "length response + 1 < 4096")
    case False
    with "1.prems" show ?thesis by (simp add: handshake_loop.simps [of _ es])
  next
    case lt: True
    obtain r es1 where r: "recv es (4096 - length response - 1) = Some (r, es1)"
      using "1.prems" lt by (cases "recv es (4096 - length response - 1)")
        (auto simp: handshake_loop.simps [of _ es])
    show ?thesis
    proof (cases r)
      case Eof
      with "1.prems" lt r show ?thesis by (simp add: handshake_loop.simps [of _ es])
    next
      case Failed
      with "1.prems" lt r show ?thesis by (simp add: handshake_loop.simps [of _ es])
    next
      case Intr
      have "handshake_loop malloc_ok es1 response = Some (rc, pb, es')"
        using "1.prems" lt r Intr by (simp add: handshake_loop.simps [of _ es])
      from "1.IH"(2) [OF lt r refl Intr this] recv_other(1) [OF r [unfolded Intr]]
      show ?thesis by simp
    next
      case (Done bs)
      let ?all = "response @ bs"
      have d: "length bs \<le> 4096 - length response - 1" "stream_bytes es = bs @ stream_bytes es1"
        using recv_Done [OF r [unfolded Done]] lt by simp_all
      show ?thesis
      proof (cases "strstr (response @ bs @ [0]) (crlf @ crlf)")
        case None
        have "handshake_loop malloc_ok es1 ?all = Some (rc, pb, es')"
          using "1.prems" lt r Done None by (simp add: handshake_loop.simps [of _ es])
        from "1.IH"(1) [OF lt r refl Done None this] d(2) show ?thesis by simp
      next
        case (Some h)
        have found: "strstr (?all @ [0]) (crlf @ crlf) = Some h" using Some by simp
        note pos = header_split(1) [OF found] and split = header_split(2) [OF found]
        have h: "length (take h ?all) + 4 < 4096" using pos d(1) lt by simp
        have run: "handshake_loop malloc_ok es response =
            (let extra = length ?all - (h + 4)
             in if strstr (?all @ [0]) (str ''101'') = None then Some (-1, None, es1)
                else if extra > 0 then
                  if malloc_ok extra then Some (0, Some (drop (h + 4) ?all), es1)
                  else Some (-1, None, es1)
                else Some (0, None, es1))"
          using lt r Done Some by (simp add: handshake_loop.simps [of _ es] Let_def)
        show ?thesis
        proof (cases "rc = 0")
          case True
          with run "1.prems" have e: "es' = es1"
              "(case pb of None \<Rightarrow> [] | Some b \<Rightarrow> b) = drop (h + 4) ?all"
            by (auto simp: Let_def split: if_splits)
          have "response @ stream_bytes es = ?all @ stream_bytes es1" using d(2) by simp
          also have "\<dots> = take h ?all @ crlf @ crlf @ drop (h + 4) ?all @ stream_bytes es1"
            by (rule trans [OF arg_cong [OF split, of "\<lambda>u. u @ stream_bytes es1"]])
               (simp only: append_assoc)
          finally have "response @ stream_bytes es = take h ?all @ crlf @ crlf @
              (case pb of None \<Rightarrow> [] | Some b \<Rightarrow> b) @ stream_bytes es'"
            unfolding e .
          with True h show ?thesis by blast
        next
          case False
          with run "1.prems" show ?thesis by (auto simp: Let_def split: if_splits)
        qed
      qed
    qed
  qed
qed

text \<open>
  C27: the upgrade loses no byte and leaks nothing.  When \<open>ws_upstream_connect\<close> returns 0, the
  upgrade request went out, what the peer sent starts with a header of fewer than 4092 bytes and
  an empty line, and the stream the client reads from is exactly what follows it, the bytes that
  arrived together with the header included.  When it returns anything else, the client holds
  neither a socket nor a prebuffer.
\<close>

theorem upstream_connect_stream:
  assumes "ws_upstream_connect malloc_ok connected host port path = Some (rc, client)"
  shows "rc = 0 \<and> (\<exists>s header. connected = Some s \<and>
           sock_stream s = header @ crlf @ crlf @ client_stream client \<and> length header + 4 < 4096 \<and>
           fd_sent (fd client) = sent s @
             upgrade_request (case path of None \<Rightarrow> str ''/'' | Some p \<Rightarrow> p) host port) \<or>
         rc = -1 \<and> fd client = None \<and> unread client = []"
proof (cases connected)
  case None
  with assms show ?thesis by (auto simp: ws_upstream_connect_def unread_def)
next
  case (Some s)
  let ?req = "upgrade_request (case path of None \<Rightarrow> str ''/'' | Some p \<Rightarrow> p) host port"
  have closed: "fd (ws_upstream_close c) = None \<and> unread (ws_upstream_close c) = []" for c
    by (simp add: ws_upstream_close_def unread_def)
  show ?thesis
  proof (cases "512 \<le> length ?req")
    case True
    with assms Some closed show ?thesis by (auto simp: ws_upstream_connect_def)
  next
    case False
    then obtain rc1 s1 where w: "tcp_transport_write_all s ?req = Some (rc1, s1)"
      using assms Some by (cases "tcp_transport_write_all s ?req") (auto simp: ws_upstream_connect_def)
    show ?thesis
    proof (cases "rc1 = 0")
      case False
      with w assms Some \<open>\<not> 512 \<le> length ?req\<close> closed show ?thesis
        by (auto simp: ws_upstream_connect_def)
    next
      case True
      then obtain rc2 pb es where hs: "handshake_loop malloc_ok (incoming s1) [] = Some (rc2, pb, es)"
        using w assms Some False
        by (cases "handshake_loop malloc_ok (incoming s1) []") (auto simp: ws_upstream_connect_def)
      let ?c = "\<lparr>fd = Some (s1\<lparr>incoming := es\<rparr>), prebuffer = None, prebuffer_off = 0\<rparr>"
      have out: "rc = (if rc2 \<noteq> 0 then -1 else 0)"
        "client = (if rc2 \<noteq> 0 then ws_upstream_close ?c else ?c\<lparr>prebuffer := pb\<rparr>)"
        using assms Some False w True hs by (auto simp: ws_upstream_connect_def Let_def split: if_splits)
      show ?thesis
      proof (cases "rc2 = 0")
        case False
        then show ?thesis using out closed by simp
      next
        case ok: True
        obtain header where h: "stream_bytes (incoming s1) =
            header @ crlf @ crlf @ (case pb of None \<Rightarrow> [] | Some b \<Rightarrow> b) @ stream_bytes es"
            "length header + 4 < 4096"
          using handshake_loop_ok [OF hs] ok by auto
        have c: "client_stream client = (case pb of None \<Rightarrow> [] | Some b \<Rightarrow> b) @ stream_bytes es"
          using out(2) ok by (simp add: client_stream_def unread_def fd_script_def split: option.split)
        have e: "incoming s1 = incoming s" "sent s1 = sent s @ ?req"
          using write_all_effect [OF w] True by auto
        show ?thesis using out ok h c e Some by (auto simp: sock_stream_def fd_sent_def)
      qed
    qed
  qed
qed

theorem upstream_connect_stream_witness:
  "\<exists>client. ws_upstream_connect (\<lambda>_. True)
     (Some \<lparr>incoming = [RData 0x31 [0x30, 0x31, 13], RData 10 [13, 10, 7, 8], RData 9 []],
            outgoing = [STake 1000], sent = []\<rparr>) (str ''h'') 81 None = Some (0, client) \<and>
   (\<exists>header. [0x31, 0x30, 0x31, 13, 10, 13, 10, 7, 8, 9] = header @ crlf @ crlf @ client_stream client)"
proof -
  let ?s = "\<lparr>incoming = [RData 0x31 [0x30, 0x31, 13], RData 10 [13, 10, 7, 8], RData 9 []],
            outgoing = [STake 1000], sent = []\<rparr>"
  let ?req = "upgrade_request (str ''/'') (str ''h'') 81"
  have len: "length ?req = 143"
    by (simp add: upgrade_request_def c_str_def crlf_def decimal.simps)
  then have ne: "?req \<noteq> []" by auto
  have w: "tcp_transport_write_all ?s ?req =
      Some (0, \<lparr>incoming = incoming ?s, outgoing = [], sent = ?req\<rparr>)"
    using len ne by (simp add: tcp_transport_write_all.simps send.simps)
  have hs: "handshake_loop (\<lambda>_. True) (incoming ?s) [] = Some (0, Some [7, 8], [RData 9 []])"
    by (simp add: handshake_loop.simps strstr_def c_str_def crlf_def Let_def)
  have r: "ws_upstream_connect (\<lambda>_. True) (Some ?s) (str ''h'') 81 None = Some (0,
     \<lparr>fd = Some \<lparr>incoming = [RData 9 []], outgoing = [], sent = ?req\<rparr>,
      prebuffer = Some [7, 8], prebuffer_off = 0\<rparr>)"
    using len w hs by (simp add: ws_upstream_connect_def)
  show ?thesis using upstream_connect_stream [OF r] r by (auto simp: sock_stream_def)
qed

end
