(* ===== verification/TxRing.thy ===== *)
theory TxRing
  imports Prelude
begin

text \<open>
  The USB transmit ring of the Ameba board (\<open>gateway_usb_tx_*\<close> in
  \<open>ameba_gateway/example_gateway_ameba.c\<close>): a 128 KiB circular buffer between the network task and
  the USB completion handler.  Its contract is a bounded byte queue, the locale \<open>byte_fifo\<close>; the
  ring is an interpretation of it.
\<close>

section \<open>The contract: a bounded queue of bytes\<close>

datatype fifo_op = Put "byte list" | Get nat

text \<open>One operation on: the bytes taken out so far, the bytes accepted so far, the queue.\<close>

fun fifo_step ::
  "('s \<Rightarrow> byte list \<Rightarrow> int \<times> 's) \<Rightarrow> ('s \<Rightarrow> nat \<Rightarrow> byte list) \<Rightarrow> ('s \<Rightarrow> nat \<Rightarrow> 's) \<Rightarrow>
   fifo_op \<Rightarrow> byte list \<times> byte list \<times> 's \<Rightarrow> byte list \<times> byte list \<times> 's" where
  "fifo_step put peek consume (Put xs) (out, acc, s) =
     (case put s xs of (rc, s') \<Rightarrow> (out, if rc = 0 then acc @ xs else acc, s'))"
| "fifo_step put peek consume (Get n) (out, acc, s) = (out @ peek s n, acc, consume s n)"

locale byte_fifo =
  fixes inv :: "'s \<Rightarrow> bool"
    and queued :: "'s \<Rightarrow> byte list"
    and cap :: nat
    and put :: "'s \<Rightarrow> byte list \<Rightarrow> int \<times> 's"
    and peek :: "'s \<Rightarrow> nat \<Rightarrow> byte list"
    and consume :: "'s \<Rightarrow> nat \<Rightarrow> 's"
  assumes put_fits: "inv s \<Longrightarrow> length (queued s) + length xs \<le> cap \<Longrightarrow>
      \<exists>s'. put s xs = (0, s') \<and> inv s' \<and> queued s' = queued s @ xs"
    and put_full: "inv s \<Longrightarrow> cap < length (queued s) + length xs \<Longrightarrow>
      \<exists>s'. put s xs = (-1, s') \<and> inv s' \<and> queued s' = queued s"
    and peek_front: "inv s \<Longrightarrow> peek s n = take n (queued s)"
    and consume_front: "inv s \<Longrightarrow> inv (consume s n) \<and> queued (consume s n) = drop n (queued s)"
    and bounded: "inv s \<Longrightarrow> length (queued s) \<le> cap"
begin

lemma put_cases:
  assumes "inv s" and "put s xs = (rc, s')"
  shows "inv s' \<and> (rc = 0 \<and> queued s' = queued s @ xs \<or> rc = -1 \<and> queued s' = queued s)"
  using put_fits [OF assms(1), of xs] put_full [OF assms(1), of xs] assms(2) by force

lemma peek_consume: "inv s \<Longrightarrow> queued s = peek s n @ queued (consume s n)"
  by (simp add: peek_front consume_front)

text \<open>
  Order and conservation over any interleaving: what came out, followed by what is still queued,
  is what was queued first, followed by the accepted input.
\<close>

lemma fifo_step_conserves:
  assumes "inv s" and "out @ queued s = start @ acc"
    and "fifo_step put peek consume op (out, acc, s) = (out', acc', s')"
  shows "inv s' \<and> out' @ queued s' = start @ acc'"
proof (cases op)
  case (Put xs)
  obtain rc t where p: "put s xs = (rc, t)" by fastforce
  note c = put_cases [OF assms(1) p]
  have e: "out' = out" "acc' = (if rc = 0 then acc @ xs else acc)" "s' = t"
    using assms(3) Put p by simp_all
  show ?thesis
  proof (cases "rc = 0")
    case True
    with c have "out @ queued t = (start @ acc) @ xs" by (simp flip: assms(2))
    with c e True show ?thesis by simp
  next
    case False
    with c assms(2) e show ?thesis by auto
  qed
next
  case (Get n)
  then have e: "out' = out @ peek s n" "acc' = acc" "s' = consume s n" using assms(3) by simp_all
  have "out' @ queued s' = out @ queued s" using peek_consume [OF assms(1), of n] by (simp add: e)
  then show ?thesis using assms(2) consume_front [OF assms(1)] by (simp add: e)
qed

lemma fifo_conservation:
  "inv s \<Longrightarrow> out @ queued s = start @ acc \<Longrightarrow>
   fold (fifo_step put peek consume) ops (out, acc, s) = (out', acc', s') \<Longrightarrow>
   inv s' \<and> out' @ queued s' = start @ acc'"
proof (induction ops arbitrary: out acc s)
  case (Cons op ops)
  obtain out1 acc1 s1 where st: "fifo_step put peek consume op (out, acc, s) = (out1, acc1, s1)"
    by (rule prod_cases3)
  note c = fifo_step_conserves [OF Cons.prems(1,2) st]
  show ?case
    by (rule Cons.IH [of s1 out1 acc1]) (use c st Cons.prems(3) in simp_all)
qed simp

end

section \<open>The ring\<close>

definition GATEWAY_AMEBA_USB_TX_RING_SIZE :: nat where
  "GATEWAY_AMEBA_USB_TX_RING_SIZE = 128 * 1024"

record tx_ring =
  tx_ring :: "byte list"
  tx_head :: nat
  tx_tail :: nat
  tx_count :: nat
  last_ring_count :: nat
  bytes_enqueued :: nat
  bytes_sent :: nat
  drop_count :: nat

definition gateway_usb_tx_free_space :: "tx_ring \<Rightarrow> nat" where
  "gateway_usb_tx_free_space r = GATEWAY_AMEBA_USB_TX_RING_SIZE - tx_count r"

definition gateway_usb_tx_ring_write :: "tx_ring \<Rightarrow> nat \<Rightarrow> byte list \<Rightarrow> tx_ring" where
  "gateway_usb_tx_ring_write r pos data =
     (if data = [] then r
      else
        let len = length data;
            first_part = (if GATEWAY_AMEBA_USB_TX_RING_SIZE - pos < len
                          then GATEWAY_AMEBA_USB_TX_RING_SIZE - pos else len);
            second_part = len - first_part;
            ring = blit (tx_ring r) pos (take first_part data);
            ring = (if 0 < second_part then blit ring 0 (drop first_part data) else ring)
        in r\<lparr>tx_ring := ring\<rparr>)"

text \<open>A NULL pointer with a length is \<open>None\<close> with a non-zero length.\<close>

definition gateway_usb_tx_enqueue_packet ::
  "tx_ring \<Rightarrow> byte list option \<Rightarrow> nat \<Rightarrow> byte list option \<Rightarrow> nat \<Rightarrow> int \<times> tx_ring" where
  "gateway_usb_tx_enqueue_packet r prefix prefix_len payload payload_len =
     (let total_len = prefix_len + payload_len in
      if prefix = None \<and> 0 < prefix_len \<or> payload = None \<and> 0 < payload_len then (-1, r)
      else if total_len = 0 then (0, r)
      else if gateway_usb_tx_free_space r < total_len then (-1, r\<lparr>drop_count := drop_count r + 1\<rparr>)
      else
        let head = tx_head r;
            (r, head) = (if 0 < prefix_len
              then (gateway_usb_tx_ring_write r head (take prefix_len (the prefix)),
                    (head + prefix_len) mod GATEWAY_AMEBA_USB_TX_RING_SIZE)
              else (r, head));
            (r, head) = (if 0 < payload_len
              then (gateway_usb_tx_ring_write r head (take payload_len (the payload)),
                    (head + payload_len) mod GATEWAY_AMEBA_USB_TX_RING_SIZE)
              else (r, head));
            count = tx_count r + total_len
        in (0, r\<lparr>tx_head := head, tx_count := count, last_ring_count := count,
                 bytes_enqueued := bytes_enqueued r + total_len\<rparr>))"

text \<open>The bytes copied to \<open>dest\<close>; their number is the return value.\<close>

definition gateway_usb_tx_peek_chunk :: "tx_ring \<Rightarrow> nat \<Rightarrow> byte list" where
  "gateway_usb_tx_peek_chunk r max_len =
     (let len = (if max_len < tx_count r then max_len else tx_count r) in
      if len = 0 then []
      else
        let first_part = (if GATEWAY_AMEBA_USB_TX_RING_SIZE - tx_tail r < len
                          then GATEWAY_AMEBA_USB_TX_RING_SIZE - tx_tail r else len);
            second_part = len - first_part
        in slice (tx_tail r) first_part (tx_ring r) @ slice 0 second_part (tx_ring r))"

definition gateway_usb_tx_consume_chunk :: "tx_ring \<Rightarrow> nat \<Rightarrow> tx_ring" where
  "gateway_usb_tx_consume_chunk r len =
     (if len = 0 then r
      else
        let len = (if tx_count r < len then tx_count r else len);
            count = tx_count r - len
        in r\<lparr>tx_tail := (tx_tail r + len) mod GATEWAY_AMEBA_USB_TX_RING_SIZE, tx_count := count,
             last_ring_count := count, bytes_sent := bytes_sent r + len\<rparr>)"

definition tx_ring_reset :: "tx_ring \<Rightarrow> tx_ring" where
  "tx_ring_reset r = r\<lparr>tx_head := 0, tx_tail := 0, tx_count := 0, last_ring_count := 0\<rparr>"

section \<open>The ring refines the queue\<close>

definition ring_queued :: "tx_ring \<Rightarrow> byte list" where
  "ring_queued r = map (\<lambda>i. tx_ring r ! ((tx_tail r + i) mod GATEWAY_AMEBA_USB_TX_RING_SIZE)) [0..<tx_count r]"

definition ring_inv :: "tx_ring \<Rightarrow> bool" where
  "ring_inv r \<longleftrightarrow>
     length (tx_ring r) = GATEWAY_AMEBA_USB_TX_RING_SIZE \<and>
     tx_tail r < GATEWAY_AMEBA_USB_TX_RING_SIZE \<and>
     tx_count r \<le> GATEWAY_AMEBA_USB_TX_RING_SIZE \<and>
     tx_head r = (tx_tail r + tx_count r) mod GATEWAY_AMEBA_USB_TX_RING_SIZE"

text \<open>The size stays symbolic in the proofs.\<close>

lemma ring_size_pos: "0 < GATEWAY_AMEBA_USB_TX_RING_SIZE"
  by (simp add: GATEWAY_AMEBA_USB_TX_RING_SIZE_def)

lemma mod_wrap: "p < n \<Longrightarrow> i < n \<Longrightarrow> (p + i) mod n = (if p + i < n then p + i else p + i - (n :: nat))"
  by (simp add: mod_if)

lemma length_ring_queued [simp]: "length (ring_queued r) = tx_count r"
  by (simp add: ring_queued_def)

lemma nth_ring_queued [simp]:
  "i < tx_count r \<Longrightarrow> ring_queued r ! i = tx_ring r ! ((tx_tail r + i) mod GATEWAY_AMEBA_USB_TX_RING_SIZE)"
  by (simp add: ring_queued_def)

text \<open>A write at \<open>pos\<close> changes exactly the next \<open>length data\<close> cells around the ring.\<close>

lemma ring_write_nth:
  assumes len: "length (tx_ring r) = GATEWAY_AMEBA_USB_TX_RING_SIZE"
    and pos: "pos < GATEWAY_AMEBA_USB_TX_RING_SIZE"
    and fit: "length data \<le> GATEWAY_AMEBA_USB_TX_RING_SIZE"
    and i: "i < GATEWAY_AMEBA_USB_TX_RING_SIZE"
  shows "tx_ring (gateway_usb_tx_ring_write r pos data) ! ((pos + i) mod GATEWAY_AMEBA_USB_TX_RING_SIZE) =
     (if i < length data then data ! i else tx_ring r ! ((pos + i) mod GATEWAY_AMEBA_USB_TX_RING_SIZE))"
proof (cases "data = []")
  case True
  then show ?thesis by (simp add: gateway_usb_tx_ring_write_def)
next
  case False
  let ?N = GATEWAY_AMEBA_USB_TX_RING_SIZE
  let ?fp = "if ?N - pos < length data then ?N - pos else length data"
  let ?r1 = "blit (tx_ring r) pos (take ?fp data)"
  have w: "tx_ring (gateway_usb_tx_ring_write r pos data) =
      (if 0 < length data - ?fp then blit ?r1 0 (drop ?fp data) else ?r1)"
    using False by (simp add: gateway_usb_tx_ring_write_def Let_def)
  have l1: "length ?r1 = ?N" using len pos by (subst length_blit) auto
  show ?thesis
  proof (cases "pos + i < ?N")
    case True
    then have m: "(pos + i) mod ?N = pos + i" by simp
    have first: "?r1 ! (pos + i) = (if i < ?fp then data ! i else tx_ring r ! (pos + i))"
      using len pos True by (subst nth_blit) (auto simp: min_def)
    have "length data - ?fp \<le> pos" using fit pos by auto
    then have second: "(blit ?r1 0 (drop ?fp data)) ! (pos + i) = ?r1 ! (pos + i)"
      using l1 True fit by (subst nth_blit) auto
    show ?thesis using True first second by (auto simp: w m)
  next
    case False
    then have m: "(pos + i) mod ?N = pos + i - ?N" using pos i by (simp add: mod_wrap)
    show ?thesis
    proof (cases "i < length data")
      case True
      then have fp: "?fp = ?N - pos" using False by auto
      have "blit ?r1 0 (drop ?fp data) ! (pos + i - ?N) = drop ?fp data ! (pos + i - ?N)"
        using l1 True False fit pos by (subst nth_blit) (auto simp: fp)
      also have "\<dots> = data ! i" using True False pos fp by (simp add: nth_drop)
      finally have e: "blit ?r1 0 (drop ?fp data) ! (pos + i - ?N) = data ! i" .
      have "0 < length data - ?fp" using True False pos by auto
      then have "tx_ring (gateway_usb_tx_ring_write r pos data) = blit ?r1 0 (drop ?fp data)"
        by (simp only: w if_True)
      then show ?thesis using True e by (simp only: m if_True)
    next
      case ge: False
      have first: "?r1 ! (pos + i - ?N) = tx_ring r ! (pos + i - ?N)"
        using len pos i False by (subst nth_blit) (auto simp: min_def)
      have second: "blit ?r1 0 (drop ?fp data) ! (pos + i - ?N) = ?r1 ! (pos + i - ?N)"
        using l1 ge False fit pos i by (subst nth_blit) auto
      show ?thesis
        by (cases "0 < length data - ?fp")
           (simp_all only: w m ge first second if_True if_False)
    qed
  qed
qed

lemma ring_write_simps [simp]:
  "tx_head (gateway_usb_tx_ring_write r pos data) = tx_head r"
  "tx_tail (gateway_usb_tx_ring_write r pos data) = tx_tail r"
  "tx_count (gateway_usb_tx_ring_write r pos data) = tx_count r"
  "bytes_enqueued (gateway_usb_tx_ring_write r pos data) = bytes_enqueued r"
  "drop_count (gateway_usb_tx_ring_write r pos data) = drop_count r"
  by (simp_all add: gateway_usb_tx_ring_write_def Let_def)

text \<open>One write at the head, and the head and count moved: an append.\<close>

definition ring_append :: "tx_ring \<Rightarrow> byte list \<Rightarrow> tx_ring" where
  "ring_append r xs = (gateway_usb_tx_ring_write r (tx_head r) xs)
     \<lparr>tx_head := (tx_head r + length xs) mod GATEWAY_AMEBA_USB_TX_RING_SIZE,
      tx_count := tx_count r + length xs\<rparr>"

lemma length_ring_write:
  assumes "length (tx_ring r) = GATEWAY_AMEBA_USB_TX_RING_SIZE"
    and "pos < GATEWAY_AMEBA_USB_TX_RING_SIZE" and "length data \<le> GATEWAY_AMEBA_USB_TX_RING_SIZE"
  shows "length (tx_ring (gateway_usb_tx_ring_write r pos data)) = GATEWAY_AMEBA_USB_TX_RING_SIZE"
proof -
  let ?N = GATEWAY_AMEBA_USB_TX_RING_SIZE
  let ?fp = "if ?N - pos < length data then ?N - pos else length data"
  have "length (blit (tx_ring r) pos (take ?fp data)) = ?N"
    using assms by (subst length_blit) auto
  moreover from this have "length (blit (blit (tx_ring r) pos (take ?fp data)) 0 (drop ?fp data)) = ?N"
    using assms(3) by (subst length_blit) auto
  moreover have "tx_ring (gateway_usb_tx_ring_write r pos data) \<in> {tx_ring r,
      blit (tx_ring r) pos (take ?fp data), blit (blit (tx_ring r) pos (take ?fp data)) 0 (drop ?fp data)}"
    by (auto simp: gateway_usb_tx_ring_write_def Let_def)
  ultimately show ?thesis using assms(1) by (elim insertE) (simp_all only: empty_iff)
qed

lemma ring_append_ok:
  assumes inv: "ring_inv r" and fit: "tx_count r + length xs \<le> GATEWAY_AMEBA_USB_TX_RING_SIZE"
  shows "ring_inv (ring_append r xs)" and "ring_queued (ring_append r xs) = ring_queued r @ xs"
proof -
  let ?N = GATEWAY_AMEBA_USB_TX_RING_SIZE
  have h: "tx_head r < ?N" using inv ring_size_pos by (simp add: ring_inv_def)
  have l: "length (tx_ring r) = ?N" using inv by (simp add: ring_inv_def)
  have head: "tx_head r = (tx_tail r + tx_count r) mod ?N" using inv by (simp add: ring_inv_def)
  show "ring_inv (ring_append r xs)"
    using inv fit length_ring_write [OF l h]
    by (auto simp: ring_inv_def ring_append_def mod_add_left_eq add.assoc)
  show "ring_queued (ring_append r xs) = ring_queued r @ xs"
  proof (rule nth_equalityI)
    show "length (ring_queued (ring_append r xs)) = length (ring_queued r @ xs)"
      by (simp add: ring_append_def)
  next
    fix i assume "i < length (ring_queued (ring_append r xs))"
    then have i: "i < tx_count r + length xs" by (simp add: ring_append_def)
    have iN: "i < ?N" using i fit by simp
    define k where "k = (if i < tx_count r then i + ?N - tx_count r else i - tx_count r)"
    have k: "k < ?N" using i fit by (auto simp: k_def)
    have pos: "(tx_tail r + i) mod ?N = (tx_head r + k) mod ?N"
    proof -
      have "(tx_head r + k) mod ?N = (tx_tail r + tx_count r + k) mod ?N"
        unfolding head by (simp add: mod_add_left_eq)
      also have "\<dots> = (tx_tail r + i) mod ?N"
      proof (cases "i < tx_count r")
        case True
        then have "tx_tail r + tx_count r + k = (tx_tail r + i) + ?N"
          using fit by (simp add: k_def)
        then show ?thesis by (metis mod_add_self2)
      next
        case False
        then show ?thesis by (simp add: k_def)
      qed
      finally show ?thesis by simp
    qed
    have "ring_queued (ring_append r xs) ! i =
        tx_ring (gateway_usb_tx_ring_write r (tx_head r) xs) ! ((tx_head r + k) mod ?N)"
      using i pos by (simp add: ring_queued_def ring_append_def)
    also have "\<dots> = (if k < length xs then xs ! k else tx_ring r ! ((tx_head r + k) mod ?N))"
      using fit by (intro ring_write_nth l h k) simp
    also have "\<dots> = (ring_queued r @ xs) ! i"
    proof (cases "i < tx_count r")
      case True
      then have "\<not> k < length xs" using fit by (simp add: k_def)
      then show ?thesis using True pos by (simp add: nth_append)
    next
      case False
      then have "k = i - tx_count r" "k < length xs" using i by (simp_all add: k_def)
      then show ?thesis using False by (simp add: nth_append)
    qed
    finally show "ring_queued (ring_append r xs) ! i = (ring_queued r @ xs) ! i" .
  qed
qed

lemma ring_write_update:
  "gateway_usb_tx_ring_write (r\<lparr>tx_head := h, tx_count := c\<rparr>) pos data =
   (gateway_usb_tx_ring_write r pos data)\<lparr>tx_head := h, tx_count := c\<rparr>"
  by (simp add: gateway_usb_tx_ring_write_def Let_def)

lemma ring_append_Nil: "ring_inv r \<Longrightarrow> ring_append r [] = r"
  by (simp add: ring_append_def gateway_usb_tx_ring_write_def ring_inv_def)

lemma enqueue_fits:
  assumes inv: "ring_inv r" and pre: "length pre = n" "length pay = m"
    and fit: "tx_count r + (n + m) \<le> GATEWAY_AMEBA_USB_TX_RING_SIZE"
  shows "\<exists>r'. gateway_usb_tx_enqueue_packet r (Some pre) n (Some pay) m = (0, r') \<and>
      ring_inv r' \<and> ring_queued r' = ring_queued r @ pre @ pay \<and> drop_count r' = drop_count r"
proof (cases "n + m = 0")
  case True
  then show ?thesis using inv pre by (simp add: gateway_usb_tx_enqueue_packet_def)
next
  case False
  let ?r1 = "ring_append r pre" and ?r2 = "ring_append (ring_append r pre) pay"
  have a1: "ring_inv ?r1" "ring_queued ?r1 = ring_queued r @ pre"
    using ring_append_ok [OF inv, of pre] fit pre by simp_all
  have a2: "ring_inv ?r2" "ring_queued ?r2 = (ring_queued r @ pre) @ pay"
    using ring_append_ok [OF a1(1), of pay] fit pre a1(2) by (simp_all add: ring_append_def)
  let ?c = "tx_count r + (n + m)" and ?h = "((tx_head r + n) mod GATEWAY_AMEBA_USB_TX_RING_SIZE + m) mod
      GATEWAY_AMEBA_USB_TX_RING_SIZE"
  have e: "gateway_usb_tx_enqueue_packet r (Some pre) n (Some pay) m = (0, ?r2
      \<lparr>last_ring_count := ?c, bytes_enqueued := bytes_enqueued r + (n + m)\<rparr>)"
  proof -
    have "\<not> gateway_usb_tx_free_space r < n + m"
      using fit by (simp add: gateway_usb_tx_free_space_def)
    moreover have "n = 0 \<Longrightarrow> ring_append r pre = r" "m = 0 \<Longrightarrow> ?r2 = ?r1"
      using pre ring_append_Nil [OF inv] ring_append_Nil [OF a1(1)] by auto
    ultimately show ?thesis
      using False pre
      by (cases "n = 0"; cases "m = 0")
         (simp_all add: gateway_usb_tx_enqueue_packet_def Let_def ring_append_def ring_write_update)
  qed
  have st: "ring_inv (u\<lparr>last_ring_count := x, bytes_enqueued := y\<rparr>) = ring_inv u"
    "ring_queued (u\<lparr>last_ring_count := x, bytes_enqueued := y\<rparr>) = ring_queued u" for u x y
    by (simp_all add: ring_inv_def ring_queued_def)
  have "drop_count ?r2 = drop_count r"
    by (simp add: ring_append_def gateway_usb_tx_ring_write_def Let_def)
  with a2 show ?thesis by (simp add: e st)
qed

lemma enqueue_null_payload:
  "gateway_usb_tx_enqueue_packet r p n None 0 = gateway_usb_tx_enqueue_packet r p n (Some []) 0"
  by (simp add: gateway_usb_tx_enqueue_packet_def)

lemma enqueue_full:
  assumes "length pre = n" "length pay = m"
    and "GATEWAY_AMEBA_USB_TX_RING_SIZE < tx_count r + (n + m)" and "ring_inv r"
  shows "gateway_usb_tx_enqueue_packet r (Some pre) n (Some pay) m = (-1, r\<lparr>drop_count := drop_count r + 1\<rparr>)"
proof -
  have "gateway_usb_tx_free_space r < n + m" "0 < n + m"
    using assms by (auto simp: gateway_usb_tx_free_space_def ring_inv_def)
  then show ?thesis by (simp add: gateway_usb_tx_enqueue_packet_def Let_def)
qed

lemma peek_chunk_front:
  assumes "ring_inv r"
  shows "gateway_usb_tx_peek_chunk r n = take n (ring_queued r)"
proof -
  let ?N = GATEWAY_AMEBA_USB_TX_RING_SIZE and ?t = "tx_tail r"
  let ?len = "if n < tx_count r then n else tx_count r"
  let ?fp = "if ?N - ?t < ?len then ?N - ?t else ?len"
  have i: "length (tx_ring r) = ?N" "?t < ?N" "tx_count r \<le> ?N" using assms by (simp_all add: ring_inv_def)
  have p: "gateway_usb_tx_peek_chunk r n = slice ?t ?fp (tx_ring r) @ slice 0 (?len - ?fp) (tx_ring r)"
    by (simp add: gateway_usb_tx_peek_chunk_def Let_def slice_def)
  have l: "length (slice ?t ?fp (tx_ring r)) = ?fp" "length (slice 0 (?len - ?fp) (tx_ring r)) = ?len - ?fp"
    using i by (auto intro!: length_slice)
  show ?thesis
  proof (rule nth_equalityI)
    show "length (gateway_usb_tx_peek_chunk r n) = length (take n (ring_queued r))"
      unfolding p length_append l by auto
  next
    fix j assume "j < length (gateway_usb_tx_peek_chunk r n)"
    then have j: "j < ?len" unfolding p length_append l by auto
    show "gateway_usb_tx_peek_chunk r n ! j = take n (ring_queued r) ! j"
    proof (cases "j < ?fp")
      case True
      then have "?t + j < ?N" by (auto split: if_splits)
      then show ?thesis
        using True j i by (simp add: p nth_append l slice_def split: if_splits)
    next
      case False
      then have "(?t + j) mod ?N = ?t + j - ?N" "?fp = ?N - ?t"
        using j i by (auto simp: mod_wrap split: if_splits)
      then show ?thesis
        using False j i by (simp add: p nth_append l slice_def add.commute split: if_splits)
    qed
  qed
qed

lemma consume_chunk_front:
  assumes "ring_inv r"
  shows "ring_inv (gateway_usb_tx_consume_chunk r n)"
    and "ring_queued (gateway_usb_tx_consume_chunk r n) = drop n (ring_queued r)"
proof -
  let ?N = GATEWAY_AMEBA_USB_TX_RING_SIZE and ?k = "min n (tx_count r)"
  have i: "length (tx_ring r) = ?N" "tx_tail r < ?N" "tx_count r \<le> ?N"
    "tx_head r = (tx_tail r + tx_count r) mod ?N"
    using assms by (simp_all add: ring_inv_def)
  have f: "tx_tail (gateway_usb_tx_consume_chunk r n) = (tx_tail r + ?k) mod ?N"
    "tx_count (gateway_usb_tx_consume_chunk r n) = tx_count r - ?k"
    "tx_ring (gateway_usb_tx_consume_chunk r n) = tx_ring r"
    "tx_head (gateway_usb_tx_consume_chunk r n) = tx_head r"
    using i(2) by (auto simp: gateway_usb_tx_consume_chunk_def Let_def min_def)
  show "ring_inv (gateway_usb_tx_consume_chunk r n)"
    unfolding ring_inv_def f
  proof (intro conjI)
    have "((tx_tail r + ?k) mod ?N + (tx_count r - ?k)) mod ?N = (tx_tail r + ?k + (tx_count r - ?k)) mod ?N"
      by (rule mod_add_left_eq)
    then show "tx_head r = ((tx_tail r + ?k) mod ?N + (tx_count r - ?k)) mod ?N"
      by (simp only: i(4)) (simp add: min_def)
    show "length (tx_ring r) = ?N" "(tx_tail r + ?k) mod ?N < ?N" "tx_count r - ?k \<le> ?N"
      using i ring_size_pos by simp_all
  qed
  show "ring_queued (gateway_usb_tx_consume_chunk r n) = drop n (ring_queued r)"
  proof (rule nth_equalityI)
    fix j assume "j < length (ring_queued (gateway_usb_tx_consume_chunk r n))"
    then have "j < tx_count r - ?k" by (simp add: f)
    then show "ring_queued (gateway_usb_tx_consume_chunk r n) ! j = drop n (ring_queued r) ! j"
      by (simp add: f mod_add_left_eq add.assoc min_def split: if_splits)
  qed (simp add: f min_def)
qed

definition ring_put :: "tx_ring \<Rightarrow> byte list \<Rightarrow> int \<times> tx_ring" where
  "ring_put r xs = gateway_usb_tx_enqueue_packet r (Some xs) (length xs) None 0"

interpretation ring: byte_fifo ring_inv ring_queued GATEWAY_AMEBA_USB_TX_RING_SIZE ring_put
  gateway_usb_tx_peek_chunk gateway_usb_tx_consume_chunk
proof unfold_locales
  fix s and xs :: "byte list"
  assume "ring_inv s" "length (ring_queued s) + length xs \<le> GATEWAY_AMEBA_USB_TX_RING_SIZE"
  then show "\<exists>s'. ring_put s xs = (0, s') \<and> ring_inv s' \<and> ring_queued s' = ring_queued s @ xs"
    using enqueue_fits [of s xs "length xs" "[]" 0] by (auto simp: ring_put_def enqueue_null_payload)
next
  fix s and xs :: "byte list"
  assume "ring_inv s" "GATEWAY_AMEBA_USB_TX_RING_SIZE < length (ring_queued s) + length xs"
  then show "\<exists>s'. ring_put s xs = (-1, s') \<and> ring_inv s' \<and> ring_queued s' = ring_queued s"
    using enqueue_full [of xs "length xs" "[]" 0 s]
    by (simp add: ring_put_def enqueue_null_payload ring_inv_def ring_queued_def)
qed (simp_all add: peek_chunk_front consume_chunk_front, simp add: ring_inv_def)

text \<open>
  C21: the ring is a FIFO of bytes.  Through any interleaving of enqueues and chunk transfers, of
  any sizes and around the end of the array any number of times, what the chunks delivered,
  followed by what is still in the ring, is exactly what was in the ring, followed by the packets
  whose enqueue returned 0: no byte is lost, duplicated or reordered, and a packet that does not
  fit leaves nothing behind.
\<close>

theorem tx_ring_fifo:
  assumes "ring_inv r"
    and "fold (fifo_step ring_put gateway_usb_tx_peek_chunk gateway_usb_tx_consume_chunk) ops ([], [], r) =
      (delivered, accepted, r')"
  shows "ring_inv r' \<and> delivered @ ring_queued r' = ring_queued r @ accepted"
  using ring.fifo_conservation [OF assms(1) _ assms(2), of "ring_queued r"] by simp

definition empty_ring :: tx_ring where
  "empty_ring = \<lparr>tx_ring = replicate GATEWAY_AMEBA_USB_TX_RING_SIZE 0, tx_head = 0, tx_tail = 0,
     tx_count = 0, last_ring_count = 0, bytes_enqueued = 0, bytes_sent = 0, drop_count = 0\<rparr>"

lemma empty_ring_ok [simp]: "ring_inv empty_ring" "ring_queued empty_ring = []"
  using ring_size_pos by (simp_all add: empty_ring_def ring_inv_def ring_queued_def)

theorem tx_ring_fifo_witness:
  "\<exists>delivered accepted r'. fold (fifo_step ring_put gateway_usb_tx_peek_chunk gateway_usb_tx_consume_chunk)
     [Put [1, 2, 3], Get 2, Put [4], Get 5] ([], [], empty_ring) = (delivered, accepted, r') \<and>
   ring_inv r' \<and> delivered @ ring_queued r' = accepted"
proof -
  obtain d a r' where r: "fold (fifo_step ring_put gateway_usb_tx_peek_chunk gateway_usb_tx_consume_chunk)
      [Put [1, 2, 3], Get 2, Put [4], Get 5] ([], [], empty_ring) = (d, a, r')"
    by (rule prod_cases3)
  show ?thesis using tx_ring_fifo [OF empty_ring_ok(1) r] r by fastforce
qed

text \<open>
  C33: the operations refine the queue, with header and payload as one unit.  From any state of the
  invariant, \<open>gateway_usb_tx_enqueue_packet\<close> appends prefix and payload together when both fit and
  otherwise returns -1, counts a drop and leaves the queue as it was; a chunk peeked is the front
  of the queue, at most 128 KiB long; consuming drops it.
\<close>

theorem tx_ring_refines_queue:
  assumes "ring_inv r"
  shows "\<exists>rc r'. gateway_usb_tx_enqueue_packet r (Some prefix) (length prefix) (Some payload) (length payload) = (rc, r') \<and>
      ring_inv r' \<and>
      (if length (ring_queued r) + length prefix + length payload \<le> GATEWAY_AMEBA_USB_TX_RING_SIZE
       then rc = 0 \<and> ring_queued r' = ring_queued r @ prefix @ payload \<and> drop_count r' = drop_count r
       else rc = -1 \<and> ring_queued r' = ring_queued r \<and> drop_count r' = drop_count r + 1) \<and>
      gateway_usb_tx_peek_chunk r n = take n (ring_queued r) \<and>
      ring_queued (gateway_usb_tx_consume_chunk r n) = drop n (ring_queued r) \<and>
      length (ring_queued r) \<le> GATEWAY_AMEBA_USB_TX_RING_SIZE"
proof (cases "length (ring_queued r) + length prefix + length payload \<le> GATEWAY_AMEBA_USB_TX_RING_SIZE")
  case True
  with enqueue_fits [OF assms, of prefix _ payload]
  obtain r' where "gateway_usb_tx_enqueue_packet r (Some prefix) (length prefix) (Some payload) (length payload) = (0, r')"
      "ring_inv r'" "ring_queued r' = ring_queued r @ prefix @ payload" "drop_count r' = drop_count r"
    by (auto simp: add.assoc)
  with True ring.peek_front [OF assms] ring.consume_front [OF assms] ring.bounded [OF assms]
  show ?thesis by auto
next
  case False
  then have f: "gateway_usb_tx_enqueue_packet r (Some prefix) (length prefix) (Some payload) (length payload) =
      (-1, r\<lparr>drop_count := drop_count r + 1\<rparr>)"
    using enqueue_full [OF refl refl _ assms, of prefix payload] by simp
  have "ring_inv (r\<lparr>drop_count := drop_count r + 1\<rparr>)"
    "ring_queued (r\<lparr>drop_count := drop_count r + 1\<rparr>) = ring_queued r"
    using assms by (simp_all add: ring_inv_def ring_queued_def)
  with False f ring.peek_front [OF assms] ring.consume_front [OF assms] ring.bounded [OF assms]
  show ?thesis by simp
qed

theorem tx_ring_refines_queue_witness:
  "\<exists>rc r'. gateway_usb_tx_enqueue_packet empty_ring (Some [1]) 1 (Some [2, 3]) 2 = (rc, r') \<and>
     rc = 0 \<and> ring_queued r' = [1, 2, 3]"
  using tx_ring_refines_queue [OF empty_ring_ok(1), of "[1]" "[2, 3]"]
  by (auto simp: GATEWAY_AMEBA_USB_TX_RING_SIZE_def numeral_2_eq_2)

end
