(* ===== verification/Outcome.thy ===== *)
theory Outcome
  imports Prelude
begin

text \<open>
  The result of running C code that reads and writes buffers through pointers: a value, a fault
  (an access outside the object), or no result within the given number of calls.  \<open>obind\<close>
  sequences two pieces of code; a fault or a missing result of the first is one of the whole.
\<close>

datatype 'a outcome = Ret 'a | Fault | Timeout

primrec obind :: "'a outcome \<Rightarrow> ('a \<Rightarrow> 'b outcome) \<Rightarrow> 'b outcome" where
  "obind (Ret x) f = f x"
| "obind Fault f = Fault"
| "obind Timeout f = Timeout"

lemma obind_cong [fundef_cong]:
  "m = m' \<Longrightarrow> (\<And>x. m' = Ret x \<Longrightarrow> f x = f' x) \<Longrightarrow> obind m f = obind m' f'"
  by (cases m') auto

lemma obind_Ret_conv: "obind m f = Ret y \<longleftrightarrow> (\<exists>x. m = Ret x \<and> f x = Ret y)"
  by (cases m) auto

lemma obind_assoc: "obind (obind m f) g = obind m (\<lambda>x. obind (f x) g)"
  by (cases m) simp_all

definition returns :: "'a outcome \<Rightarrow> bool" where
  "returns m \<longleftrightarrow> (\<exists>x. m = Ret x)"

lemma returns_simps [simp]: "returns (Ret x)" "\<not> returns Fault" "\<not> returns Timeout"
  by (simp_all add: returns_def)

lemma returns_bind: "returns m \<Longrightarrow> (\<And>x. m = Ret x \<Longrightarrow> returns (f x)) \<Longrightarrow> returns (obind m f)"
  by (cases m) auto

text \<open>A read of one element, and a write that appends to a buffer of \<open>cap\<close> elements.\<close>

definition read_at :: "'a list \<Rightarrow> nat \<Rightarrow> 'a outcome" where
  "read_at xs i = (if i < length xs then Ret (xs ! i) else Fault)"

definition put_bytes :: "nat \<Rightarrow> 'a list \<Rightarrow> 'a list \<Rightarrow> 'a list outcome" where
  "put_bytes cap out xs = (if length out + length xs \<le> cap then Ret (out @ xs) else Fault)"

lemma read_at_Ret [simp]: "i < length xs \<Longrightarrow> read_at xs i = Ret (xs ! i)"
  by (simp add: read_at_def)

lemma put_bytes_Ret [simp]: "length out + length xs \<le> cap \<Longrightarrow> put_bytes cap out xs = Ret (out @ xs)"
  by (simp add: put_bytes_def)

end
