(* ===== verification/CJson.thy ===== *)
theory CJson
  imports Complex_Main Outcome
begin

text \<open>
  The JSON parser and the item lookup of \<open>wsh264/cJSON/cJSON.c\<close>, which the gateways use on the
  upstream's text frames.  Every read of the input goes through the parse buffer's bounds and every
  write of an unescaped string through the size that was allocated for it; an access outside is a
  \<open>Fault\<close>.  The allocator's answers are a script in the buffer (its \<open>hooks\<close>); success, when it has
  run out.  The linked list of children is a list, and deleting the items of a failed parse leaves
  nothing to model.  \<open>strtod\<close> is an argument: how many characters it used, and the number.
\<close>

section \<open>Items and the parse buffer\<close>

datatype json =
    JNull
  | JFalse
  | JTrue
  | JNumber rat int                          \<comment> \<open>\<open>valuedouble\<close>, \<open>valueint\<close>\<close>
  | JString "byte list"                      \<comment> \<open>\<open>valuestring\<close>, the terminating NUL left out\<close>
  | JArray "json list"
  | JObject "(byte list \<times> json) list"       \<comment> \<open>the children with their \<open>string\<close>\<close>

record parse_buffer =
  content :: "byte list"
  offset :: nat
  depth :: nat
  hooks :: "bool list"

abbreviation (input) CJSON_NESTING_LIMIT :: nat where "CJSON_NESTING_LIMIT \<equiv> 1000"

definition can_read :: "parse_buffer \<Rightarrow> nat \<Rightarrow> bool" where
  "can_read b n \<longleftrightarrow> offset b + n \<le> length (content b)"

definition can_access_at_index :: "parse_buffer \<Rightarrow> nat \<Rightarrow> bool" where
  "can_access_at_index b index \<longleftrightarrow> offset b + index < length (content b)"

text \<open>\<open>can_access_at_index(b, 0) && buffer_at_offset(b)[0] == c\<close>\<close>

definition looking_at :: "parse_buffer \<Rightarrow> byte \<Rightarrow> bool" where
  "looking_at b c \<longleftrightarrow> can_access_at_index b 0 \<and> content b ! offset b = c"

definition advance :: "nat \<Rightarrow> parse_buffer \<Rightarrow> parse_buffer" where
  "advance n b = b\<lparr>offset := offset b + n\<rparr>"

definition allocate :: "parse_buffer \<Rightarrow> bool \<times> parse_buffer" where
  "allocate b = (case hooks b of [] \<Rightarrow> (True, b) | ok # oks \<Rightarrow> (ok, b\<lparr>hooks := oks\<rparr>))"

function skip_whitespace_loop :: "parse_buffer \<Rightarrow> parse_buffer" where
  "skip_whitespace_loop b =
     (if can_access_at_index b 0 \<and> content b ! offset b \<le> 32 then skip_whitespace_loop (advance 1 b)
      else b)"
  by pat_completeness auto
termination
  by (relation "measure (\<lambda>b. length (content b) - offset b)")
     (auto simp: can_access_at_index_def advance_def)

declare skip_whitespace_loop.simps [simp del]

definition buffer_skip_whitespace :: "parse_buffer \<Rightarrow> parse_buffer" where
  "buffer_skip_whitespace b =
     (if \<not> can_access_at_index b 0 then b
      else
        let b = skip_whitespace_loop b
        in if offset b = length (content b) then b\<lparr>offset := offset b - 1\<rparr> else b)"

definition skip_utf8_bom :: "parse_buffer \<Rightarrow> parse_buffer option" where
  "skip_utf8_bom b =
     (if offset b \<noteq> 0 then None
      else if can_access_at_index b 4 \<and> take 3 (content b) = [0xEF, 0xBB, 0xBF] then Some (advance 3 b)
      else Some b)"

section \<open>Strings\<close>

definition hex_digit :: "byte \<Rightarrow> u32 option" where
  "hex_digit b =
     (if 0x30 \<le> b \<and> b \<le> 0x39 then Some (ucast b - 0x30)
      else if 0x41 \<le> b \<and> b \<le> 0x46 then Some (10 + ucast b - 0x41)
      else if 0x61 \<le> b \<and> b \<le> 0x66 then Some (10 + ucast b - 0x61)
      else None)"

fun hex4_loop :: "byte list \<Rightarrow> u32 \<Rightarrow> u32" where
  "hex4_loop [] h = h"
| "hex4_loop (b # bs) h =
     (case hex_digit b of
        None \<Rightarrow> 0
      | Some d \<Rightarrow> hex4_loop bs (if bs \<noteq> [] then push_bit 4 (h + d) else h + d))"

definition parse_hex4 :: "byte list \<Rightarrow> u32" where
  "parse_hex4 input = hex4_loop (take 4 input) 0"

text \<open>The bytes after the first one, last first.\<close>

fun utf8_tail :: "nat \<Rightarrow> u32 \<Rightarrow> byte list \<Rightarrow> u32 \<times> byte list" where
  "utf8_tail 0 codepoint out = (codepoint, out)"
| "utf8_tail (Suc n) codepoint out =
     utf8_tail n (drop_bit 6 codepoint) (ucast ((codepoint OR 0x80) AND 0xBF) # out)"

text \<open>
  One or two sequences \<open>\uXXXX\<close>: the number of characters used and the code point; \<open>None\<close> is
  \<open>goto fail\<close>.
\<close>

definition utf16_codepoint :: "byte list \<Rightarrow> (nat \<times> u32) option" where
  "utf16_codepoint input =
     (if length input < 6 then None
      else
        let first_code = parse_hex4 (drop 2 input) in
        if 0xDC00 \<le> first_code \<and> first_code \<le> 0xDFFF then None
        else if 0xD800 \<le> first_code \<and> first_code \<le> 0xDBFF then
          if length input < 12 then None
          else if input ! 6 \<noteq> 0x5C \<or> input ! 7 \<noteq> 0x75 then None
          else
            let second_code = parse_hex4 (drop 8 input) in
            if second_code < 0xDC00 \<or> 0xDFFF < second_code then None
            else Some (12, 0x10000 + (push_bit 10 (first_code AND 0x3FF) OR (second_code AND 0x3FF)))
        else Some (6, first_code))"

definition utf8_bytes :: "u32 \<Rightarrow> byte list option" where
  "utf8_bytes codepoint =
     (let encode = (\<lambda>utf8_length first_byte_mark.
            case utf8_tail (utf8_length - 1) codepoint [] of
              (codepoint, rest) \<Rightarrow> Some (ucast ((codepoint OR first_byte_mark) AND 0xFF) # rest)) in
      if codepoint < 0x80 then Some [ucast (codepoint AND 0x7F)]
      else if codepoint < 0x800 then encode 2 0xC0
      else if codepoint < 0x10000 then encode 3 0xE0
      else if codepoint \<le> 0x10FFFF then encode 4 0xF0
      else None)"

text \<open>
  The text from the backslash to the end of the literal; the length of the escape (0: invalid) and
  the bytes it stands for.
\<close>

definition utf16_literal_to_utf8 :: "byte list \<Rightarrow> nat \<times> byte list" where
  "utf16_literal_to_utf8 input =
     (case utf16_codepoint input of
        None \<Rightarrow> (0, [])
      | Some (sequence_length, codepoint) \<Rightarrow>
          (case utf8_bytes codepoint of None \<Rightarrow> (0, []) | Some bytes \<Rightarrow> (sequence_length, bytes)))"

text \<open>The scan for the closing quote: its index and the number of escapes on the way.\<close>

function string_scan :: "byte list \<Rightarrow> nat \<Rightarrow> nat \<Rightarrow> (nat \<times> nat) option" where
  "string_scan c input_end skipped_bytes =
     (if input_end < length c \<and> c ! input_end \<noteq> 0x22 then
        if c ! input_end = 0x5C then
          if length c \<le> input_end + 1 then None
          else string_scan c (input_end + 2) (skipped_bytes + 1)
        else string_scan c (input_end + 1) skipped_bytes
      else if length c \<le> input_end \<or> c ! input_end \<noteq> 0x22 then None
      else Some (input_end, skipped_bytes))"
  by pat_completeness auto
termination
  by (relation "measure (\<lambda>(c, e, s). length c - e)") auto

declare string_scan.simps [simp del]

text \<open>
  The loop that copies the literal into \<open>output\<close>, of \<open>cap\<close> bytes: whether it succeeded, the input
  pointer, the bytes written.
\<close>

function unescape ::
  "byte list \<Rightarrow> nat \<Rightarrow> nat \<Rightarrow> nat \<Rightarrow> byte list \<Rightarrow> (bool \<times> nat \<times> byte list) outcome" where
  "unescape c input_end cap input_pointer out =
     (if input_pointer < input_end then
        obind (read_at c input_pointer) (\<lambda>b.
        if b \<noteq> 0x5C then
          obind (put_bytes cap out [b]) (\<lambda>out. unescape c input_end cap (input_pointer + 1) out)
        else
          obind (read_at c (input_pointer + 1)) (\<lambda>e.
          let copy = (\<lambda>x. obind (put_bytes cap out [x]) (\<lambda>out. unescape c input_end cap (input_pointer + 2) out)) in
          if e = 0x62 then copy 0x08
          else if e = 0x66 then copy 0x0C
          else if e = 0x6E then copy 0x0A
          else if e = 0x72 then copy 0x0D
          else if e = 0x74 then copy 0x09
          else if e = 0x22 \<or> e = 0x5C \<or> e = 0x2F then copy e
          else if e = 0x75 then
            (case utf16_literal_to_utf8 (slice input_pointer (input_end - input_pointer) c) of
               (sequence_length, bytes) \<Rightarrow>
                 if sequence_length = 0 then Ret (False, input_pointer, out)
                 else obind (put_bytes cap out bytes) (\<lambda>out.
                   unescape c input_end cap (input_pointer + sequence_length) out))
          else Ret (False, input_pointer, out)))
      else Ret (True, input_pointer, out))"
  by pat_completeness auto
termination
  by (relation "measure (\<lambda>(c, e, cap, p, out). e - p)") auto

declare unescape.simps [simp del]

text \<open>\<open>None\<close> is the return value \<open>false\<close>.\<close>

definition parse_string :: "parse_buffer \<Rightarrow> (byte list option \<times> parse_buffer) outcome" where
  "parse_string b =
     obind (read_at (content b) (offset b)) (\<lambda>q.
     let input_pointer = offset b + 1;
         failed = (\<lambda>b p. Ret (None, b\<lparr>offset := p\<rparr>)) in
     if q \<noteq> 0x22 then failed b input_pointer
     else
       case string_scan (content b) input_pointer 0 of
         None \<Rightarrow> failed b input_pointer
       | Some (input_end, skipped_bytes) \<Rightarrow>
           let allocation_length = input_end - offset b - skipped_bytes in
           case allocate b of (ok, b) \<Rightarrow>
           if \<not> ok then failed b input_pointer
           else
             obind (unescape (content b) input_end (allocation_length + 1) input_pointer []) (\<lambda>r.
             case r of (ok, input_pointer, out) \<Rightarrow>
             if \<not> ok then failed b input_pointer
             else obind (put_bytes (allocation_length + 1) out [0]) (\<lambda>_.
               Ret (Some out, b\<lparr>offset := input_end + 1\<rparr>))))"

section \<open>Values\<close>

definition number_char :: "byte \<Rightarrow> bool" where
  "number_char c \<longleftrightarrow> 0x30 \<le> c \<and> c \<le> 0x39 \<or> c = 0x2B \<or> c = 0x2D \<or> c = 0x65 \<or> c = 0x45 \<or> c = 0x2E"

text \<open>The value as a C \<open>int\<close>: saturated, otherwise truncated.\<close>

definition saturate_int :: "rat \<Rightarrow> int" where
  "saturate_int x =
     (if 2147483647 \<le> x then 2147483647
      else if x \<le> -2147483648 then -2147483648
      else if x < 0 then \<lceil>x\<rceil> else \<lfloor>x\<rfloor>)"

definition parse_number ::
  "(byte list \<Rightarrow> nat \<times> rat) \<Rightarrow> parse_buffer \<Rightarrow> json option \<times> parse_buffer" where
  "parse_number strtod b =
     (case strtod (takeWhile number_char (take 63 (drop (offset b) (content b)))) of
        (used, number) \<Rightarrow>
          if used = 0 then (None, b)
          else (Some (JNumber number (saturate_int number)), advance used b))"

definition starts_with :: "parse_buffer \<Rightarrow> byte list \<Rightarrow> bool" where
  "starts_with b lit \<longleftrightarrow>
     can_read b (length lit) \<and> take (length lit) (drop (offset b) (content b)) = lit"

text \<open>
  How \<open>parse_array\<close> and \<open>parse_object\<close> start, up to the loop over the elements: the nesting limit,
  the opening bracket, an empty list.
\<close>

definition parse_opening ::
  "byte \<Rightarrow> json \<Rightarrow> (parse_buffer \<Rightarrow> (json option \<times> parse_buffer) outcome) \<Rightarrow> parse_buffer \<Rightarrow>
   (json option \<times> parse_buffer) outcome" where
  "parse_opening closing none_inside elements b =
     (if CJSON_NESTING_LIMIT \<le> depth b then Ret (None, b)
      else
        let b = b\<lparr>depth := depth b + 1\<rparr>;
            b = buffer_skip_whitespace (advance 1 b) in
        if looking_at b closing then Ret (Some none_inside, advance 1 (b\<lparr>depth := depth b - 1\<rparr>))
        else if \<not> can_access_at_index b 0 then Ret (None, b\<lparr>offset := offset b - 1\<rparr>)
        else elements (b\<lparr>offset := offset b - 1\<rparr>))"

text \<open>
  \<open>parse_value\<close>, \<open>parse_array\<close> and \<open>parse_object\<close> call each other; the number bounds the calls.
  The loops over the elements start at the character in front of an element.
\<close>

fun parse_value ::
    "(byte list \<Rightarrow> nat \<times> rat) \<Rightarrow> nat \<Rightarrow> parse_buffer \<Rightarrow> (json option \<times> parse_buffer) outcome"
  and array_loop ::
    "(byte list \<Rightarrow> nat \<times> rat) \<Rightarrow> nat \<Rightarrow> json list \<Rightarrow> parse_buffer \<Rightarrow> (json option \<times> parse_buffer) outcome"
  and object_loop ::
    "(byte list \<Rightarrow> nat \<times> rat) \<Rightarrow> nat \<Rightarrow> (byte list \<times> json) list \<Rightarrow> parse_buffer \<Rightarrow>
     (json option \<times> parse_buffer) outcome"
  where
  "parse_value strtod 0 b = Timeout"
| "parse_value strtod (Suc n) b =
     (if starts_with b (str ''null'') then Ret (Some JNull, advance 4 b)
      else if starts_with b (str ''false'') then Ret (Some JFalse, advance 5 b)
      else if starts_with b (str ''true'') then Ret (Some JTrue, advance 4 b)
      else if looking_at b 0x22 then
        obind (parse_string b) (\<lambda>(s, b). Ret (map_option JString s, b))
      else if can_access_at_index b 0 \<and>
              (content b ! offset b = 0x2D \<or> 0x30 \<le> content b ! offset b \<and> content b ! offset b \<le> 0x39)
        then Ret (parse_number strtod b)
      else if looking_at b 0x5B then parse_opening 0x5D (JArray []) (\<lambda>b. array_loop strtod n [] b) b
      else if looking_at b 0x7B then parse_opening 0x7D (JObject []) (\<lambda>b. object_loop strtod n [] b) b
      else Ret (None, b))"
| "array_loop strtod 0 items b = Timeout"
| "array_loop strtod (Suc n) items b =
     (case allocate b of (ok, b) \<Rightarrow>
      if \<not> ok then Ret (None, b)
      else
        obind (parse_value strtod n (buffer_skip_whitespace (advance 1 b))) (\<lambda>(v, b).
          case v of None \<Rightarrow> Ret (None, b)
          | Some v \<Rightarrow>
              let b = buffer_skip_whitespace b in
              if looking_at b 0x2C then array_loop strtod n (items @ [v]) b
              else if \<not> looking_at b 0x5D then Ret (None, b)
              else Ret (Some (JArray (items @ [v])), advance 1 (b\<lparr>depth := depth b - 1\<rparr>))))"
| "object_loop strtod 0 items b = Timeout"
| "object_loop strtod (Suc n) items b =
     (case allocate b of (ok, b) \<Rightarrow>
      if \<not> ok then Ret (None, b)
      else
        obind (parse_string (buffer_skip_whitespace (advance 1 b))) (\<lambda>(name, b).
          case name of None \<Rightarrow> Ret (None, b)
          | Some name \<Rightarrow>
              let b = buffer_skip_whitespace b in
              if \<not> looking_at b 0x3A then Ret (None, b)
              else
                obind (parse_value strtod n (buffer_skip_whitespace (advance 1 b))) (\<lambda>(v, b).
                  case v of None \<Rightarrow> Ret (None, b)
                  | Some v \<Rightarrow>
                      let b = buffer_skip_whitespace b in
                      if looking_at b 0x2C then object_loop strtod n (items @ [(name, v)]) b
                      else if \<not> looking_at b 0x7D then Ret (None, b)
                      else Ret (Some (JObject (items @ [(name, v)])), advance 1 (b\<lparr>depth := depth b - 1\<rparr>)))))"

text \<open>
  The entry points.  The buffer has as many characters as the caller says; every nested call
  consumes one of them, so that the bound is never reached (proved below).
\<close>

definition cJSON_ParseWithLengthOpts ::
  "(byte list \<Rightarrow> nat \<times> rat) \<Rightarrow> bool list \<Rightarrow> byte list option \<Rightarrow> bool \<Rightarrow> json option outcome" where
  "cJSON_ParseWithLengthOpts strtod oks value require_null_terminated =
     (case value of None \<Rightarrow> Ret None
      | Some text \<Rightarrow>
          if text = [] then Ret None
          else
            let b = \<lparr>content = text, offset = 0, depth = 0, hooks = oks\<rparr> in
            case allocate b of (ok, b) \<Rightarrow>
            if \<not> ok then Ret None
            else
              (case skip_utf8_bom b of None \<Rightarrow> Ret None
               | Some b \<Rightarrow>
                   obind (parse_value strtod (2 * length text + 2) (buffer_skip_whitespace b)) (\<lambda>(v, b).
                     case v of None \<Rightarrow> Ret None
                     | Some v \<Rightarrow>
                         if require_null_terminated then
                           let b = buffer_skip_whitespace b in
                           Ret (if \<not> looking_at b 0 then None else Some v)
                         else Ret (Some v))))"

definition cJSON_ParseWithOpts ::
  "(byte list \<Rightarrow> nat \<times> rat) \<Rightarrow> bool list \<Rightarrow> byte list option \<Rightarrow> bool \<Rightarrow> json option outcome" where
  "cJSON_ParseWithOpts strtod oks value require_null_terminated =
     (case value of None \<Rightarrow> Ret None
      | Some v \<Rightarrow> cJSON_ParseWithLengthOpts strtod oks (Some (c_str v @ [0])) require_null_terminated)"

definition cJSON_Parse ::
  "(byte list \<Rightarrow> nat \<times> rat) \<Rightarrow> bool list \<Rightarrow> byte list option \<Rightarrow> json option outcome" where
  "cJSON_Parse strtod oks value = cJSON_ParseWithOpts strtod oks value False"

section \<open>Looking items up\<close>

definition tolower :: "byte \<Rightarrow> byte" where
  "tolower b = (if 0x41 \<le> b \<and> b \<le> 0x5A then b + 32 else b)"

text \<open>Over the C strings, without their NULs; only whether the result is 0 matters.\<close>

fun case_insensitive_equal :: "byte list \<Rightarrow> byte list \<Rightarrow> bool" where
  "case_insensitive_equal [] [] = True"
| "case_insensitive_equal (x # xs) (y # ys) = (tolower x = tolower y \<and> case_insensitive_equal xs ys)"
| "case_insensitive_equal _ _ = False"

fun find_child :: "bool \<Rightarrow> byte list \<Rightarrow> (byte list \<times> json) list \<Rightarrow> json option" where
  "find_child case_sensitive name [] = None"
| "find_child case_sensitive name ((string, v) # children) =
     (if (if case_sensitive then name = c_str string else case_insensitive_equal name (c_str string)) then Some v
      else find_child case_sensitive name children)"

text \<open>Array elements have no \<open>string\<close>: the search of an array stops or ends without an item.\<close>

definition get_object_item :: "json option \<Rightarrow> byte list \<Rightarrow> bool \<Rightarrow> json option" where
  "get_object_item object name case_sensitive =
     (case object of Some (JObject children) \<Rightarrow> find_child case_sensitive name children | _ \<Rightarrow> None)"

definition cJSON_GetObjectItem :: "json option \<Rightarrow> byte list \<Rightarrow> json option" where
  "cJSON_GetObjectItem object name = get_object_item object name False"

definition valuestring :: "json \<Rightarrow> byte list option" where
  "valuestring v = (case v of JString s \<Rightarrow> Some (c_str s) | _ \<Rightarrow> None)"

end
