(* ===== verification/CJsonSafe.thy ===== *)
theory CJsonSafe
  imports CJson
begin

text \<open>
  Safety and termination of the JSON parser of \<open>CJson\<close>: unescaping a string never writes outside
  what was allocated for it, parsing a NUL-terminated text never reads outside it, and the bound on
  the calls is never reached.
\<close>

section \<open>Unescaping stays within the allocation\<close>

text \<open>
  The scan counts the escapes it passes; no two of them overlap, so that in any window at least
  every other byte is one for which room was allocated, whatever the escapes turn out to mean.
\<close>

lemma string_scan_escapes:
  "string_scan c p s = Some (e, t) \<Longrightarrow>
   \<exists>S. t = s + card S \<and> S \<subseteq> {p..<e} \<and> (\<forall>q\<in>S. c ! q = 0x5C \<and> Suc q < e \<and> Suc q \<notin> S) \<and>
       p \<le> e \<and> e < length c \<and> c ! e = 0x22"
proof (induction c p s rule: string_scan.induct)
  case (1 c p s)
  show ?case
  proof (cases "p < length c \<and> c ! p \<noteq> 0x22")
    case False
    with "1.prems" have "e = p" "t = s" "p < length c" "c ! p = 0x22"
      by (auto simp: string_scan.simps [of c p] split: if_splits)
    then show ?thesis by (intro exI [of _ "{}"]) simp
  next
    case run: True
    show ?thesis
    proof (cases "c ! p = 0x5C")
      case False
      then have "string_scan c (p + 1) s = Some (e, t)"
        using "1.prems" run by (simp add: string_scan.simps [of c p])
      from "1.IH"(2) [OF run False this] obtain S where S: "t = s + card S" "S \<subseteq> {p + 1..<e}"
        "\<forall>q\<in>S. c ! q = 0x5C \<and> Suc q < e \<and> Suc q \<notin> S" "p + 1 \<le> e" "e < length c" "c ! e = 0x22" by blast
      then show ?thesis by (intro exI [of _ S]) auto
    next
      case esc: True
      then have room: "\<not> length c \<le> p + 1" and "string_scan c (p + 2) (s + 1) = Some (e, t)"
        using "1.prems" run by (auto simp: string_scan.simps [of c p] split: if_splits)
      from "1.IH"(1) [OF run esc this] obtain S where S: "t = s + 1 + card S" "S \<subseteq> {p + 2..<e}"
        "\<forall>q\<in>S. c ! q = 0x5C \<and> Suc q < e \<and> Suc q \<notin> S" "p + 2 \<le> e" "e < length c" "c ! e = 0x22" by blast
      have "finite S" using S(2) finite_subset by blast
      moreover have "p \<notin> S" "Suc p \<notin> S" using S(2) by auto
      ultimately show ?thesis using S esc by (intro exI [of _ "insert p S"]) auto
    qed
  qed
qed

text \<open>The bytes of \<open>[p, e)\<close> that are not the start of an escape.\<close>

definition plain_from :: "nat set \<Rightarrow> nat \<Rightarrow> nat \<Rightarrow> nat" where
  "plain_from S e p = card ({p..<e} - S)"

lemma plain_from_one: "p < e \<Longrightarrow> p \<notin> S \<Longrightarrow> plain_from S e p = plain_from S e (p + 1) + 1"
proof -
  assume "p < e" "p \<notin> S"
  then have "{p..<e} - S = insert p ({p + 1..<e} - S)" by auto
  then show ?thesis by (simp add: plain_from_def)
qed

lemma plain_from_two:
  assumes "p < e" and "\<forall>q\<in>S. Suc q < e \<and> Suc q \<notin> S"
  shows "plain_from S e (p + 2) + 1 \<le> plain_from S e p"
proof (cases "p \<in> S")
  case True
  then have s: "Suc p < e" "Suc p \<notin> S" using assms(2) by auto
  then have "insert (Suc p) ({p + 2..<e} - S) \<subseteq> {p..<e} - S" using assms(1) by auto
  from card_mono [OF _ this] show ?thesis by (simp add: plain_from_def)
next
  case False
  then have "insert p ({p + 2..<e} - S) \<subseteq> {p..<e} - S" using assms(1) by auto
  from card_mono [OF _ this] show ?thesis by (simp add: plain_from_def)
qed

lemma plain_from_windows:
  assumes "\<forall>q\<in>S. Suc q < e \<and> Suc q \<notin> S"
  shows "p + 6 \<le> e \<Longrightarrow> plain_from S e (p + 6) + 3 \<le> plain_from S e p"
    and "p + 12 \<le> e \<Longrightarrow> plain_from S e (p + 12) + 6 \<le> plain_from S e p"
proof -
  have six: "plain_from S e (q + 6) + 3 \<le> plain_from S e q" if "q + 6 \<le> e" for q
  proof -
    have two: "r < e \<Longrightarrow> s = r + 2 \<Longrightarrow> plain_from S e s + 1 \<le> plain_from S e r" for r s
      using plain_from_two [OF _ assms] by simp
    show ?thesis using two [of q "q + 2"] two [of "q + 2" "q + 4"] two [of "q + 4" "q + 6"] that by linarith
  qed
  then show "p + 6 \<le> e \<Longrightarrow> plain_from S e (p + 6) + 3 \<le> plain_from S e p" .
  show "p + 12 \<le> e \<Longrightarrow> plain_from S e (p + 12) + 6 \<le> plain_from S e p"
  proof -
    assume "p + 12 \<le> e"
    moreover from this have "plain_from S e (p + 12) + 3 \<le> plain_from S e (p + 6)"
      using six [of "p + 6"] by (simp add: add.assoc)
    ultimately show ?thesis using six [of p] by linarith
  qed
qed

lemma hex_digit_bound:
  assumes "hex_digit b = Some d"
  shows "unat d \<le> 15"
proof -
  have u: "unat (ucast b :: u32) = unat b" 
    using order_less_trans [OF unat_byte_less, of "2 ^ 32" b]
    by (simp add: unsigned_ucast_eq take_bit_nat_eq_self)
  have sub: "unat (ucast b - k :: u32) = unat b - unat k" if "k \<le> ucast b" for k
    using unat_sub [OF that] u by simp
  have ge: "k \<le> (ucast b :: u32) \<longleftrightarrow> unat k \<le> unat b" for k
    by (simp add: word_le_nat_alt u)
  consider "0x30 \<le> b" "b \<le> 0x39" "d = ucast b - 0x30"
    | "0x41 \<le> b" "b \<le> 0x46" "d = 10 + ucast b - 0x41"
    | "0x61 \<le> b" "b \<le> 0x66" "d = 10 + ucast b - 0x61"
    using assms by (auto simp: hex_digit_def split: if_splits)
  then show ?thesis
  proof cases
    case 1
    then show ?thesis by (simp add: sub ge word_le_nat_alt u)
  next
    case 2
    then have "d = ucast b - 0x37" by simp
    with 2 show ?thesis by (simp add: sub ge word_le_nat_alt u)
  next
    case 3
    then have "d = ucast b - 0x57" by simp
    with 3 show ?thesis by (simp add: sub ge word_le_nat_alt u)
  qed
qed

lemma hex4_loop_bound:
  "bs \<noteq> [] \<Longrightarrow> (unat h + 16) * 16 ^ (length bs - 1) \<le> 2 ^ 31 \<Longrightarrow>
   unat (hex4_loop bs h) < (unat h + 16) * 16 ^ (length bs - 1)"
proof (induction bs arbitrary: h)
  case (Cons b bs)
  show ?case
  proof (cases "hex_digit b")
    case None
    then show ?thesis by simp
  next
    case (Some d)
    note d = hex_digit_bound [OF Some]
    have small: "unat h + 16 \<le> 2 ^ 31"
    proof -
      have "(unat h + 16) * 1 \<le> (unat h + 16) * 16 ^ (length (b # bs) - 1)" by (rule mult_le_mono2) simp
      with Cons.prems(2) show ?thesis by (simp only: mult_1_right)
    qed
    have hd: "unat (h + d) = unat h + unat d"
      using small d by (simp add: unat_word_ariths)
    show ?thesis
    proof (cases "bs = []")
      case True
      then show ?thesis using Some d hd by simp
    next
      case False
      then have l: "(16 :: nat) ^ (length (b # bs) - 1) = 16 * 16 ^ (length bs - 1)"
        by (cases bs) simp_all
      have "(unat h + 16) * 16 * 16 ^ (length bs - 1) \<le> 2 ^ 31" using Cons.prems(2) unfolding l by (simp only: mult.assoc)
      moreover have "(unat h + 16) * 16 * 1 \<le> (unat h + 16) * 16 * 16 ^ (length bs - 1)"
        by (rule mult_le_mono2) simp
      ultimately have s16: "(unat h + 16) * 16 \<le> 2 ^ 31" by (simp only: mult_1_right)
      have sh: "unat (push_bit 4 (h + d)) = (unat h + unat d) * 16"
        using s16 d by (simp add: push_bit_eq_mult unat_word_ariths hd mod_less mult.commute)
      have le: "((unat h + unat d) * 16 + 16) * 16 ^ (length bs - 1) \<le>
          (unat h + 16) * 16 * 16 ^ (length bs - 1)"
        by (rule mult_le_mono1) (use d in simp)
      have "unat (hex4_loop bs (push_bit 4 (h + d))) < ((unat h + unat d) * 16 + 16) * 16 ^ (length bs - 1)"
        using Cons.IH [OF False, of "push_bit 4 (h + d)"] le
          \<open>(unat h + 16) * 16 * 16 ^ (length bs - 1) \<le> 2 ^ 31\<close> unfolding sh by linarith
      also note le
      also have "(unat h + 16) * 16 * 16 ^ (length bs - 1) = (unat h + 16) * 16 ^ (length (b # bs) - 1)"
        unfolding l by (simp only: mult.assoc)
      finally show ?thesis using Some False by simp
    qed
  qed
qed simp

lemma parse_hex4_bound:
  assumes "4 \<le> length input"
  shows "parse_hex4 input < 0x10000"
proof -
  have "take 4 input \<noteq> []" "length (take 4 input) = 4" using assms by auto
  with hex4_loop_bound [of "take 4 input" 0] have "unat (parse_hex4 input) < 65536"
    by (simp add: parse_hex4_def)
  then show ?thesis by (simp add: word_less_nat_alt)
qed

lemma utf8_tail_length: "utf8_tail n cp out = (cp', out') \<Longrightarrow> length out' = length out + n"
  by (induction n cp out rule: utf8_tail.induct) auto

lemma utf8_bytes_length:
  assumes "utf8_bytes cp = Some bs"
  shows "length bs \<le> 4" and "cp < 0x10000 \<Longrightarrow> length bs \<le> 3"
proof -
  define enc where "enc = (\<lambda>n m. case utf8_tail (n - 1) cp [] of
      (cp, rest) \<Rightarrow> Some (ucast ((cp OR m) AND 0xFF) # rest :: byte list))"
  have e: "length bs = Suc (n - 1)" if "enc n m = Some bs" for n m
    using that utf8_tail_length [of "n - 1" cp "[]"] by (auto simp: enc_def split: prod.splits)
  have u: "utf8_bytes cp =
      (if cp < 0x80 then Some [ucast (cp AND 0x7F)] else if cp < 0x800 then enc 2 0xC0
       else if cp < 0x10000 then enc 3 0xE0 else if cp \<le> 0x10FFFF then enc 4 0xF0 else None)"
    by (simp only: utf8_bytes_def enc_def Let_def)
  show "length bs \<le> 4" "cp < 0x10000 \<Longrightarrow> length bs \<le> 3"
    using assms e [of 2 "0xC0"] e [of 3 "0xE0"] e [of 4 "0xF0"] unfolding u by (auto split: if_splits)
qed

lemma utf16_literal_bounds:
  assumes "utf16_literal_to_utf8 input = (k, bs)" and "k \<noteq> 0"
  shows "k = 6 \<and> 6 \<le> length input \<and> length bs \<le> 3 \<or> k = 12 \<and> 12 \<le> length input \<and> length bs \<le> 4"
proof -
  obtain cp where c: "utf16_codepoint input = Some (k, cp)" and b: "utf8_bytes cp = Some bs"
    using assms by (auto simp: utf16_literal_to_utf8_def split: option.splits)
  have "k = 6 \<and> 6 \<le> length input \<and> cp = parse_hex4 (drop 2 input) \<or> k = 12 \<and> 12 \<le> length input"
    using c by (auto simp: utf16_codepoint_def Let_def split: if_splits)
  then show ?thesis
    using utf8_bytes_length [OF b] parse_hex4_bound [of "drop 2 input"] by auto
qed

text \<open>One step of the loop, with the room it needs.\<close>

lemma unescape_returns:
  assumes S: "\<forall>q\<in>S. c ! q = 0x5C \<and> Suc q < e \<and> Suc q \<notin> S" and e: "e < length c"
  shows "length out + plain_from S e p < cap \<Longrightarrow>
    \<exists>ok p' out'. unescape c e cap p out = Ret (ok, p', out') \<and> length out' < cap"
proof (induction "e - p" arbitrary: p out rule: less_induct)
  case less
  note two = plain_from_two [of p e S]
  have S': "\<forall>q\<in>S. Suc q < e \<and> Suc q \<notin> S" using S by blast
  show ?case
  proof (cases "p < e")
    case False
    then have "unescape c e cap p out = Ret (True, p, out)" by (simp add: unescape.simps [of c e cap p])
    then show ?thesis using less.prems by auto
  next
    case p: True
    have bounds: "p < length c" "p + 1 < length c" using p e by simp_all
    have next2: "\<exists>ok p' out'. unescape c e cap (p + 2) (out @ [x]) = Ret (ok, p', out') \<and> length out' < cap"
      and room2: "length out + length [x] \<le> cap" for x
      using less.hyps [of "p + 2" "out @ [x]"] less.prems p two [OF p S'] by simp_all
    show ?thesis
    proof (cases "c ! p = 0x5C")
      case False
      then have "p \<notin> S" using S by blast
      from plain_from_one [OF p this] have "length (out @ [c ! p]) + plain_from S e (p + 1) < cap"
        "length out + length [c ! p] \<le> cap" using less.prems by simp_all
      with less.hyps [of "p + 1" "out @ [c ! p]"] p bounds False show ?thesis
        by (simp add: unescape.simps [of c e cap p])
    next
      case esc: True
      let ?copy = "\<lambda>x. obind (put_bytes cap out [x]) (\<lambda>out. unescape c e cap (p + 2) out)"
      have copy: "\<exists>ok p' out'. ?copy x = Ret (ok, p', out') \<and> length out' < cap" for x
        using next2 [of x] room2 [of x] by simp
      obtain k bs where u: "utf16_literal_to_utf8 (slice p (e - p) c) = (k, bs)" by fastforce
      have run: "unescape c e cap p out =
          (let d = c ! (p + 1) in
           if d = 0x62 then ?copy 0x08 else if d = 0x66 then ?copy 0x0C else if d = 0x6E then ?copy 0x0A
           else if d = 0x72 then ?copy 0x0D else if d = 0x74 then ?copy 0x09
           else if d = 0x22 \<or> d = 0x5C \<or> d = 0x2F then ?copy d
           else if d = 0x75 then
             if k = 0 then Ret (False, p, out)
             else obind (put_bytes cap out bs) (\<lambda>out. unescape c e cap (p + k) out)
           else Ret (False, p, out))"
        using p bounds esc u by (simp only: unescape.simps [of c e cap p] read_at_Ret obind.simps Let_def
            prod.case if_True if_False simp_thms)
      have lit: "\<exists>ok p' out'. obind (put_bytes cap out bs) (\<lambda>out. unescape c e cap (p + k) out) =
          Ret (ok, p', out') \<and> length out' < cap" if k: "k \<noteq> 0"
      proof -
        have "length (slice p (e - p) c) = e - p" using e p by (intro length_slice) simp
        then have "k = 6 \<and> p + 6 \<le> e \<and> length bs \<le> 3 \<or> k = 12 \<and> p + 12 \<le> e \<and> length bs \<le> 4"
          using utf16_literal_bounds [OF u k] p by auto
        then have w: "length (out @ bs) + plain_from S e (p + k) < cap"
          using plain_from_windows [OF S', of p] less.prems by auto
        with less.hyps [of "p + k" "out @ bs"] p k show ?thesis by simp
      qed
      show ?thesis
        unfolding run Let_def using copy lit less.prems by (auto simp del: put_bytes_Ret)
    qed
  qed
qed

section \<open>The parser is total and stays within the text\<close>

text \<open>
  The buffer of a C string: its last character, and no other that the parser relies on, is NUL.
\<close>

definition nul_ended :: "parse_buffer \<Rightarrow> bool" where
  "nul_ended b \<longleftrightarrow> offset b < length (content b) \<and> last (content b) = 0"

lemma nul_ended_access [simp]: "nul_ended b \<Longrightarrow> can_access_at_index b 0"
  by (simp add: nul_ended_def can_access_at_index_def)

text \<open>Characters that are not NUL never take the offset past the end.\<close>

lemma nul_ended_advance:
  assumes "nul_ended b" and "k \<le> length (drop (offset b) (content b))"
    and "0 \<notin> set (take k (drop (offset b) (content b)))"
  shows "nul_ended (advance k b)"
proof (cases "k = length (drop (offset b) (content b))")
  case True
  then have "last (content b) \<in> set (take k (drop (offset b) (content b)))"
    using assms(1) by (simp add: nul_ended_def) (metis last_drop last_in_set drop_eq_Nil linorder_not_le)
  then show ?thesis using assms(1,3) by (simp add: nul_ended_def)
next
  case False
  then show ?thesis using assms by (auto simp: nul_ended_def advance_def)
qed

lemma nul_ended_looking:
  assumes "nul_ended b" and "looking_at b x" and "x \<noteq> 0"
  shows "nul_ended (advance 1 b)"
proof (rule nul_ended_advance [OF assms(1)])
  have "drop (offset b) (content b) = content b ! offset b # drop (Suc (offset b)) (content b)"
    using assms(1) by (simp add: nul_ended_def Cons_nth_drop_Suc)
  then show "1 \<le> length (drop (offset b) (content b))" "0 \<notin> set (take 1 (drop (offset b) (content b)))"
    using assms(2,3) by (simp_all add: looking_at_def)
qed

lemma skip_loop_frame:
  "content (skip_whitespace_loop b) = content b \<and> depth (skip_whitespace_loop b) = depth b \<and>
   offset b \<le> offset (skip_whitespace_loop b) \<and>
   (offset b \<le> length (content b) \<longrightarrow> offset (skip_whitespace_loop b) \<le> length (content b))"
proof (induction b rule: skip_whitespace_loop.induct)
  case (1 b)
  show ?case
    using 1 by (subst (1 2 3 4) skip_whitespace_loop.simps) (auto simp: advance_def can_access_at_index_def)
qed

lemma skip_frame [simp]:
  "content (buffer_skip_whitespace b) = content b" "depth (buffer_skip_whitespace b) = depth b"
  using skip_loop_frame [of b] by (simp_all add: buffer_skip_whitespace_def Let_def)

lemma skip_offset:
  "offset b \<le> offset (buffer_skip_whitespace b)"
  "nul_ended b \<Longrightarrow> nul_ended (buffer_skip_whitespace b)"
  using skip_loop_frame [of b]
  by (auto simp: buffer_skip_whitespace_def Let_def nul_ended_def can_access_at_index_def)

lemma advance_frame [simp]:
  "content (advance k b) = content b" "depth (advance k b) = depth b" "offset (advance k b) = offset b + k"
  by (simp_all add: advance_def)

lemma allocate_frame:
  "allocate b = (ok, b') \<Longrightarrow> content b' = content b \<and> depth b' = depth b \<and> offset b' = offset b"
  by (auto simp: allocate_def split: list.splits)

lemma parse_string_returns:
  assumes nul: "nul_ended b"
  shows "\<exists>v b'. parse_string b = Ret (v, b') \<and>
    (v \<noteq> None \<longrightarrow> nul_ended b' \<and> content b' = content b \<and> depth b' = depth b \<and> offset b < offset b')"
proof -
  let ?c = "content b" and ?p = "offset b + 1"
  have q: "read_at ?c (offset b) = Ret (?c ! offset b)" using nul by (simp add: nul_ended_def)
  show ?thesis
  proof (cases "?c ! offset b = 0x22 \<and> string_scan ?c ?p 0 \<noteq> None")
    case False
    then show ?thesis
      using q by (cases "string_scan ?c ?p 0") (auto simp: parse_string_def Let_def)
  next
    case True
    then obtain e k where scan: "string_scan ?c ?p 0 = Some (e, k)" by auto
    from string_scan_escapes [OF scan] obtain S where
      S: "k = card S" "S \<subseteq> {?p..<e}" "\<forall>q\<in>S. ?c ! q = 0x5C \<and> Suc q < e \<and> Suc q \<notin> S"
      and e: "?p \<le> e" "e < length ?c" "?c ! e = 0x22" by auto
    obtain ok b1 where a: "allocate b = (ok, b1)" by fastforce
    note f = allocate_frame [OF a]
    let ?cap = "e - offset b - k + 1"
    have "finite S" using S(2) finite_subset by blast
    then have pl: "plain_from S e ?p = e - ?p - k"
      unfolding plain_from_def S(1) using S(2) by (subst card_Diff_subset) auto
    have "card S \<le> e - ?p" using card_mono [OF _ S(2)] by simp
    then have "length [] + plain_from S e ?p < ?cap" using pl S(1) e(1) by simp
    from unescape_returns [OF S(3) e(2) this] obtain ok2 p' out where
      u: "unescape ?c e ?cap ?p [] = Ret (ok2, p', out)" "length out < ?cap" by blast
    have run: "parse_string b =
        (if \<not> ok then Ret (None, b1\<lparr>offset := ?p\<rparr>)
         else if \<not> ok2 then Ret (None, b1\<lparr>offset := p'\<rparr>)
         else obind (put_bytes ?cap out [0]) (\<lambda>_. Ret (Some out, b1\<lparr>offset := e + 1\<rparr>)))"
      using True q a f scan u(1) by (simp add: parse_string_def Let_def)
    have nul1: "nul_ended (b1\<lparr>offset := e + 1\<rparr>)"
    proof -
      have "nul_ended (b1\<lparr>offset := e\<rparr>)" "looking_at (b1\<lparr>offset := e\<rparr>) 0x22"
        using nul e f by (simp_all add: nul_ended_def looking_at_def can_access_at_index_def)
      from nul_ended_looking [OF this] show ?thesis by (simp add: nul_ended_def)
    qed
    show ?thesis using run u(2) nul1 f e by auto
  qed
qed

fun json_depth :: "json \<Rightarrow> nat" where
  "json_depth (JArray vs) = Suc (foldr max (map json_depth vs) 0)"
| "json_depth (JObject fs) = Suc (foldr max (map (\<lambda>f. json_depth (snd f)) fs) 0)"
| "json_depth _ = 0"

lemma foldr_max_init: "x \<noteq> 0 \<Longrightarrow> foldr max xs x = max (foldr max xs 0) (x :: nat)"
  by (induction xs) auto

lemma foldr_max_le: "foldr max xs (x :: nat) + d \<le> n \<longleftrightarrow> foldr max xs 0 + d \<le> n \<and> x + d \<le> n"
  by (cases "x = 0") (auto simp: foldr_max_init)

text \<open>What a successful call leaves: a later offset, the depth \<open>d\<close>, an item that is not too deep.\<close>

definition parsed :: "parse_buffer \<Rightarrow> nat \<Rightarrow> (json option \<times> parse_buffer) outcome \<Rightarrow> bool" where
  "parsed b d r \<longleftrightarrow> (\<exists>v b'. r = Ret (v, b') \<and>
     (\<forall>x. v = Some x \<longrightarrow> nul_ended b' \<and> content b' = content b \<and> offset b < offset b' \<and> depth b' = d \<and>
        json_depth x + d \<le> CJSON_NESTING_LIMIT))"

lemma parsed_None [simp]: "parsed b d (Ret (None, b'))"
  by (simp add: parsed_def)

lemma parsed_weaken:
  "parsed b1 d r \<Longrightarrow> content b1 = content b \<Longrightarrow> offset b \<le> offset b1 \<Longrightarrow> parsed b d r"
  unfolding parsed_def by force

definition strtod_ok :: "(byte list \<Rightarrow> nat \<times> rat) \<Rightarrow> bool" where
  "strtod_ok strtod \<longleftrightarrow> (\<forall>s. fst (strtod s) \<le> length s)"

lemma parse_number_parsed:
  assumes nul: "nul_ended b" and ok: "strtod_ok strtod" and d: "depth b \<le> CJSON_NESTING_LIMIT"
  shows "parsed b (depth b) (Ret (parse_number strtod b))"
proof -
  let ?s = "takeWhile number_char (take 63 (drop (offset b) (content b)))"
  obtain k x where s: "strtod ?s = (k, x)" by fastforce
  have k: "k \<le> length ?s" using ok s unfolding strtod_ok_def by (metis fst_conv)
  have pre: "take k (drop (offset b) (content b)) = take k ?s"
  proof -
    have "drop (offset b) (content b) = ?s @ dropWhile number_char (take 63 (drop (offset b) (content b))) @
        drop 63 (drop (offset b) (content b))"
      by (metis append.assoc append_take_drop_id takeWhile_dropWhile_id)
    then have "take k (drop (offset b) (content b)) = take k (?s @ dropWhile number_char
        (take 63 (drop (offset b) (content b))) @ drop 63 (drop (offset b) (content b)))" by (rule arg_cong)
    then show ?thesis using k by simp
  qed
  have "0 \<notin> set ?s" by (auto simp: number_char_def dest: set_takeWhileD)
  then have z: "0 \<notin> set (take k (drop (offset b) (content b)))"
    unfolding pre using set_take_subset by fastforce
  have l: "k \<le> length (drop (offset b) (content b))"
    using k length_takeWhile_le [of number_char "take 63 (drop (offset b) (content b))"] by simp
  show ?thesis
    using nul_ended_advance [OF nul l z] d s by (simp add: parse_number_def parsed_def)
qed

lemma starts_with_advance:
  assumes "nul_ended b" and "starts_with b lit" and "0 \<notin> set lit"
  shows "nul_ended (advance (length lit) b)"
  using assms by (intro nul_ended_advance) (auto simp: starts_with_def can_read_def)

lemma literal_parsed:
  assumes "nul_ended b" "starts_with b lit" "0 \<notin> set lit" "lit \<noteq> []" "length lit = k"
    and "depth b \<le> CJSON_NESTING_LIMIT" "json_depth x = 0"
  shows "parsed b (depth b) (Ret (Some x, advance k b))"
  using starts_with_advance [OF assms(1-3)] assms(4-) by (auto simp: parsed_def)

lemma close_parsed:
  assumes "nul_ended b1" "looking_at b1 x" "x \<noteq> 0" "content b1 = content b" "offset b \<le> offset b1"
    and "json_depth v + (depth b1 - 1) \<le> CJSON_NESTING_LIMIT"
  shows "parsed b (depth b1 - 1) (Ret (Some v, advance 1 (b1\<lparr>depth := depth b1 - 1\<rparr>)))"
  using nul_ended_looking [OF assms(1-3)] assms(4-) by (simp add: parsed_def nul_ended_def)

text \<open>The opening bracket, given the loop.\<close>

lemma opening_parsed:
  assumes nul: "nul_ended b" and open_char: "looking_at b x" "x \<noteq> 0" "y \<noteq> 0"
    and empty: "json_depth v = 1"
    and elements: "\<And>b'. nul_ended (advance 1 b') \<Longrightarrow> content b' = content b \<Longrightarrow> offset b \<le> offset b' \<Longrightarrow>
      depth b' = depth b + 1 \<Longrightarrow> depth b < CJSON_NESTING_LIMIT \<Longrightarrow> parsed b' (depth b' - 1) (elements b')"
  shows "parsed b (depth b) (parse_opening y v elements b)"
proof (cases "CJSON_NESTING_LIMIT \<le> depth b")
  case True
  then show ?thesis by (simp add: parse_opening_def)
next
  case deep: False
  let ?b = "buffer_skip_whitespace (advance 1 (b\<lparr>depth := depth b + 1\<rparr>))"
  have "nul_ended (advance 1 (b\<lparr>depth := depth b + 1\<rparr>))"
    using nul_ended_looking [OF nul open_char(1,2)] by (simp add: nul_ended_def)
  then have nb: "nul_ended ?b" by (rule skip_offset(2))
  have o: "offset b + 1 \<le> offset ?b" using skip_offset(1) [of "advance 1 (b\<lparr>depth := depth b + 1\<rparr>)"] by simp
  show ?thesis
  proof (cases "looking_at ?b y")
    case True
    have "parsed b (depth ?b - 1) (Ret (Some v, advance 1 (?b\<lparr>depth := depth ?b - 1\<rparr>)))"
      by (rule close_parsed [OF nb True open_char(3)]) (use o deep empty in simp_all)
    with True deep show ?thesis by (simp add: parse_opening_def Let_def)
  next
    case False
    let ?e = "?b\<lparr>offset := offset ?b - 1\<rparr>"
    have "nul_ended (advance 1 ?e)" using nb o by (simp add: nul_ended_def)
    then have "parsed ?e (depth ?e - 1) (elements ?e)"
      using deep o by (intro elements) simp_all
    then have "parsed b (depth ?e - 1) (elements ?e)"
      by (rule parsed_weaken) (use o in simp_all)
    with False deep nb show ?thesis by (simp add: parse_opening_def Let_def)
  qed
qed

definition measure_ok :: "nat \<Rightarrow> nat \<Rightarrow> parse_buffer \<Rightarrow> bool" where
  "measure_ok n k b \<longleftrightarrow> 2 * (length (content b) - offset b) + k \<le> n"

lemma parse_returns:
  assumes ok: "strtod_ok strtod"
  shows "(\<forall>b. nul_ended b \<longrightarrow> measure_ok n 2 b \<longrightarrow> depth b \<le> CJSON_NESTING_LIMIT \<longrightarrow>
            parsed b (depth b) (parse_value strtod n b)) \<and>
         (\<forall>b items. nul_ended (advance 1 b) \<longrightarrow> measure_ok n 1 b \<longrightarrow> 0 < depth b \<longrightarrow>
            depth b \<le> CJSON_NESTING_LIMIT \<longrightarrow> foldr max (map json_depth items) 0 + depth b \<le> CJSON_NESTING_LIMIT \<longrightarrow>
            parsed b (depth b - 1) (array_loop strtod n items b)) \<and>
         (\<forall>b fields. nul_ended (advance 1 b) \<longrightarrow> measure_ok n 1 b \<longrightarrow> 0 < depth b \<longrightarrow>
            depth b \<le> CJSON_NESTING_LIMIT \<longrightarrow>
            foldr max (map (\<lambda>f. json_depth (snd f)) fields) 0 + depth b \<le> CJSON_NESTING_LIMIT \<longrightarrow>
            parsed b (depth b - 1) (object_loop strtod n fields b))"
proof (induction n)
  case 0
  show ?case by (simp add: measure_ok_def)
next
  case (Suc n)
  note IHv = Suc.IH [THEN conjunct1, rule_format]
  note IHa = Suc.IH [THEN conjunct2, THEN conjunct1, rule_format]
  note IHo = Suc.IH [THEN conjunct2, THEN conjunct2, rule_format]
  show ?case
  proof (intro conjI allI impI)
    fix b
    assume nul: "nul_ended b" and m: "measure_ok (Suc n) 2 b" and d: "depth b \<le> CJSON_NESTING_LIMIT"
    have loops: "measure_ok n 1 b'" if "content b' = content b" "offset b \<le> offset b'" for b'
      using m that by (simp add: measure_ok_def)
    have arr: "parsed b (depth b) (parse_opening 0x5D (JArray []) (\<lambda>b. array_loop strtod n [] b) b)"
      if "looking_at b 0x5B"
    proof (rule opening_parsed [OF nul that])
      fix b'
      assume "nul_ended (advance 1 b')" "content b' = content b" "offset b \<le> offset b'"
        "depth b' = depth b + 1" "depth b < CJSON_NESTING_LIMIT"
      then show "parsed b' (depth b' - 1) (array_loop strtod n [] b')" by (intro IHa loops) simp_all
    qed simp_all
    have obj: "parsed b (depth b) (parse_opening 0x7D (JObject []) (\<lambda>b. object_loop strtod n [] b) b)"
      if "looking_at b 0x7B"
    proof (rule opening_parsed [OF nul that])
      fix b'
      assume "nul_ended (advance 1 b')" "content b' = content b" "offset b \<le> offset b'"
        "depth b' = depth b + 1" "depth b < CJSON_NESTING_LIMIT"
      then show "parsed b' (depth b' - 1) (object_loop strtod n [] b')" by (intro IHo loops) simp_all
    qed simp_all
    have string: "parsed b (depth b) (obind (parse_string b) (\<lambda>(s, b). Ret (map_option JString s, b)))"
      using parse_string_returns [OF nul] d by (auto simp: parsed_def)
    note lits = literal_parsed [OF nul _ _ _ _ d, of "str ''null''" 4 JNull]
      literal_parsed [OF nul _ _ _ _ d, of "str ''false''" 5 JFalse]
      literal_parsed [OF nul _ _ _ _ d, of "str ''true''" 4 JTrue]
    show "parsed b (depth b) (parse_value strtod (Suc n) b)"
      using arr obj string lits parse_number_parsed [OF nul ok d] by simp
  next
    fix b items
    assume nul: "nul_ended (advance 1 b)" and m: "measure_ok (Suc n) 1 b" and d: "0 < depth b"
      "depth b \<le> CJSON_NESTING_LIMIT" "foldr max (map json_depth items) 0 + depth b \<le> CJSON_NESTING_LIMIT"
    obtain ok1 b1 where a: "allocate b = (ok1, b1)" by fastforce
    note f = allocate_frame [OF a]
    let ?b = "buffer_skip_whitespace (advance 1 b1)"
    have nb: "nul_ended ?b" using nul f by (intro skip_offset(2)) (simp add: nul_ended_def)
    have o: "offset b + 1 \<le> offset ?b" using skip_offset(1) [of "advance 1 b1"] f by simp
    have "offset ?b < length (content b)" using nb f by (simp add: nul_ended_def)
    then have "parsed ?b (depth ?b) (parse_value strtod n ?b)"
      using m o f d nb by (intro IHv) (simp_all add: measure_ok_def)
    then obtain v b2 where pv: "parse_value strtod n ?b = Ret (v, b2)" and b2: "\<And>x. v = Some x \<Longrightarrow>
        nul_ended b2 \<and> content b2 = content b \<and> offset ?b < offset b2 \<and> depth b2 = depth b \<and>
        json_depth x + depth b \<le> CJSON_NESTING_LIMIT"
      using f by (auto simp: parsed_def)
    show "parsed b (depth b - 1) (array_loop strtod (Suc n) items b)"
    proof (cases "ok1 \<and> v \<noteq> None")
      case False
      then show ?thesis using a pv by (cases v) auto
    next
      case True
      then obtain x where x: "v = Some x" by blast
      let ?c = "buffer_skip_whitespace b2"
      have c: "nul_ended ?c" "content ?c = content b" "offset b < offset ?c" "depth ?c = depth b"
        using b2 [OF x] skip_offset(1) [of b2] o by (auto intro: skip_offset(2))
      have items: "foldr max (map json_depth (items @ [x])) 0 + depth b \<le> CJSON_NESTING_LIMIT"
        using d(3) b2 [OF x] by (simp add: foldr_max_le [of _ "json_depth x"])
      have next_item: "parsed b (depth b - 1) (array_loop strtod n (items @ [x]) ?c)" if "looking_at ?c 0x2C"
      proof -
        have "nul_ended (advance 1 ?c)" by (rule nul_ended_looking [OF c(1) that]) simp
        moreover have "measure_ok n 1 ?c"
          using m c \<open>offset ?b < length (content b)\<close> o by (simp add: measure_ok_def nul_ended_def)
        ultimately have "parsed ?c (depth ?c - 1) (array_loop strtod n (items @ [x]) ?c)"
          using d items b2 [OF x] by (intro IHa) simp_all
        from parsed_weaken [OF this c(2)] c(3) b2 [OF x] show ?thesis by simp
      qed
      have last_item: "parsed b (depth b - 1) (Ret (Some (JArray (items @ [x])), advance 1 (?c\<lparr>depth := depth ?c - 1\<rparr>)))"
        if "looking_at ?c 0x5D"
        using close_parsed [OF c(1) that _ c(2), of "JArray (items @ [x])"] c(3) items d(1) b2 [OF x] by simp
      show ?thesis
        using True x a pv next_item last_item by (simp add: Let_def)
    qed
  next
    fix b and fields :: "(byte list \<times> json) list"
    assume nul: "nul_ended (advance 1 b)" and m: "measure_ok (Suc n) 1 b" and d: "0 < depth b"
      "depth b \<le> CJSON_NESTING_LIMIT"
      "foldr max (map (\<lambda>f. json_depth (snd f)) fields) 0 + depth b \<le> CJSON_NESTING_LIMIT"
    obtain ok1 b1 where a: "allocate b = (ok1, b1)" by fastforce
    note f = allocate_frame [OF a]
    let ?b = "buffer_skip_whitespace (advance 1 b1)"
    have nb: "nul_ended ?b" using nul f by (intro skip_offset(2)) (simp add: nul_ended_def)
    have o: "offset b + 1 \<le> offset ?b" using skip_offset(1) [of "advance 1 b1"] f by simp
    obtain name b2 where ps: "parse_string ?b = Ret (name, b2)" and b2: "\<And>s. name = Some s \<Longrightarrow>
        nul_ended b2 \<and> content b2 = content b \<and> depth b2 = depth b \<and> offset ?b < offset b2"
      using parse_string_returns [OF nb] f by auto
    let ?c = "buffer_skip_whitespace b2"
    show "parsed b (depth b - 1) (object_loop strtod (Suc n) fields b)"
    proof (cases "ok1 \<and> name \<noteq> None \<and> looking_at ?c 0x3A")
      case False
      then show ?thesis using a ps by (cases name) (auto simp: Let_def)
    next
      case True
      then obtain s where s: "name = Some s" and colon: "looking_at ?c 0x3A" by blast
      have c: "nul_ended ?c" "content ?c = content b" "offset b < offset ?c" "depth ?c = depth b"
        using b2 [OF s] skip_offset(1) [of b2] o by (auto intro: skip_offset(2))
      let ?e = "buffer_skip_whitespace (advance 1 ?c)"
      have e: "nul_ended ?e" by (rule skip_offset(2) [OF nul_ended_looking [OF c(1) colon]]) simp
      have eo: "offset ?c < offset ?e" using skip_offset(1) [of "advance 1 ?c"] by simp
      have el: "offset ?e < length (content b)" using e c(2) by (simp add: nul_ended_def)
      have "parsed ?e (depth ?e) (parse_value strtod n ?e)"
        using m c e eo el d by (intro IHv) (simp_all add: measure_ok_def)
      then obtain v b3 where pv: "parse_value strtod n ?e = Ret (v, b3)" and b3: "\<And>x. v = Some x \<Longrightarrow>
          nul_ended b3 \<and> content b3 = content b \<and> offset ?e < offset b3 \<and> depth b3 = depth b \<and>
          json_depth x + depth b \<le> CJSON_NESTING_LIMIT"
        using c by (auto simp: parsed_def)
      show ?thesis
      proof (cases v)
        case None
        then show ?thesis using True s a ps pv by (simp add: Let_def)
      next
        case (Some x)
        let ?g = "buffer_skip_whitespace b3"
        have g: "nul_ended ?g" "content ?g = content b" "offset ?e < offset ?g" "depth ?g = depth b"
          using b3 [OF Some] skip_offset(1) [of b3] by (auto intro: skip_offset(2))
        have fs: "foldr max (map (\<lambda>f. json_depth (snd f)) (fields @ [(s, x)])) 0 + depth b \<le> CJSON_NESTING_LIMIT"
          using d(3) b3 [OF Some] by (simp add: foldr_max_le [of _ "json_depth x"])
        have next_item: "parsed b (depth b - 1) (object_loop strtod n (fields @ [(s, x)]) ?g)"
          if "looking_at ?g 0x2C"
        proof -
          have "nul_ended (advance 1 ?g)" by (rule nul_ended_looking [OF g(1) that]) simp
          moreover have "measure_ok n 1 ?g" using m g c eo el by (simp add: measure_ok_def)
          ultimately have "parsed ?g (depth ?g - 1) (object_loop strtod n (fields @ [(s, x)]) ?g)"
            using d fs b3 [OF Some] by (intro IHo) simp_all
          from parsed_weaken [OF this g(2)] g(3) c(3) eo b3 [OF Some] show ?thesis by simp
        qed
        have last_item: "parsed b (depth b - 1)
            (Ret (Some (JObject (fields @ [(s, x)])), advance 1 (?g\<lparr>depth := depth ?g - 1\<rparr>)))"
          if "looking_at ?g 0x7D"
          using close_parsed [OF g(1) that _ g(2), of "JObject (fields @ [(s, x)])"] g(3) c(3) eo fs d(1) b3 [OF Some]
          by simp
        show ?thesis
          using True s Some a ps pv next_item last_item by (simp add: Let_def)
      qed
    qed
  qed
qed

lemma parse_c_string:
  assumes "strtod_ok strtod"
  shows "\<exists>r. cJSON_Parse strtod oks doc = Ret r \<and>
    (\<forall>v. r = Some v \<longrightarrow> json_depth v \<le> CJSON_NESTING_LIMIT)"
proof (cases doc)
  case None
  then show ?thesis by (simp add: cJSON_Parse_def cJSON_ParseWithOpts_def)
next
  case (Some s)
  let ?text = "c_str s @ [0]"
  obtain ok b where a: "allocate \<lparr>content = ?text, offset = 0, depth = 0, hooks = oks\<rparr> = (ok, b)" by fastforce
  from allocate_frame [OF a] have b: "content b = ?text" "depth b = 0" "offset b = 0" by simp_all
  show ?thesis
  proof (cases ok)
    case False
    then show ?thesis
      using a Some by (simp add: cJSON_Parse_def cJSON_ParseWithOpts_def cJSON_ParseWithLengthOpts_def)
  next
    case True
    have "\<exists>b1. skip_utf8_bom b = Some b1 \<and> (b1 = b \<or> can_access_at_index b 4 \<and> b1 = advance 3 b)"
      using b(3) by (simp add: skip_utf8_bom_def)
    then obtain b1 where bom: "skip_utf8_bom b = Some b1" and b1: "b1 = b \<or> can_access_at_index b 4 \<and> b1 = advance 3 b"
      by blast
    have nul: "nul_ended b1" and frame: "content b1 = ?text" "depth b1 = 0"
      using b b1 by (auto simp: nul_ended_def can_access_at_index_def)
    let ?b = "buffer_skip_whitespace b1"
    have "parsed ?b (depth ?b) (parse_value strtod (2 * length ?text + 2) ?b)"
      using parse_returns [OF assms, THEN conjunct1, rule_format, of ?b] skip_offset(2) [OF nul] frame
      by (simp add: measure_ok_def del: parse_value.simps)
    then obtain v b2 where v: "parse_value strtod (2 * length ?text + 2) ?b = Ret (v, b2)"
      and d: "\<And>x. v = Some x \<Longrightarrow> json_depth x \<le> 1000"
      using frame by (auto simp: parsed_def)
    have "cJSON_Parse strtod oks doc = Ret v"
      using Some a True bom v
      by (cases v) (simp_all add: cJSON_Parse_def cJSON_ParseWithOpts_def cJSON_ParseWithLengthOpts_def)
    with d show ?thesis by simp
  qed
qed

text \<open>
  C1: parsing a C string is total and memory-safe.  For every text and every pattern of failing
  allocations, \<open>cJSON_Parse\<close> returns: it never reads outside the string and its NUL, never writes
  outside the memory allocated for an unescaped string, and terminates; an item it returns is
  nested at most \<open>CJSON_NESTING_LIMIT\<close> deep.  (\<open>strtod\<close> uses no more characters than it is given.)
\<close>

theorem cJSON_Parse_total:
  assumes "strtod_ok strtod"
  shows "\<exists>r. cJSON_Parse strtod oks doc = Ret r \<and>
    (\<forall>v. r = Some v \<longrightarrow> json_depth v \<le> CJSON_NESTING_LIMIT)"
  by (rule parse_c_string [OF assms])

text \<open>A concrete \<open>strtod\<close>: a run of decimal digits.\<close>

definition digits_strtod :: "byte list \<Rightarrow> nat \<times> rat" where
  "digits_strtod s =
     (let ds = takeWhile (\<lambda>c. 0x30 \<le> c \<and> c \<le> 0x39) s
      in (length ds, foldl (\<lambda>n d. n * 10 + of_nat (unat d - 48)) 0 ds))"

lemma digits_strtod_ok: "strtod_ok digits_strtod"
  by (simp add: strtod_ok_def digits_strtod_def Let_def length_takeWhile_le)

theorem cJSON_Parse_total_witness:
  "\<exists>r. cJSON_Parse digits_strtod [] (Some (str ''[1,[2], tru'')) = Ret r \<and>
     (\<forall>v. r = Some v \<longrightarrow> json_depth v \<le> 1000)"
  by (rule cJSON_Parse_total [OF digits_strtod_ok])



end
