(* ===== verification/GatewayMedia.thy ===== *)
theory GatewayMedia
  imports GatewayProto CryptoStream Base64 CJsonSafe
begin

text \<open>
  Two functions that \<open>gateway/gateway.c\<close> and \<open>ameba_gateway/example_gateway_ameba.c\<close> contain in the
  same words: the flags of a video packet, and reading the session nonce from the \<open>crypto_init\<close>
  text frame.
\<close>

definition gateway_video_flags :: "byte list option \<Rightarrow> nat \<Rightarrow> byte" where
  "gateway_video_flags payload len =
     (case payload of None \<Rightarrow> 0
      | Some p \<Rightarrow>
          if len = 0 then 0
          else if 16 \<le> len \<and> take 4 p = str ''VFG1'' then p ! 4
          else
            let nal_type = p ! 0 AND 0x1F;
                fl = (if nal_type = 5 then GATEWAY_PROTO_FLAG_KEYFRAME else 0)
            in if nal_type = 7 \<or> nal_type = 8 then fl OR GATEWAY_PROTO_FLAG_CONFIG else fl)"

text \<open>
  What the C library answers to the calls of \<open>gateway_parse_crypto_init\<close>: \<open>malloc\<close> of the text, the
  allocations of the parser, \<open>strtod\<close>, the allocation of the base64 decoder.
\<close>

record libc =
  text_malloc :: bool
  json_mallocs :: "bool list"
  json_strtod :: "byte list \<Rightarrow> nat \<times> rat"
  decode_malloc :: bool

definition gateway_parse_crypto_init ::
  "libc \<Rightarrow> byte list \<Rightarrow> byte list \<times> bool \<Rightarrow> (int \<times> byte list \<times> bool) outcome" where
  "gateway_parse_crypto_init env payload nonce =
     (if \<not> text_malloc env then Ret (-1, nonce)
      else
        obind (cJSON_Parse (json_strtod env) (json_mallocs env) (Some (payload @ [0]))) (\<lambda>root.
        Ret
          (if root = None then (0, nonce)
           else
             (case Option.bind (cJSON_GetObjectItem root (str ''type'')) valuestring of
                None \<Rightarrow> (0, nonce)
              | Some type \<Rightarrow>
                  if type \<noteq> str ''crypto_init'' then (0, nonce)
                  else
                    let result = cJSON_GetObjectItem root (str ''result'');
                        session_nonce_json =
                          (if result \<noteq> None then cJSON_GetObjectItem result (str ''session_nonce'') else None)
                    in case Option.bind session_nonce_json valuestring of
                         None \<Rightarrow> (-1, nonce)
                       | Some encoded \<Rightarrow>
                           (case base64_decode (decode_malloc env) encoded of
                              None \<Rightarrow> (-1, nonce)
                            | Some decoded \<Rightarrow>
                                if length decoded \<noteq> CRYPTO_STREAM_NONCE_SIZE then (-1, nonce)
                                else (0, decoded, True))))))"

text \<open>Whatever arrives, a nonce is only ever replaced by a whole one.\<close>

lemma parse_crypto_init_nonce:
  assumes "gateway_parse_crypto_init env payload (sn, have) = Ret (rc, sn', have')"
    and "have \<longrightarrow> length sn = CRYPTO_STREAM_NONCE_SIZE"
  shows "rc \<in> {0, -1} \<and> (have' \<longrightarrow> length sn' = CRYPTO_STREAM_NONCE_SIZE) \<and> (have \<longrightarrow> have') \<and>
    (rc \<noteq> 0 \<longrightarrow> sn' = sn \<and> have' = have)"
  using assms
  by (auto simp: gateway_parse_crypto_init_def obind_Ret_conv Let_def split: if_splits option.splits)

lemma parse_crypto_init_length:
  assumes "gateway_parse_crypto_init env payload (sn, have) = Ret (rc, sn', have')"
    and "length sn = CRYPTO_STREAM_NONCE_SIZE"
  shows "length sn' = CRYPTO_STREAM_NONCE_SIZE"
  using assms
  by (auto simp: gateway_parse_crypto_init_def obind_Ret_conv Let_def split: if_splits option.splits)

text \<open>It always returns.\<close>

lemma parse_crypto_init_returns:
  assumes "strtod_ok (json_strtod env)"
  shows "\<exists>r. gateway_parse_crypto_init env payload nonce = Ret r"
proof -
  obtain root where root: "cJSON_Parse (json_strtod env) (json_mallocs env) (Some (payload @ [0])) = Ret root"
    using parse_c_string [OF assms, of "json_mallocs env" "Some (payload @ [0])"] by blast
  have "returns (gateway_parse_crypto_init env payload nonce)"
    unfolding gateway_parse_crypto_init_def root obind.simps
    by (cases "text_malloc env") (simp_all only: simp_thms if_True if_False returns_simps)
  then show ?thesis by (simp add: returns_def)
qed

text \<open>A concrete library, for the examples.\<close>

definition demo_libc :: libc where
  "demo_libc = \<lparr>text_malloc = True, json_mallocs = [], json_strtod = digits_strtod, decode_malloc = True\<rparr>"

end
