(* ===== verification/AmebaUsb.thy ===== *)
theory AmebaUsb
  imports TxRing GatewayMedia
begin

text \<open>
  The USB side of the Ameba board (\<open>gateway_usb_*\<close> in
  \<open>ameba_gateway/example_gateway_ameba.c\<close>): the transfer in flight, the completion handlers, the
  session reset, the configuration life cycle, and the packets the board puts on the ring.  The
  controller's answers to queueing, dequeueing and enabling requests are a script in the state
  (0, success, when it has run out); the IN transfers it accepted are logged in \<open>in_wire\<close>.  Every
  handler is one atomic step, and completions are delivered as steps of their own.
\<close>

section \<open>State\<close>

record upstream_config =
  cfg_host :: "byte list"
  cfg_path :: "byte list"
  cfg_port :: u16
  cfg_valid :: bool
  cfg_seq_no :: u32

record gateway_usb =
  us_ring :: tx_ring
  in_ep :: bool
  out_ep :: bool
  in_req :: bool
  out_req :: bool
  in_buf :: "byte list"
  out_buf :: "byte list"
  in_req_length :: nat
  ctx_configured :: bool
  in_busy :: bool
  in_flight_len :: nat
  usb_started :: bool
  usb_start_rc :: int
  usb_configured :: bool
  host_ready :: bool
  proto_init_sent :: bool
  stream_resetting :: bool
  last_kick_rc :: int
  last_queue_len :: nat
  last_ping_valid :: int
  last_actual :: nat
  last_req_dump :: "byte list"
  last_ctx_dump :: "byte list"
  last_magic :: "byte list"
  last_seq :: u32
  last_payload_len :: u32
  rx_packets :: nat
  tx_packets :: nat
  kick_count :: nat
  in_complete_count :: nat
  in_error_count :: nat
  fifo_flush_count :: nat
  watchdog_reset_count :: nat
  upstream_cfg :: upstream_config
  config_valid :: bool
  config_seq :: u32
  reconnect_requested :: bool
  controller :: "int list"      \<comment> \<open>the answers of the USB controller still to come\<close>
  in_wire :: "byte list list"   \<comment> \<open>the IN transfers the controller accepted\<close>

abbreviation (input) GATEWAY_AMEBA_USB_OUT_PACKET_SIZE :: nat
  where "GATEWAY_AMEBA_USB_OUT_PACKET_SIZE \<equiv> 64"
abbreviation (input) GATEWAY_AMEBA_USB_IN_CHUNK_SIZE :: nat
  where "GATEWAY_AMEBA_USB_IN_CHUNK_SIZE \<equiv> 512"

definition controller_answer :: "gateway_usb \<Rightarrow> int \<times> gateway_usb" where
  "controller_answer s =
     (case controller s of [] \<Rightarrow> (0, s) | rc # rcs \<Rightarrow> (rc, s\<lparr>controller := rcs\<rparr>))"

text \<open>\<open>usb_ep_queue\<close> on the IN endpoint: the first \<open>length\<close> bytes of the buffer go out.\<close>

definition queue_in :: "gateway_usb \<Rightarrow> int \<times> gateway_usb" where
  "queue_in s =
     (case controller_answer s of (rc, s) \<Rightarrow>
        (rc, if rc = 0 then s\<lparr>in_wire := in_wire s @ [take (in_req_length s) (in_buf s)]\<rparr> else s))"

section \<open>The packets on the ring\<close>

definition gateway_usb_tx_reset :: "gateway_usb \<Rightarrow> gateway_usb" where
  "gateway_usb_tx_reset s =
     s\<lparr>us_ring := tx_ring_reset (us_ring s), proto_init_sent := False, last_queue_len := 0\<rparr>"

text \<open>The locals are written in full before they are read; zero stands for what they hold before.\<close>

definition init_local :: gateway_proto_init_info where
  "init_local = \<lparr>version = 0, video_codec = 0, audio_codec = 0, audio_channels = 0,
     audio_sample_rate = 0, audio_sample_bits = 0\<rparr>"

definition gateway_usb_enqueue_init_packet :: "gateway_usb \<Rightarrow> int \<times> gateway_usb" where
  "gateway_usb_enqueue_init_packet s =
     (if proto_init_sent s then (0, s)
      else
        (case gateway_proto_write_init (Some (replicate GATEWAY_PROTO_INIT_SIZE 0))
                (gateway_proto_default_init (Some init_local)) of
           (rc, init_buf) \<Rightarrow>
             if rc \<noteq> 0 then (-1, s)
             else (case gateway_usb_tx_enqueue_packet (us_ring s) init_buf GATEWAY_PROTO_INIT_SIZE None 0 of
                     (rc, r) \<Rightarrow>
                       if rc \<noteq> 0 then (-1, s\<lparr>us_ring := r\<rparr>)
                       else (0, s\<lparr>us_ring := r, proto_init_sent := True\<rparr>))))"

definition g_gateway_usb_crypto_nonce :: "byte list" where
  "g_gateway_usb_crypto_nonce = str ''USBRelayV1!!''"

text \<open>\<open>alloc\<close> says whether \<open>malloc\<close> succeeds; its bytes are zero until they are written.\<close>

definition gateway_usb_enqueue_media_packet ::
  "cipher \<Rightarrow> bool \<Rightarrow> byte \<Rightarrow> u32 \<Rightarrow> byte list option \<Rightarrow> nat \<Rightarrow> gateway_usb \<Rightarrow> int \<times> gateway_usb" where
  "gateway_usb_enqueue_media_packet chacha20_xor alloc sid seq payload len s =
     (let fl = (if sid = GATEWAY_PROTO_STREAM_VIDEO then gateway_video_flags payload len else 0);
          encrypted =
            (if 0 < len then
               if \<not> alloc then None
               else
                 let size = crypto_stream_packet_size len in
                 case crypto_stream_encrypt_packet chacha20_xor (Some (replicate size 0)) size sid seq
                        (Some g_gateway_usb_crypto_nonce) payload len of
                   (encrypted_len, out) \<Rightarrow>
                     if encrypted_len < 0 then None else Some (out, nat encrypted_len)
             else Some (None, 0))
      in case encrypted of
           None \<Rightarrow> (-1, s)
         | Some (encrypted_payload, encrypted_len) \<Rightarrow>
             let media_info = \<lparr>stream_id = sid, flags = fl, seq_no = seq,
                               payload_len = word_of_nat encrypted_len\<rparr> in
             (case gateway_proto_write_media_header (Some (replicate GATEWAY_PROTO_PACKET_HEADER_SIZE 0))
                     (Some media_info) of
                (rc, header) \<Rightarrow>
                  if rc \<noteq> 0 then (-1, s)
                  else (case gateway_usb_tx_enqueue_packet (us_ring s) header
                               GATEWAY_PROTO_PACKET_HEADER_SIZE encrypted_payload encrypted_len of
                          (rc, r) \<Rightarrow> (if rc \<noteq> 0 then -1 else 0, s\<lparr>us_ring := r\<rparr>))))"

section \<open>IN transfers\<close>

text \<open>The endpoint operations of the SDK have a \<open>fifo_flush\<close>.\<close>

definition gateway_usb_fifo_flush :: "gateway_usb \<Rightarrow> gateway_usb" where
  "gateway_usb_fifo_flush s =
     (if \<not> in_ep s then s else s\<lparr>fifo_flush_count := fifo_flush_count s + 1\<rparr>)"

definition gateway_usb_kick_tx :: "gateway_usb \<Rightarrow> int \<times> gateway_usb" where
  "gateway_usb_kick_tx s =
     (if \<not> in_ep s \<or> \<not> in_req s \<or> \<not> ctx_configured s \<or> in_busy s then (0, s)
      else
        let chunk = gateway_usb_tx_peek_chunk (us_ring s) GATEWAY_AMEBA_USB_IN_CHUNK_SIZE;
            chunk_len = length chunk in
        if chunk_len = 0 then (0, s)
        else
          let s = s\<lparr>in_buf := blit (in_buf s) 0 chunk, in_req_length := chunk_len, in_busy := True,
                    in_flight_len := chunk_len, last_queue_len := chunk_len,
                    kick_count := kick_count s + 1\<rparr> in
          (case queue_in s of (rc, s) \<Rightarrow>
             if rc \<noteq> 0 then (-1, s\<lparr>in_busy := False, in_flight_len := 0, last_kick_rc := rc\<rparr>)
             else (0, s\<lparr>last_kick_rc := 0\<rparr>)))"

definition gateway_usb_reset_stream_session :: "gateway_usb \<Rightarrow> gateway_usb" where
  "gateway_usb_reset_stream_session s =
     (if \<not> in_ep s \<or> \<not> in_req s then s
      else
        let (rc, s) =
              (if in_busy s then
                 let s = s\<lparr>stream_resetting := True\<rparr>;
                     (rc, s) = controller_answer s
                 in (rc, if rc \<noteq> 0 then s\<lparr>stream_resetting := False\<rparr> else s)
               else (0, s\<lparr>stream_resetting := False\<rparr>));
            s = s\<lparr>in_busy := False, in_flight_len := 0\<rparr>;
            s = gateway_usb_fifo_flush s;
            s = gateway_usb_tx_reset s
        in s\<lparr>last_kick_rc := rc\<rparr>)"

text \<open>The request's status and its number of bytes; \<open>None\<close> is a NULL request.\<close>

definition gateway_usb_in_complete :: "(int \<times> nat) option \<Rightarrow> gateway_usb \<Rightarrow> gateway_usb" where
  "gateway_usb_in_complete req s =
     (let s = s\<lparr>in_complete_count := in_complete_count s + 1, in_busy := False\<rparr> in
      if (case req of Some (status, actual) \<Rightarrow> status \<noteq> 0 | None \<Rightarrow> False) then
        let s = s\<lparr>in_flight_len := 0\<rparr> in
        if stream_resetting s then s\<lparr>stream_resetting := False\<rparr>
        else gateway_usb_reset_stream_session (s\<lparr>in_error_count := in_error_count s + 1\<rparr>)
      else
        let s = (if 0 < in_flight_len s then
                   let consume_len =
                         (case req of
                            Some (status, actual) \<Rightarrow>
                              if 0 < actual \<and> actual < in_flight_len s then actual else in_flight_len s
                          | None \<Rightarrow> in_flight_len s)
                   in s\<lparr>us_ring := gateway_usb_tx_consume_chunk (us_ring s) consume_len,
                        in_flight_len := 0\<rparr>
                 else s)
        in snd (gateway_usb_kick_tx s))"

definition gateway_usb_send_pong :: "u32 \<Rightarrow> gateway_usb \<Rightarrow> int \<times> gateway_usb" where
  "gateway_usb_send_pong seq s =
     (if \<not> in_ep s \<or> \<not> in_req s \<or> in_busy s then (-1, s)
      else
        let payload = str ''gateway-usb-pong'';
            b = replicate GATEWAY_AMEBA_USB_IN_CHUNK_SIZE 0;
            b = blit b 0 (str ''PONG'');
            b = write_le32 b 4 seq;
            b = write_le32 b 8 (word_of_nat (length payload));
            b = blit b 12 payload;
            s = s\<lparr>in_buf := b, in_req_length := 64, in_busy := True, in_flight_len := 0\<rparr> in
        (case queue_in s of (rc, s) \<Rightarrow>
           if rc \<noteq> 0 then (-1, s\<lparr>in_busy := False\<rparr>)
           else (0, s\<lparr>tx_packets := tx_packets s + 1\<rparr>)))"

definition gateway_usb_retry_init_if_needed :: "gateway_usb \<Rightarrow> gateway_usb" where
  "gateway_usb_retry_init_if_needed s =
     (if \<not> usb_started s \<or> \<not> usb_configured s then s
      else if \<not> host_ready s then s
      else (case gateway_usb_enqueue_init_packet s of (rc, s) \<Rightarrow>
              if rc = 0 then snd (gateway_usb_kick_tx s) else s))"

text \<open>What \<open>gateway_upstream_poll\<close> does with a decrypted media packet.\<close>

definition gateway_usb_forward ::
  "cipher \<Rightarrow> bool \<Rightarrow> byte \<Rightarrow> u32 \<Rightarrow> byte list \<Rightarrow> gateway_usb \<Rightarrow> gateway_usb" where
  "gateway_usb_forward chacha20_xor alloc sid seq plaintext s =
     (if usb_started s \<and> usb_configured s \<and> host_ready s then
        (case gateway_usb_enqueue_init_packet s of (rc, s) \<Rightarrow>
           if rc \<noteq> 0 then s
           else (case gateway_usb_enqueue_media_packet chacha20_xor alloc sid seq (Some plaintext)
                        (length plaintext) s of
                   (rc, s) \<Rightarrow> if rc \<noteq> 0 then s else snd (gateway_usb_kick_tx s)))
      else s)"

section \<open>OUT transfers: pings and the upstream configuration\<close>

definition gateway_upstream_copy_field ::
  "byte list option \<Rightarrow> nat \<Rightarrow> byte list option \<Rightarrow> nat \<Rightarrow> int \<times> byte list option" where
  "gateway_upstream_copy_field dst dst_size src src_size =
     (case (dst, src) of
        (Some d, Some b) \<Rightarrow>
          if dst_size = 0 \<or> src_size = 0 then (-1, dst)
          else
            let len = length (c_str (take src_size b)) in
            if len = 0 \<or> src_size \<le> len \<or> dst_size \<le> len then (-1, dst)
            else (0, Some ((blit d 0 (take len b))[len := 0]))
      | _ \<Rightarrow> (-1, dst))"

text \<open>
  The 64-byte configuration packet: magic, sequence number, port, reserved, host at 12, path at 28,
  little-endian as the Cortex-M reads the packed structure.
\<close>

definition read_le16 :: "byte list \<Rightarrow> nat \<Rightarrow> u16" where
  "read_le16 p off = ucast (p ! off) OR push_bit 8 (ucast (p ! (off + 1)))"

definition gateway_upstream_apply_usb_config ::
  "(byte list \<Rightarrow> bool) \<Rightarrow> byte list option \<Rightarrow> gateway_usb \<Rightarrow> int \<times> gateway_usb" where
  "gateway_upstream_apply_usb_config inet_aton pkt s =
     (case pkt of None \<Rightarrow> (-1, s)
      | Some p \<Rightarrow>
          if read_le16 p 8 = 0 then (-1, s)
          else (case gateway_upstream_copy_field (Some (replicate 16 0)) 16 (Some (slice 12 16 p)) 16 of
                  (rc, host) \<Rightarrow>
          if rc \<noteq> 0 then (-1, s)
          else (case gateway_upstream_copy_field (Some (replicate 36 0)) 36 (Some (slice 28 36 p)) 36 of
                  (rc, path) \<Rightarrow>
          if rc \<noteq> 0 then (-1, s)
          else if \<not> inet_aton (c_str (the host)) then (-1, s)
          else
            let nxt = \<lparr>cfg_host = the host, cfg_path = the path, cfg_port = read_le16 p 8,
                       cfg_valid = True, cfg_seq_no = read_le32 p 4\<rparr>
            in (0, s\<lparr>upstream_cfg := nxt, config_valid := True, config_seq := cfg_seq_no nxt,
                     reconnect_requested := True\<rparr>))))"

definition gateway_upstream_config_snapshot :: "gateway_usb \<Rightarrow> bool \<times> upstream_config" where
  "gateway_upstream_config_snapshot s = (cfg_valid (upstream_cfg s), upstream_cfg s)"

definition gateway_usb_queue_out_request :: "gateway_usb \<Rightarrow> int \<times> gateway_usb" where
  "gateway_usb_queue_out_request s =
     (if \<not> out_ep s \<or> \<not> out_req s \<or> \<not> ctx_configured s then (-1, s)
      else (case controller_answer (s\<lparr>out_buf := replicate GATEWAY_AMEBA_USB_OUT_PACKET_SIZE 0\<rparr>) of
              (rc, s) \<Rightarrow> (if rc \<noteq> 0 then -1 else 0, s)))"

text \<open>
  The request as the controller returns it: status, number of bytes, and its buffer, which is
  \<open>ctx->out_buf\<close> whenever it is not NULL.
\<close>

definition gateway_usb_out_complete ::
  "(byte list \<Rightarrow> bool) \<Rightarrow> int \<Rightarrow> nat \<Rightarrow> byte list option \<Rightarrow> gateway_usb \<Rightarrow> gateway_usb" where
  "gateway_usb_out_complete inet_aton status actual buf s =
     (if status \<noteq> 0 then s
      else
        let s = s\<lparr>rx_packets := rx_packets s + 1, host_ready := True, last_actual := actual,
                  last_req_dump := map (\<lambda>i. case buf of Some b \<Rightarrow> if i < actual then b ! i else 0 | None \<Rightarrow> 0)
                    [0..<16],
                  last_ctx_dump := take 16 (out_buf s)\<rparr> in
        if actual < 12 then snd (gateway_usb_queue_out_request (s\<lparr>last_ping_valid := -1\<rparr>))
        else
          let raw = (case buf of None \<Rightarrow> out_buf s | Some b \<Rightarrow> b);
              s = s\<lparr>last_magic := take 4 raw, last_seq := read_le32 raw 4,
                    last_payload_len := read_le32 raw 8\<rparr> in
          if take 4 raw = str ''CFG1'' then
            (case gateway_upstream_apply_usb_config inet_aton (Some raw) s of
               (rc, s) \<Rightarrow>
                 snd (gateway_usb_queue_out_request (s\<lparr>last_ping_valid := if rc = 0 then 3 else -2\<rparr>)))
          else
            let s = (if take 4 raw = str ''PING''
                     then gateway_usb_reset_stream_session (s\<lparr>last_ping_valid := 1\<rparr>)
                     else s\<lparr>last_ping_valid := 2\<rparr>);
                s = snd (gateway_usb_send_pong (read_le32 raw 4) s);
                s = (case gateway_usb_enqueue_init_packet s of
                       (rc, s) \<Rightarrow> if rc = 0 then snd (gateway_usb_kick_tx s) else s)
            in snd (gateway_usb_queue_out_request s))"

section \<open>The configuration life cycle\<close>

datatype usb_speed = USB_SPEED_FULL | USB_SPEED_HIGH | USB_SPEED_OTHER

definition gateway_usb_function_disable :: "gateway_usb \<Rightarrow> gateway_usb" where
  "gateway_usb_function_disable s =
     gateway_usb_tx_reset (s\<lparr>usb_configured := False, ctx_configured := False, in_busy := False\<rparr>)"

definition gateway_usb_disconnect :: "gateway_usb \<Rightarrow> gateway_usb" where
  "gateway_usb_disconnect s =
     gateway_usb_tx_reset (s\<lparr>usb_configured := False, ctx_configured := False, in_busy := False\<rparr>)"

definition gateway_usb_suspend :: "gateway_usb \<Rightarrow> gateway_usb" where
  "gateway_usb_suspend s =
     gateway_usb_tx_reset (s\<lparr>usb_configured := False, ctx_configured := False, in_busy := False\<rparr>)"

text \<open>A request the controller cannot allocate answers with a non-zero code.\<close>

definition alloc_requests :: "gateway_usb \<Rightarrow> gateway_usb" where
  "alloc_requests s =
     (let s = (if in_req s then s
               else (case controller_answer s of (rc, s) \<Rightarrow> s\<lparr>in_req := rc = 0\<rparr>))
      in if out_req s then s
         else (case controller_answer s of (rc, s) \<Rightarrow> s\<lparr>out_req := rc = 0\<rparr>))"

definition gateway_usb_function_set_alt :: "gateway_usb \<Rightarrow> int \<times> gateway_usb" where
  "gateway_usb_function_set_alt s =
     (let s = (if ctx_configured s then gateway_usb_function_disable s else s) in
      case controller_answer s of (rc, s) \<Rightarrow>
      if rc \<noteq> 0 then (rc, s)
      else (case controller_answer s of (rc, s) \<Rightarrow>
      if rc \<noteq> 0 then (rc, s)
      else
        let s = alloc_requests s in
        if \<not> in_req s \<or> \<not> out_req s then (-1, gateway_usb_function_disable s)
        else
          let s = s\<lparr>ctx_configured := True, in_busy := False, host_ready := False,
                    usb_configured := True\<rparr>
          in gateway_usb_queue_out_request (gateway_usb_tx_reset s)))"

text \<open>\<open>None\<close> is a NULL configuration, device or gadget.\<close>

definition gateway_usb_try_force_configure :: "usb_speed option \<Rightarrow> gateway_usb \<Rightarrow> gateway_usb" where
  "gateway_usb_try_force_configure speed s =
     (if \<not> usb_started s \<or> ctx_configured s then s
      else (case speed of None \<Rightarrow> s
            | Some sp \<Rightarrow>
                if sp \<noteq> USB_SPEED_FULL \<and> sp \<noteq> USB_SPEED_HIGH then s
                else snd (gateway_usb_function_set_alt s)))"

definition gateway_usb_function_bind :: "int \<Rightarrow> gateway_usb \<Rightarrow> int \<times> gateway_usb" where
  "gateway_usb_function_bind interface_id s =
     (if interface_id < 0 then (interface_id, s)
      else
        (case controller_answer s of (rc_in, s) \<Rightarrow>
         case controller_answer s of (rc_out, s) \<Rightarrow>
           let s = s\<lparr>in_ep := rc_in = 0, out_ep := rc_out = 0\<rparr>
           in (if \<not> in_ep s \<or> \<not> out_ep s then -1 else 0, s)))"

text \<open>\<open>usb_add_function\<close> calls the function's \<open>bind\<close> and returns what it returns.\<close>

definition gateway_usb_config_bind :: "int \<Rightarrow> gateway_usb \<Rightarrow> int \<times> gateway_usb" where
  "gateway_usb_config_bind interface_id s =
     gateway_usb_function_bind interface_id
       (s\<lparr>in_ep := False, out_ep := False, in_req := False, out_req := False,
          ctx_configured := False, in_busy := False, in_flight_len := 0\<rparr>)"

definition gateway_usb_start :: "bool \<Rightarrow> int \<Rightarrow> gateway_usb \<Rightarrow> int \<times> gateway_usb" where
  "gateway_usb_start init_ok interface_id s =
     (if usb_started s then (0, s\<lparr>usb_start_rc := 0\<rparr>)
      else if \<not> init_ok then (-1, s\<lparr>usb_start_rc := -1\<rparr>)
      else (case gateway_usb_config_bind interface_id s of
              (rc, s) \<Rightarrow>
                if rc \<noteq> 0 then (-1, s\<lparr>usb_start_rc := rc\<rparr>)
                else (0, s\<lparr>usb_started := True, usb_start_rc := 0\<rparr>)))"

section \<open>The stall watchdog of the task loop\<close>

record usb_watch =
  usb_progress_tick :: u32
  last_sent_observed :: nat
  last_in_done_observed :: nat

abbreviation (input) GATEWAY_AMEBA_USB_STALL_TIMEOUT :: u32
  where "GATEWAY_AMEBA_USB_STALL_TIMEOUT \<equiv> 2000"

definition observe :: "u32 \<Rightarrow> gateway_usb \<Rightarrow> usb_watch" where
  "observe now s = \<lparr>usb_progress_tick = now, last_sent_observed = bytes_sent (us_ring s),
     last_in_done_observed = in_complete_count s\<rparr>"

definition usb_watchdog :: "u32 \<Rightarrow> usb_watch \<times> gateway_usb \<Rightarrow> usb_watch \<times> gateway_usb" where
  "usb_watchdog now ws =
     (case ws of (w, s) \<Rightarrow>
        if in_busy s then
          if bytes_sent (us_ring s) \<noteq> last_sent_observed w \<or>
             in_complete_count s \<noteq> last_in_done_observed w
          then (observe now s, s)
          else if GATEWAY_AMEBA_USB_STALL_TIMEOUT \<le> now - usb_progress_tick w then
            let s = gateway_usb_reset_stream_session
                      (s\<lparr>watchdog_reset_count := watchdog_reset_count s + 1\<rparr>)
            in (observe now s, s)
          else (w, s)
        else (observe now s, s))"

end
