(* ===== verification/AmebaUsbInvariant.thy ===== *)
theory AmebaUsbInvariant
  imports AmebaUsb
begin

text \<open>
  The invariant of the Ameba board's USB state and its preservation by every handler of
  \<open>AmebaUsb\<close>: the ring contract lifted to the packets the board enqueues, the front-of-queue
  property of the transfer in flight, and the well-formedness of the upstream configuration.
\<close>

section \<open>The invariant\<close>

text \<open>
  Between steps the ring is well formed, and while a stream transfer is in flight, its bytes are
  the front of the queue and the last thing the controller took: completing it removes from the
  ring what the host received and nothing else.
\<close>

definition flight_ok :: "gateway_usb \<Rightarrow> bool" where
  "flight_ok s \<longleftrightarrow> (in_busy s \<and> 0 < in_flight_len s \<longrightarrow>
     in_flight_len s \<le> GATEWAY_AMEBA_USB_IN_CHUNK_SIZE \<and>
     in_flight_len s \<le> length (ring_queued (us_ring s)) \<and>
     in_wire s \<noteq> [] \<and> last (in_wire s) = take (in_flight_len s) (ring_queued (us_ring s)))"

definition usb_ok :: "gateway_usb \<Rightarrow> bool" where
  "usb_ok s \<longleftrightarrow> ring_inv (us_ring s) \<and> length (in_buf s) = GATEWAY_AMEBA_USB_IN_CHUNK_SIZE \<and>
     length (out_buf s) = GATEWAY_AMEBA_USB_OUT_PACKET_SIZE \<and> flight_ok s"

lemma usb_id:
  "s\<lparr>us_ring := us_ring s\<rparr> = s"
  "s\<lparr>controller := cs, in_wire := in_wire s\<rparr> = s\<lparr>controller := cs\<rparr>"
  by (cases s; simp)+

lemma controller_answer_cases:
  obtains rc cs where "controller_answer s = (rc, s\<lparr>controller := cs\<rparr>)"
proof (cases "controller s")
  case Nil
  then have "controller_answer s = (0, s\<lparr>controller := []\<rparr>)"
    by (cases s) (simp add: controller_answer_def)
  then show ?thesis by (rule that)
next
  case (Cons rc rcs)
  then show ?thesis by (intro that) (simp add: controller_answer_def)
qed

lemma queue_in_cases:
  obtains rc cs where "queue_in s = (rc, s\<lparr>controller := cs,
      in_wire := in_wire s @ (if rc = 0 then [take (in_req_length s) (in_buf s)] else [])\<rparr>)"
proof -
  obtain rc cs where a: "controller_answer s = (rc, s\<lparr>controller := cs\<rparr>)"
    by (rule controller_answer_cases)
  show ?thesis by (rule that [of rc cs]) (simp add: queue_in_def a usb_id)
qed

lemma ring_reset_ok [simp]:
  "length (tx_ring r) = GATEWAY_AMEBA_USB_TX_RING_SIZE \<Longrightarrow> ring_inv (tx_ring_reset r)"
  "ring_queued (tx_ring_reset r) = []"
  by (simp_all add: tx_ring_reset_def ring_inv_def ring_queued_def ring_size_pos)

lemma ring_inv_length: "ring_inv r \<Longrightarrow> length (tx_ring r) = GATEWAY_AMEBA_USB_TX_RING_SIZE"
  by (simp add: ring_inv_def)

subsection \<open>Packets\<close>

lemma usb_ok_append:
  assumes "usb_ok s" and "ring_inv r" and "ring_queued r = ring_queued (us_ring s) @ xs"
  shows "usb_ok (s\<lparr>us_ring := r\<rparr>)"
  using assms by (auto simp: usb_ok_def flight_ok_def)

lemma usb_ok_proto [simp]: "usb_ok (s\<lparr>proto_init_sent := p\<rparr>) = usb_ok s"
  by (simp add: usb_ok_def flight_ok_def)

definition default_info :: gateway_proto_init_info where
  "default_info = \<lparr>version = 1, video_codec = 1, audio_codec = 1, audio_channels = 1,
     audio_sample_rate = 16000, audio_sample_bits = 16\<rparr>"

lemma init_packet_bytes:
  "gateway_proto_write_init (Some (replicate 16 0)) (gateway_proto_default_init (Some init_local)) =
   (0, Some (init_wire default_info))"
  by (simp add: write_init_wire gateway_proto_default_init_def init_local_def default_info_def)

lemma enqueue_one:
  assumes "ring_inv r" and "length xs = n" and "length ys = m"
  obtains r' where "gateway_usb_tx_enqueue_packet r (Some xs) n (Some ys) m = (0, r')"
      "ring_inv r'" "ring_queued r' = ring_queued r @ xs @ ys"
    | r' where "gateway_usb_tx_enqueue_packet r (Some xs) n (Some ys) m = (-1, r')"
      "ring_inv r'" "ring_queued r' = ring_queued r"
proof (cases "tx_count r + (n + m) \<le> GATEWAY_AMEBA_USB_TX_RING_SIZE")
  case True
  with enqueue_fits [OF assms] that(1) show ?thesis by blast
next
  case False
  have "ring_inv (r\<lparr>drop_count := d\<rparr>)" "ring_queued (r\<lparr>drop_count := d\<rparr>) = ring_queued r" for d
    using assms(1) by (simp_all add: ring_inv_def ring_queued_def)
  with False enqueue_full [OF assms(2,3) _ assms(1)] that(2) show ?thesis by simp
qed

lemma enqueue_init_cases:
  assumes "usb_ok s"
  obtains r where "gateway_usb_enqueue_init_packet s = (0, s\<lparr>us_ring := r, proto_init_sent := True\<rparr>)"
      "ring_inv r"
      "ring_queued r = ring_queued (us_ring s) @ (if proto_init_sent s then [] else init_wire default_info)"
    | r where "gateway_usb_enqueue_init_packet s = (-1, s\<lparr>us_ring := r\<rparr>)"
      "\<not> proto_init_sent s" "ring_inv r" "ring_queued r = ring_queued (us_ring s)"
proof (cases "proto_init_sent s")
  case True
  then have "gateway_usb_enqueue_init_packet s = (0, s\<lparr>us_ring := us_ring s, proto_init_sent := True\<rparr>)"
    by (cases s) (simp add: gateway_usb_enqueue_init_packet_def)
  with True assms show ?thesis by (intro that(1) [of "us_ring s"]) (simp_all add: usb_ok_def)
next
  case False
  have inv: "ring_inv (us_ring s)" using assms by (simp add: usb_ok_def)
  show ?thesis
  proof (rule enqueue_one [OF inv, of "init_wire default_info" 16 "[]" 0])
    fix r assume "gateway_usb_tx_enqueue_packet (us_ring s) (Some (init_wire default_info)) 16 (Some []) 0 = (0, r)"
      "ring_inv r" "ring_queued r = ring_queued (us_ring s) @ init_wire default_info @ []"
    with False that(1) show ?thesis
      by (simp add: gateway_usb_enqueue_init_packet_def init_packet_bytes enqueue_null_payload)
  next
    fix r assume "gateway_usb_tx_enqueue_packet (us_ring s) (Some (init_wire default_info)) 16 (Some []) 0 = (-1, r)"
      "ring_inv r" "ring_queued r = ring_queued (us_ring s)"
    with False that(2) show ?thesis
      by (simp add: gateway_usb_enqueue_init_packet_def init_packet_bytes enqueue_null_payload)
  qed simp_all
qed

text \<open>A media packet on the USB stream.\<close>

definition media_packet :: "cipher \<Rightarrow> byte \<Rightarrow> u32 \<Rightarrow> byte list \<Rightarrow> byte list" where
  "media_packet c sid seq pt =
     media_wire \<lparr>stream_id = sid,
       flags = (if sid = GATEWAY_PROTO_STREAM_VIDEO then gateway_video_flags (Some pt) (length pt) else 0),
       seq_no = seq, payload_len = (if pt = [] then 0 else word_of_nat (8 + length pt))\<rparr> @
     (if pt = [] then [] else packet_wire c sid seq g_gateway_usb_crypto_nonce pt)"

lemma media_encrypted:
  assumes "xor_stream_cipher c" and "8 + length pt < 2 ^ 31" and "pt \<noteq> []"
  shows "crypto_stream_encrypt_packet c (Some (replicate (crypto_stream_packet_size (length pt)) 0))
      (crypto_stream_packet_size (length pt)) sid seq (Some g_gateway_usb_crypto_nonce) (Some pt) (length pt) =
    (int (8 + length pt), Some (packet_wire c sid seq g_gateway_usb_crypto_nonce pt))"
  using encrypt_packet_wire [OF assms(1), where out = "replicate (8 + length pt) 0" and pt = pt]
    assms(2)
  by (simp add: crypto_stream_packet_size_def c_int_small)

text \<open>With memory for it, a sealed packet is offered to the ring.\<close>

lemma enqueue_media_eq:
  fixes sid :: byte and seq :: u32
  assumes c: "xor_stream_cipher c" and len: "8 + length pt < 2 ^ 31" and mem: "alloc \<or> pt = []"
  defines "body \<equiv> if pt = [] then [] else packet_wire c sid seq g_gateway_usb_crypto_nonce pt"
  defines "hdr \<equiv> media_wire \<lparr>stream_id = sid,
       flags = (if sid = GATEWAY_PROTO_STREAM_VIDEO then gateway_video_flags (Some pt) (length pt) else 0),
       seq_no = seq, payload_len = (if pt = [] then 0 else word_of_nat (8 + length pt))\<rparr>"
  shows "gateway_usb_enqueue_media_packet c alloc sid seq (Some pt) (length pt) s =
      (case gateway_usb_tx_enqueue_packet (us_ring s) (Some hdr) 16 (Some body) (length body) of
         (rc, r) \<Rightarrow> (if rc \<noteq> 0 then -1 else 0, s\<lparr>us_ring := r\<rparr>))"
    and "media_packet c sid seq pt = hdr @ body" and "length hdr = 16"
proof -
  have lb: "length body = (if pt = [] then 0 else 8 + length pt)"
    by (simp add: body_def length_packet_wire [OF c])
  have n: "nat (8 + int (length pt)) = 8 + length pt" by simp
  show "gateway_usb_enqueue_media_packet c alloc sid seq (Some pt) (length pt) s =
      (case gateway_usb_tx_enqueue_packet (us_ring s) (Some hdr) 16 (Some body) (length body) of
         (rc, r) \<Rightarrow> (if rc \<noteq> 0 then -1 else 0, s\<lparr>us_ring := r\<rparr>))"
    unfolding lb using mem
    by (auto simp: body_def hdr_def gateway_usb_enqueue_media_packet_def Let_def write_media_wire media_encrypted [OF c len]
        enqueue_null_payload n)
qed (simp_all add: media_packet_def body_def hdr_def)

lemma enqueue_media_cases:
  assumes ok: "usb_ok s" and c: "xor_stream_cipher c" and len: "8 + length pt < 2 ^ 31"
  obtains r where "gateway_usb_enqueue_media_packet c alloc sid seq (Some pt) (length pt) s = (0, s\<lparr>us_ring := r\<rparr>)"
      "ring_inv r" "ring_queued r = ring_queued (us_ring s) @ media_packet c sid seq pt"
    | r where "gateway_usb_enqueue_media_packet c alloc sid seq (Some pt) (length pt) s = (-1, s\<lparr>us_ring := r\<rparr>)"
      "ring_inv r" "ring_queued r = ring_queued (us_ring s)"
proof -
  have inv: "ring_inv (us_ring s)" using ok by (simp add: usb_ok_def)
  show ?thesis
  proof (cases "alloc \<or> pt = []")
    case False
    have "(s\<lparr>us_ring := us_ring s\<rparr>) = s" by (cases s) simp
    with False inv show ?thesis
      by (intro that(2) [of "us_ring s"]) (simp_all add: gateway_usb_enqueue_media_packet_def Let_def)
  next
    case True
    let ?body = "if pt = [] then [] else packet_wire c sid seq g_gateway_usb_crypto_nonce pt"
    let ?hdr = "media_wire \<lparr>stream_id = sid,
         flags = (if sid = GATEWAY_PROTO_STREAM_VIDEO then gateway_video_flags (Some pt) (length pt) else 0),
         seq_no = seq, payload_len = (if pt = [] then 0 else word_of_nat (8 + length pt))\<rparr>"
    note e = enqueue_media_eq [OF c len True, where sid = sid and seq = seq]
    have l: "length ?hdr = 16" by simp
    have rc: "(if (0 :: int) \<noteq> 0 then -1 else 0) = (0 :: int)" "(if (-1 :: int) \<noteq> 0 then -1 else 0) = (-1 :: int)" by simp_all
    show ?thesis
    proof (rule enqueue_one [OF inv l refl, of ?body])
      fix r assume q: "gateway_usb_tx_enqueue_packet (us_ring s) (Some ?hdr) 16 (Some ?body) (length ?body) = (0, r)"
        "ring_inv r" "ring_queued r = ring_queued (us_ring s) @ ?hdr @ ?body"
      show thesis by (rule that(1) [of r]) (simp_all only: e q rc prod.case)
    next
      fix r assume q: "gateway_usb_tx_enqueue_packet (us_ring s) (Some ?hdr) 16 (Some ?body) (length ?body) = (-1, r)"
        "ring_inv r" "ring_queued r = ring_queued (us_ring s)"
      show thesis by (rule that(2) [of r]) (simp_all only: e(1) q rc prod.case)
    qed
  qed
qed

subsection \<open>The handlers preserve it\<close>

definition cfg_of :: "gateway_usb \<Rightarrow> upstream_config \<times> bool" where
  "cfg_of s = (upstream_cfg s, config_valid s)"

lemma kick_ok:
  assumes ok: "usb_ok s" and k: "gateway_usb_kick_tx s = (rc, s')"
  shows "usb_ok s' \<and> us_ring s' = us_ring s \<and> proto_init_sent s' = proto_init_sent s \<and>
    cfg_of s' = cfg_of s \<and> (in_busy s \<longrightarrow> s' = s) \<and> stream_resetting s' = stream_resetting s"
proof -
  let ?chunk = "take 512 (ring_queued (us_ring s))"
  have inv: "ring_inv (us_ring s)" "length (in_buf s) = 512" "length (out_buf s) = 64"
    using ok by (simp_all add: usb_ok_def)
  have peek: "gateway_usb_tx_peek_chunk (us_ring s) 512 = ?chunk" by (rule ring.peek_front [OF inv(1)])
  show ?thesis
  proof (cases "\<not> in_ep s \<or> \<not> in_req s \<or> \<not> ctx_configured s \<or> in_busy s \<or> ?chunk = []")
    case True
    then have "s' = s"
      using k by (cases "?chunk = []") (auto simp: gateway_usb_kick_tx_def peek Let_def split: if_splits)
    then show ?thesis using ok by simp
  next
    case False
    let ?s = "s\<lparr>in_buf := blit (in_buf s) 0 ?chunk, in_req_length := length ?chunk, in_busy := True,
        in_flight_len := length ?chunk, last_queue_len := length ?chunk, kick_count := kick_count s + 1\<rparr>"
    obtain a cs where q: "queue_in ?s = (a, ?s\<lparr>controller := cs,
        in_wire := in_wire ?s @ (if a = 0 then [take (in_req_length ?s) (in_buf ?s)] else [])\<rparr>)"
      by (rule queue_in_cases)
    have e: "gateway_usb_kick_tx s = (case queue_in ?s of (rc, s) \<Rightarrow>
        if rc \<noteq> 0 then (-1, s\<lparr>in_busy := False, in_flight_len := 0, last_kick_rc := rc\<rparr>)
        else (0, s\<lparr>last_kick_rc := 0\<rparr>))"
      using False by (auto simp: gateway_usb_kick_tx_def peek Let_def)
    have front: "take (length ?chunk) (blit (in_buf s) 0 ?chunk) = ?chunk"
      "take (length ?chunk) (ring_queued (us_ring s)) = ?chunk"
      by (simp_all add: blit_def min_def)
    have lb: "length (blit (in_buf s) 0 ?chunk) = 512" using inv(2) by (subst length_blit) auto
    show ?thesis
      using k False inv lb front unfolding e q
      by (cases "a = 0") (auto simp: usb_ok_def flight_ok_def cfg_of_def)
  qed
qed

lemma reset_session_ok:
  assumes "usb_ok s" and "in_ep s" "in_req s"
  shows "usb_ok (gateway_usb_reset_stream_session s)"
    and "ring_queued (us_ring (gateway_usb_reset_stream_session s)) = []"
    and "\<not> proto_init_sent (gateway_usb_reset_stream_session s)"
    and "\<not> in_busy (gateway_usb_reset_stream_session s)"
    and "in_flight_len (gateway_usb_reset_stream_session s) = 0"
    and "cfg_of (gateway_usb_reset_stream_session s) = cfg_of s"
proof -
  obtain rc cs where c: "controller_answer (s\<lparr>stream_resetting := True\<rparr>) =
      (rc, s\<lparr>controller := cs, stream_resetting := True\<rparr>)"
  proof -
    have "s\<lparr>stream_resetting := True, controller := cs\<rparr> = s\<lparr>controller := cs, stream_resetting := True\<rparr>" for cs
      by (cases s) simp
    then show ?thesis using controller_answer_cases [of "s\<lparr>stream_resetting := True\<rparr>"] that by metis
  qed
  have e: "\<exists>x cs. gateway_usb_reset_stream_session s =
      gateway_usb_tx_reset (gateway_usb_fifo_flush
        (s\<lparr>controller := cs, stream_resetting := x, in_busy := False, in_flight_len := 0\<rparr>))
      \<lparr>last_kick_rc := (if in_busy s then rc else 0)\<rparr>"
  proof (cases "in_busy s")
    case True
    with assms(2,3) c show ?thesis
      by (intro exI [of _ "rc = 0"] exI [of _ cs], cases "rc = 0")
         (simp_all add: gateway_usb_reset_stream_session_def)
  next
    case False
    have "s\<lparr>controller := controller s, stream_resetting := False, in_busy := False, in_flight_len := 0\<rparr> =
        s\<lparr>stream_resetting := False, in_busy := False, in_flight_len := 0\<rparr>"
      by (cases s) simp
    with False assms(2,3) show ?thesis
      by (intro exI [of _ False] exI [of _ "controller s"]) (simp add: gateway_usb_reset_stream_session_def)
  qed
  then obtain x cs' where e: "gateway_usb_reset_stream_session s =
      gateway_usb_tx_reset (gateway_usb_fifo_flush
        (s\<lparr>controller := cs', stream_resetting := x, in_busy := False, in_flight_len := 0\<rparr>))
      \<lparr>last_kick_rc := (if in_busy s then rc else 0)\<rparr>"
    by blast
  show "usb_ok (gateway_usb_reset_stream_session s)"
    and "ring_queued (us_ring (gateway_usb_reset_stream_session s)) = []"
    and "\<not> proto_init_sent (gateway_usb_reset_stream_session s)"
    and "\<not> in_busy (gateway_usb_reset_stream_session s)"
    and "in_flight_len (gateway_usb_reset_stream_session s) = 0"
    and "cfg_of (gateway_usb_reset_stream_session s) = cfg_of s"
    using assms(1) unfolding e
    by (simp_all add: gateway_usb_tx_reset_def gateway_usb_fifo_flush_def usb_ok_def flight_ok_def
        ring_inv_length cfg_of_def)
qed

lemma reset_session_preserves:
  assumes "usb_ok s"
  shows "usb_ok (gateway_usb_reset_stream_session s)"
    and "cfg_of (gateway_usb_reset_stream_session s) = cfg_of s"
proof -
  have "gateway_usb_reset_stream_session s = s" if "\<not> in_ep s \<or> \<not> in_req s"
    using that by (simp add: gateway_usb_reset_stream_session_def)
  with reset_session_ok [OF assms] assms
  show "usb_ok (gateway_usb_reset_stream_session s)"
    and "cfg_of (gateway_usb_reset_stream_session s) = cfg_of s" by (cases "in_ep s \<and> in_req s"; simp)+
qed

text \<open>
  A completion without an error takes the front of the queue off the ring, as many bytes as were
  in flight or as the controller reports to have sent, and starts the next chunk.
\<close>

definition completed :: "nat \<Rightarrow> nat \<Rightarrow> nat" where
  "completed actual flight = (if 0 < actual \<and> actual < flight then actual else flight)"

lemma in_complete_done:
  assumes ok: "usb_ok s"
  shows "ring_queued (us_ring (gateway_usb_in_complete (Some (0, actual)) s)) =
      drop (completed actual (in_flight_len s)) (ring_queued (us_ring s)) \<and>
    usb_ok (gateway_usb_in_complete (Some (0, actual)) s) \<and>
    proto_init_sent (gateway_usb_in_complete (Some (0, actual)) s) = proto_init_sent s \<and>
    cfg_of (gateway_usb_in_complete (Some (0, actual)) s) = cfg_of s"
proof -
  let ?r = "if 0 < in_flight_len s
      then gateway_usb_tx_consume_chunk (us_ring s) (completed actual (in_flight_len s)) else us_ring s"
  let ?s = "s\<lparr>in_complete_count := in_complete_count s + 1, in_busy := False, us_ring := ?r, in_flight_len := 0\<rparr>"
  have inv: "ring_inv (us_ring s)" using ok by (simp add: usb_ok_def)
  have c0: "gateway_usb_tx_consume_chunk (us_ring s) 0 = us_ring s"
    by (simp add: gateway_usb_tx_consume_chunk_def)
  have r: "ring_inv ?r" "ring_queued ?r = drop (completed actual (in_flight_len s)) (ring_queued (us_ring s))"
    using ring.consume_front [OF inv] inv by (auto simp: completed_def)
  have s: "usb_ok ?s" using ok r(1) by (simp add: usb_ok_def flight_ok_def)
  have e: "gateway_usb_in_complete (Some (0, actual)) s = snd (gateway_usb_kick_tx ?s)"
  proof (cases "in_flight_len s = 0")
    case True
    then have idle: "s\<lparr>in_complete_count := c, in_busy := False, in_flight_len := 0\<rparr> =
        s\<lparr>in_complete_count := c, in_busy := False\<rparr>" for c
      by (cases s) simp
    from True show ?thesis by (simp add: gateway_usb_in_complete_def idle)
  next
    case False
    then show ?thesis by (simp add: gateway_usb_in_complete_def completed_def)
  qed
  obtain rc s' where k: "gateway_usb_kick_tx ?s = (rc, s')" by fastforce
  have "cfg_of ?s = cfg_of s" "us_ring ?s = ?r" "proto_init_sent ?s = proto_init_sent s"
    by (simp_all add: cfg_of_def)
  with kick_ok [OF s k] r(2) show ?thesis unfolding e k snd_conv by metis
qed

lemma in_complete_null: "gateway_usb_in_complete None s = gateway_usb_in_complete (Some (0, 0)) s"
  by (simp add: gateway_usb_in_complete_def Let_def)

lemma in_complete_ok:
  assumes ok: "usb_ok s"
  shows "usb_ok (gateway_usb_in_complete req s) \<and> cfg_of (gateway_usb_in_complete req s) = cfg_of s"
proof (cases req)
  case None
  then show ?thesis using in_complete_done [OF ok] by (simp add: in_complete_null)
next
  case (Some q)
  obtain status actual where q: "q = (status, actual)" by fastforce
  show ?thesis
  proof (cases "status = 0")
    case True
    then show ?thesis using in_complete_done [OF ok] by (simp add: Some q)
  next
    case False
    let ?s = "s\<lparr>in_complete_count := in_complete_count s + 1, in_busy := False, in_flight_len := 0\<rparr>"
    have s: "usb_ok (?s\<lparr>in_error_count := n\<rparr>)" "usb_ok (?s\<lparr>stream_resetting := False\<rparr>)" for n
      using ok by (simp_all add: usb_ok_def flight_ok_def)
    have "cfg_of (?s\<lparr>in_error_count := n\<rparr>) = cfg_of s" "cfg_of (?s\<lparr>stream_resetting := False\<rparr>) = cfg_of s" for n
      by (simp_all add: cfg_of_def)
    with False s reset_session_preserves [OF s(1)] show ?thesis
      by (simp add: gateway_usb_in_complete_def Let_def Some q)
  qed
qed

lemma send_pong_ok:
  assumes ok: "usb_ok s"
  shows "usb_ok (snd (gateway_usb_send_pong seq s)) \<and>
    us_ring (snd (gateway_usb_send_pong seq s)) = us_ring s \<and>
    proto_init_sent (snd (gateway_usb_send_pong seq s)) = proto_init_sent s \<and>
    cfg_of (snd (gateway_usb_send_pong seq s)) = cfg_of s"
proof (cases "\<not> in_ep s \<or> \<not> in_req s \<or> in_busy s")
  case True
  then show ?thesis using ok by (auto simp: gateway_usb_send_pong_def)
next
  case False
  let ?b = "blit (write_le32 (write_le32 (blit (replicate 512 0) 0 (str ''PONG'')) 4 seq) 8
      (word_of_nat (length (str ''gateway-usb-pong'')))) 12 (str ''gateway-usb-pong'')"
  let ?s = "s\<lparr>in_buf := ?b, in_req_length := 64, in_busy := True, in_flight_len := 0\<rparr>"
  obtain a cs where q: "queue_in ?s = (a, ?s\<lparr>controller := cs,
      in_wire := in_wire ?s @ (if a = 0 then [take (in_req_length ?s) (in_buf ?s)] else [])\<rparr>)"
    by (rule queue_in_cases)
  have e: "gateway_usb_send_pong seq s = (case queue_in ?s of (rc, s) \<Rightarrow>
      if rc \<noteq> 0 then (-1, s\<lparr>in_busy := False\<rparr>) else (0, s\<lparr>tx_packets := tx_packets s + 1\<rparr>))"
    using False by (simp add: gateway_usb_send_pong_def Let_def)
  have "length ?b = 512" by simp
  then show ?thesis
    using ok unfolding e q by (cases "a = 0") (simp_all add: usb_ok_def flight_ok_def cfg_of_def)
qed

subsection \<open>Configurations\<close>

definition config_wf :: "(byte list \<Rightarrow> bool) \<Rightarrow> upstream_config \<Rightarrow> bool" where
  "config_wf inet_aton c \<longleftrightarrow>
     length (cfg_host c) = 16 \<and> 0 < length (c_str (cfg_host c)) \<and> length (c_str (cfg_host c)) < 16 \<and>
     length (cfg_path c) = 36 \<and> 0 < length (c_str (cfg_path c)) \<and> length (c_str (cfg_path c)) < 36 \<and>
     inet_aton (c_str (cfg_host c)) \<and> cfg_port c \<noteq> 0"

definition config_ok :: "(byte list \<Rightarrow> bool) \<Rightarrow> gateway_usb \<Rightarrow> bool" where
  "config_ok inet_aton s \<longleftrightarrow> (config_valid s \<longrightarrow> config_wf inet_aton (upstream_cfg s))"

lemma config_ok_cfg_of: "cfg_of s = cfg_of t \<Longrightarrow> config_ok aton s = config_ok aton t"
  by (simp add: cfg_of_def config_ok_def)

lemma take_c_str: "take (length (c_str b)) b = c_str b"
  by (simp add: c_str_def takeWhile_eq_take [symmetric])

lemma c_str_no_nul: "0 \<notin> set (c_str b)"
  by (auto simp: c_str_def dest: set_takeWhileD)

lemma c_str_append_nul: "0 \<notin> set xs \<Longrightarrow> c_str (xs @ 0 # ys) = xs"
  by (induction xs) (auto simp: c_str_def)

lemma copy_field_ok:
  assumes "gateway_upstream_copy_field (Some d) n (Some b) n = (0, Some h)"
    and "length d = n" and "length b = n"
  shows "length h = n \<and> c_str h = c_str b \<and> 0 < length (c_str b) \<and> length (c_str b) < n"
proof -
  let ?k = "length (c_str b)"
  have k: "0 < ?k" "?k < n" and h: "h = (blit d 0 (c_str b))[?k := 0]"
    using assms
    by (auto simp: gateway_upstream_copy_field_def Let_def take_c_str split: if_splits)
  have "h = c_str b @ 0 # drop (Suc ?k) d"
    using k assms(2) unfolding h
    by (simp add: blit_def list_update_append Cons_nth_drop_Suc [symmetric])
  then show ?thesis
    using k assms(2) c_str_append_nul [OF c_str_no_nul] by simp
qed

lemma apply_config_cases:
  assumes "length p = 64"
  shows "(\<exists>c q. gateway_upstream_apply_usb_config aton (Some p) s =
      (0, s\<lparr>upstream_cfg := c, config_valid := True, config_seq := q, reconnect_requested := True\<rparr>) \<and>
      config_wf aton c \<and> c_str (cfg_host c) = c_str (slice 12 16 p) \<and>
      c_str (cfg_path c) = c_str (slice 28 36 p) \<and> cfg_port c = read_le16 p 8) \<or>
    gateway_upstream_apply_usb_config aton (Some p) s = (-1, s)"
proof -
  obtain rh host where h: "gateway_upstream_copy_field (Some (replicate 16 0)) 16 (Some (slice 12 16 p)) 16 = (rh, host)"
    by fastforce
  obtain rp path where q: "gateway_upstream_copy_field (Some (replicate 36 0)) 36 (Some (slice 28 36 p)) 36 = (rp, path)"
    by fastforce
  have some: "host \<noteq> None" "path \<noteq> None"
    using h q by (auto simp: gateway_upstream_copy_field_def Let_def split: if_splits)
  have l: "length (slice 12 16 p) = 16" "length (slice 28 36 p) = 36" using assms by simp_all
  show ?thesis
  proof (cases "read_le16 p 8 \<noteq> 0 \<and> rh = 0 \<and> rp = 0 \<and> aton (c_str (the host))")
    case True
    then have w: "length (the host) = 16 \<and> c_str (the host) = c_str (slice 12 16 p) \<and>
        0 < length (c_str (slice 12 16 p)) \<and> length (c_str (slice 12 16 p)) < 16"
      "length (the path) = 36 \<and> c_str (the path) = c_str (slice 28 36 p) \<and>
        0 < length (c_str (slice 28 36 p)) \<and> length (c_str (slice 28 36 p)) < 36"
      using copy_field_ok [of "replicate 16 0" 16 "slice 12 16 p" "the host"]
        copy_field_ok [of "replicate 36 0" 36 "slice 28 36 p" "the path"] h q some l by auto
    let ?c = "\<lparr>cfg_host = the host, cfg_path = the path, cfg_port = read_le16 p 8,
        cfg_valid = True, cfg_seq_no = read_le32 p 4\<rparr>"
    have "gateway_upstream_apply_usb_config aton (Some p) s =
      (0, s\<lparr>upstream_cfg := ?c, config_valid := True, config_seq := read_le32 p 4, reconnect_requested := True\<rparr>)"
      using True unfolding gateway_upstream_apply_usb_config_def option.case h prod.case q by (simp add: Let_def)
    moreover have "config_wf aton ?c" using True w by (simp add: config_wf_def)
    ultimately show ?thesis using w
      by (intro disjI1 exI [of _ ?c] exI [of _ "read_le32 p 4"]) simp
  next
    case False
    then have "gateway_upstream_apply_usb_config aton (Some p) s = (-1, s)"
      unfolding gateway_upstream_apply_usb_config_def option.case h prod.case q by (auto simp: Let_def)
    then show ?thesis by blast
  qed
qed

subsection \<open>OUT transfers and the life cycle\<close>

definition usb_inv :: "(byte list \<Rightarrow> bool) \<Rightarrow> gateway_usb \<Rightarrow> bool" where
  "usb_inv aton s \<longleftrightarrow> usb_ok s \<and> config_ok aton s"

lemma usb_inv_frame: "usb_ok s' \<Longrightarrow> cfg_of s' = cfg_of s \<Longrightarrow> usb_inv aton s \<Longrightarrow> usb_inv aton s'"
  using config_ok_cfg_of [of s' s aton] by (simp add: usb_inv_def)

lemma queue_out_ok:
  assumes "usb_ok s"
  shows "usb_ok (snd (gateway_usb_queue_out_request s)) \<and>
    us_ring (snd (gateway_usb_queue_out_request s)) = us_ring s \<and>
    proto_init_sent (snd (gateway_usb_queue_out_request s)) = proto_init_sent s \<and>
    cfg_of (snd (gateway_usb_queue_out_request s)) = cfg_of s"
proof -
  obtain rc cs where c: "controller_answer (s\<lparr>out_buf := replicate 64 0\<rparr>) =
      (rc, s\<lparr>out_buf := replicate 64 0, controller := cs\<rparr>)"
    by (rule controller_answer_cases)
  show ?thesis
    using assms by (auto simp: gateway_usb_queue_out_request_def c usb_ok_def flight_ok_def cfg_of_def)
qed

lemma kick_snd:
  assumes "usb_ok s"
  shows "usb_ok (snd (gateway_usb_kick_tx s)) \<and> us_ring (snd (gateway_usb_kick_tx s)) = us_ring s \<and>
    proto_init_sent (snd (gateway_usb_kick_tx s)) = proto_init_sent s \<and>
    cfg_of (snd (gateway_usb_kick_tx s)) = cfg_of s"
  using kick_ok [OF assms, of "fst (gateway_usb_kick_tx s)" "snd (gateway_usb_kick_tx s)"] by simp

text \<open>The start of the announcement, as the ping handler and the task loop do it.\<close>

definition announce :: "gateway_usb \<Rightarrow> gateway_usb" where
  "announce s = (case gateway_usb_enqueue_init_packet s of
      (rc, s) \<Rightarrow> if rc = 0 then snd (gateway_usb_kick_tx s) else s)"

lemma announce_ok:
  assumes ok: "usb_ok s"
  shows "usb_ok (announce s) \<and> cfg_of (announce s) = cfg_of s \<and>
    (proto_init_sent (announce s) \<and>
       ring_queued (us_ring (announce s)) =
         ring_queued (us_ring s) @ (if proto_init_sent s then [] else init_wire default_info) \<or>
     \<not> proto_init_sent (announce s) \<and> \<not> proto_init_sent s \<and>
       ring_queued (us_ring (announce s)) = ring_queued (us_ring s))"
proof (rule enqueue_init_cases [OF ok])
  fix r
  assume e: "gateway_usb_enqueue_init_packet s = (0, s\<lparr>us_ring := r, proto_init_sent := True\<rparr>)"
    and r: "ring_inv r" "ring_queued r = ring_queued (us_ring s) @ (if proto_init_sent s then [] else init_wire default_info)"
  let ?s = "s\<lparr>us_ring := r, proto_init_sent := True\<rparr>"
  have "usb_ok ?s" using usb_ok_append [OF ok r] by simp
  from kick_snd [OF this] r(2) show ?thesis by (simp add: announce_def e cfg_of_def)
next
  fix r
  assume e: "gateway_usb_enqueue_init_packet s = (-1, s\<lparr>us_ring := r\<rparr>)" "\<not> proto_init_sent s"
    and r: "ring_inv r" "ring_queued r = ring_queued (us_ring s)"
  with usb_ok_append [OF ok r(1), of "[]"] show ?thesis by (simp add: announce_def e cfg_of_def)
qed

lemma announce_fresh:
  assumes ok: "usb_ok s" and "ring_queued (us_ring s) = []"
  shows "proto_init_sent (announce s)"
proof (cases "proto_init_sent s")
  case True
  then show ?thesis using announce_ok [OF ok] by auto
next
  case False
  have inv: "ring_inv (us_ring s)" using ok by (simp add: usb_ok_def)
  have "tx_count (us_ring s) = 0" using assms(2) by (metis length_ring_queued list.size(3))
  then have "tx_count (us_ring s) + (16 + 0) \<le> GATEWAY_AMEBA_USB_TX_RING_SIZE"
    by (simp add: GATEWAY_AMEBA_USB_TX_RING_SIZE_def)
  from enqueue_fits [OF inv _ _ this, of "init_wire default_info" "[]"]
  obtain r where e: "gateway_usb_tx_enqueue_packet (us_ring s) (Some (init_wire default_info)) 16 None 0 = (0, r)"
    and r: "ring_inv r" "ring_queued r = ring_queued (us_ring s) @ init_wire default_info"
    by (auto simp: enqueue_null_payload)
  let ?s = "s\<lparr>us_ring := r, proto_init_sent := True\<rparr>"
  have i: "gateway_usb_enqueue_init_packet s = (0, ?s)"
    using False e by (simp add: gateway_usb_enqueue_init_packet_def init_packet_bytes)
  have "usb_ok ?s" using usb_ok_append [OF ok r] by simp
  from kick_snd [OF this] show ?thesis by (simp add: announce_def i)
qed

lemma retry_init_eq:
  "gateway_usb_retry_init_if_needed s =
   (if usb_started s \<and> usb_configured s \<and> host_ready s then announce s else s)"
  by (simp add: gateway_usb_retry_init_if_needed_def announce_def)

text \<open>The OUT handler, by the kind of packet it received.\<close>

definition out_stats :: "nat \<Rightarrow> byte list option \<Rightarrow> gateway_usb \<Rightarrow> gateway_usb" where
  "out_stats actual buf s = s\<lparr>rx_packets := rx_packets s + 1, host_ready := True, last_actual := actual,
     last_req_dump := map (\<lambda>i. case buf of Some b \<Rightarrow> if i < actual then b ! i else 0 | None \<Rightarrow> 0) [0..<16],
     last_ctx_dump := take 16 (out_buf s)\<rparr>"

definition out_header :: "byte list \<Rightarrow> gateway_usb \<Rightarrow> gateway_usb" where
  "out_header raw s = s\<lparr>last_magic := take 4 raw, last_seq := read_le32 raw 4, last_payload_len := read_le32 raw 8\<rparr>"

definition out_raw :: "byte list option \<Rightarrow> gateway_usb \<Rightarrow> byte list" where
  "out_raw buf s = (case buf of None \<Rightarrow> out_buf s | Some b \<Rightarrow> b)"

lemma out_buf_stats: "out_buf (out_stats actual buf s) = out_buf s"
  by (simp add: out_stats_def)

lemma out_complete_eq:
  "gateway_usb_out_complete aton status actual buf s =
   (if status \<noteq> 0 then s
    else if actual < 12 then snd (gateway_usb_queue_out_request ((out_stats actual buf s)\<lparr>last_ping_valid := -1\<rparr>))
    else let raw = out_raw buf s; s = out_header raw (out_stats actual buf s) in
      if take 4 raw = str ''CFG1'' then
        (case gateway_upstream_apply_usb_config aton (Some raw) s of
           (rc, s) \<Rightarrow> snd (gateway_usb_queue_out_request (s\<lparr>last_ping_valid := if rc = 0 then 3 else -2\<rparr>)))
      else
        let s = (if take 4 raw = str ''PING''
                 then gateway_usb_reset_stream_session (s\<lparr>last_ping_valid := 1\<rparr>)
                 else s\<lparr>last_ping_valid := 2\<rparr>)
        in snd (gateway_usb_queue_out_request (announce (snd (gateway_usb_send_pong (read_le32 raw 4) s)))))"
  by (simp only: gateway_usb_out_complete_def out_stats_def [symmetric] out_header_def [symmetric]
      announce_def [symmetric] Let_def out_raw_def out_buf_stats)

lemma out_frame [simp]:
  "usb_ok (out_stats actual buf s) = usb_ok s" "usb_ok (out_header raw s) = usb_ok s"
  "usb_ok (s\<lparr>last_ping_valid := v\<rparr>) = usb_ok s"
  "us_ring (out_stats actual buf s) = us_ring s" "us_ring (out_header raw s) = us_ring s"
  "proto_init_sent (out_stats actual buf s) = proto_init_sent s"
  "proto_init_sent (out_header raw s) = proto_init_sent s"
  "in_ep (out_stats actual buf s) = in_ep s" "in_ep (out_header raw s) = in_ep s"
  "in_req (out_stats actual buf s) = in_req s" "in_req (out_header raw s) = in_req s"
  "cfg_of (out_stats actual buf s) = cfg_of s" "cfg_of (out_header raw s) = cfg_of s"
  "cfg_of (s\<lparr>last_ping_valid := v\<rparr>) = cfg_of s"
  by (simp_all add: out_stats_def out_header_def usb_ok_def flight_ok_def cfg_of_def)

lemma pong_announce:
  assumes "usb_ok s"
  shows "usb_ok (announce (snd (gateway_usb_send_pong seq s))) \<and>
    cfg_of (announce (snd (gateway_usb_send_pong seq s))) = cfg_of s"
  using send_pong_ok [OF assms] announce_ok by metis

lemma out_complete_cfg:
  assumes inv: "usb_inv aton s" and raw: "length raw = 64" "take 4 raw = str ''CFG1''"
    and "status = 0" "12 \<le> actual" "out_raw buf s = raw"
  shows "usb_inv aton (gateway_usb_out_complete aton status actual buf s) \<and>
    us_ring (gateway_usb_out_complete aton status actual buf s) = us_ring s \<and>
    proto_init_sent (gateway_usb_out_complete aton status actual buf s) = proto_init_sent s"
proof -
  let ?s = "out_header raw (out_stats actual buf s)"
  obtain rc t where a: "gateway_upstream_apply_usb_config aton (Some raw) ?s = (rc, t)" by fastforce
  have t: "usb_ok t \<and> us_ring t = us_ring s \<and> proto_init_sent t = proto_init_sent s \<and> config_ok aton t"
    using apply_config_cases [OF raw(1), of aton ?s] a inv config_ok_cfg_of [of ?s s aton]
    by (auto simp: usb_inv_def usb_ok_def flight_ok_def config_ok_def out_stats_def out_header_def)
  let ?t = "t\<lparr>last_ping_valid := if rc = 0 then 3 else -2\<rparr>"
  have "usb_ok ?t" using t by simp
  note q = queue_out_ok [OF this]
  have e: "gateway_usb_out_complete aton status actual buf s = snd (gateway_usb_queue_out_request ?t)"
    using assms by (simp add: out_complete_eq Let_def a del: str_simps)
  have "config_ok aton (snd (gateway_usb_queue_out_request ?t))"
    using q t config_ok_cfg_of [of "snd (gateway_usb_queue_out_request ?t)" t aton] by simp
  then show ?thesis using q t by (simp add: e usb_inv_def)
qed

lemma out_complete_inv:
  assumes inv: "usb_inv aton s" and buf: "\<And>b. buf = Some b \<Longrightarrow> length b = 64"
  shows "usb_inv aton (gateway_usb_out_complete aton status actual buf s)"
proof -
  let ?raw = "out_raw buf s"
  have ok: "usb_ok s" using inv by (simp add: usb_inv_def)
  have raw: "length ?raw = 64" using ok buf by (cases buf) (simp_all add: out_raw_def usb_ok_def)
  consider "status \<noteq> 0" | "status = 0" "actual < 12"
    | "status = 0" "12 \<le> actual" "take 4 ?raw = str ''CFG1''"
    | "status = 0" "12 \<le> actual" "take 4 ?raw \<noteq> str ''CFG1''" by linarith
  then show ?thesis
  proof cases
    case 1
    then show ?thesis using inv by (simp add: out_complete_eq)
  next
    case 2
    then show ?thesis
      using queue_out_ok [of "(out_stats actual buf s)\<lparr>last_ping_valid := -1\<rparr>"] ok
      by (intro usb_inv_frame [OF _ _ inv]) (simp_all add: out_complete_eq)
  next
    case 3
    then show ?thesis using out_complete_cfg [OF inv raw] by simp
  next
    case 4
    let ?h = "out_header ?raw (out_stats actual buf s)"
    let ?s = "if take 4 ?raw = str ''PING'' then gateway_usb_reset_stream_session (?h\<lparr>last_ping_valid := 1\<rparr>)
        else ?h\<lparr>last_ping_valid := 2\<rparr>"
    have s: "usb_ok ?s" "cfg_of ?s = cfg_of s"
      using reset_session_preserves [of "?h\<lparr>last_ping_valid := 1\<rparr>"] ok by (simp_all del: str_simps)
    have e: "gateway_usb_out_complete aton status actual buf s =
        snd (gateway_usb_queue_out_request (announce (snd (gateway_usb_send_pong (read_le32 ?raw 4) ?s))))"
      using 4 by (simp add: out_complete_eq Let_def del: str_simps)
    note p = pong_announce [OF s(1), of "read_le32 ?raw 4"]
    have "usb_ok (gateway_usb_out_complete aton status actual buf s)"
      "cfg_of (gateway_usb_out_complete aton status actual buf s) = cfg_of s"
      using p queue_out_ok s(2) unfolding e by metis+
    then show ?thesis by (rule usb_inv_frame [OF _ _ inv])
  qed
qed

lemma unconfigure_ok:
  assumes "usb_ok s"
  shows "usb_ok (gateway_usb_function_disable s)"
    and "cfg_of (gateway_usb_function_disable s) = cfg_of s"
    and "ring_queued (us_ring (gateway_usb_function_disable s)) = []"
  using assms
  by (simp_all add: gateway_usb_function_disable_def gateway_usb_tx_reset_def usb_ok_def flight_ok_def
      ring_inv_length cfg_of_def)

lemma unconfigure_same:
  "gateway_usb_disconnect s = gateway_usb_function_disable s"
  "gateway_usb_suspend s = gateway_usb_function_disable s"
  by (simp_all add: gateway_usb_disconnect_def gateway_usb_suspend_def gateway_usb_function_disable_def)

lemma controller_frame [simp]:
  "usb_ok (s\<lparr>controller := cs\<rparr>) = usb_ok s" "cfg_of (s\<lparr>controller := cs\<rparr>) = cfg_of s"
  "usb_ok (s\<lparr>in_req := b\<rparr>) = usb_ok s" "cfg_of (s\<lparr>in_req := b\<rparr>) = cfg_of s"
  "usb_ok (s\<lparr>out_req := b\<rparr>) = usb_ok s" "cfg_of (s\<lparr>out_req := b\<rparr>) = cfg_of s"
  by (simp_all add: usb_ok_def flight_ok_def cfg_of_def)

lemma controller_answer_ok:
  assumes "usb_ok s"
  shows "usb_ok (snd (controller_answer s)) \<and> cfg_of (snd (controller_answer s)) = cfg_of s"
  using assms by (rule_tac s = s in controller_answer_cases) simp

lemma alloc_requests_ok:
  assumes "usb_ok s"
  shows "usb_ok (alloc_requests s) \<and> cfg_of (alloc_requests s) = cfg_of s"
proof -
  define t where "t = (if in_req s then s
      else (case controller_answer s of (rc, s) \<Rightarrow> s\<lparr>in_req := rc = 0\<rparr>))"
  have t: "usb_ok t" "cfg_of t = cfg_of s"
    using controller_answer_ok [OF assms] assms by (auto simp: t_def split: prod.splits)
  show ?thesis
    using controller_answer_ok [OF t(1)] t
    by (auto simp: alloc_requests_def t_def [symmetric] Let_def split: prod.splits)
qed

lemma set_alt_ok:
  assumes ok: "usb_ok s" and s': "gateway_usb_function_set_alt s = (rc, s')"
  shows "usb_ok s' \<and> cfg_of s' = cfg_of s \<and>
    (rc = 0 \<longrightarrow> ring_queued (us_ring s') = [] \<and> \<not> proto_init_sent s')"
proof -
  define t0 where "t0 = (if ctx_configured s then gateway_usb_function_disable s else s)"
  obtain rc1 t1 where c1: "controller_answer t0 = (rc1, t1)" by fastforce
  obtain rc2 t2 where c2: "controller_answer t1 = (rc2, t2)" by fastforce
  define t3 where "t3 = alloc_requests t2"
  let ?t4 = "t3\<lparr>ctx_configured := True, in_busy := False, host_ready := False, usb_configured := True\<rparr>"
  have t0: "usb_ok t0 \<and> cfg_of t0 = cfg_of s" using ok unconfigure_ok [OF ok] by (simp add: t0_def)
  then have t1: "usb_ok t1 \<and> cfg_of t1 = cfg_of s" using controller_answer_ok [of t0] c1 by simp
  then have t2: "usb_ok t2 \<and> cfg_of t2 = cfg_of s" using controller_answer_ok [of t1] c2 by simp
  then have t3: "usb_ok t3 \<and> cfg_of t3 = cfg_of s" using alloc_requests_ok [of t2] by (simp add: t3_def)
  then have t4: "usb_ok (gateway_usb_tx_reset ?t4) \<and> cfg_of (gateway_usb_tx_reset ?t4) = cfg_of s \<and>
      ring_queued (us_ring (gateway_usb_tx_reset ?t4)) = [] \<and> \<not> proto_init_sent (gateway_usb_tx_reset ?t4)"
    by (simp add: gateway_usb_tx_reset_def usb_ok_def flight_ok_def ring_inv_length cfg_of_def)
  note q = queue_out_ok [OF conjunct1 [OF t4]]
  have e: "gateway_usb_function_set_alt s =
      (if rc1 \<noteq> 0 then (rc1, t1) else if rc2 \<noteq> 0 then (rc2, t2)
       else if \<not> in_req t3 \<or> \<not> out_req t3 then (-1, gateway_usb_function_disable t3)
       else gateway_usb_queue_out_request (gateway_usb_tx_reset ?t4))"
    by (simp only: gateway_usb_function_set_alt_def Let_def t0_def [symmetric] c1 c2 prod.case t3_def)
  show ?thesis
    using s' t1 t2 t3 t4 q unconfigure_ok [of t3] unfolding e
    by (auto split: if_splits)
qed

lemma forward_cases:
  assumes ok: "usb_ok s" and c: "xor_stream_cipher c" and len: "8 + length pt < 2 ^ 31"
  shows "usb_ok (gateway_usb_forward c alloc sid seq pt s) \<and>
    cfg_of (gateway_usb_forward c alloc sid seq pt s) = cfg_of s \<and>
    (let s' = gateway_usb_forward c alloc sid seq pt s;
         start = (if proto_init_sent s then [] else init_wire default_info) in
     proto_init_sent s' \<and> ring_queued (us_ring s') = ring_queued (us_ring s) @ start @ media_packet c sid seq pt \<or>
     proto_init_sent s' \<and> ring_queued (us_ring s') = ring_queued (us_ring s) @ start \<or>
     proto_init_sent s' = proto_init_sent s \<and> ring_queued (us_ring s') = ring_queued (us_ring s))"
proof (cases "usb_started s \<and> usb_configured s \<and> host_ready s")
  case False
  then show ?thesis using ok by (auto simp: gateway_usb_forward_def)
next
  case ready: True
  show ?thesis
  proof (rule enqueue_init_cases [OF ok])
    fix r
    assume e: "gateway_usb_enqueue_init_packet s = (0, s\<lparr>us_ring := r, proto_init_sent := True\<rparr>)"
      and r: "ring_inv r" "ring_queued r = ring_queued (us_ring s) @ (if proto_init_sent s then [] else init_wire default_info)"
    let ?s = "s\<lparr>us_ring := r, proto_init_sent := True\<rparr>"
    have ok1: "usb_ok ?s" using usb_ok_append [OF ok r] by simp
    show ?thesis
    proof (rule enqueue_media_cases [OF ok1 c len, of alloc sid seq])
      fix r2
      assume m: "gateway_usb_enqueue_media_packet c alloc sid seq (Some pt) (length pt) ?s = (0, ?s\<lparr>us_ring := r2\<rparr>)"
        and r2: "ring_inv r2" "ring_queued r2 = ring_queued (us_ring ?s) @ media_packet c sid seq pt"
      have ok2: "usb_ok (?s\<lparr>us_ring := r2\<rparr>)" using usb_ok_append [OF ok1 r2] .
      have "gateway_usb_forward c alloc sid seq pt s = snd (gateway_usb_kick_tx (?s\<lparr>us_ring := r2\<rparr>))"
        using ready e m by (simp add: gateway_usb_forward_def)
      with kick_snd [OF ok2] r2(2) r(2) show ?thesis by (simp add: cfg_of_def)
    next
      fix r2
      assume m: "gateway_usb_enqueue_media_packet c alloc sid seq (Some pt) (length pt) ?s = (-1, ?s\<lparr>us_ring := r2\<rparr>)"
        and r2: "ring_inv r2" "ring_queued r2 = ring_queued (us_ring ?s)"
      have ok2: "usb_ok (?s\<lparr>us_ring := r2\<rparr>)" using usb_ok_append [OF ok1 r2(1), of "[]"] r2(2) by simp
      have "gateway_usb_forward c alloc sid seq pt s = ?s\<lparr>us_ring := r2\<rparr>"
        using ready e m by (simp add: gateway_usb_forward_def)
      with ok2 r2(2) r(2) show ?thesis by (simp add: cfg_of_def)
    qed
  next
    fix r
    assume e: "gateway_usb_enqueue_init_packet s = (-1, s\<lparr>us_ring := r\<rparr>)"
      and r: "ring_inv r" "ring_queued r = ring_queued (us_ring s)"
    have "gateway_usb_forward c alloc sid seq pt s = s\<lparr>us_ring := r\<rparr>"
      using ready e by (simp add: gateway_usb_forward_def)
    with usb_ok_append [OF ok r(1), of "[]"] r(2) show ?thesis by (simp add: cfg_of_def)
  qed
qed

end
