(* ===== verification/AmebaUsbMachine.thy ===== *)
theory AmebaUsbMachine
  imports AmebaUsbInvariant "HOL-Library.Sublist"
begin

text \<open>
  The Ameba board's USB side as a state machine: the step relation over everything that can happen
  to it, what is reachable from power-up, and the byte stream the host receives in a session.
\<close>

section \<open>The board as a state machine\<close>

text \<open>
  Everything that can happen to the USB state: completions of either endpoint with any status and
  contents, a media packet from the upstream, the task loop's retry and watchdog, and the
  configuration events of the host.
\<close>

inductive usb_step ::
  "cipher \<Rightarrow> (byte list \<Rightarrow> bool) \<Rightarrow> usb_watch \<times> gateway_usb \<Rightarrow> usb_watch \<times> gateway_usb \<Rightarrow> bool"
  for c aton where
  in_done: "usb_step c aton (w, s) (w, gateway_usb_in_complete req s)"
| out_done: "length b = 64 \<Longrightarrow>
    usb_step c aton (w, s) (w, gateway_usb_out_complete aton status actual (Some b) (s\<lparr>out_buf := b\<rparr>))"
| out_null: "usb_step c aton (w, s) (w, gateway_usb_out_complete aton status actual None s)"
| media: "8 + length pt < 2 ^ 31 \<Longrightarrow> usb_step c aton (w, s) (w, gateway_usb_forward c alloc sid seq pt s)"
| retry: "usb_step c aton (w, s) (w, gateway_usb_retry_init_if_needed s)"
| watchdog: "usb_step c aton (w, s) (usb_watchdog now (w, s))"
| force: "usb_step c aton (w, s) (w, gateway_usb_try_force_configure speed s)"
| set_alt: "usb_step c aton (w, s) (w, snd (gateway_usb_function_set_alt s))"
| disable: "usb_step c aton (w, s) (w, gateway_usb_function_disable s)"
| disconnect: "usb_step c aton (w, s) (w, gateway_usb_disconnect s)"
| suspend: "usb_step c aton (w, s) (w, gateway_usb_suspend s)"
| start: "usb_step c aton (w, s) (w, snd (gateway_usb_start init_ok interface_id s))"

inductive_cases usb_stepE: "usb_step c aton (w, s) ws'"

lemma usb_inv_of: "usb_inv aton s \<Longrightarrow> usb_ok s"
  by (simp add: usb_inv_def)

lemma usb_start_ok:
  assumes "usb_ok s"
  shows "usb_ok (snd (gateway_usb_start init_ok n s)) \<and> cfg_of (snd (gateway_usb_start init_ok n s)) = cfg_of s"
proof -
  let ?s = "s\<lparr>in_ep := False, out_ep := False, in_req := False, out_req := False,
      ctx_configured := False, in_busy := False, in_flight_len := 0\<rparr>"
  obtain rc1 cs1 where c1: "controller_answer ?s = (rc1, ?s\<lparr>controller := cs1\<rparr>)"
    by (rule controller_answer_cases)
  obtain rc2 cs2 where c2: "controller_answer (?s\<lparr>controller := cs1\<rparr>) =
      (rc2, ?s\<lparr>controller := cs1, controller := cs2\<rparr>)"
    by (rule controller_answer_cases)
  show ?thesis
    using assms
    by (simp add: gateway_usb_start_def gateway_usb_config_bind_def gateway_usb_function_bind_def
        c1 c2 Let_def usb_ok_def flight_ok_def cfg_of_def)
qed

lemma watchdog_ok:
  assumes "usb_ok s" and "usb_watchdog now (w, s) = (w', s')"
  shows "usb_ok s' \<and> cfg_of s' = cfg_of s"
proof -
  have i: "usb_ok (s\<lparr>watchdog_reset_count := n\<rparr>)" "cfg_of (s\<lparr>watchdog_reset_count := n\<rparr>) = cfg_of s" for n
    using assms(1) by (simp_all add: usb_ok_def flight_ok_def cfg_of_def)
  show ?thesis
    using assms reset_session_preserves [OF i(1)] i(2)
    by (auto simp: usb_watchdog_def Let_def split: if_splits)
qed

lemma usb_step_inv:
  assumes "usb_step c aton ws ws'" and cipher: "xor_stream_cipher c" and "usb_inv aton (snd ws)"
  shows "usb_inv aton (snd ws')"
  using assms(1,3)
proof (induction rule: usb_step.induct)
  case (in_done w s req)
  then have inv: "usb_inv aton s" by simp
  from in_complete_ok [OF usb_inv_of [OF inv], of req] show ?case
    by (simp add: usb_inv_frame [OF _ _ inv])
next
  case (out_done b w s status actual)
  then have "usb_inv aton (s\<lparr>out_buf := b\<rparr>)"
    by (simp add: usb_inv_def usb_ok_def flight_ok_def config_ok_def)
  from out_complete_inv [OF this, of "Some b"] out_done(1) show ?case by simp
next
  case (out_null w s status actual)
  then show ?case using out_complete_inv [of aton s None] by simp
next
  case (media pt w s alloc sid seq)
  then have inv: "usb_inv aton s" by simp
  from forward_cases [OF usb_inv_of [OF inv] cipher media(1)] show ?case
    by (simp add: usb_inv_frame [OF _ _ inv])
next
  case (retry w s)
  then have inv: "usb_inv aton s" by simp
  from announce_ok [OF usb_inv_of [OF inv]] inv show ?case
    by (simp add: retry_init_eq usb_inv_frame [OF _ _ inv])
next
  case (watchdog w s now)
  then have inv: "usb_inv aton s" by simp
  from watchdog_ok [OF usb_inv_of [OF inv], of now w "fst (usb_watchdog now (w, s))" "snd (usb_watchdog now (w, s))"]
  show ?case by (simp add: usb_inv_frame [OF _ _ inv])
next
  case (force w s speed)
  then have inv: "usb_inv aton s" by simp
  from set_alt_ok [OF usb_inv_of [OF inv], of "fst (gateway_usb_function_set_alt s)" "snd (gateway_usb_function_set_alt s)"] inv
  show ?case
    by (auto simp: gateway_usb_try_force_configure_def split: option.splits intro: usb_inv_frame [OF _ _ inv])
next
  case (set_alt w s)
  then have inv: "usb_inv aton s" by simp
  from set_alt_ok [OF usb_inv_of [OF inv], of "fst (gateway_usb_function_set_alt s)" "snd (gateway_usb_function_set_alt s)"]
  show ?case by (simp add: usb_inv_frame [OF _ _ inv])
next
  case (start w s init_ok n)
  then have inv: "usb_inv aton s" by simp
  from usb_start_ok [OF usb_inv_of [OF inv], of init_ok n] show ?case by (simp add: usb_inv_frame [OF _ _ inv])
next
  case (disable w s)
  then have inv: "usb_inv aton s" by simp
  from unconfigure_ok [OF usb_inv_of [OF inv]] show ?case by (simp add: usb_inv_frame [OF _ _ inv])
next
  case (disconnect w s)
  then have inv: "usb_inv aton s" by simp
  from unconfigure_ok [OF usb_inv_of [OF inv]] show ?case
    by (simp add: unconfigure_same usb_inv_frame [OF _ _ inv])
next
  case (suspend w s)
  then have inv: "usb_inv aton s" by simp
  from unconfigure_ok [OF usb_inv_of [OF inv]] show ?case
    by (simp add: unconfigure_same usb_inv_frame [OF _ _ inv])
qed

text \<open>The state after power-up: static storage is zero, and no configuration is valid.\<close>

definition boot_config :: upstream_config where
  "boot_config = \<lparr>cfg_host = str ''192.168.1.54'' @ replicate 4 0,
     cfg_path = str ''/gateway'' @ replicate 28 0, cfg_port = 8081, cfg_valid = False, cfg_seq_no = 0\<rparr>"

definition usb_boot :: "int list \<Rightarrow> gateway_usb" where
  "usb_boot answers =
     \<lparr>us_ring = empty_ring, in_ep = False, out_ep = False, in_req = False, out_req = False,
      in_buf = replicate 512 0, out_buf = replicate 64 0, in_req_length = 0, ctx_configured = False,
      in_busy = False, in_flight_len = 0, usb_started = False, usb_start_rc = -999,
      usb_configured = False, host_ready = False, proto_init_sent = False, stream_resetting = False,
      last_kick_rc = 0, last_queue_len = 0, last_ping_valid = 0, last_actual = 0,
      last_req_dump = replicate 16 0, last_ctx_dump = replicate 16 0, last_magic = replicate 4 0,
      last_seq = 0, last_payload_len = 0, rx_packets = 0, tx_packets = 0, kick_count = 0,
      in_complete_count = 0, in_error_count = 0, fifo_flush_count = 0, watchdog_reset_count = 0,
      upstream_cfg = boot_config, config_valid = False, config_seq = 0, reconnect_requested = False,
      controller = answers, in_wire = []\<rparr>"

lemma usb_boot_inv: "usb_inv aton (usb_boot answers)"
  by (simp add: usb_inv_def usb_ok_def flight_ok_def config_ok_def usb_boot_def)

text \<open>
  C6: what always holds of the USB state.  From power-up, through any sequence of completions with
  any status and length, packets, pings, configuration packets, resets, suspends and
  reconfigurations, and whatever the controller answers: the ring is well formed, an outstanding
  stream transfer is the last thing the controller accepted and is exactly the front of the queue,
  at most 512 bytes, so that completing it removes what was sent; and a configuration marked valid
  has a non-empty, NUL-terminated host that \<open>inet_aton\<close> accepted, a non-empty, NUL-terminated path
  and a port other than 0.
\<close>

theorem usb_reachable_inv:
  assumes "xor_stream_cipher c"
    and "(usb_step c aton)\<^sup>*\<^sup>* (w, usb_boot answers) (w', s)"
  shows "ring_inv (us_ring s) \<and>
    (in_busy s \<and> 0 < in_flight_len s \<longrightarrow>
       in_flight_len s \<le> 512 \<and> in_flight_len s \<le> length (ring_queued (us_ring s)) \<and>
       last (in_wire s) = take (in_flight_len s) (ring_queued (us_ring s))) \<and>
    (config_valid s \<longrightarrow> config_wf aton (upstream_cfg s))"
proof -
  have "usb_inv aton (snd (w', s))"
    using assms(2)
  proof (induction rule: rtranclp_induct)
    case base
    show ?case by (simp add: usb_boot_inv)
  next
    case (step y z)
    from usb_step_inv [OF step(2) assms(1) step(3)] show ?case .
  qed
  then show ?thesis by (simp add: usb_inv_def usb_ok_def flight_ok_def config_ok_def)
qed

definition demo_cfg :: "byte list" where
  "demo_cfg = str ''CFG1'' @ [7, 0, 0, 0, 0x91, 0x1F, 0, 0] @ str ''10.0.0.2'' @ replicate 8 0 @
     str ''/g'' @ replicate 34 0"

lemma demo_cfg_fields:
  "length demo_cfg = 64" "take 4 demo_cfg = str ''CFG1''" "read_le16 demo_cfg 8 = 8081"
  "c_str (slice 12 16 demo_cfg) = str ''10.0.0.2''" "c_str (slice 28 36 demo_cfg) = str ''/g''"
  by (simp_all add: demo_cfg_def read_le16_def slice_def c_str_def)

lemma copy_field_accepts:
  assumes "0 < length (c_str b)" "length (c_str b) < n" "length b = n"
  shows "fst (gateway_upstream_copy_field (Some d) n (Some b) n) = 0"
  using assms by (simp add: gateway_upstream_copy_field_def Let_def)

lemma apply_config_accepts:
  assumes "read_le16 p 8 \<noteq> 0" "length p = 64"
    and "0 < length (c_str (slice 12 16 p))" "length (c_str (slice 12 16 p)) < 16"
    and "0 < length (c_str (slice 28 36 p))" "length (c_str (slice 28 36 p)) < 36"
  shows "fst (gateway_upstream_apply_usb_config (\<lambda>_. True) (Some p) s) = 0"
proof -
  have l: "length (slice 12 16 p) = 16" "length (slice 28 36 p) = 36" using assms by simp_all
  obtain host where h: "gateway_upstream_copy_field (Some (replicate 16 0)) 16 (Some (slice 12 16 p)) 16 = (0, host)"
    using copy_field_accepts [OF assms(3,4) l(1)] by (metis prod.collapse)
  obtain path where q: "gateway_upstream_copy_field (Some (replicate 36 0)) 36 (Some (slice 28 36 p)) 36 = (0, path)"
    using copy_field_accepts [OF assms(5,6) l(2)] by (metis prod.collapse)
  show ?thesis
    using assms(1) unfolding gateway_upstream_apply_usb_config_def option.case h prod.case q by (simp add: Let_def)
qed

theorem usb_reachable_inv_witness:
  "\<exists>s. (usb_step toy_cipher (\<lambda>_. True))\<^sup>*\<^sup>* (observe 0 (usb_boot []), usb_boot []) (observe 0 (usb_boot []), s) \<and>
     config_valid s \<and> config_wf (\<lambda>_. True) (upstream_cfg s)"
proof -
  let ?s = "gateway_usb_out_complete (\<lambda>_. True) 0 64 (Some demo_cfg) ((usb_boot [])\<lparr>out_buf := demo_cfg\<rparr>)"
  have step: "(usb_step toy_cipher (\<lambda>_. True))\<^sup>*\<^sup>* (observe 0 (usb_boot []), usb_boot []) (observe 0 (usb_boot []), ?s)"
    by (rule r_into_rtranclp, rule usb_step.out_done) (simp add: demo_cfg_fields)
  let ?h = "out_header demo_cfg (out_stats 64 (Some demo_cfg) ((usb_boot [])\<lparr>out_buf := demo_cfg\<rparr>))"
  have "fst (gateway_upstream_apply_usb_config (\<lambda>_. True) (Some demo_cfg) ?h) = 0"
    by (rule apply_config_accepts) (simp_all add: demo_cfg_fields)
  with apply_config_cases [OF demo_cfg_fields(1), of "\<lambda>_. True" ?h] obtain cf q where
    a: "gateway_upstream_apply_usb_config (\<lambda>_. True) (Some demo_cfg) ?h =
      (0, ?h\<lparr>upstream_cfg := cf, config_valid := True, config_seq := q, reconnect_requested := True\<rparr>)" by auto
  let ?t = "?h\<lparr>upstream_cfg := cf, config_valid := True, config_seq := q, reconnect_requested := True,
      last_ping_valid := 3\<rparr>"
  have "usb_ok ((usb_boot [])\<lparr>out_buf := demo_cfg\<rparr>)"
    by (simp add: usb_ok_def flight_ok_def usb_boot_def demo_cfg_fields(1))
  then have "usb_ok ?h" by simp
  then have "usb_ok ?t" by (simp add: usb_ok_def flight_ok_def)
  from queue_out_ok [OF this] have "cfg_of (snd (gateway_usb_queue_out_request ?t)) = (cf, True)"
    by (simp add: cfg_of_def)
  moreover have "?s = snd (gateway_usb_queue_out_request ?t)"
    by (simp add: out_complete_eq Let_def out_raw_def demo_cfg_fields(2) a del: str_simps)
  ultimately have "config_valid ?s" by (simp add: cfg_of_def)
  with usb_reachable_inv [OF toy_cipher_xor step] step show ?thesis by blast
qed

section \<open>A stream session\<close>

text \<open>
  A session starts when a ping reset the stream or the interface was configured, and goes on while
  packets are forwarded, transfers complete and other OUT packets arrive.  It carries the packets
  that were submitted and the stream bytes that completed transfers delivered to the host: of a
  stream transfer that was in flight, the bytes the controller reported.
\<close>

inductive usb_session ::
  "cipher \<Rightarrow> (byte list \<Rightarrow> bool) \<Rightarrow> byte list list \<Rightarrow> byte list \<Rightarrow> gateway_usb \<Rightarrow> bool" for c aton where
  ping: "usb_inv aton s \<Longrightarrow> in_ep s \<Longrightarrow> in_req s \<Longrightarrow> length b = 64 \<Longrightarrow> take 4 b = str ''PING'' \<Longrightarrow>
    12 \<le> actual \<Longrightarrow> usb_session c aton [] [] (gateway_usb_out_complete aton 0 actual (Some b) s)"
| configured: "usb_inv aton s \<Longrightarrow> gateway_usb_function_set_alt s = (0, s') \<Longrightarrow> usb_session c aton [] [] s'"
| retry: "usb_session c aton ps out s \<Longrightarrow> usb_session c aton ps out (gateway_usb_retry_init_if_needed s)"
| media: "usb_session c aton ps out s \<Longrightarrow> 8 + length pt < 2 ^ 31 \<Longrightarrow>
    usb_session c aton (ps @ [media_packet c sid seq pt]) out (gateway_usb_forward c alloc sid seq pt s)"
| sent: "usb_session c aton ps out s \<Longrightarrow> in_busy s \<Longrightarrow>
    usb_session c aton ps
      (out @ (if in_flight_len s = 0 then []
              else take (completed actual (in_flight_len s)) (last (in_wire s))))
      (gateway_usb_in_complete (Some (0, actual)) s)"
| config: "usb_session c aton ps out s \<Longrightarrow> length b = 64 \<Longrightarrow> take 4 b = str ''CFG1'' \<Longrightarrow> 12 \<le> actual \<Longrightarrow>
    usb_session c aton ps out (gateway_usb_out_complete aton 0 actual (Some b) s)"

definition session_stream :: "gateway_usb \<Rightarrow> byte list list \<Rightarrow> byte list" where
  "session_stream s qs = (if proto_init_sent s then init_wire default_info @ concat qs else [])"

lemma subseq_snoc: "subseq xs ys \<Longrightarrow> subseq (xs @ [y]) (ys @ [y])" "subseq xs ys \<Longrightarrow> subseq xs (ys @ [y])"
  by (auto intro: list_emb_append_mono subseq_append')

lemma ping_session:
  assumes inv: "usb_inv aton s" and ep: "in_ep s" "in_req s" and b: "length b = 64" "take 4 b = str ''PING''"
    and actual: "12 \<le> actual"
  shows "usb_inv aton (gateway_usb_out_complete aton 0 actual (Some b) s) \<and>
    proto_init_sent (gateway_usb_out_complete aton 0 actual (Some b) s) \<and>
    ring_queued (us_ring (gateway_usb_out_complete aton 0 actual (Some b) s)) = init_wire default_info"
proof -
  let ?h = "(out_header b (out_stats actual (Some b) s))\<lparr>last_ping_valid := 1\<rparr>"
  let ?r = "gateway_usb_reset_stream_session ?h"
  let ?p = "snd (gateway_usb_send_pong (read_le32 b 4) ?r)"
  have h: "usb_ok ?h" "in_ep ?h" "in_req ?h" using usb_inv_of [OF inv] ep by simp_all
  note r = reset_session_ok [OF h]
  have p: "usb_ok ?p" "us_ring ?p = us_ring ?r" "proto_init_sent ?p = proto_init_sent ?r"
    using send_pong_ok [OF r(1)] by simp_all
  have a: "usb_ok (announce ?p)" "proto_init_sent (announce ?p)"
    "ring_queued (us_ring (announce ?p)) = init_wire default_info"
    using announce_ok [OF p(1)] announce_fresh [OF p(1)] p(2,3) r(2,3) by auto
  have ne: "str ''PING'' \<noteq> str ''CFG1''" by simp
  have e: "gateway_usb_out_complete aton 0 actual (Some b) s = snd (gateway_usb_queue_out_request (announce ?p))"
    using b actual ne by (simp add: out_complete_eq Let_def out_raw_def del: str_simps)
  show ?thesis
    using out_complete_inv [OF inv, of "Some b" 0 actual] b queue_out_ok [OF a(1)] a by (simp add: e)
qed

theorem usb_session_ok:
  assumes cipher: "xor_stream_cipher c"
  shows "usb_session c aton ps out s \<Longrightarrow> usb_inv aton s \<and>
     (\<exists>qs. subseq qs ps \<and> out @ ring_queued (us_ring s) = session_stream s qs)"
proof (induction rule: usb_session.induct)
  case (ping s b actual)
  from ping_session [OF this] show ?case by (auto simp: session_stream_def intro: exI [of _ "[]"])
next
  case (configured s s')
  from set_alt_ok [OF usb_inv_of [OF configured(1)] configured(2)] show ?case
    using usb_inv_frame [OF _ _ configured(1)]
    by (intro conjI exI [of _ "[]"]) (simp_all add: session_stream_def)
next
  case (retry ps out s)
  then obtain qs where inv: "usb_inv aton s" and qs: "subseq qs ps" "out @ ring_queued (us_ring s) = session_stream s qs"
    by blast
  note a = announce_ok [OF usb_inv_of [OF inv]]
  have "usb_inv aton (announce s)" using a by (intro usb_inv_frame [OF _ _ inv]) simp_all
  moreover have "\<exists>qs. subseq qs ps \<and> out @ ring_queued (us_ring (announce s)) = session_stream (announce s) qs"
    using a qs by (cases "proto_init_sent s") (auto simp: session_stream_def intro: exI [of _ "[]"])
  ultimately show ?case using inv qs by (auto simp: retry_init_eq)
next
  case (media ps out s pt sid seq alloc)
  then obtain qs where inv: "usb_inv aton s" and qs: "subseq qs ps" "out @ ring_queued (us_ring s) = session_stream s qs"
    by blast
  let ?s = "gateway_usb_forward c alloc sid seq pt s"
  note f = forward_cases [OF usb_inv_of [OF inv] cipher media(2), of alloc sid seq]
  have "usb_inv aton ?s" using f by (intro usb_inv_frame [OF _ _ inv]) simp_all
  moreover
  let ?start = "if proto_init_sent s then [] else init_wire default_info"
  let ?qs = "if proto_init_sent s then qs else []"
  have start: "out @ ring_queued (us_ring s) @ ?start = init_wire default_info @ concat ?qs"
    using qs(2) by (auto simp: session_stream_def)
  have sub: "subseq ?qs ps" using qs(1) by simp
  consider "proto_init_sent ?s" "ring_queued (us_ring ?s) = ring_queued (us_ring s) @ ?start @ media_packet c sid seq pt"
    | "proto_init_sent ?s" "ring_queued (us_ring ?s) = ring_queued (us_ring s) @ ?start"
    | "proto_init_sent ?s = proto_init_sent s" "ring_queued (us_ring ?s) = ring_queued (us_ring s)"
    using f by (auto simp: Let_def)
  then have "\<exists>qs. subseq qs (ps @ [media_packet c sid seq pt]) \<and> out @ ring_queued (us_ring ?s) = session_stream ?s qs"
  proof cases
    case 1
    have "out @ ring_queued (us_ring ?s) = (out @ ring_queued (us_ring s) @ ?start) @ media_packet c sid seq pt"
      by (simp add: 1)
    then have "out @ ring_queued (us_ring ?s) = session_stream ?s (?qs @ [media_packet c sid seq pt])"
      unfolding start by (simp add: session_stream_def 1)
    then show ?thesis using subseq_snoc(1) [OF sub] by blast
  next
    case 2
    then have "out @ ring_queued (us_ring ?s) = session_stream ?s ?qs"
      using start by (simp add: session_stream_def)
    then show ?thesis using subseq_snoc(2) [OF sub] by blast
  next
    case 3
    then have "out @ ring_queued (us_ring ?s) = session_stream ?s qs"
      using qs(2) by (simp add: session_stream_def)
    then show ?thesis using subseq_snoc(2) [OF qs(1)] by blast
  qed
  ultimately show ?case by blast
next
  case (sent ps out s actual)
  then obtain qs where inv: "usb_inv aton s" and qs: "subseq qs ps" "out @ ring_queued (us_ring s) = session_stream s qs"
    by blast
  let ?s = "gateway_usb_in_complete (Some (0, actual)) s" and ?k = "completed actual (in_flight_len s)"
  note d = in_complete_done [OF usb_inv_of [OF inv], of actual]
  have "(if in_flight_len s = 0 then [] else take ?k (last (in_wire s))) = take ?k (ring_queued (us_ring s))"
  proof (cases "in_flight_len s = 0")
    case True
    then show ?thesis by (simp add: completed_def)
  next
    case False
    then have "last (in_wire s) = take (in_flight_len s) (ring_queued (us_ring s))" "?k \<le> in_flight_len s"
      using usb_inv_of [OF inv] sent(2) by (auto simp: usb_ok_def flight_ok_def completed_def)
    then show ?thesis using False by (simp add: min_def)
  qed
  then have "(out @ (if in_flight_len s = 0 then [] else take ?k (last (in_wire s)))) @ ring_queued (us_ring ?s) =
      session_stream ?s qs"
    using d qs(2) by (simp add: session_stream_def)
  moreover have "usb_inv aton ?s" using d by (intro usb_inv_frame [OF _ _ inv]) simp_all
  ultimately show ?case using qs(1) by blast
next
  case (config ps out s b actual)
  then have inv: "usb_inv aton s" by blast
  have "out_raw (Some b) s = b" by (simp add: out_raw_def)
  from out_complete_cfg [OF inv config(2,3) refl config(4) this] config.IH show ?case
    by (simp add: session_stream_def)
qed

text \<open>
  C2: what the host receives.  In every session the bytes delivered by completed transfers,
  followed by what is still in the ring, are the stream announcement followed by a subsequence of
  the media packets that were forwarded, in order and each of them whole; nothing is delivered
  before the announcement, and a packet that did not fit or arrived before the host was ready is
  absent as a whole.  Partial completions, pongs between chunks, retries and configuration packets
  change nothing of this.
\<close>

theorem usb_stream_delivered:
  assumes "xor_stream_cipher c" and "usb_session c aton packets delivered s"
  shows "\<exists>qs. subseq qs packets \<and>
    delivered @ ring_queued (us_ring s) =
      (if proto_init_sent s then init_wire default_info @ concat qs else [])"
  using usb_session_ok [OF assms] by (simp add: session_stream_def)

definition demo_usb :: gateway_usb where
  "demo_usb = (usb_boot [])\<lparr>in_ep := True, out_ep := True, in_req := True, out_req := True,
     usb_started := True, usb_configured := True, ctx_configured := True\<rparr>"

theorem usb_stream_delivered_witness:
  "\<exists>s. usb_session toy_cipher (\<lambda>_. True) [media_packet toy_cipher 1 0 [5]] [] s \<and>
     (\<exists>qs. subseq qs [media_packet toy_cipher 1 0 [5]] \<and>
        ring_queued (us_ring s) = (if proto_init_sent s then init_wire default_info @ concat qs else []))"
proof -
  have i: "usb_inv (\<lambda>_. True) demo_usb"
    by (simp add: usb_inv_def usb_ok_def flight_ok_def config_ok_def demo_usb_def usb_boot_def)
  have p: "usb_session toy_cipher (\<lambda>_. True) [] []
      (gateway_usb_out_complete (\<lambda>_. True) 0 64 (Some (str ''PING'' @ replicate 60 0)) demo_usb)"
    by (rule usb_session.ping [OF i]) (simp_all add: demo_usb_def)
  have "usb_session toy_cipher (\<lambda>_. True) ([] @ [media_packet toy_cipher 1 0 [5]]) []
      (gateway_usb_forward toy_cipher True 1 0 [5]
        (gateway_usb_out_complete (\<lambda>_. True) 0 64 (Some (str ''PING'' @ replicate 60 0)) demo_usb))"
    by (rule usb_session.media [OF p]) simp
  then have u: "usb_session toy_cipher (\<lambda>_. True) [media_packet toy_cipher 1 0 [5]] []
      (gateway_usb_forward toy_cipher True 1 0 [5]
        (gateway_usb_out_complete (\<lambda>_. True) 0 64 (Some (str ''PING'' @ replicate 60 0)) demo_usb))"
    by (simp only: append_Nil)
  from usb_stream_delivered [OF toy_cipher_xor u] u show ?thesis unfolding append_Nil by blast
qed

end
