(* ===== verification/AmebaUpstream.thy ===== *)
theory AmebaUpstream
  imports WsUpstream AmebaUsbMachine
begin

text \<open>
  The Ameba board's own WebSocket client (\<open>gateway_upstream_*\<close> in
  \<open>ameba_gateway/example_gateway_ameba.c\<close>): it keeps the first four fields of its state like the
  desktop client, but over lwIP's sockets, whose \<open>lwip_read\<close> and \<open>lwip_write\<close> it never repeats when
  they are interrupted.  The error number it copies for the diagnostics is not modelled.  \<open>size_t\<close> has
  32 bits here.
\<close>

section \<open>Reading and writing\<close>

function gateway_upstream_read_loop ::
  "ws_upstream_client \<Rightarrow> nat \<Rightarrow> byte list \<Rightarrow> (int \<times> byte list \<times> ws_upstream_client) option" where
  "gateway_upstream_read_loop state len dest =
     (if length dest < len then
        (if unread state \<noteq> [] then
           gateway_upstream_read_loop (snd (take_prebuffer state (len - length dest))) len
             (dest @ fst (take_prebuffer state (len - length dest)))
         else
           (case recv_fd (fd state) (len - length dest) of
              None \<Rightarrow> None
            | Some (Done bs, sk) \<Rightarrow> gateway_upstream_read_loop (state\<lparr>fd := sk\<rparr>) len (dest @ bs)
            | Some (_, sk) \<Rightarrow> Some (-1, dest, state\<lparr>fd := sk\<rparr>)))
      else Some (0, dest, state))"
  by pat_completeness auto
termination
proof (relation "measure (\<lambda>(state, len, dest). length (unread state) + script_size (fd_script (fd state)))",
    goal_cases)
  case 1
  then show ?case by simp
next
  case (2 state len dest)
  obtain bs s' where t: "take_prebuffer state (len - length dest) = (bs, s')" by fastforce
  note p = take_prebuffer_props [OF 2(2) t]
  have "0 < length bs" using p(4) 2(1) by simp
  then show ?case using p(1,2) by (simp add: t)
next
  case (3 state len dest x r sk)
  then show ?case by (auto intro: fd_script_shrinks)
qed

declare gateway_upstream_read_loop.simps [simp del]

definition gateway_upstream_read_some ::
  "ws_upstream_client \<Rightarrow> nat \<Rightarrow> (byte list option \<times> ws_upstream_client) option" where
  "gateway_upstream_read_some state len =
     (case gateway_upstream_read_loop state len [] of
        None \<Rightarrow> None
      | Some (rc, dest, state') \<Rightarrow> Some (if rc \<noteq> 0 then None else Some dest, state'))"

text \<open>\<open>lwip_write\<close> returning 0 or less ends the loop.\<close>

function gateway_upstream_write_all :: "sock \<Rightarrow> byte list \<Rightarrow> (int \<times> sock) option" where
  "gateway_upstream_write_all sk buf =
     (if buf \<noteq> [] then
        (case send sk buf of
           None \<Rightarrow> None
         | Some (Done n, sk') \<Rightarrow>
             if n = 0 then Some (-1, sk') else gateway_upstream_write_all sk' (drop n buf)
         | Some (_, sk') \<Rightarrow> Some (-1, sk'))
      else Some (0, sk))"
  by pat_completeness auto
termination
  by (relation "measure (\<lambda>(sk, buf). length (outgoing sk))") (auto intro: outgoing_send)

declare gateway_upstream_write_all.simps [simp del]

text \<open>The masking key is a constant.\<close>

definition gateway_upstream_key :: "byte list" where
  "gateway_upstream_key = [0x12, 0x34, 0x56, 0x78]"

definition gateway_upstream_send_masked_frame ::
  "(nat \<Rightarrow> bool) \<Rightarrow> sock \<Rightarrow> byte \<Rightarrow> byte list \<Rightarrow> (int \<times> sock) option" where
  "gateway_upstream_send_masked_frame malloc_ok sk opcode payload =
     (case gateway_upstream_write_all sk (masked_header opcode (length payload) gateway_upstream_key) of
        None \<Rightarrow> None
      | Some (rc, sk) \<Rightarrow>
          if rc \<noteq> 0 then Some (-1, sk)
          else if length payload = 0 then Some (0, sk)
          else if \<not> malloc_ok (length payload) then Some (-1, sk)
          else gateway_upstream_write_all sk (ws_mask gateway_upstream_key payload))"

definition gateway_upstream_send_text :: "(nat \<Rightarrow> bool) \<Rightarrow> sock \<Rightarrow> byte list \<Rightarrow> (int \<times> sock) option" where
  "gateway_upstream_send_text malloc_ok sk msg =
     gateway_upstream_send_masked_frame malloc_ok sk 0x1 (c_str (msg @ [0]))"

definition gateway_upstream_recv_frame ::
  "(nat \<Rightarrow> bool) \<Rightarrow> ws_upstream_client \<Rightarrow> ((byte \<times> byte list option) option \<times> ws_upstream_client) option" where
  "gateway_upstream_recv_frame malloc_ok state = recv_frame_via gateway_upstream_read_some 32 malloc_ok state"

subsection \<open>The contracts\<close>

definition upstream_bytes :: "ws_upstream_client \<Rightarrow> byte list" where
  "upstream_bytes state = unread state @ lwip_bytes (fd_script (fd state))"

lemma upstream_bytes_take:
  assumes "unread s \<noteq> []" and "take_prebuffer s room = (bs, s')"
  shows "upstream_bytes s = bs @ upstream_bytes s'"
  using take_prebuffer_props(1,2) [OF assms] by (simp add: upstream_bytes_def)

lemma read_loop_sound:
  "gateway_upstream_read_loop s len dest = Some (0, out, s') \<Longrightarrow> length dest \<le> len \<Longrightarrow>
   length out = len \<and> dest @ upstream_bytes s = out @ upstream_bytes s' \<and> (fd s' = None \<longleftrightarrow> fd s = None)"
proof (induction s len dest rule: gateway_upstream_read_loop.induct)
  case (1 s len dest)
  note unroll = gateway_upstream_read_loop.simps [of s len dest]
  show ?case
  proof (cases "length dest < len")
    case False
    with "1.prems" show ?thesis by (auto simp: unroll)
  next
    case lt: True
    show ?thesis
    proof (cases "unread s \<noteq> []")
      case True
      obtain bs s1 where t: "take_prebuffer s (len - length dest) = (bs, s1)" by fastforce
      have "length (dest @ bs) \<le> len" using take_prebuffer_props(3) [OF True t] lt by simp
      with "1.IH"(1) [OF lt True] "1.prems"(1) lt True t upstream_bytes_take [OF True t] take_prebuffer_props(2) [OF True t]
      show ?thesis by (simp add: unroll)
    next
      case no: False
      obtain r sk where r: "recv_fd (fd s) (len - length dest) = Some (r, sk)"
        using "1.prems"(1) lt no by (cases "recv_fd (fd s) (len - length dest)") (auto simp: unroll)
      obtain bs where d: "r = Done bs"
        using "1.prems"(1) lt no r by (cases r) (auto simp: unroll)
      note b = recv_fd_lwip(1) [OF r [unfolded d]]
      have "sk = None \<longleftrightarrow> fd s = None" using r by (auto simp: recv_fd_def split: option.splits)
      moreover have "length (dest @ bs) \<le> len" using b lt by auto
      ultimately show ?thesis using "1.IH"(2) [OF lt no r refl d] "1.prems"(1) lt no r d b
        by (simp add: unroll upstream_bytes_def)
    qed
  qed
qed

lemma read_loop_complete:
  "length dest \<le> len \<Longrightarrow> len \<le> length dest + length (upstream_bytes s) \<Longrightarrow>
   \<exists>out s'. gateway_upstream_read_loop s len dest = Some (0, out, s')"
proof (induction s len dest rule: gateway_upstream_read_loop.induct)
  case (1 s len dest)
  note unroll = gateway_upstream_read_loop.simps [of s len dest]
  show ?case
  proof (cases "length dest < len")
    case False
    with "1.prems" show ?thesis by (simp add: unroll)
  next
    case lt: True
    show ?thesis
    proof (cases "unread s \<noteq> []")
      case True
      obtain bs s1 where t: "take_prebuffer s (len - length dest) = (bs, s1)" by fastforce
      have "length (dest @ bs) \<le> len" using take_prebuffer_props(3) [OF True t] lt by simp
      with "1.IH"(1) [OF lt True] "1.prems"(2) lt True t upstream_bytes_take [OF True t]
      show ?thesis by (simp add: unroll)
    next
      case no: False
      have "lwip_bytes (fd_script (fd s)) \<noteq> []" using "1.prems"(2) lt no by (auto simp: upstream_bytes_def)
      with recv_fd_lwip(2) [of "len - length dest"] lt obtain bs sk
        where r: "recv_fd (fd s) (len - length dest) = Some (Done bs, sk)" by fastforce
      note b = recv_fd_lwip(1) [OF r]
      have "length (dest @ bs) \<le> len" using b lt by auto
      with "1.IH"(2) [OF lt no r refl refl] "1.prems"(2) lt no r b
      show ?thesis by (simp add: unroll upstream_bytes_def)
    qed
  qed
qed

interpretation ameba: byte_reader gateway_upstream_read_some upstream_bytes "\<lambda>s. fd s \<noteq> None"
proof unfold_locales
  fix s s' n bs
  assume wf: "fd s \<noteq> None" and "gateway_upstream_read_some s n = Some (Some bs, s')"
  then have "gateway_upstream_read_loop s n [] = Some (0, bs, s')"
    by (auto simp: gateway_upstream_read_some_def split: option.splits if_splits)
  from read_loop_sound [OF this] wf
  show "length bs = n \<and> upstream_bytes s = bs @ upstream_bytes s' \<and> fd s' \<noteq> None" by simp
next
  fix s n assume "n \<le> length (upstream_bytes s)"
  then show "\<exists>bs s'. gateway_upstream_read_some s n = Some (Some bs, s')"
    using read_loop_complete [of "[]" n s] by (auto simp: gateway_upstream_read_some_def)
qed

lemma lwip_write_effect:
  "gateway_upstream_write_all sk buf = Some (rc, sk') \<Longrightarrow>
   incoming sk' = incoming sk \<and>
   ((rc = 0 \<and> sent sk' = sent sk @ buf) \<or> (rc = -1 \<and> (\<exists>k < length buf. sent sk' = sent sk @ take k buf)))"
proof (induction sk buf rule: gateway_upstream_write_all.induct)
  case (1 sk buf)
  note unroll = gateway_upstream_write_all.simps [of sk buf]
  show ?case
  proof (cases "buf = []")
    case True
    with "1.prems" show ?thesis by (auto simp: gateway_upstream_write_all.simps [of sk "[]"])
  next
    case False
    obtain r sk1 where r: "send sk buf = Some (r, sk1)"
      using "1.prems" False by (cases "send sk buf") (auto simp: unroll)
    show ?thesis
    proof (cases "\<exists>n. r = Done n \<and> n \<noteq> 0")
      case True
      then obtain n where n: "r = Done n" "n \<noteq> 0" by blast
      note d = send_Done [OF r [unfolded n(1)]]
      have "gateway_upstream_write_all sk1 (drop n buf) = Some (rc, sk')"
        using "1.prems" False r n by (simp add: unroll)
      note ih = "1.IH" [OF False r refl n this]
      from ih
      consider "rc = 0" "sent sk' = sent sk1 @ drop n buf" "incoming sk' = incoming sk1"
        | k where "rc = -1" "k < length (drop n buf)" "sent sk' = sent sk1 @ take k (drop n buf)"
            "incoming sk' = incoming sk1" by blast
      then show ?thesis
      proof cases
        case 1
        with d show ?thesis by simp
      next
        case (2 k)
        then have "n + k < length buf" "sent sk' = sent sk @ take (n + k) buf" using d by (simp_all add: take_add)
        with 2 d show ?thesis by auto
      qed
    next
      case fail: False
      have "rc = -1 \<and> sk' = sk1" using "1.prems" False r fail by (auto simp: unroll split: syscall.splits if_splits)
      moreover have "sent sk1 = sent sk \<and> incoming sk1 = incoming sk"
        using send_Done [of sk buf 0 sk1] send_other [OF r] r fail by (cases r) auto
      ultimately show ?thesis using False by auto
    qed
  qed
qed

interpretation lwip: byte_writer gateway_upstream_write_all sent
  by unfold_locales (use lwip_write_effect in fastforce)+

section \<open>The connection\<close>

record ameba_upstream =
  up_io :: ws_upstream_client
  up_connected :: bool
  up_have_nonce :: bool
  up_nonce :: "byte list"
  upstream_connected :: bool
  connect_started :: bool
  connect_attempts :: nat
  last_attempt_tick :: u32
  up_last_rc :: int
  text_frames :: nat
  binary_frames :: nat
  close_frames :: nat
  last_opcode :: byte
  last_frame_len :: nat

definition closed_io :: ws_upstream_client where
  "closed_io = \<lparr>fd = None, prebuffer = None, prebuffer_off = 0\<rparr>"

definition gateway_upstream_close :: "ameba_upstream \<Rightarrow> ameba_upstream" where
  "gateway_upstream_close st =
     st\<lparr>up_io := closed_io, up_connected := False, up_have_nonce := False,
        up_nonce := replicate CRYPTO_STREAM_NONCE_SIZE 0, upstream_connected := False\<rparr>"

text \<open>
  The loop that reads the response into \<open>response[2048]\<close>: the code that goes to
  \<open>gateway_upstream_last_rc\<close>, the bytes for the prebuffer, what is left to read.
\<close>

function gateway_upstream_response ::
  "(nat \<Rightarrow> bool) \<Rightarrow> recv_event list \<Rightarrow> byte list \<Rightarrow> (int \<times> byte list option \<times> recv_event list) option" where
  "gateway_upstream_response malloc_ok es response =
     (if length response + 1 < 2048 then
        (case recv es (2048 - length response - 1) of
           None \<Rightarrow> None
         | Some (Done bs, es) \<Rightarrow>
             (case strstr (response @ bs @ [0]) (crlf @ crlf) of
                None \<Rightarrow> gateway_upstream_response malloc_ok es (response @ bs)
              | Some header_end \<Rightarrow>
                  let header_len = header_end + 4;
                      extra = length (response @ bs) - header_len
                  in if strstr (response @ bs @ [0]) (str ''101'') = None then Some (-7, None, es)
                     else if extra > 0 then
                       if malloc_ok extra then Some (0, Some (drop header_len (response @ bs)), es)
                       else Some (-8, None, es)
                     else Some (0, None, es))
         | Some (_, es) \<Rightarrow> Some (-6, None, es))
      else Some (-10, None, es))"
  by pat_completeness auto
termination
  by (relation "measure (\<lambda>(malloc_ok, es, response). script_size es)") (auto intro: recv_shrinks)

declare gateway_upstream_response.simps [simp del]

text \<open>
  What lwIP answers while connecting: the socket \<open>lwip_socket\<close> returns, which hosts \<open>inet_addr\<close>
  reads, whether \<open>lwip_connect\<close> succeeds.
\<close>

record lwip_env =
  lw_socket :: "sock option"
  lw_inet_addr :: "byte list \<Rightarrow> bool"
  lw_connect :: bool

definition start_stream :: "byte list" where
  "start_stream = str ''{'' @ [0x22] @ str ''cmd'' @ [0x22] @ str '':'' @ [0x22] @ str ''start_stream'' @ [0x22] @
     str '','' @ [0x22] @ str ''param'' @ [0x22] @ str '':{'' @ [0x22] @ str ''mirror'' @ [0x22] @ str '':1}}''"

definition start_audio_stream :: "byte list" where
  "start_audio_stream = str ''{'' @ [0x22] @ str ''cmd'' @ [0x22] @ str '':'' @ [0x22] @ str ''start_audio_stream'' @
     [0x22] @ str ''}''"

text \<open>The upgraded connection: the prebuffer is stored and the two texts are sent.\<close>

definition gateway_upstream_upgraded ::
  "(nat \<Rightarrow> bool) \<Rightarrow> sock \<Rightarrow> byte list option \<Rightarrow> ameba_upstream \<Rightarrow> (int \<times> ameba_upstream) option" where
  "gateway_upstream_upgraded malloc_ok sk pb st =
     (let io = (case pb of None \<Rightarrow> up_io st | Some b \<Rightarrow> (up_io st)\<lparr>prebuffer := Some b, prebuffer_off := 0\<rparr>);
          st = st\<lparr>up_connected := True, upstream_connected := True, up_last_rc := 0\<rparr>;
          failed = (-1, (gateway_upstream_close st)\<lparr>up_last_rc := -9\<rparr>)
      in case gateway_upstream_send_text malloc_ok sk start_stream of
           None \<Rightarrow> None
         | Some (rc, sk) \<Rightarrow>
             if rc \<noteq> 0 then Some failed
             else (case gateway_upstream_send_text malloc_ok sk start_audio_stream of
                     None \<Rightarrow> None
                   | Some (rc, sk) \<Rightarrow>
                       if rc \<noteq> 0 then Some failed else Some (0, st\<lparr>up_io := io\<lparr>fd := Some sk\<rparr>\<rparr>)))"

definition gateway_upstream_connect ::
  "(nat \<Rightarrow> bool) \<Rightarrow> lwip_env \<Rightarrow> u32 \<Rightarrow> gateway_usb \<Rightarrow> ameba_upstream \<Rightarrow> (int \<times> ameba_upstream) option" where
  "gateway_upstream_connect malloc_ok env tick usb st =
     (let st = st\<lparr>connect_started := True, last_attempt_tick := tick, connect_attempts := connect_attempts st + 1,
                 up_have_nonce := False, up_nonce := replicate CRYPTO_STREAM_NONCE_SIZE 0\<rparr>;
          failed = (\<lambda>code. Some (-1, st\<lparr>up_last_rc := code\<rparr>));
          (valid, config) = gateway_upstream_config_snapshot usb
      in if \<not> valid then failed (-12)
         else
           (case lw_socket env of
              None \<Rightarrow> failed (-1)
            | Some sk \<Rightarrow>
                let request = upgrade_request (cfg_path config) (cfg_host config) (cfg_port config) in
                if \<not> lw_inet_addr env (c_str (cfg_host config)) then failed (-2)
                else if \<not> lw_connect env then failed (-3)
                else if 512 \<le> length request then failed (-4)
                else
                  (case gateway_upstream_write_all sk request of
                     None \<Rightarrow> None
                   | Some (rc, sk) \<Rightarrow>
                       if rc \<noteq> 0 then failed (-5)
                       else
                         (case gateway_upstream_response malloc_ok (incoming sk) [] of
                            None \<Rightarrow> None
                          | Some (rc, pb, es) \<Rightarrow>
                              if rc = -8 then
                                Some (-1, st\<lparr>up_io := (up_io st)\<lparr>prebuffer := None\<rparr>, up_last_rc := rc\<rparr>)
                              else if rc \<noteq> 0 then failed rc
                              else gateway_upstream_upgraded malloc_ok (sk\<lparr>incoming := es\<rparr>) pb st))))"

lemma response_ok:
  "gateway_upstream_response malloc_ok es response = Some (rc, pb, es') \<Longrightarrow>
   rc \<in> {0, -6, -7, -8, -10} \<and>
   (rc = 0 \<longrightarrow> (\<exists>header. response @ lwip_bytes es =
      header @ crlf @ crlf @ (case pb of None \<Rightarrow> [] | Some b \<Rightarrow> b) @ lwip_bytes es' \<and>
      length header + 4 < 2048))"
proof (induction malloc_ok es response rule: gateway_upstream_response.induct)
  case (1 malloc_ok es response)
  note unroll = gateway_upstream_response.simps [of malloc_ok es response]
  show ?case
  proof (cases "length response + 1 < 2048")
    case False
    with "1.prems" show ?thesis by (auto simp: unroll)
  next
    case lt: True
    obtain r es1 where r: "recv es (2048 - length response - 1) = Some (r, es1)"
      using "1.prems" lt by (cases "recv es (2048 - length response - 1)") (auto simp: unroll)
    show ?thesis
    proof (cases "\<exists>bs. r = Done bs")
      case False
      then have "rc = -6" using "1.prems" lt r by (cases r) (auto simp: unroll)
      then show ?thesis by simp
    next
      case True
      then obtain bs where Done: "r = Done bs" by blast
      let ?all = "response @ bs"
      have d: "length bs \<le> 2048 - length response - 1" "lwip_bytes es = bs @ lwip_bytes es1"
        using recv_lwip(1) [OF r [unfolded Done]] lt by simp_all
      show ?thesis
      proof (cases "strstr (response @ bs @ [0]) (crlf @ crlf)")
        case None
        have "gateway_upstream_response malloc_ok es1 ?all = Some (rc, pb, es')"
          using "1.prems" lt r Done None by (simp add: unroll)
        from "1.IH" [OF lt r refl Done None this] d(2) show ?thesis by simp
      next
        case (Some h)
        have found: "strstr (?all @ [0]) (crlf @ crlf) = Some h" using Some by simp
        note pos = header_split(1) [OF found] and split = header_split(2) [OF found]
        have run: "gateway_upstream_response malloc_ok es response =
            (let extra = length ?all - (h + 4)
             in if strstr (?all @ [0]) (str ''101'') = None then Some (-7, None, es1)
                else if extra > 0 then
                  if malloc_ok extra then Some (0, Some (drop (h + 4) ?all), es1)
                  else Some (-8, None, es1)
                else Some (0, None, es1))"
          using lt r Done Some by (simp add: unroll Let_def)
        show ?thesis
        proof (cases "rc = 0")
          case True
          with run "1.prems" have e: "es' = es1" "(case pb of None \<Rightarrow> [] | Some b \<Rightarrow> b) = drop (h + 4) ?all"
            by (auto simp: Let_def split: if_splits)
          have "response @ lwip_bytes es = ?all @ lwip_bytes es1" using d(2) by simp
          also have "\<dots> = take h ?all @ crlf @ crlf @ drop (h + 4) ?all @ lwip_bytes es1"
            by (rule trans [OF arg_cong [OF split, of "\<lambda>u. u @ lwip_bytes es1"]]) (simp only: append_assoc)
          finally have "response @ lwip_bytes es = take h ?all @ crlf @ crlf @
              (case pb of None \<Rightarrow> [] | Some b \<Rightarrow> b) @ lwip_bytes es'"
            unfolding e .
          moreover have "length (take h ?all) + 4 < 2048" using pos d(1) lt by simp
          ultimately show ?thesis using True by blast
        next
          case False
          with run "1.prems" show ?thesis by (auto simp: Let_def split: if_splits)
        qed
      qed
    qed
  qed
qed

text \<open>What a text puts on the wire.\<close>

definition text_wire :: "byte list \<Rightarrow> byte list" where
  "text_wire msg = masked_header 0x1 (length msg) gateway_upstream_key @ ws_mask gateway_upstream_key msg"

lemma send_text_effect:
  assumes "gateway_upstream_send_text malloc_ok sk msg = Some (rc, sk')" and "0 \<notin> set msg"
  shows "incoming sk' = incoming sk \<and> (rc = 0 \<longrightarrow> sent sk' = sent sk @ text_wire msg)"
proof -
  have m: "c_str (msg @ [0]) = msg" using assms(2) unfolding c_str_def by (induction msg) auto
  let ?h = "masked_header 0x1 (length msg) gateway_upstream_key"
  obtain rc1 sk1 where w1: "gateway_upstream_write_all sk ?h = Some (rc1, sk1)"
    using assms(1) by (cases "gateway_upstream_write_all sk ?h")
      (auto simp: gateway_upstream_send_text_def gateway_upstream_send_masked_frame_def m)
  note e1 = lwip_write_effect [OF w1]
  show ?thesis
  proof (cases "rc1 = 0 \<and> msg \<noteq> [] \<and> malloc_ok (length msg)")
    case True
    then have "gateway_upstream_write_all sk1 (ws_mask gateway_upstream_key msg) = Some (rc, sk')"
      using assms(1) w1 by (simp add: gateway_upstream_send_text_def gateway_upstream_send_masked_frame_def m)
    from lwip_write_effect [OF this] e1 True show ?thesis by (auto simp: text_wire_def)
  next
    case False
    then have "sk' = sk1 \<and> (rc = 0 \<longrightarrow> rc1 = 0 \<and> msg = [])"
      using assms(1) w1
      by (auto simp: gateway_upstream_send_text_def gateway_upstream_send_masked_frame_def m split: if_splits)
    with e1 show ?thesis by (auto simp: text_wire_def ws_mask_def)
  qed
qed

lemma start_texts_nul: "0 \<notin> set start_stream" "0 \<notin> set start_audio_stream"
  by (simp_all add: start_stream_def start_audio_stream_def)

section \<open>The invariant of the connection\<close>

text \<open>
  The flags agree with the socket, a closed connection keeps nothing, and a nonce that is there is a
  whole one.
\<close>

definition upstream_ok :: "ameba_upstream \<Rightarrow> bool" where
  "upstream_ok st \<longleftrightarrow>
     (up_connected st \<longleftrightarrow> fd (up_io st) \<noteq> None) \<and> (upstream_connected st \<longleftrightarrow> up_connected st) \<and>
     (up_have_nonce st \<longrightarrow> up_connected st) \<and> length (up_nonce st) = CRYPTO_STREAM_NONCE_SIZE \<and>
     (up_connected st \<or> up_io st = closed_io)"

lemma close_upstream_ok [simp]: "upstream_ok (gateway_upstream_close st)"
  by (simp add: upstream_ok_def gateway_upstream_close_def closed_io_def)

lemma upgraded_cases:
  assumes "gateway_upstream_upgraded malloc_ok sk pb st = Some (rc, st')"
  shows "(\<exists>sk'. rc = 0 \<and> incoming sk' = incoming sk \<and>
      sent sk' = sent sk @ text_wire start_stream @ text_wire start_audio_stream \<and>
      st' = st\<lparr>up_connected := True, upstream_connected := True, up_last_rc := 0,
        up_io := (case pb of None \<Rightarrow> up_io st | Some b \<Rightarrow> (up_io st)\<lparr>prebuffer := Some b, prebuffer_off := 0\<rparr>)
          \<lparr>fd := Some sk'\<rparr>\<rparr>) \<or>
    (rc = -1 \<and> st' = (gateway_upstream_close st)\<lparr>up_last_rc := -9\<rparr>)"
proof -
  have closed: "(gateway_upstream_close (st\<lparr>up_connected := True, upstream_connected := True, up_last_rc := 0\<rparr>))\<lparr>up_last_rc := -9\<rparr> =
      (gateway_upstream_close st)\<lparr>up_last_rc := -9\<rparr>"
    by (simp add: gateway_upstream_close_def)
  obtain rc1 sk1 where t1: "gateway_upstream_send_text malloc_ok sk start_stream = Some (rc1, sk1)"
    using assms by (cases "gateway_upstream_send_text malloc_ok sk start_stream") (auto simp: gateway_upstream_upgraded_def)
  show ?thesis
  proof (cases "rc1 = 0")
    case False
    with assms t1 show ?thesis by (simp add: gateway_upstream_upgraded_def Let_def closed)
  next
    case True
    obtain rc2 sk2 where t2: "gateway_upstream_send_text malloc_ok sk1 start_audio_stream = Some (rc2, sk2)"
      using assms t1 True
      by (cases "gateway_upstream_send_text malloc_ok sk1 start_audio_stream") (auto simp: gateway_upstream_upgraded_def)
    from assms t1 t2 True send_text_effect [OF t1 start_texts_nul(1)] send_text_effect [OF t2 start_texts_nul(2)]
    show ?thesis by (cases "rc2 = 0") (auto simp: gateway_upstream_upgraded_def Let_def closed)
  qed
qed

end
