(* ===== verification/AmebaTask.thy ===== *)
theory AmebaTask
  imports AmebaUpstream
begin

text \<open>
  The Ameba board's main task (\<open>gateway_ameba_task\<close>, \<open>gateway_upstream_poll\<close>,
  \<open>gateway_cpu_update_sample\<close> in \<open>ameba_gateway/example_gateway_ameba.c\<close>): connecting, polling
  the upstream and handing its media to the USB side, the retry timer, the CPU statistics; and the
  invariant of the whole.
\<close>

section \<open>Connecting\<close>

definition attempt :: "u32 \<Rightarrow> ameba_upstream \<Rightarrow> ameba_upstream" where
  "attempt tick st = st\<lparr>connect_started := True, last_attempt_tick := tick, connect_attempts := connect_attempts st + 1,
     up_have_nonce := False, up_nonce := replicate CRYPTO_STREAM_NONCE_SIZE 0\<rparr>"

lemma attempt_frame [simp]:
  "up_io (attempt tick st) = up_io st" "up_connected (attempt tick st) = up_connected st"
  by (simp_all add: attempt_def)

lemma attempt_ok [simp]: "upstream_ok st \<Longrightarrow> upstream_ok (attempt tick st)"
  unfolding upstream_ok_def attempt_def by auto

lemma upstream_ok_rc [simp]: "upstream_ok (st\<lparr>up_last_rc := rc\<rparr>) = upstream_ok st"
  by (simp add: upstream_ok_def)

lemma connect_stream:
  assumes "gateway_upstream_connect malloc_ok env tick usb st = Some (rc, st')"
    and "upstream_ok st" and "\<not> up_connected st"
  shows "upstream_ok st' \<and>
    (rc = 0 \<and> up_connected st' \<and> up_last_rc st' = 0 \<and> cfg_valid (upstream_cfg usb) \<and>
       (\<exists>sk header. lw_socket env = Some sk \<and>
         lwip_bytes (incoming sk) = header @ crlf @ crlf @ upstream_bytes (up_io st') \<and> length header + 4 < 2048 \<and>
         fd_sent (fd (up_io st')) = sent sk @
           upgrade_request (cfg_path (upstream_cfg usb)) (cfg_host (upstream_cfg usb)) (cfg_port (upstream_cfg usb)) @
           text_wire start_stream @ text_wire start_audio_stream) \<or>
     rc = -1 \<and> \<not> up_connected st' \<and> up_last_rc st' \<in> {-12, -10, -9, -8, -7, -6, -5, -4, -3, -2, -1})"
proof -
  let ?st = "attempt tick st" and ?cfg = "upstream_cfg usb"
  let ?req = "upgrade_request (cfg_path ?cfg) (cfg_host ?cfg) (cfg_port ?cfg)"
  have io: "up_io st = closed_io" using assms(2,3) by (simp add: upstream_ok_def)
  have failed: ?thesis if "rc = -1" "st' = ?st\<lparr>up_last_rc := code\<rparr>"
      "code \<in> {-12, -10, -9, -8, -7, -6, -5, -4, -3, -2, -1}" for code
    using that assms(2,3) by simp
  note unfold = gateway_upstream_connect_def Let_def attempt_def [symmetric] gateway_upstream_config_snapshot_def
    prod.case
  show ?thesis
  proof (cases "cfg_valid ?cfg \<and> lw_socket env \<noteq> None \<and> lw_inet_addr env (c_str (cfg_host ?cfg)) \<and>
      lw_connect env \<and> length ?req < 512")
    case False
    then have "\<exists>code \<in> {-12, -1, -2, -3, -4}. rc = -1 \<and> st' = ?st\<lparr>up_last_rc := code\<rparr>"
      using assms(1) unfolding unfold by (auto split: option.splits if_splits)
    then show ?thesis using failed by blast
  next
    case True
    then obtain sk where sk: "lw_socket env = Some sk" by blast
    obtain rc1 sk1 where w: "gateway_upstream_write_all sk ?req = Some (rc1, sk1)"
      using assms(1) True sk unfolding unfold by (cases "gateway_upstream_write_all sk ?req") auto
    note e1 = lwip_write_effect [OF w]
    show ?thesis
    proof (cases "rc1 = 0")
      case False
      have "rc = -1 \<and> st' = ?st\<lparr>up_last_rc := -5\<rparr>"
        using assms(1) True sk w False unfolding unfold by simp
      with failed show ?thesis by blast
    next
      case ok: True
      obtain rc2 pb es where r: "gateway_upstream_response malloc_ok (incoming sk1) [] = Some (rc2, pb, es)"
        using assms(1) True sk w ok unfolding unfold
        by (cases "gateway_upstream_response malloc_ok (incoming sk1) []") auto
      note resp = response_ok [OF r]
      have run: "(if rc2 = -8 then Some (-1, ?st\<lparr>up_io := (up_io ?st)\<lparr>prebuffer := None\<rparr>, up_last_rc := rc2\<rparr>)
          else if rc2 \<noteq> 0 then Some (-1, ?st\<lparr>up_last_rc := rc2\<rparr>)
          else gateway_upstream_upgraded malloc_ok (sk1\<lparr>incoming := es\<rparr>) pb ?st) = Some (rc, st')"
        using assms(1) True sk w ok r unfolding unfold by simp
      show ?thesis
      proof (cases "rc2 = 0")
        case False
        have same: "?st\<lparr>up_io := closed_io\<lparr>prebuffer := None\<rparr>, up_last_rc := x\<rparr> = ?st\<lparr>up_last_rc := x\<rparr>" for x
          using io by (cases st) (simp add: closed_io_def attempt_def)
        have "rc = -1 \<and> st' = ?st\<lparr>up_last_rc := rc2\<rparr>"
          using run False io same [of "-8"] by (auto split: if_splits)
        then show ?thesis using failed [of rc2] resp False by auto
      next
        case True
        then have "gateway_upstream_upgraded malloc_ok (sk1\<lparr>incoming := es\<rparr>) pb ?st = Some (rc, st')"
          using run by simp
        from upgraded_cases [OF this] show ?thesis
        proof (elim disjE exE conjE)
          assume "rc = -1" "st' = (gateway_upstream_close ?st)\<lparr>up_last_rc := -9\<rparr>"
          then show ?thesis by (simp add: gateway_upstream_close_def upstream_ok_def closed_io_def)
        next
          fix sk'
          assume c: "rc = 0" "incoming sk' = incoming (sk1\<lparr>incoming := es\<rparr>)"
            "sent sk' = sent (sk1\<lparr>incoming := es\<rparr>) @ text_wire start_stream @ text_wire start_audio_stream"
            "st' = ?st\<lparr>up_connected := True, upstream_connected := True, up_last_rc := 0,
              up_io := (case pb of None \<Rightarrow> up_io ?st | Some b \<Rightarrow> (up_io ?st)\<lparr>prebuffer := Some b, prebuffer_off := 0\<rparr>)
                \<lparr>fd := Some sk'\<rparr>\<rparr>"
          obtain header where h: "lwip_bytes (incoming sk1) =
              header @ crlf @ crlf @ (case pb of None \<Rightarrow> [] | Some b \<Rightarrow> b) @ lwip_bytes es" "length header + 4 < 2048"
            using resp True by auto
          have "upstream_bytes (up_io st') = (case pb of None \<Rightarrow> [] | Some b \<Rightarrow> b) @ lwip_bytes es"
            using c(2) by (simp add: c(4) io upstream_bytes_def unread_def fd_script_def closed_io_def split: option.split)
          moreover have "fd (up_io st') = Some sk'" by (simp add: c(4))
          moreover have "upstream_ok st'" by (simp add: c(4) upstream_ok_def attempt_def)
          ultimately show ?thesis
            using c(1,3) h e1 ok sk \<open>cfg_valid ?cfg \<and> _\<close> by (simp add: c(4) fd_sent_def)
        qed
      qed
    qed
  qed
qed

text \<open>
  C9: what a connection attempt of the board does.  When it returns 0, the configuration was valid,
  exactly the upgrade request and the two start texts went out, what the peer sent starts with a
  header of fewer than 2044 bytes and an empty line, and the connection reads exactly what follows
  it.  Otherwise the connection is closed and the reason is one of the listed codes.  Both keep the
  connection's invariant.
\<close>

theorem ameba_connect_stream:
  assumes "gateway_upstream_connect malloc_ok env tick usb st = Some (rc, st')"
    and "upstream_ok st" and "\<not> up_connected st"
  shows "upstream_ok st' \<and>
    (rc = 0 \<and> up_connected st' \<and> up_last_rc st' = 0 \<and> cfg_valid (upstream_cfg usb) \<and>
       (\<exists>sk header. lw_socket env = Some sk \<and>
         lwip_bytes (incoming sk) = header @ crlf @ crlf @ upstream_bytes (up_io st') \<and> length header + 4 < 2048 \<and>
         fd_sent (fd (up_io st')) = sent sk @
           upgrade_request (cfg_path (upstream_cfg usb)) (cfg_host (upstream_cfg usb)) (cfg_port (upstream_cfg usb)) @
           text_wire start_stream @ text_wire start_audio_stream) \<or>
     rc = -1 \<and> \<not> up_connected st' \<and> up_last_rc st' \<in> {-12, -10, -9, -8, -7, -6, -5, -4, -3, -2, -1})"
  by (rule connect_stream [OF assms])

section \<open>Polling the upstream\<close>

text \<open>A binary frame: its plaintext is handed to the USB side.\<close>

definition gateway_upstream_media ::
  "cipher \<Rightarrow> (nat \<Rightarrow> bool) \<Rightarrow> bool \<Rightarrow> byte list option \<Rightarrow> ameba_upstream \<Rightarrow> gateway_usb \<Rightarrow> gateway_usb" where
  "gateway_upstream_media chacha20_xor malloc_ok usb_alloc payload st usb =
     (let len = (case payload of None \<Rightarrow> 0 | Some p \<Rightarrow> length p) in
      if \<not> up_have_nonce st \<or> \<not> malloc_ok len then usb
      else
        let r = crypto_stream_decrypt_packet chacha20_xor (Some (replicate len 0)) len (Some 0) (Some 0)
                  (Some (up_nonce st)) payload len;
            plain_len = dr_rc r
        in if plain_len > 0 then
             gateway_usb_forward chacha20_xor usb_alloc (the (dr_stream_id r)) (the (dr_seq_no r))
               (take (nat plain_len) (the (dr_plaintext r))) usb
           else usb)"

text \<open>
  \<open>readable\<close> is what \<open>lwip_select\<close> says of the socket.  A read that blocks for ever makes the poll
  block.
\<close>

definition gateway_upstream_poll ::
  "cipher \<Rightarrow> libc \<Rightarrow> (nat \<Rightarrow> bool) \<Rightarrow> bool \<Rightarrow> bool \<Rightarrow> ameba_upstream \<times> gateway_usb \<Rightarrow>
   (ameba_upstream \<times> gateway_usb) outcome option" where
  "gateway_upstream_poll chacha20_xor env malloc_ok usb_alloc readable stu =
     (case stu of (st, usb) \<Rightarrow>
        if \<not> up_connected st \<or> fd (up_io st) = None \<or> \<not> readable then Some (Ret (st, usb))
        else
          (case gateway_upstream_recv_frame malloc_ok (up_io st) of
             None \<Rightarrow> None
           | Some (None, io) \<Rightarrow>
               Some (Ret (gateway_upstream_close (st\<lparr>up_io := io, up_last_rc := -11\<rparr>), usb))
           | Some (Some (opcode, payload), io) \<Rightarrow>
               let st = st\<lparr>up_io := io, last_opcode := opcode,
                          last_frame_len := (case payload of None \<Rightarrow> 0 | Some p \<Rightarrow> length p)\<rparr>
               in if opcode = 0x1 then
                    Some (obind (gateway_parse_crypto_init env (case payload of None \<Rightarrow> [] | Some p \<Rightarrow> p)
                                   (up_nonce st, up_have_nonce st)) (\<lambda>(rc, sn, have).
                          Ret (st\<lparr>text_frames := text_frames st + 1, up_nonce := sn, up_have_nonce := have\<rparr>, usb)))
                  else if opcode = 0x2 then
                    Some (Ret (st\<lparr>binary_frames := binary_frames st + 1\<rparr>,
                               gateway_upstream_media chacha20_xor malloc_ok usb_alloc payload st usb))
                  else if opcode = 0x8 then
                    Some (Ret (gateway_upstream_close (st\<lparr>close_frames := close_frames st + 1\<rparr>), usb))
                  else Some (Ret (st, usb))))"

text \<open>
  C8: a media packet the upstream sealed under the session's nonce and sent in a binary frame reaches
  the USB side: with a ready host, the queue of the transmit ring grows by the packet sealed again for
  the USB link (preceded by the announcement if that is still due), or the packet is dropped whole; and
  the upstream is left exactly behind the frame.
\<close>

theorem ameba_forwards_media:
  assumes "xor_stream_cipher c" and "upstream_ok st" and "up_have_nonce st"
    and "8 + length pt < 2 ^ 31" and "pt \<noteq> []" and "usb_ok usb"
    and "upstream_bytes (up_io st) = frame_bytes 0x82 key (packet_wire c sid seq (up_nonce st) pt) @ rest"
    and "\<forall>k. key = Some k \<longrightarrow> length k = 4" and "malloc_ok (8 + length pt)"
  shows "\<exists>st' usb'. gateway_upstream_poll c env malloc_ok usb_alloc True (st, usb) = Some (Ret (st', usb')) \<and>
    upstream_bytes (up_io st') = rest \<and> usb' = gateway_usb_forward c usb_alloc sid seq pt usb \<and>
    (let start = (if proto_init_sent usb then [] else init_wire default_info) in
     ring_queued (us_ring usb') \<in>
       {ring_queued (us_ring usb) @ start @ media_packet c sid seq pt, ring_queued (us_ring usb) @ start,
        ring_queued (us_ring usb)})"
proof -
  let ?pkt = "packet_wire c sid seq (up_nonce st) pt"
  have len: "length ?pkt = 8 + length pt" by (rule length_packet_wire [OF assms(1)])
  then have ne: "?pkt \<noteq> []" by auto
  obtain sk where up: "up_connected st" "fd (up_io st) = Some sk" using assms(2,3) by (auto simp: upstream_ok_def)
  then have wf: "fd (up_io st) \<noteq> None" by simp
  obtain io where io: "recv_frame_via gateway_upstream_read_some 32 malloc_ok (up_io st) =
      Some (Some (0x82 AND 0x0F, Some ?pkt), io)" "upstream_bytes io = rest"
    by (rule ameba.recv_frame_ok [OF wf assms(7), of 32 malloc_ok]) (use assms ne len in simp_all)
  let ?st = "st\<lparr>up_io := io, last_opcode := 2, last_frame_len := 8 + length pt\<rparr>"
  have d: "crypto_stream_decrypt_packet c (Some (replicate (8 + length pt) 0)) (8 + length pt) (Some 0) (Some 0)
      (Some (up_nonce st)) (Some ?pkt) (8 + length pt) =
      \<lparr>dr_rc = int (length pt), dr_plaintext = Some (pt @ replicate 8 0), dr_stream_id = Some sid, dr_seq_no = Some seq\<rparr>"
    using decrypt_packet_wire [OF assms(1,4), of "8 + length pt" "replicate (8 + length pt) 0" 0 0 "up_nonce st" sid seq "[]"]
    by simp
  have m: "gateway_upstream_media c malloc_ok usb_alloc (Some ?pkt) ?st usb = gateway_usb_forward c usb_alloc sid seq pt usb"
    using assms(3,5,9) d by (simp add: gateway_upstream_media_def len Let_def)
  have "gateway_upstream_poll c env malloc_ok usb_alloc True (st, usb) =
      Some (Ret (?st\<lparr>binary_frames := binary_frames st + 1\<rparr>, gateway_usb_forward c usb_alloc sid seq pt usb))"
    using up io(1) m by (simp add: gateway_upstream_poll_def gateway_upstream_recv_frame_def len)
  then show ?thesis
    using io(2) forward_cases [OF assms(6,1,4), of usb_alloc sid seq] by (auto simp: Let_def)
qed

text \<open>Connected, with a nonce, and the frame in the prebuffer.\<close>

definition demo_upstream :: ameba_upstream where
  "demo_upstream =
     \<lparr>up_io = \<lparr>fd = Some demo_sock,
        prebuffer = Some (frame_bytes 0x82 None (packet_wire toy_cipher 1 5 (replicate 12 7) [0x65, 1])),
        prebuffer_off = 0\<rparr>,
      up_connected = True, up_have_nonce = True, up_nonce = replicate 12 7, upstream_connected = True,
      connect_started = True, connect_attempts = 1, last_attempt_tick = 0, up_last_rc = 0, text_frames = 1,
      binary_frames = 0, close_frames = 0, last_opcode = 1, last_frame_len = 0\<rparr>"

theorem ameba_forwards_media_witness:
  "\<exists>st' usb'. gateway_upstream_poll toy_cipher demo_libc (\<lambda>_. True) True True (demo_upstream, usb_boot []) =
     Some (Ret (st', usb')) \<and> usb' = gateway_usb_forward toy_cipher True 1 5 [0x65, 1] (usb_boot [])"
proof -
  have usb: "usb_ok (usb_boot [])" using usb_boot_inv [of "\<lambda>_. True" "[]"] by (simp add: usb_inv_def)
  have ok: "upstream_ok demo_upstream" by (simp add: upstream_ok_def demo_upstream_def)
  have nonce: "up_nonce demo_upstream = replicate 12 7" by (simp add: demo_upstream_def)
  show ?thesis
    using ameba_forwards_media [of toy_cipher demo_upstream "[0x65, 1]" "usb_boot []" None 1 5
        "lwip_bytes (incoming demo_sock)" "\<lambda>_. True" demo_libc True, OF toy_cipher_xor ok _ _ _ usb]
    unfolding nonce by (auto simp: demo_upstream_def upstream_bytes_def unread_def fd_script_def)
qed

section \<open>The CPU statistics\<close>

record cpu_stats =
  last_total :: u32
  last_busy :: u32
  busy_pct :: u32
  idle_pct :: u32
  sample_ticks :: u32
  busy_history :: "u32 list"
  history_sum :: u32
  history_index :: nat
  history_count :: nat

text \<open>\<open>unsigned long\<close> has 32 bits, so the product with 100 wraps.\<close>

definition gateway_cpu_update_sample :: "u32 \<Rightarrow> u32 \<Rightarrow> cpu_stats \<Rightarrow> cpu_stats" where
  "gateway_cpu_update_sample tick_total tick_busy s =
     (let delta_total = tick_total - last_total s;
          delta_busy = tick_busy - last_busy s;
          s = s\<lparr>last_total := tick_total, last_busy := tick_busy, sample_ticks := delta_total\<rparr>
      in if delta_total = 0 then s\<lparr>busy_pct := 0, idle_pct := 0\<rparr>
         else
           let delta_busy = (if delta_busy > delta_total then delta_total else delta_busy);
               pct = (delta_busy * 100 + delta_total div 2) div delta_total;
               pct = (if pct > 100 then 100 else pct);
               rest = history_sum s - busy_history s ! history_index s;
               hist = (busy_history s)[history_index s := pct];
               hsum = rest + pct;
               index = (history_index s + 1) mod 10;
               n = (if history_count s < 10 then history_count s + 1 else history_count s);
               avg = hsum div word_of_nat n
           in s\<lparr>busy_history := hist, history_sum := hsum, history_index := index, history_count := n,
                busy_pct := avg, idle_pct := 100 - avg\<rparr>)"

definition cpu_boot :: cpu_stats where
  "cpu_boot = \<lparr>last_total = 0, last_busy = 0, busy_pct = 0, idle_pct = 0, sample_ticks = 0,
     busy_history = replicate 10 0, history_sum = 0, history_index = 0, history_count = 0\<rparr>"

text \<open>
  The history is a ring of percentages whose sum is kept; before it is full, the index is the number
  of samples and the rest is zero.
\<close>

definition cpu_ok :: "cpu_stats \<Rightarrow> bool" where
  "cpu_ok s \<longleftrightarrow> length (busy_history s) = 10 \<and> list_all (\<lambda>p. p \<le> 100) (busy_history s) \<and>
     history_index s < 10 \<and> history_count s \<le> 10 \<and> (history_count s < 10 \<longrightarrow> history_index s = history_count s) \<and>
     unat (history_sum s) = sum_list (map unat (busy_history s)) \<and>
     drop (history_count s) (busy_history s) = replicate (10 - history_count s) 0"

lemma sum_list_le: "list_all (\<lambda>p. p \<le> b) xs \<Longrightarrow> sum_list (map unat xs) \<le> length xs * unat b"
  for b :: u32
  by (induction xs) (auto simp: word_le_nat_alt)

lemma sum_list_replace:
  "i < length xs \<Longrightarrow> sum_list (map unat (xs[i := p])) + unat (xs ! i) = sum_list (map unat xs) + unat p"
  for p :: u32
  by (induction xs arbitrary: i) (auto split: nat.split simp: less_Suc_eq_0_disj)

text \<open>One entry replaced: the sum follows, the tail stays empty.\<close>

lemma history_update:
  assumes ok: "cpu_ok s" and p: "pct \<le> (100 :: u32)"
    and n: "n = (if history_count s < 10 then history_count s + 1 else history_count s)"
    and hist: "hist = (busy_history s)[history_index s := pct]"
    and hsum: "hsum = history_sum s - busy_history s ! history_index s + pct"
  shows "unat hsum = sum_list (map unat hist)" and "list_all (\<lambda>p. p \<le> 100) hist"
    and "drop n hist = replicate (10 - n) 0" and "unat hsum \<le> n * 100"
proof -
  let ?xs = "busy_history s" and ?i = "history_index s"
  from ok have xs: "length ?xs = 10" "list_all (\<lambda>p. p \<le> 100) ?xs" and i: "?i < 10" "?i < length ?xs"
    and c: "history_count s \<le> 10" "history_count s < 10 \<Longrightarrow> ?i = history_count s"
    and s: "unat (history_sum s) = sum_list (map unat ?xs)"
    and z: "drop (history_count s) ?xs = replicate (10 - history_count s) 0"
    by (simp_all add: cpu_ok_def)
  have total: "unat (history_sum s) \<le> 1000"
    using sum_list_le [OF xs(2)] xs(1) s by simp
  have entry: "unat (?xs ! ?i) \<le> sum_list (map unat ?xs)"
    using i(2) by (intro member_le_sum_list) auto
  have small: "unat pct \<le> 100" using p by (simp add: word_le_nat_alt)
  have "unat (history_sum s - ?xs ! ?i) = unat (history_sum s) - unat (?xs ! ?i)"
    using entry s by (intro unat_sub) (simp add: word_le_nat_alt)
  then have "unat hsum = unat (history_sum s) - unat (?xs ! ?i) + unat pct"
    unfolding hsum using total small by (subst unat_add_lem [THEN iffD1]) simp_all
  with sum_list_replace [OF i(2), of pct] entry s
  show sum_hist: "unat hsum = sum_list (map unat hist)" unfolding hist by linarith
  show all: "list_all (\<lambda>p. p \<le> 100) hist"
    using xs(2) p unfolding hist by (auto simp: list_all_iff dest: set_update_subset_insert [THEN subsetD])
  show tail: "drop n hist = replicate (10 - n) 0"
  proof (cases "history_count s < 10")
    case False
    then show ?thesis using n xs(1) hist c(1) by simp
  next
    case True
    have "drop (Suc ?i) ?xs = replicate (10 - Suc ?i) 0"
      using z c(2) [OF True] by (metis Suc_diff_Suc drop_Suc i(1) replicate_Suc list.sel(3) tl_drop)
    then show ?thesis using n c(2) [OF True] True by (simp add: hist drop_update_cancel)
  qed
  have l: "length hist = 10" using xs(1) by (simp add: hist)
  have "sum_list (map unat hist) = sum_list (map unat (take n hist)) + sum_list (map unat (drop n hist))"
    by (metis append_take_drop_id map_append sum_list_append)
  also have "\<dots> = sum_list (map unat (take n hist))" by (simp add: tail sum_list_replicate)
  also have "\<dots> \<le> n * 100"
  proof -
    have "list_all (\<lambda>p. p \<le> 100) (take n hist)" using all by (auto simp: list_all_iff dest: in_set_takeD)
    from sum_list_le [OF this] have "sum_list (map unat (take n hist)) \<le> length (take n hist) * 100" by simp
    also have "\<dots> \<le> n * 100" by simp
    finally show ?thesis .
  qed
  finally show "unat hsum \<le> n * 100" using sum_hist by simp
qed

lemma cpu_update_mean:
  assumes "cpu_ok s"
  shows "cpu_ok (gateway_cpu_update_sample tick_total tick_busy s) \<and>
    (tick_total \<noteq> last_total s \<longrightarrow>
       (let s' = gateway_cpu_update_sample tick_total tick_busy s in
        0 < history_count s' \<and>
        unat (busy_pct s') = sum_list (map unat (busy_history s')) div history_count s' \<and>
        unat (busy_pct s') \<le> 100 \<and> unat (idle_pct s') = 100 - unat (busy_pct s')))"
proof (cases "tick_total = last_total s")
  case True
  have "gateway_cpu_update_sample tick_total tick_busy s =
      s\<lparr>last_total := tick_total, last_busy := tick_busy, sample_ticks := 0, busy_pct := 0, idle_pct := 0\<rparr>"
    using True by (simp add: gateway_cpu_update_sample_def)
  with True assms show ?thesis by (simp add: cpu_ok_def)
next
  case False
  let ?dt = "tick_total - last_total s" and ?db = "tick_busy - last_busy s"
  define pct where "pct = (let p = ((if ?db > ?dt then ?dt else ?db) * 100 + ?dt div 2) div ?dt in if p > 100 then 100 else p)"
  define n where "n = (if history_count s < 10 then history_count s + 1 else history_count s)"
  define hist where "hist = (busy_history s)[history_index s := pct]"
  define hsum where "hsum = history_sum s - busy_history s ! history_index s + pct"
  let ?avg = "hsum div word_of_nat n"
  have "?dt \<noteq> 0" using False by simp
  then have s': "gateway_cpu_update_sample tick_total tick_busy s =
      s\<lparr>last_total := tick_total, last_busy := tick_busy, sample_ticks := ?dt, busy_history := hist, history_sum := hsum,
        history_index := (history_index s + 1) mod 10, history_count := n, busy_pct := ?avg, idle_pct := 100 - ?avg\<rparr>"
    unfolding gateway_cpu_update_sample_def Let_def pct_def n_def hist_def hsum_def by simp
  have "(if p > 100 then 100 else p) \<le> 100" for p :: u32 by auto
  then have p: "pct \<le> 100" unfolding pct_def Let_def .
  note h = history_update [OF assms p n_def hist_def hsum_def]
  have n: "0 < n" "n \<le> 10" using assms by (auto simp: n_def cpu_ok_def)
  have un: "unat (word_of_nat n :: u32) = n" using n(2) by (intro unat_word_of_nat) simp
  have avg: "unat ?avg = unat hsum div n" by (simp add: unat_div_distrib un)
  have le: "unat ?avg \<le> 100"
    using h(4) n(1) unfolding avg by (metis div_le_mono nonzero_mult_div_cancel_left less_numeral_extra(3))
  then have idle: "unat (100 - ?avg) = 100 - unat ?avg" by (subst unat_sub) (simp_all add: word_le_nat_alt)
  have idx: "(history_index s + 1) mod 10 < 10" "n < 10 \<Longrightarrow> (history_index s + 1) mod 10 = n"
    using assms by (auto simp: cpu_ok_def n_def split: if_splits)
  have "cpu_ok (gateway_cpu_update_sample tick_total tick_busy s)"
    using assms h n(2) idx by (simp add: s' cpu_ok_def hist_def)
  with n(1) avg le idle h(1) show ?thesis by (simp add: s' Let_def)
qed

lemma cpu_boot_ok: "cpu_ok cpu_boot"
  by (simp add: cpu_ok_def cpu_boot_def list_all_iff)

text \<open>
  What the statistics promise: the samples of a run of tick counter readings are the percentages of the ticks between one
  reading and the next, those without a tick left out; the window is the last ten of them.
\<close>

definition cpu_pct :: "nat \<Rightarrow> nat \<Rightarrow> nat" where
  "cpu_pct dt db = min 100 (((min db dt * 100 + dt div 2) mod 2 ^ 32) div dt)"

fun cpu_samples :: "u32 \<Rightarrow> u32 \<Rightarrow> (u32 \<times> u32) list \<Rightarrow> nat list" where
  "cpu_samples lt lb [] = []"
| "cpu_samples lt lb ((t, b) # ticks) =
     (if t = lt then [] else [cpu_pct (unat (t - lt)) (unat (b - lb))]) @ cpu_samples t b ticks"

definition last_ten :: "nat list \<Rightarrow> nat list" where
  "last_ten xs = drop (length xs - 10) xs"

definition cpu_run :: "(u32 \<times> u32) list \<Rightarrow> cpu_stats \<Rightarrow> cpu_stats" where
  "cpu_run ticks s = foldl (\<lambda>s (t, b). gateway_cpu_update_sample t b s) s ticks"

lemma cpu_pct_update:
  fixes dt db :: u32
  assumes "dt \<noteq> 0"
  shows "unat (let p = ((if db > dt then dt else db) * 100 + dt div 2) div dt in if p > 100 then 100 else p) =
    cpu_pct (unat dt) (unat db)"
proof -
  let ?d = "if db > dt then dt else db"
  have d: "unat ?d = min (unat db) (unat dt)" by (auto simp: word_less_nat_alt)
  have "unat ((?d * 100 + dt div 2) div dt) = unat (?d * 100 + dt div 2) div unat dt" by (simp only: unat_div_distrib)
  also have "unat (?d * 100 + dt div 2) = (unat ?d * 100 + unat dt div 2) mod 2 ^ 32"
    by (simp add: unat_word_ariths unat_div_distrib mod_simps)
  finally have q: "unat ((?d * 100 + dt div 2) div dt) = ((min (unat db) (unat dt) * 100 + unat dt div 2) mod 2 ^ 32) div unat dt"
    by (simp only: d)
  show ?thesis unfolding cpu_pct_def q [symmetric] Let_def by (simp add: word_less_nat_alt min_def)
qed

text \<open>The ring of percentages, read from its oldest entry, is the window over the samples.\<close>

definition cpu_history :: "cpu_stats \<Rightarrow> nat list" where
  "cpu_history s = map unat (drop (history_index s) (busy_history s) @ take (history_index s) (busy_history s))"

lemma rotate_update:
  assumes "i < length xs"
  shows "drop (Suc i mod length xs) (xs[i := p]) @ take (Suc i mod length xs) (xs[i := p]) = tl (drop i xs @ take i xs) @ [p]"
proof -
  have d: "drop i xs = xs ! i # drop (Suc i) xs" using assms by (simp add: Cons_nth_drop_Suc)
  have t: "take (Suc i) (xs[i := p]) = take i xs @ [p]" using assms by (simp add: take_Suc_conv_app_nth)
  show ?thesis
  proof (cases "Suc i = length xs")
    case True
    then have "xs[i := p] = take i xs @ [p]" using t by simp
    with True d show ?thesis by simp
  next
    case False
    with assms have "Suc i mod length xs = Suc i" by simp
    with t d show ?thesis by simp
  qed
qed

lemma last_ten_snoc:
  assumes "10 \<le> length xs"
  shows "last_ten (xs @ [x]) = tl (last_ten xs) @ [x]"
proof -
  have n: "Suc (length xs) - 10 = Suc (length xs - 10)" using assms by simp
  show ?thesis using assms by (simp only: last_ten_def length_append_singleton n) (simp add: drop_Suc tl_drop)
qed

definition cpu_tracks :: "nat list \<Rightarrow> u32 \<times> u32 \<Rightarrow> cpu_stats \<Rightarrow> bool" where
  "cpu_tracks samples prev s \<longleftrightarrow> cpu_ok s \<and> (last_total s, last_busy s) = prev \<and>
     cpu_history s = last_ten (replicate 10 0 @ samples) \<and> history_count s = min 10 (length samples)"

lemma cpu_tracks_step:
  assumes "cpu_tracks samples (lt, lb) s"
  shows "cpu_tracks (samples @ cpu_samples lt lb [(t, b)]) (t, b) (gateway_cpu_update_sample t b s)"
proof (cases "t = lt")
  case True
  with assms show ?thesis
    by (auto simp: cpu_tracks_def gateway_cpu_update_sample_def cpu_ok_def cpu_history_def)
next
  case False
  let ?i = "history_index s" and ?h = "busy_history s"
  let ?p = "let p = ((if b - lb > t - lt then t - lt else b - lb) * 100 + (t - lt) div 2) div (t - lt) in if p > 100 then 100 else p"
  let ?s = "gateway_cpu_update_sample t b s"
  from assms have ok: "cpu_ok s" and lasts: "last_total s = lt" "last_busy s = lb"
    and hist: "cpu_history s = last_ten (replicate 10 0 @ samples)" and n: "history_count s = min 10 (length samples)"
    by (simp_all add: cpu_tracks_def)
  have i: "?i < length ?h" "length ?h = 10" using ok by (simp_all add: cpu_ok_def)
  have s': "busy_history ?s = ?h[?i := ?p]" "history_index ?s = Suc ?i mod length ?h"
      "history_count ?s = (if history_count s < 10 then history_count s + 1 else history_count s)"
      "last_total ?s = t" "last_busy ?s = b"
    using False lasts i(2) by (simp_all add: gateway_cpu_update_sample_def Let_def)
  have p: "unat ?p = cpu_pct (unat (t - lt)) (unat (b - lb))" by (rule cpu_pct_update) (use False in simp)
  have "cpu_history ?s = map unat (tl (drop ?i ?h @ take ?i ?h) @ [?p])"
    unfolding cpu_history_def s' rotate_update [OF i(1)] ..
  also have "\<dots> = tl (cpu_history s) @ [cpu_pct (unat (t - lt)) (unat (b - lb))]"
    by (simp only: cpu_history_def map_append map_tl list.map p)
  finally have "cpu_history ?s = last_ten ((replicate 10 0 @ samples) @ cpu_samples lt lb [(t, b)])"
    using False hist last_ten_snoc [of "replicate 10 0 @ samples" "cpu_pct (unat (t - lt)) (unat (b - lb))"] by simp
  then show ?thesis using cpu_update_mean [OF ok, of t b] s'(3-5) n False by (simp add: cpu_tracks_def)
qed

lemma cpu_samples_append:
  "cpu_samples lt lb (xs @ ys) =
   cpu_samples lt lb xs @ (case last ((lt, lb) # xs) of (lt, lb) \<Rightarrow> cpu_samples lt lb ys)"
  by (induction lt lb xs rule: cpu_samples.induct) auto

lemma cpu_run_tracks: "cpu_tracks (cpu_samples 0 0 ticks) (last ((0, 0) # ticks)) (cpu_run ticks cpu_boot)"
proof (induction ticks rule: rev_induct)
  case Nil
  have "map unat (replicate 10 (0 :: u32)) = replicate 10 0" by simp
  with cpu_boot_ok show ?case by (simp add: cpu_tracks_def cpu_run_def cpu_history_def last_ten_def) (simp add: cpu_boot_def)
next
  case (snoc tb ticks)
  obtain t b lt lb where tb: "tb = (t, b)" "last ((0, 0) # ticks) = (lt, lb)" by (meson surj_pair)
  with cpu_tracks_step [of "cpu_samples 0 0 ticks" lt lb "cpu_run ticks cpu_boot" t b] snoc
  show ?case by (simp add: cpu_samples_append cpu_run_def)
qed

lemma cpu_pct_rounds:
  assumes "0 < dt" and "dt \<le> 42735991"
  shows "cpu_pct dt db = (min db dt * 100 + dt div 2) div dt"
proof -
  have "min db dt * 100 + dt div 2 < 2 ^ 32" using assms(2) by simp
  moreover have "(min db dt * 100 + dt div 2) div dt \<le> (dt * 100 + dt div 2) div dt" by (intro div_le_mono) simp
  moreover have "(dt * 100 + dt div 2) div dt = 100" using assms(1) by simp
  ultimately show ?thesis by (simp add: cpu_pct_def)
qed

text \<open>
  C34: the CPU statistics.  From the start, after any readings of the two tick counters, wrapped ones included: a reading with no tick since the one
  before reports 0 and 0; any other reports as busy the mean of the last ten samples (of all, when there are fewer), where a sample is the percentage of
  busy ticks among the ticks between two readings, rounded to the nearest whole number as long as there are at most 42735991 of them,
  and as idle what is missing to 100.
\<close>

theorem cpu_sample_mean:
  shows "(let s = cpu_run (ticks @ [(t, b)]) cpu_boot; samples = last_ten (cpu_samples 0 0 (ticks @ [(t, b)])) in
      cpu_ok s \<and> sample_ticks s = t - fst (last ((0, 0) # ticks)) \<and>
      (if t = fst (last ((0, 0) # ticks)) then busy_pct s = 0 \<and> idle_pct s = 0
       else samples \<noteq> [] \<and> unat (busy_pct s) = sum_list samples div length samples \<and>
         unat (busy_pct s) \<le> 100 \<and> unat (idle_pct s) = 100 - unat (busy_pct s))) \<and>
    (0 < dt \<and> dt \<le> 42735991 \<longrightarrow> cpu_pct dt db = (min db dt * 100 + dt div 2) div dt)"
proof -
  let ?pre = "cpu_run ticks cpu_boot" and ?all = "cpu_samples 0 0 (ticks @ [(t, b)])"
  let ?s = "cpu_run (ticks @ [(t, b)]) cpu_boot"
  obtain lt lb where l: "last ((0, 0) # ticks) = (lt, lb)" by (meson surj_pair)
  have run: "?s = gateway_cpu_update_sample t b ?pre" by (simp add: cpu_run_def)
  have t0: "cpu_ok ?pre" "last_total ?pre = lt" using cpu_run_tracks [of ticks] l by (simp_all add: cpu_tracks_def)
  have tr: "cpu_ok ?s" "cpu_history ?s = last_ten (replicate 10 0 @ ?all)" "history_count ?s = min 10 (length ?all)"
    using cpu_run_tracks [of "ticks @ [(t, b)]"] by (simp_all add: cpu_tracks_def)
  have sum: "sum_list (map unat (busy_history ?s)) = sum_list (last_ten ?all)"
  proof -
    have "sum_list (map unat (take i xs @ drop i xs)) = sum_list (map unat (drop i xs @ take i xs))" for i and xs :: "u32 list"
      by (simp only: map_append sum_list_append add.commute)
    then have "sum_list (map unat (busy_history ?s)) = sum_list (cpu_history ?s)" unfolding cpu_history_def append_take_drop_id .
    then show ?thesis by (simp add: tr(2) last_ten_def sum_list_replicate)
  qed
  have len: "length (last_ten ?all) = min 10 (length ?all)" by (simp add: last_ten_def)
  have ticks: "sample_ticks ?s = t - lt" unfolding run using t0(2) by (simp add: gateway_cpu_update_sample_def Let_def)
  show ?thesis
  proof (cases "t = lt")
    case True
    then have "busy_pct ?s = 0 \<and> idle_pct ?s = 0" unfolding run using t0(2) by (simp add: gateway_cpu_update_sample_def Let_def)
    with True l tr(1) ticks cpu_pct_rounds show ?thesis by (simp add: Let_def)
  next
    case False
    note m = cpu_update_mean [OF t0(1), of t b, folded run, unfolded Let_def sum tr(3)]
    have "last_ten ?all \<noteq> []" using m False t0(2) len by (metis length_0_conv less_numeral_extra(3))
    with m False t0(2) l len ticks cpu_pct_rounds show ?thesis by (simp add: Let_def)
  qed
qed

theorem cpu_sample_mean_witness:
  "(let s = cpu_run [(1000, 250), (1000, 250), (2000, 1250), (4000, 1260)] cpu_boot in unat (busy_pct s) = 42 \<and> unat (idle_pct s) = 58) \<and>
   cpu_samples 0 0 [(1000, 250), (1000, 250), (2000, 1250), (4000, 1260)] = [25, 100, 1] \<and> cpu_pct 1000 250 = 25"
proof -
  have v: "cpu_samples 0 0 [(1000, 250), (1000, 250), (2000, 1250), (4000, 1260)] = [25, 100, 1]"
    by (simp add: cpu_pct_def)
  then have "last_ten (cpu_samples 0 0 ([(1000, 250), (1000, 250), (2000, 1250)] @ [(4000, 1260)])) = [25, 100, 1]"
    by (simp add: last_ten_def)
  with v cpu_sample_mean [of "[(1000, 250), (1000, 250), (2000, 1250)]" 4000 1260 1000 250]
  show ?thesis by (simp add: Let_def)
qed

section \<open>The task\<close>

record ameba_task =
  tk_usb :: gateway_usb
  tk_watch :: usb_watch
  tk_up :: ameba_upstream
  tk_retry :: u32
  tk_heartbeat :: u32
  tk_cpu :: cpu_stats

text \<open>
  What one turn of the loop sees: the ticks its calls of \<open>xTaskGetTickCount\<close> return, the speed of the
  bus, whether the network is up, lwIP's answers, the library's, the CPU tick counters.
\<close>

record task_input =
  ti_speed :: "usb_speed option"
  ti_watch_tick :: u32
  ti_reconnect_tick :: u32
  ti_now :: u32
  ti_attempt_tick :: u32
  ti_heartbeat_tick :: u32
  ti_network :: bool
  ti_lwip :: lwip_env
  ti_readable :: bool
  ti_libc :: libc
  ti_alloc :: bool
  ti_ticks :: "u32 \<times> u32"

abbreviation (input) GATEWAY_AMEBA_UPSTREAM_RETRY :: u32 where "GATEWAY_AMEBA_UPSTREAM_RETRY \<equiv> 5000"
abbreviation (input) GATEWAY_AMEBA_HEARTBEAT :: u32 where "GATEWAY_AMEBA_HEARTBEAT \<equiv> 1000"

text \<open>The connection attempt, due when \<open>(int32_t)(now - next_upstream_retry_tick) >= 0\<close>.\<close>

definition retry_due :: "task_input \<Rightarrow> ameba_task \<Rightarrow> bool" where
  "retry_due inp t \<longleftrightarrow> config_valid (tk_usb t) \<and> \<not> up_connected (tk_up t) \<and> 0 \<le> sint (ti_now inp - tk_retry t)"

definition gateway_task_connect ::
  "(nat \<Rightarrow> bool) \<Rightarrow> task_input \<Rightarrow> ameba_task \<Rightarrow> ameba_task option" where
  "gateway_task_connect malloc_ok inp t =
     (if \<not> retry_due inp t then Some t
      else
        (case gateway_upstream_connect malloc_ok (ti_lwip inp) (ti_attempt_tick inp) (tk_usb t) (tk_up t) of
           None \<Rightarrow> None
         | Some (rc, up) \<Rightarrow> Some (t\<lparr>tk_up := up\<lparr>up_last_rc := rc\<rparr>, tk_retry := ti_now inp + GATEWAY_AMEBA_UPSTREAM_RETRY\<rparr>)))"

text \<open>The USB part of a turn, and the reconnection a new configuration asked for.\<close>

definition gateway_task_usb :: "task_input \<Rightarrow> ameba_task \<Rightarrow> ameba_task" where
  "gateway_task_usb inp t =
     (let usb = gateway_usb_retry_init_if_needed (gateway_usb_try_force_configure (ti_speed inp) (tk_usb t))
      in case usb_watchdog (ti_watch_tick inp) (tk_watch t, usb) of
           (watch, usb) \<Rightarrow> t\<lparr>tk_usb := usb, tk_watch := watch\<rparr>)"

definition gateway_task_reconnect :: "task_input \<Rightarrow> ameba_task \<Rightarrow> ameba_task" where
  "gateway_task_reconnect inp t =
     (if reconnect_requested (tk_usb t) then
        t\<lparr>tk_up := gateway_upstream_close (tk_up t), tk_usb := (tk_usb t)\<lparr>reconnect_requested := False\<rparr>,
          tk_retry := ti_reconnect_tick inp\<rparr>
      else t)"

definition gateway_task_heartbeat :: "task_input \<Rightarrow> ameba_task \<Rightarrow> ameba_task" where
  "gateway_task_heartbeat inp t =
     (if GATEWAY_AMEBA_HEARTBEAT \<le> ti_heartbeat_tick inp - tk_heartbeat t then
        t\<lparr>tk_heartbeat := ti_heartbeat_tick inp,
          tk_cpu := gateway_cpu_update_sample (fst (ti_ticks inp)) (snd (ti_ticks inp)) (tk_cpu t)\<rparr>
      else t)"

definition gateway_task_upstream ::
  "cipher \<Rightarrow> (nat \<Rightarrow> bool) \<Rightarrow> task_input \<Rightarrow> ameba_task \<Rightarrow> ameba_task outcome option" where
  "gateway_task_upstream chacha20_xor malloc_ok inp t =
     (if \<not> ti_network inp then Some (Ret t)
      else
        (case gateway_task_connect malloc_ok inp t of
           None \<Rightarrow> None
         | Some t \<Rightarrow>
             map_option (\<lambda>r. obind r (\<lambda>(up, usb). Ret (t\<lparr>tk_up := up, tk_usb := usb\<rparr>)))
               (gateway_upstream_poll chacha20_xor (ti_libc inp) malloc_ok (ti_alloc inp) (ti_readable inp)
                  (tk_up t, tk_usb t))))"

definition gateway_ameba_iteration ::
  "cipher \<Rightarrow> (nat \<Rightarrow> bool) \<Rightarrow> task_input \<Rightarrow> ameba_task \<Rightarrow> ameba_task outcome option" where
  "gateway_ameba_iteration chacha20_xor malloc_ok inp t =
     map_option (\<lambda>r. obind r (\<lambda>t. Ret (gateway_task_heartbeat inp t)))
       (gateway_task_upstream chacha20_xor malloc_ok inp (gateway_task_reconnect inp (gateway_task_usb inp t)))"

section \<open>The invariant of the task\<close>

text \<open>The state when the loop is entered.\<close>

definition upstream_boot :: ameba_upstream where
  "upstream_boot =
     \<lparr>up_io = closed_io, up_connected = False, up_have_nonce = False,
      up_nonce = replicate CRYPTO_STREAM_NONCE_SIZE 0, upstream_connected = False, connect_started = False,
      connect_attempts = 0, last_attempt_tick = 0, up_last_rc = -999, text_frames = 0, binary_frames = 0,
      close_frames = 0, last_opcode = 0, last_frame_len = 0\<rparr>"

lemma lwip_write_one:
  "buf \<noteq> [] \<Longrightarrow> length buf \<le> n \<Longrightarrow> outgoing sk = STake n # es \<Longrightarrow>
   gateway_upstream_write_all sk buf = Some (0, sk\<lparr>outgoing := es, sent := sent sk @ buf\<rparr>)"
  by (simp add: gateway_upstream_write_all.simps send.simps)

lemma send_text_one:
  assumes "0 \<notin> set msg" and "msg \<noteq> []" and "length msg < 100" and "outgoing sk = STake 999 # STake 999 # es"
  shows "gateway_upstream_send_text (\<lambda>_. True) sk msg =
    Some (0, sk\<lparr>outgoing := es, sent := sent sk @ text_wire msg\<rparr>)"
proof -
  let ?h = "masked_header 0x1 (length msg) gateway_upstream_key"
  have m: "c_str (msg @ [0]) = msg" using assms(1) unfolding c_str_def by (induction msg) auto
  have h: "?h \<noteq> []" "length ?h \<le> 999" using assms(3) by (simp_all add: masked_header_def gateway_upstream_key_def)
  have w: "ws_mask gateway_upstream_key msg \<noteq> []" "length (ws_mask gateway_upstream_key msg) \<le> 999"
    using assms(2,3) length_ws_mask [of gateway_upstream_key msg] by (auto simp flip: length_greater_0_conv)
  show ?thesis
    using assms(2,4) lwip_write_one [OF h assms(4)] lwip_write_one [OF w, of "sk\<lparr>outgoing := STake 999 # es, sent := sent sk @ ?h\<rparr>"]
    by (simp add: gateway_upstream_send_text_def gateway_upstream_send_masked_frame_def m text_wire_def)
qed

theorem ameba_connect_stream_witness:
  "\<exists>st'. gateway_upstream_connect (\<lambda>_. True)
     \<lparr>lw_socket = Some \<lparr>incoming = [RData 0x31 [0x30, 0x31, 13], RData 10 [13, 10, 7]],
        outgoing = STake 999 # STake 999 # STake 999 # STake 999 # STake 999 # [], sent = []\<rparr>,
      lw_inet_addr = \<lambda>_. True, lw_connect = True\<rparr> 5
     ((usb_boot [])\<lparr>upstream_cfg := boot_config\<lparr>cfg_valid := True\<rparr>\<rparr>) upstream_boot = Some (0, st') \<and>
     upstream_bytes (up_io st') = [7]"
proof -
  let ?sk = "\<lparr>incoming = [RData 0x31 [0x30, 0x31, 13], RData 10 [13, 10, 7]],
      outgoing = STake 999 # STake 999 # STake 999 # STake 999 # STake 999 # [], sent = []\<rparr>"
  let ?env = "\<lparr>lw_socket = Some ?sk, lw_inet_addr = \<lambda>_. True, lw_connect = True\<rparr>"
  let ?usb = "(usb_boot [])\<lparr>upstream_cfg := boot_config\<lparr>cfg_valid := True\<rparr>\<rparr>"
  let ?req = "upgrade_request (cfg_path boot_config) (cfg_host boot_config) (cfg_port boot_config)"
  have len: "length ?req = 163"
    by (simp add: upgrade_request_def boot_config_def c_str_def crlf_def decimal.simps)
  then have ne: "?req \<noteq> []" by auto
  note w = lwip_write_one [OF ne, of 999 ?sk, unfolded len, simplified]
  have resp: "gateway_upstream_response (\<lambda>_. True) (incoming ?sk) [] = Some (0, Some [7], [])"
    by (simp add: gateway_upstream_response.simps strstr_def c_str_def crlf_def Let_def)
  have msgs: "start_stream \<noteq> []" "length start_stream < 100" "start_audio_stream \<noteq> []" "length start_audio_stream < 100"
    by (simp_all add: start_stream_def start_audio_stream_def)
  have "\<exists>st'. gateway_upstream_connect (\<lambda>_. True) ?env 5 ?usb upstream_boot = Some (0, st')"
    using len w resp
      send_text_one [OF start_texts_nul(1) msgs(1,2), of "\<lparr>incoming = [], outgoing = [STake 999, STake 999, STake 999, STake 999], sent = ?req\<rparr>"]
      send_text_one [OF start_texts_nul(2) msgs(3,4), of "\<lparr>incoming = [], outgoing = [STake 999, STake 999], sent = ?req @ text_wire start_stream\<rparr>"]
    by (simp add: gateway_upstream_connect_def gateway_upstream_config_snapshot_def gateway_upstream_upgraded_def Let_def)
  then obtain st' where c: "gateway_upstream_connect (\<lambda>_. True) ?env 5 ?usb upstream_boot = Some (0, st')" by blast
  have "upstream_ok upstream_boot" "\<not> up_connected upstream_boot"
    by (simp_all add: upstream_ok_def upstream_boot_def closed_io_def)
  from ameba_connect_stream [OF c this] obtain header where
    "[0x31, 0x30, 0x31, 13, 10, 13, 10, 7] = header @ crlf @ crlf @ upstream_bytes (up_io st')"
    by auto
  then have "\<exists>header. [0x31, 0x30, 0x31, 13, 10, 13, 10, 7] = header @ crlf @ crlf @ upstream_bytes (up_io st')" ..
  moreover have "upstream_bytes (up_io st') = [7]"
    using c len w resp
      send_text_one [OF start_texts_nul(1) msgs(1,2), of "\<lparr>incoming = [], outgoing = [STake 999, STake 999, STake 999, STake 999], sent = ?req\<rparr>"]
      send_text_one [OF start_texts_nul(2) msgs(3,4), of "\<lparr>incoming = [], outgoing = [STake 999, STake 999], sent = ?req @ text_wire start_stream\<rparr>"]
    by (auto simp: gateway_upstream_connect_def gateway_upstream_config_snapshot_def gateway_upstream_upgraded_def Let_def
        upstream_bytes_def unread_def fd_script_def)
  ultimately show ?thesis using c by blast
qed

definition gateway_task_start ::
  "bool \<Rightarrow> int \<Rightarrow> u32 \<Rightarrow> gateway_usb \<Rightarrow> ameba_task" where
  "gateway_task_start init_ok interface_id tick usb =
     (let usb = usb\<lparr>config_valid := False, config_seq := 0, reconnect_requested := False,
                  upstream_cfg := (upstream_cfg usb)\<lparr>cfg_valid := False, cfg_seq_no := 0\<rparr>\<rparr>;
          usb = snd (gateway_usb_start init_ok interface_id usb)
      in \<lparr>tk_usb = usb, tk_watch = observe tick usb, tk_up = upstream_boot, tk_retry = tick, tk_heartbeat = tick,
          tk_cpu = cpu_boot\<rparr>)"

definition task_ok :: "(byte list \<Rightarrow> bool) \<Rightarrow> ameba_task \<Rightarrow> bool" where
  "task_ok aton t \<longleftrightarrow> usb_inv aton (tk_usb t) \<and> upstream_ok (tk_up t) \<and> cpu_ok (tk_cpu t)"

lemma task_start_ok: "task_ok aton (gateway_task_start init_ok n tick (usb_boot answers))"
proof -
  let ?u = "(usb_boot answers)\<lparr>config_valid := False, config_seq := 0, reconnect_requested := False,
      upstream_cfg := (upstream_cfg (usb_boot answers))\<lparr>cfg_valid := False, cfg_seq_no := 0\<rparr>\<rparr>"
  have "usb_inv aton ?u" by (simp add: usb_inv_def usb_ok_def flight_ok_def config_ok_def usb_boot_def)
  then have "usb_inv aton (snd (gateway_usb_start init_ok n ?u))"
    using usb_start_ok [OF usb_inv_of, of aton ?u init_ok n] usb_inv_frame by blast
  moreover have "upstream_ok upstream_boot" by (simp add: upstream_ok_def upstream_boot_def closed_io_def)
  ultimately show ?thesis by (simp add: task_ok_def gateway_task_start_def Let_def cpu_boot_ok)
qed

lemma task_usb_ok:
  assumes "xor_stream_cipher c" and "task_ok aton t"
  shows "task_ok aton (gateway_task_usb inp t)"
proof -
  let ?u1 = "gateway_usb_try_force_configure (ti_speed inp) (tk_usb t)"
  let ?u2 = "gateway_usb_retry_init_if_needed ?u1"
  obtain w u3 where u3: "usb_watchdog (ti_watch_tick inp) (tk_watch t, ?u2) = (w, u3)" by fastforce
  have "usb_inv aton (tk_usb t)" using assms(2) by (simp add: task_ok_def)
  then have 1: "usb_inv aton ?u1"
    using usb_step_inv [OF usb_step.force assms(1), of aton "tk_watch t" "tk_usb t" "ti_speed inp"] by simp
  then have "usb_inv aton ?u2"
    using usb_step_inv [OF usb_step.retry assms(1), of aton "tk_watch t" ?u1] by simp
  then have "usb_inv aton u3"
    using usb_step_inv [OF usb_step.watchdog assms(1), of aton "tk_watch t" ?u2 "ti_watch_tick inp"] u3 by simp
  with assms(2) u3 show ?thesis by (simp add: task_ok_def gateway_task_usb_def Let_def)
qed

lemma task_reconnect_ok: "task_ok aton t \<Longrightarrow> task_ok aton (gateway_task_reconnect inp t)"
  using usb_inv_frame [of "(tk_usb t)\<lparr>reconnect_requested := False\<rparr>" "tk_usb t" aton]
  by (simp add: task_ok_def gateway_task_reconnect_def usb_inv_def usb_ok_def flight_ok_def cfg_of_def)

lemma task_heartbeat_ok: "task_ok aton t \<Longrightarrow> task_ok aton (gateway_task_heartbeat inp t)"
  using cpu_update_mean by (simp add: task_ok_def gateway_task_heartbeat_def)

lemma decrypt_plain_len:
  assumes "r = crypto_stream_decrypt_packet c (Some (replicate n 0)) n (Some a) (Some b) (Some sn) payload n"
    and "0 < dr_rc r" and "n < 2 ^ 31"
  shows "8 + nat (dr_rc r) \<le> n"
proof (cases payload)
  case None
  with assms show ?thesis by (simp add: crypto_stream_decrypt_packet_def Let_def)
next
  case (Some pkt)
  from assms(2) have "dr_rc r = c_int (n - 8) \<and> 8 \<le> n"
    unfolding assms(1) Some by (auto simp: crypto_stream_decrypt_packet_def Let_def split: if_splits)
  then show ?thesis using assms(3) by (simp add: c_int_small nat_diff_distrib)
qed

lemma media_ok:
  assumes "xor_stream_cipher c" and "\<forall>n. malloc_ok n \<longrightarrow> n < 2 ^ 31" and "usb_inv aton usb"
  shows "usb_inv aton (gateway_upstream_media c malloc_ok usb_alloc payload st usb)"
proof -
  let ?n = "case payload of None \<Rightarrow> 0 | Some p \<Rightarrow> length p"
  let ?d = "crypto_stream_decrypt_packet c (Some (replicate ?n 0)) ?n (Some 0) (Some 0) (Some (up_nonce st)) payload ?n"
  let ?pt = "take (nat (dr_rc ?d)) (the (dr_plaintext ?d))"
  show ?thesis
  proof (cases "up_have_nonce st \<and> malloc_ok ?n \<and> 0 < dr_rc ?d")
    case False
    with assms(3) show ?thesis by (auto simp: gateway_upstream_media_def Let_def)
  next
    case True
    then have "?n < 2 ^ 31" using assms(2) by blast
    with True have "8 + nat (dr_rc ?d) \<le> ?n" using decrypt_plain_len [OF refl] by blast
    then have "8 + length ?pt < 2 ^ 31" using \<open>?n < 2 ^ 31\<close> by simp
    from forward_cases [OF usb_inv_of [OF assms(3)] assms(1) this]
    have "usb_inv aton (gateway_usb_forward c usb_alloc (the (dr_stream_id ?d)) (the (dr_seq_no ?d)) ?pt usb)"
      using usb_inv_frame [OF _ _ assms(3)] by blast
    with True show ?thesis by (simp add: gateway_upstream_media_def Let_def)
  qed
qed

lemma poll_ok:
  assumes c: "xor_stream_cipher c" and m: "\<forall>n. malloc_ok n \<longrightarrow> n < 2 ^ 31" and s: "strtod_ok (json_strtod env)"
    and ok: "upstream_ok st" "usb_inv aton usb"
    and r: "gateway_upstream_poll c env malloc_ok usb_alloc readable (st, usb) = Some r"
  shows "\<exists>st' usb'. r = Ret (st', usb') \<and> upstream_ok st' \<and> usb_inv aton usb'"
proof (cases "up_connected st \<and> fd (up_io st) \<noteq> None \<and> readable")
  case False
  then have "r = Ret (st, usb)" using r by (auto simp: gateway_upstream_poll_def split: if_splits)
  with ok show ?thesis by blast
next
  case True
  obtain fr io where io: "gateway_upstream_recv_frame malloc_ok (up_io st) = Some (fr, io)"
    using r True by (cases "gateway_upstream_recv_frame malloc_ok (up_io st)") (auto simp: gateway_upstream_poll_def)
  show ?thesis
  proof (cases fr)
    case None
    with r True io ok show ?thesis by (auto simp: gateway_upstream_poll_def)
  next
    case (Some f)
    obtain opcode payload where f: "f = (opcode, payload)" by fastforce
    have wf: "fd io \<noteq> None"
      using ameba.recv_frame_consumes [of "up_io st" 32 malloc_ok opcode payload io] True io Some f
      unfolding gateway_upstream_recv_frame_def f by blast
    let ?st = "st\<lparr>up_io := io, last_opcode := opcode, last_frame_len := (case payload of None \<Rightarrow> 0 | Some p \<Rightarrow> length p)\<rparr>"
    have st: "upstream_ok ?st" "upstream_ok (?st\<lparr>binary_frames := binary_frames ?st + 1\<rparr>)"
      using ok(1) wf True by (auto simp: upstream_ok_def)
    have run: "Some r =
        (if opcode = 0x1 then
           Some (obind (gateway_parse_crypto_init env (case payload of None \<Rightarrow> [] | Some p \<Rightarrow> p)
                          (up_nonce ?st, up_have_nonce ?st)) (\<lambda>(rc, sn, have).
                 Ret (?st\<lparr>text_frames := text_frames ?st + 1, up_nonce := sn, up_have_nonce := have\<rparr>, usb)))
         else if opcode = 0x2 then
           Some (Ret (?st\<lparr>binary_frames := binary_frames ?st + 1\<rparr>,
                      gateway_upstream_media c malloc_ok usb_alloc payload ?st usb))
         else if opcode = 0x8 then
           Some (Ret (gateway_upstream_close (?st\<lparr>close_frames := close_frames ?st + 1\<rparr>), usb))
         else Some (Ret (?st, usb)))"
      using r True io Some f by (simp only: gateway_upstream_poll_def prod.case option.case Let_def simp_thms if_False)
    show ?thesis
    proof (cases "opcode = 0x1")
      case False
      then show ?thesis
        using run st ok(2) media_ok [OF c m ok(2), of usb_alloc payload ?st] by (auto split: if_splits)
    next
      case text1: True
      obtain rc sn have' where p: "gateway_parse_crypto_init env (case payload of None \<Rightarrow> [] | Some p \<Rightarrow> p)
          (up_nonce ?st, up_have_nonce ?st) = Ret (rc, sn, have')"
        using parse_crypto_init_returns [OF s, of _ "(up_nonce ?st, up_have_nonce ?st)"] by (metis prod_cases3)
      have "length sn = CRYPTO_STREAM_NONCE_SIZE"
        by (rule parse_crypto_init_length [OF p]) (use ok(1) in \<open>simp add: upstream_ok_def\<close>)
      moreover have "r = Ret (?st\<lparr>text_frames := text_frames ?st + 1, up_nonce := sn, up_have_nonce := have'\<rparr>, usb)"
        using run text1 p by simp
      ultimately show ?thesis using ok wf True by (auto simp: upstream_ok_def)
    qed
  qed
qed

lemma task_upstream_ok:
  assumes c: "xor_stream_cipher c" and m: "\<forall>n. malloc_ok n \<longrightarrow> n < 2 ^ 31"
    and s: "strtod_ok (json_strtod (ti_libc inp))" and ok: "task_ok aton t"
    and r: "gateway_task_upstream c malloc_ok inp t = Some r"
  shows "\<exists>t'. r = Ret t' \<and> task_ok aton t'"
proof (cases "ti_network inp")
  case False
  with r ok show ?thesis by (auto simp: gateway_task_upstream_def)
next
  case True
  obtain t1 where t1: "gateway_task_connect malloc_ok inp t = Some t1"
    using r True by (cases "gateway_task_connect malloc_ok inp t") (auto simp: gateway_task_upstream_def)
  have ok1: "task_ok aton t1"
  proof (cases "retry_due inp t")
    case False
    with t1 ok show ?thesis by (simp add: gateway_task_connect_def)
  next
    case True
    then obtain rc up where
      "gateway_upstream_connect malloc_ok (ti_lwip inp) (ti_attempt_tick inp) (tk_usb t) (tk_up t) = Some (rc, up)"
      "t1 = t\<lparr>tk_up := up\<lparr>up_last_rc := rc\<rparr>, tk_retry := ti_now inp + 5000\<rparr>"
      using t1 by (auto simp: gateway_task_connect_def split: option.splits)
    with connect_stream [of malloc_ok "ti_lwip inp" "ti_attempt_tick inp" "tk_usb t" "tk_up t" rc up] ok True
    show ?thesis by (auto simp: task_ok_def retry_due_def)
  qed
  obtain r1 where r1: "gateway_upstream_poll c (ti_libc inp) malloc_ok (ti_alloc inp) (ti_readable inp) (tk_up t1, tk_usb t1) = Some r1"
      "r = obind r1 (\<lambda>(up, usb). Ret (t1\<lparr>tk_up := up, tk_usb := usb\<rparr>))"
    using r True t1 by (auto simp: gateway_task_upstream_def)
  have "upstream_ok (tk_up t1)" "usb_inv aton (tk_usb t1)" using ok1 by (simp_all add: task_ok_def)
  from poll_ok [OF c m s this r1(1)] obtain up usb
    where "r1 = Ret (up, usb)" "upstream_ok up" "usb_inv aton usb" by blast
  then show ?thesis using r1(2) ok1 by (simp add: task_ok_def)
qed

text \<open>
  The task and its interrupts: turns of the loop, and USB events between them.
\<close>

inductive ameba_step ::
  "cipher \<Rightarrow> (byte list \<Rightarrow> bool) \<Rightarrow> (nat \<Rightarrow> bool) \<Rightarrow> ameba_task \<Rightarrow> ameba_task outcome \<Rightarrow> bool"
  for c aton malloc_ok where
  turn: "strtod_ok (json_strtod (ti_libc inp)) \<Longrightarrow> gateway_ameba_iteration c malloc_ok inp t = Some r \<Longrightarrow>
    ameba_step c aton malloc_ok t r"
| usb: "usb_step c aton (tk_watch t, tk_usb t) (w, u) \<Longrightarrow>
    ameba_step c aton malloc_ok t (Ret (t\<lparr>tk_watch := w, tk_usb := u\<rparr>))"

inductive_cases ameba_stepE: "ameba_step c aton malloc_ok t r"

lemma ameba_step_ok:
  assumes c: "xor_stream_cipher c" and m: "\<forall>n. malloc_ok n \<longrightarrow> n < 2 ^ 31" and ok: "task_ok aton t"
    and step: "ameba_step c aton malloc_ok t r"
  shows "\<exists>t'. r = Ret t' \<and> task_ok aton t'"
  using step
proof (cases rule: ameba_step.cases)
  case (turn inp)
  let ?t = "gateway_task_reconnect inp (gateway_task_usb inp t)"
  have ok1: "task_ok aton ?t" by (rule task_reconnect_ok [OF task_usb_ok [OF c ok]])
  obtain r1 where r1: "gateway_task_upstream c malloc_ok inp ?t = Some r1"
      "r = obind r1 (\<lambda>t. Ret (gateway_task_heartbeat inp t))"
    using turn(2) by (auto simp: gateway_ameba_iteration_def)
  from task_upstream_ok [OF c m turn(1) ok1 r1(1)] r1(2) show ?thesis
    using task_heartbeat_ok by auto
next
  case (usb w u)
  with usb_step_inv [OF usb(2) c] ok show ?thesis by (auto simp: task_ok_def)
qed

text \<open>The states of the board: from the start of the task, through steps that return.\<close>

inductive ameba_reachable ::
  "cipher \<Rightarrow> (byte list \<Rightarrow> bool) \<Rightarrow> (nat \<Rightarrow> bool) \<Rightarrow> ameba_task \<Rightarrow> bool"
  for c aton malloc_ok where
  start: "ameba_reachable c aton malloc_ok (gateway_task_start init_ok n tick (usb_boot answers))"
| step: "ameba_reachable c aton malloc_ok t \<Longrightarrow> ameba_step c aton malloc_ok t (Ret t') \<Longrightarrow>
    ameba_reachable c aton malloc_ok t'"

lemma reachable_ok:
  assumes "xor_stream_cipher c" and "\<forall>n. malloc_ok n \<longrightarrow> n < 2 ^ 31" and "ameba_reachable c aton malloc_ok t"
  shows "task_ok aton t"
  using assms(3)
proof (induction rule: ameba_reachable.induct)
  case (start init_ok n tick answers)
  show ?case by (rule task_start_ok)
next
  case (step t t')
  from ameba_step_ok [OF assms(1,2) step.IH step.hyps(2)] show ?case by simp
qed

text \<open>
  C7: what always holds on the board.  From the start of the task and through any turns of its loop and
  USB events in between, whatever lwIP, the allocator, the controller and the peers answer: no step
  faults; the transmit ring is well formed; the connection's flags agree with its socket, a closed
  connection keeps nothing, a nonce is whole; a valid configuration is well formed; the CPU history is.
\<close>

theorem ameba_task_inv:
  assumes "xor_stream_cipher c" and "\<forall>n. malloc_ok n \<longrightarrow> n < 2 ^ 31" and "ameba_reachable c aton malloc_ok t"
  shows "(\<forall>r. ameba_step c aton malloc_ok t r \<longrightarrow> (\<exists>t'. r = Ret t')) \<and>
    ring_inv (us_ring (tk_usb t)) \<and> upstream_ok (tk_up t) \<and> cpu_ok (tk_cpu t) \<and>
    (config_valid (tk_usb t) \<longrightarrow> config_wf aton (upstream_cfg (tk_usb t)))"
proof -
  have ok: "task_ok aton t" by (rule reachable_ok [OF assms])
  then show ?thesis
    using ameba_step_ok [OF assms(1,2) ok] by (auto simp: task_ok_def usb_inv_def usb_ok_def config_ok_def)
qed

theorem ameba_task_inv_witness:
  "upstream_ok (tk_up (gateway_task_start True 0 7 (usb_boot [])))"
proof -
  have "ameba_reachable toy_cipher (\<lambda>_. True) (\<lambda>n. n < 1000) (gateway_task_start True 0 7 (usb_boot []))"
    by (rule ameba_reachable.start)
  from ameba_task_inv [OF toy_cipher_xor _ this] show ?thesis by simp
qed

section \<open>The retry timer\<close>

lemma upgraded_attempts:
  "gateway_upstream_upgraded malloc_ok sk pb st = Some (rc, st') \<Longrightarrow> connect_attempts st' = connect_attempts st"
  using upgraded_cases [of malloc_ok sk pb st rc st'] by (auto simp: gateway_upstream_close_def)

lemma connect_counts:
  assumes "gateway_upstream_connect malloc_ok env tick usb st = Some (rc, st')"
  shows "connect_attempts st' = connect_attempts st + 1"
proof -
  have "connect_attempts (attempt tick st) = connect_attempts st + 1" by (simp add: attempt_def)
  moreover have "connect_attempts st' = connect_attempts (attempt tick st)"
    using assms upgraded_attempts [of malloc_ok _ _ "attempt tick st" rc st']
    unfolding gateway_upstream_connect_def Let_def attempt_def [symmetric] gateway_upstream_config_snapshot_def prod.case
    by (auto split: option.splits if_splits)
  ultimately show ?thesis by simp
qed

lemma poll_attempts:
  "gateway_upstream_poll c env malloc_ok usb_alloc readable (st, usb) = Some (Ret (st', usb')) \<Longrightarrow>
   connect_attempts st' = connect_attempts st"
  by (auto simp: gateway_upstream_poll_def gateway_upstream_close_def Let_def obind_Ret_conv
      split: if_splits option.splits)

text \<open>
  Connection attempts are paced.  A turn of the loop that returns makes one attempt if the network
  is up, a configuration is valid, nothing is connected and the retry tick has come, and none otherwise;
  an attempt moves the retry tick 5000 ticks past it, and only a new configuration resets it.
\<close>

theorem ameba_retry_pace:
  assumes "gateway_ameba_iteration c malloc_ok inp t = Some (Ret t')"
  shows "let u = gateway_task_usb inp t;
             reset = reconnect_requested (tk_usb u);
             due = ti_network inp \<and> config_valid (tk_usb u) \<and> (reset \<or> \<not> up_connected (tk_up t)) \<and>
               0 \<le> sint (ti_now inp - (if reset then ti_reconnect_tick inp else tk_retry t))
         in connect_attempts (tk_up t') = connect_attempts (tk_up t) + (if due then 1 else 0) \<and>
            tk_retry t' = (if due then ti_now inp + 5000 else if reset then ti_reconnect_tick inp else tk_retry t)"
proof -
  let ?u = "gateway_task_usb inp t"
  let ?t = "gateway_task_reconnect inp ?u"
  let ?reset = "reconnect_requested (tk_usb ?u)"
  have u: "tk_up ?u = tk_up t" "tk_retry ?u = tk_retry t"
    by (simp_all add: gateway_task_usb_def Let_def split: prod.split)
  have t1: "connect_attempts (tk_up ?t) = connect_attempts (tk_up t)"
      "tk_retry ?t = (if ?reset then ti_reconnect_tick inp else tk_retry t)"
      "config_valid (tk_usb ?t) = config_valid (tk_usb ?u)"
      "up_connected (tk_up ?t) \<longleftrightarrow> \<not> ?reset \<and> up_connected (tk_up t)"
    by (simp_all add: gateway_task_reconnect_def gateway_upstream_close_def u)
  obtain t2 where t2: "gateway_task_upstream c malloc_ok inp ?t = Some (Ret t2)" "t' = gateway_task_heartbeat inp t2"
    using assms by (auto simp: gateway_ameba_iteration_def obind_Ret_conv)
  have t': "tk_up t' = tk_up t2" "tk_retry t' = tk_retry t2"
    unfolding t2(2) by (simp_all add: gateway_task_heartbeat_def)
  have "connect_attempts (tk_up t2) = connect_attempts (tk_up ?t) + (if ti_network inp \<and> retry_due inp ?t then 1 else 0) \<and>
      tk_retry t2 = (if ti_network inp \<and> retry_due inp ?t then ti_now inp + 5000 else tk_retry ?t)"
  proof (cases "ti_network inp")
    case False
    with t2(1) show ?thesis by (simp add: gateway_task_upstream_def)
  next
    case True
    obtain t3 where t3: "gateway_task_connect malloc_ok inp ?t = Some t3"
      using t2(1) True by (cases "gateway_task_connect malloc_ok inp ?t") (auto simp: gateway_task_upstream_def)
    have "connect_attempts (tk_up t2) = connect_attempts (tk_up t3) \<and> tk_retry t2 = tk_retry t3"
      using t2(1) True t3 poll_attempts by (auto simp: gateway_task_upstream_def obind_Ret_conv)
    moreover have "connect_attempts (tk_up t3) = connect_attempts (tk_up ?t) + (if retry_due inp ?t then 1 else 0) \<and>
        tk_retry t3 = (if retry_due inp ?t then ti_now inp + 5000 else tk_retry ?t)"
      using t3 connect_counts by (auto simp: gateway_task_connect_def split: if_splits option.splits)
    ultimately show ?thesis using True by simp
  qed
  then show ?thesis unfolding t' Let_def retry_due_def t1 by auto
qed

theorem ameba_retry_pace_witness:
  "\<exists>inp t'. gateway_ameba_iteration toy_cipher (\<lambda>_. True) inp (gateway_task_start True 0 7 (usb_boot [])) = Some (Ret t') \<and>
     connect_attempts (tk_up t') = 0"
proof -
  let ?inp = "\<lparr>ti_speed = None, ti_watch_tick = 8, ti_reconnect_tick = 8, ti_now = 8, ti_attempt_tick = 8,
      ti_heartbeat_tick = 8, ti_network = False,
      ti_lwip = \<lparr>lw_socket = None, lw_inet_addr = \<lambda>_. True, lw_connect = True\<rparr>, ti_readable = False,
      ti_libc = demo_libc,
      ti_alloc = True, ti_ticks = (0, 0)\<rparr> :: task_input"
  let ?t = "gateway_task_start True 0 7 (usb_boot [])"
  obtain t' where t': "gateway_ameba_iteration toy_cipher (\<lambda>_. True) ?inp ?t = Some (Ret t')"
    by (simp add: gateway_ameba_iteration_def gateway_task_upstream_def)
  have "connect_attempts (tk_up ?t) = 0" by (simp add: gateway_task_start_def upstream_boot_def Let_def)
  then have "connect_attempts (tk_up t') = 0"
    using ameba_retry_pace [OF t'] by (simp add: Let_def)
  with t' show ?thesis by blast
qed

end
