(* ===== verification/Gateway.thy ===== *)
theory Gateway
  imports WsUpstream GatewayMedia
begin

text \<open>
  The desktop gateway (\<open>gateway/gateway.c\<close>): one session relays the frames of an upstream WebSocket
  to a TCP client, decrypting the media packets; the main loop accepts one client at a time.  What
  \<open>select\<close> answers is a script, like the sockets' answers.
\<close>

section \<open>A session\<close>

record gw_session =
  gw_client :: sock
  gw_upstream :: ws_upstream_client
  gw_nonce :: "byte list"
  gw_have_nonce :: bool

text \<open>
  How a piece of the loop ends: it goes on, it leaves the loop, a call blocks for ever, or the JSON
  parser faults (which it does not, as proved below).
\<close>

datatype 's flow = Continue 's | Break 's | Blocked | Crashed

primrec then_do :: "'s flow \<Rightarrow> ('s \<Rightarrow> 's flow) \<Rightarrow> 's flow" where
  "then_do (Continue s) f = f s"
| "then_do (Break s) f = Break s"
| "then_do Blocked f = Blocked"
| "then_do Crashed f = Crashed"

definition client_write :: "byte list \<Rightarrow> gw_session \<Rightarrow> gw_session flow" where
  "client_write buf s =
     (case tcp_transport_write_all (gw_client s) buf of
        None \<Rightarrow> Blocked
      | Some (rc, sk) \<Rightarrow> (if rc \<noteq> 0 then Break else Continue) (s\<lparr>gw_client := sk\<rparr>))"

text \<open>A binary frame.\<close>

definition gateway_relay_media ::
  "cipher \<Rightarrow> (nat \<Rightarrow> bool) \<Rightarrow> byte list option \<Rightarrow> gw_session \<Rightarrow> gw_session flow" where
  "gateway_relay_media chacha20_xor malloc_ok payload s =
     (if \<not> gw_have_nonce s then Continue s
      else
        let len = (case payload of None \<Rightarrow> 0 | Some p \<Rightarrow> length p) in
        if \<not> malloc_ok len then Break s
        else
          let r = crypto_stream_decrypt_packet chacha20_xor (Some (replicate len 0)) len (Some 0) (Some 0)
                    (Some (gw_nonce s)) payload len;
              plain_len = dr_rc r in
          if plain_len < 0 then Break s
          else
            let plaintext = the (dr_plaintext r);
                sid = the (dr_stream_id r);
                media_info = \<lparr>stream_id = sid,
                  flags = (if sid = GATEWAY_PROTO_STREAM_VIDEO
                           then gateway_video_flags (Some plaintext) (nat plain_len) else 0),
                  seq_no = the (dr_seq_no r), payload_len = word_of_nat (nat plain_len)\<rparr>
            in case gateway_proto_write_media_header (Some (replicate GATEWAY_PROTO_PACKET_HEADER_SIZE 0))
                      (Some media_info) of
                 (rc, header) \<Rightarrow>
                   if rc \<noteq> 0 then Break s
                   else then_do (client_write (the header) s) (client_write (take (nat plain_len) plaintext)))"

text \<open>One frame of the upstream.\<close>

definition gateway_upstream_frame ::
  "cipher \<Rightarrow> libc \<Rightarrow> (nat \<Rightarrow> bool) \<Rightarrow> gw_session \<Rightarrow> gw_session flow" where
  "gateway_upstream_frame chacha20_xor env malloc_ok s =
     (case ws_upstream_recv_frame malloc_ok (gw_upstream s) of
        None \<Rightarrow> Blocked
      | Some (None, u) \<Rightarrow> Break (s\<lparr>gw_upstream := u\<rparr>)
      | Some (Some (opcode, payload), u) \<Rightarrow>
          let s = s\<lparr>gw_upstream := u\<rparr> in
          if opcode = 0x1 then
            (case gateway_parse_crypto_init env (case payload of None \<Rightarrow> [] | Some p \<Rightarrow> p)
                    (gw_nonce s, gw_have_nonce s) of
               Ret (rc, sn, have) \<Rightarrow>
                 (if rc \<noteq> 0 then Break else Continue) (s\<lparr>gw_nonce := sn, gw_have_nonce := have\<rparr>)
             | _ \<Rightarrow> Crashed)
          else if opcode = 0x2 then gateway_relay_media chacha20_xor malloc_ok payload s
          else if opcode = 0x8 then Break s
          else Continue s)"

text \<open>\<open>select\<close> over the client and the upstream: which of them is readable.\<close>

datatype select_event = SelReady bool bool | SelIntr | SelFail

fun gateway_session_loop ::
  "cipher \<Rightarrow> libc \<Rightarrow> (nat \<Rightarrow> bool) \<Rightarrow> select_event list \<Rightarrow> gw_session \<Rightarrow> gw_session flow" where
  "gateway_session_loop chacha20_xor env malloc_ok [] s = Blocked"
| "gateway_session_loop chacha20_xor env malloc_ok (SelIntr # es) s =
     gateway_session_loop chacha20_xor env malloc_ok es s"
| "gateway_session_loop chacha20_xor env malloc_ok (SelFail # es) s = Break s"
| "gateway_session_loop chacha20_xor env malloc_ok (SelReady client upstream # es) s =
     (if client \<and> tcp_transport_peek_status (gw_client s) \<le> 1 then Break s
      else
        then_do (if upstream then gateway_upstream_frame chacha20_xor env malloc_ok s else Continue s)
          (gateway_session_loop chacha20_xor env malloc_ok es))"

text \<open>Text and close frames to the upstream; \<open>rng k\<close> is the randomness of the \<open>k\<close>-th of them.\<close>

definition upstream_text ::
  "byte list option \<times> (nat \<Rightarrow> u32) \<Rightarrow> (nat \<Rightarrow> bool) \<Rightarrow> byte list \<Rightarrow> gw_session \<Rightarrow> gw_session flow" where
  "upstream_text rng malloc_ok msg s =
     (case ws_upstream_send_text (fst rng) (snd rng) malloc_ok (Some (gw_upstream s)) (Some msg) of
        None \<Rightarrow> Blocked
      | Some (rc, u) \<Rightarrow> (if rc \<noteq> 0 then Break else Continue) (s\<lparr>gw_upstream := the u\<rparr>))"

definition upstream_goodbye ::
  "byte list option \<times> (nat \<Rightarrow> u32) \<Rightarrow> (nat \<Rightarrow> bool) \<Rightarrow> gw_session \<Rightarrow> gw_session flow" where
  "upstream_goodbye rng malloc_ok s =
     (case ws_upstream_send_close (fst rng) (snd rng) malloc_ok (Some (gw_upstream s)) 1000 of
        None \<Rightarrow> Blocked
      | Some (rc, u) \<Rightarrow> Continue (s\<lparr>gw_upstream := the u\<rparr>))"

text \<open>The return values of the two texts at the end are ignored.\<close>

definition ignore_rc :: "'s flow \<Rightarrow> 's flow" where
  "ignore_rc r = (case r of Break s \<Rightarrow> Continue s | _ \<Rightarrow> r)"

definition quote :: "byte list" where
  "quote = [0x22]"

definition json_cmd :: "string \<Rightarrow> byte list" where
  "json_cmd name = str ''{'' @ quote @ str ''cmd'' @ quote @ str '':'' @ quote @ str name @ quote"

definition start_stream_text :: "byte list" where
  "start_stream_text = json_cmd ''start_stream'' @ str '','' @ quote @ str ''param'' @ quote @ str '':{'' @
     quote @ str ''mirror'' @ quote @ str '':1}}''"

definition gateway_cleanup ::
  "(nat \<Rightarrow> byte list option \<times> (nat \<Rightarrow> u32)) \<Rightarrow> (nat \<Rightarrow> bool) \<Rightarrow> bool \<Rightarrow> gw_session \<Rightarrow> gw_session flow" where
  "gateway_cleanup rng malloc_ok upstream_ready s =
     then_do
       (if upstream_ready then
          then_do (ignore_rc (upstream_text (rng 2) malloc_ok (json_cmd ''stop_stream'' @ str ''}'') s)) (\<lambda>s.
          then_do (ignore_rc (upstream_text (rng 3) malloc_ok (json_cmd ''stop_audio_stream'' @ str ''}'') s))
            (upstream_goodbye (rng 4) malloc_ok))
        else Continue s)
       (\<lambda>s. Break (s\<lparr>gw_upstream := ws_upstream_close (gw_upstream s)\<rparr>))"

definition cleanup_after ::
  "(nat \<Rightarrow> byte list option \<times> (nat \<Rightarrow> u32)) \<Rightarrow> (nat \<Rightarrow> bool) \<Rightarrow> bool \<Rightarrow> gw_session flow \<Rightarrow> gw_session flow" where
  "cleanup_after rng malloc_ok upstream_ready r =
     (case r of Break s \<Rightarrow> gateway_cleanup rng malloc_ok upstream_ready s | _ \<Rightarrow> r)"

text \<open>
  The thread: \<open>sk\<close> is the socket \<open>tcp_transport_connect\<close> returns for the upstream.  It ends
  with \<open>Break\<close> of the state it leaves.
\<close>

definition gateway_session_main ::
  "cipher \<Rightarrow> libc \<Rightarrow> (nat \<Rightarrow> bool) \<Rightarrow> (nat \<Rightarrow> byte list option \<times> (nat \<Rightarrow> u32)) \<Rightarrow> sock option \<Rightarrow>
   byte list \<Rightarrow> u16 \<Rightarrow> select_event list \<Rightarrow> sock \<Rightarrow> gw_session flow" where
  "gateway_session_main chacha20_xor env malloc_ok rng sk host port selects client_fd =
     (let s = \<lparr>gw_client = client_fd,
               gw_upstream = \<lparr>fd = None, prebuffer = None, prebuffer_off = 0\<rparr>,
               gw_nonce = replicate CRYPTO_STREAM_NONCE_SIZE 0, gw_have_nonce = False\<rparr>;
          init_info = gateway_proto_default_init (Some \<lparr>version = 0, video_codec = 0, audio_codec = 0,
            audio_channels = 0, audio_sample_rate = 0, audio_sample_bits = 0\<rparr>)
      in case gateway_proto_write_init (Some (replicate GATEWAY_PROTO_INIT_SIZE 0)) init_info of
           (rc, init_buf) \<Rightarrow>
             if rc \<noteq> 0 then gateway_cleanup rng malloc_ok False s
             else
               (case ws_upstream_connect malloc_ok sk host port (Some (str ''/gateway'')) of
                  None \<Rightarrow> Blocked
                | Some (rc, u) \<Rightarrow>
                    let s = s\<lparr>gw_upstream := u\<rparr> in
                    if rc \<noteq> 0 then gateway_cleanup rng malloc_ok False s
                    else
                      cleanup_after rng malloc_ok True
                        (then_do (client_write (the init_buf) s) (\<lambda>s.
                         then_do (upstream_text (rng 0) malloc_ok start_stream_text s) (\<lambda>s.
                         then_do (upstream_text (rng 1) malloc_ok (json_cmd ''start_audio_stream'' @ str ''}'') s)
                           (gateway_session_loop chacha20_xor env malloc_ok selects))))))"

section \<open>The main loop\<close>

text \<open>
  The runtime shared by the main thread and the session thread: the flag under the lock, the
  sessions between \<open>pthread_create\<close> and their last \<open>gateway_set_active\<close>, the client the main
  thread holds between accepting it and handing it over, the clients it closed.
\<close>

record gw_runtime =
  session_active :: bool
  running :: nat
  pending_client :: "nat option"
  spawning :: bool
  closed_clients :: "nat list"

definition gateway_set_active :: "bool \<Rightarrow> gw_runtime \<Rightarrow> gw_runtime" where
  "gateway_set_active active r = r\<lparr>session_active := active\<rparr>"

definition gateway_is_active :: "gw_runtime \<Rightarrow> bool" where
  "gateway_is_active r = session_active r"

text \<open>
  The steps of the two threads between which the other one can run: an accepted client is rejected
  or kept, the allocation of the argument fails, the flag is set, the thread is created or not, and
  a session ends.
\<close>

inductive gw_step :: "gw_runtime \<Rightarrow> gw_runtime \<Rightarrow> bool" where
  rejected: "pending_client r = None \<Longrightarrow> gateway_is_active r \<Longrightarrow>
    gw_step r (r\<lparr>closed_clients := client # closed_clients r\<rparr>)"
| accepted: "pending_client r = None \<Longrightarrow> \<not> gateway_is_active r \<Longrightarrow>
    gw_step r (r\<lparr>pending_client := Some client, spawning := False\<rparr>)"
| no_memory: "pending_client r = Some client \<Longrightarrow> \<not> spawning r \<Longrightarrow>
    gw_step r (r\<lparr>pending_client := None, closed_clients := client # closed_clients r\<rparr>)"
| activate: "pending_client r = Some client \<Longrightarrow> \<not> spawning r \<Longrightarrow>
    gw_step r (gateway_set_active True (r\<lparr>spawning := True\<rparr>))"
| created: "pending_client r = Some client \<Longrightarrow> spawning r \<Longrightarrow>
    gw_step r (r\<lparr>pending_client := None, running := running r + 1\<rparr>)"
| not_created: "pending_client r = Some client \<Longrightarrow> spawning r \<Longrightarrow>
    gw_step r (gateway_set_active False (r\<lparr>pending_client := None, closed_clients := client # closed_clients r\<rparr>))"
| session_end: "0 < running r \<Longrightarrow> gw_step r (gateway_set_active False (r\<lparr>running := running r - 1\<rparr>))"

inductive_cases gw_stepE: "gw_step r r'"

definition gw_start :: gw_runtime where
  "gw_start = \<lparr>session_active = False, running = 0, pending_client = None, spawning = False,
     closed_clients = []\<rparr>"

text \<open>The flag is set exactly while a session runs or is being started.\<close>

definition gw_inv :: "gw_runtime \<Rightarrow> bool" where
  "gw_inv r \<longleftrightarrow>
     running r + (if pending_client r \<noteq> None \<and> spawning r then 1 else 0) = (if session_active r then 1 else 0) \<and>
     (pending_client r \<noteq> None \<longrightarrow> running r = 0)"

lemma gw_step_inv: "gw_step r r' \<Longrightarrow> gw_inv r \<Longrightarrow> gw_inv r'"
  by (induction rule: gw_step.induct)
     (auto simp: gw_inv_def gateway_set_active_def gateway_is_active_def split: if_splits)

text \<open>
  C19: at most one session.  Whatever the interleaving of the main thread with the session threads,
  no second session is ever running, and the flag is set exactly while one is running or being
  started; so a client is turned away only then.
\<close>

theorem gateway_single_session:
  assumes "gw_step\<^sup>*\<^sup>* gw_start r"
  shows "running r \<le> 1 \<and>
    (session_active r \<longleftrightarrow> running r = 1 \<or> (pending_client r \<noteq> None \<and> spawning r))"
proof -
  have "gw_inv r"
    using assms
  proof (induction rule: rtranclp_induct)
    case base
    show ?case by (simp add: gw_inv_def gw_start_def)
  next
    case (step y z)
    from gw_step_inv [OF step(2,3)] show ?case .
  qed
  then show ?thesis by (auto simp: gw_inv_def split: if_splits)
qed

theorem gateway_single_session_witness:
  "\<exists>r. gw_step\<^sup>*\<^sup>* gw_start r \<and> running r = 1 \<and> session_active r \<and> running r \<le> 1"
proof -
  let ?r1 = "gw_start\<lparr>pending_client := Some 5, spawning := False\<rparr>"
  let ?r2 = "gateway_set_active True (?r1\<lparr>spawning := True\<rparr>)"
  let ?r3 = "?r2\<lparr>pending_client := None, running := running ?r2 + 1\<rparr>"
  have "gw_step gw_start ?r1"
    by (rule gw_step.accepted) (simp_all add: gw_start_def gateway_is_active_def)
  moreover have "gw_step ?r1 ?r2" by (rule gw_step.activate [of _ 5]) simp_all
  moreover have "gw_step ?r2 ?r3" by (rule gw_step.created [of _ 5]) (simp_all add: gateway_set_active_def)
  ultimately have r: "gw_step\<^sup>*\<^sup>* gw_start ?r3" by (meson rtranclp.rtrancl_into_rtrancl rtranclp.rtrancl_refl)
  have "running ?r3 = 1" "session_active ?r3" by (simp_all add: gateway_set_active_def gw_start_def)
  with gateway_single_session [OF r] r show ?thesis by blast
qed

end
