(* ===== verification/GatewayRelay.thy ===== *)
theory GatewayRelay
  imports Gateway
begin

text \<open>
  What a session of the desktop gateway does to its client: it never faults, the bytes the client
  gets are always a prefix of well-formed packets behind the init message, and a sealed media packet
  is relayed with its plaintext.
\<close>

section \<open>What the client receives\<close>

text \<open>A packet of the client's stream: a header whose length field is that of what follows it.\<close>

definition relayed :: "gateway_proto_media_info \<Rightarrow> byte list \<Rightarrow> byte list" where
  "relayed info pt = media_wire (info\<lparr>payload_len := word_of_nat (length pt)\<rparr>) @ pt"

lemma client_write_cases:
  "client_write buf s = Continue s' \<Longrightarrow> sent (gw_client s') = sent (gw_client s) @ buf"
  "client_write buf s = Break s' \<Longrightarrow> \<exists>k. sent (gw_client s') = sent (gw_client s) @ take k buf"
  "client_write buf s = Continue s' \<or> client_write buf s = Break s' \<Longrightarrow> s' = s\<lparr>gw_client := gw_client s'\<rparr>"
  using write_all_effect [of "gw_client s" buf]
  by (fastforce simp: client_write_def split: option.splits if_splits)+

lemma client_write_not_crashed [simp]: "client_write buf s \<noteq> Crashed"
  by (simp add: client_write_def split: option.splits)

lemma then_do_conv:
  "then_do r f = Continue s' \<longleftrightarrow> (\<exists>s. r = Continue s \<and> f s = Continue s')"
  "then_do r f = Break s' \<longleftrightarrow> r = Break s' \<or> (\<exists>s. r = Continue s \<and> f s = Break s')"
  "then_do r f = Crashed \<longleftrightarrow> r = Crashed \<or> (\<exists>s. r = Continue s \<and> f s = Crashed)"
  by (cases r; auto)+

text \<open>Writing a header and a body: both, or a prefix of the two when the loop is left.\<close>

lemma two_writes:
  "then_do (client_write a s) (client_write b) = Continue s' \<Longrightarrow>
     sent (gw_client s') = sent (gw_client s) @ a @ b"
  "then_do (client_write a s) (client_write b) = Break s' \<Longrightarrow>
     \<exists>k. sent (gw_client s') = sent (gw_client s) @ take k (a @ b)"
proof -
  show "sent (gw_client s') = sent (gw_client s) @ a @ b"
    if "then_do (client_write a s) (client_write b) = Continue s'"
    using that client_write_cases(1) by (fastforce simp: then_do_conv)
  show "\<exists>k. sent (gw_client s') = sent (gw_client s) @ take k (a @ b)"
    if r: "then_do (client_write a s) (client_write b) = Break s'"
  proof (cases "client_write a s = Break s'")
    case True
    from client_write_cases(2) [OF this] obtain k where "sent (gw_client s') = sent (gw_client s) @ take k a"
      by blast
    then have "sent (gw_client s') = sent (gw_client s) @ take (min k (length a)) (a @ b)"
      by (cases "k \<le> length a") (simp_all add: min_def)
    then show ?thesis by blast
  next
    case False
    then obtain s1 where s1: "client_write a s = Continue s1" "client_write b s1 = Break s'"
      using r by (auto simp: then_do_conv)
    from client_write_cases(2) [OF s1(2)] obtain k where "sent (gw_client s') = sent (gw_client s1) @ take k b"
      by blast
    then have "sent (gw_client s') = sent (gw_client s) @ take (length a + k) (a @ b)"
      using client_write_cases(1) [OF s1(1)] by simp
    then show ?thesis by blast
  qed
qed

lemma c_int_le: "c_int n \<le> int n"
proof -
  have "c_int n = signed_take_bit 31 (int n)" by (simp add: c_int_def signed_of_nat)
  also have "\<dots> \<le> take_bit 32 (int n)"
    by (simp add: signed_take_bit_eq_take_bit_minus)
  also have "\<dots> \<le> int n" by (simp add: take_bit_int_less_eq_self_iff)
  finally show ?thesis .
qed

lemma length_blit_ge: "length buf \<le> length (blit buf 0 xs)"
  by (simp add: blit_def)

lemma decrypt_length:
  assumes "r = crypto_stream_decrypt_packet c (Some (replicate n 0)) n (Some a) (Some b) (Some sn) payload n"
    and "0 \<le> dr_rc r"
  shows "\<exists>p sid seq. dr_plaintext r = Some p \<and> nat (dr_rc r) \<le> length p \<and>
    dr_stream_id r = Some sid \<and> dr_seq_no r = Some seq"
proof (cases payload)
  case None
  with assms show ?thesis by (simp add: crypto_stream_decrypt_packet_def Let_def)
next
  case (Some pkt)
  from assms(2) have "dr_rc r = c_int (n - 8) \<and> (\<exists>xs. dr_plaintext r = Some (blit (replicate n 0) 0 xs)) \<and>
      dr_stream_id r = Some (pkt ! 3) \<and> (\<exists>seq. dr_seq_no r = Some seq)"
    unfolding assms(1) Some by (auto simp: crypto_stream_decrypt_packet_def Let_def split: if_splits)
  then obtain xs where r: "dr_rc r = c_int (n - 8)" "dr_plaintext r = Some (blit (replicate n 0) 0 xs)"
      "dr_stream_id r = Some (pkt ! 3)" "\<exists>seq. dr_seq_no r = Some seq" by blast
  have "nat (dr_rc r) \<le> n" using c_int_le [of "n - 8"] assms(2) unfolding r(1) by linarith
  also have "n \<le> length (blit (replicate n 0) 0 xs)" using length_blit_ge [of "replicate n 0" xs] by simp
  finally show ?thesis using r by blast
qed

lemma decrypt_small:
  assumes "r = crypto_stream_decrypt_packet c (Some (replicate n 0)) n (Some a) (Some b) (Some sn) payload n"
    and "0 \<le> dr_rc r"
  shows "nat (dr_rc r) < 2 ^ 31"
proof (cases payload)
  case None
  with assms show ?thesis by (simp add: crypto_stream_decrypt_packet_def Let_def)
next
  case (Some pkt)
  have "dr_rc r = c_int (n - 8)"
    using assms(2) unfolding assms(1) Some
    by (auto simp: crypto_stream_decrypt_packet_def Let_def split: if_splits)
  moreover have "c_int (n - 8) < 2 ^ 31"
    using sint_lt [of "word_of_nat (n - 8) :: 32 word"] by (simp add: c_int_def)
  ultimately show ?thesis by simp
qed

lemma relay_media_cases:
  assumes "gateway_relay_media c malloc_ok payload s = r"
  shows "(\<exists>s'. r = Continue s' \<and> sent (gw_client s') = sent (gw_client s)) \<or>
    (\<exists>s' info pt. length pt < 2 ^ 31 \<and> r = Continue s' \<and> sent (gw_client s') = sent (gw_client s) @ relayed info pt) \<or>
    (\<exists>s' info pt k. length pt < 2 ^ 31 \<and> r = Break s' \<and> sent (gw_client s') = sent (gw_client s) @ take k (relayed info pt)) \<or>
    r = Blocked"
proof -
  let ?n = "case payload of None \<Rightarrow> 0 | Some p \<Rightarrow> length p"
  let ?d = "crypto_stream_decrypt_packet c (Some (replicate ?n 0)) ?n (Some 0) (Some 0) (Some (gw_nonce s)) payload ?n"
  have none: "take 0 xs = []" for xs :: "byte list" by simp
  consider "\<not> gw_have_nonce s" | "gw_have_nonce s" "\<not> malloc_ok ?n \<or> dr_rc ?d < 0"
    | "gw_have_nonce s" "malloc_ok ?n" "0 \<le> dr_rc ?d" by linarith
  then show ?thesis
  proof cases
    case 1
    then show ?thesis using assms by (auto simp: gateway_relay_media_def)
  next
    case 2
    then have "r = Break s" using assms by (auto simp: gateway_relay_media_def Let_def)
    moreover have "length ([] :: byte list) < 2 ^ 31" by simp
    ultimately show ?thesis by (metis append_Nil2 none)
  next
    case 3
    obtain p sid seq where d: "dr_plaintext ?d = Some p" "nat (dr_rc ?d) \<le> length p"
      "dr_stream_id ?d = Some sid" "dr_seq_no ?d = Some seq"
      using decrypt_length [OF refl 3(3)] by blast
    let ?pt = "take (nat (dr_rc ?d)) p"
    let ?info = "\<lparr>stream_id = sid, flags = (if sid = GATEWAY_PROTO_STREAM_VIDEO
        then gateway_video_flags (Some p) (nat (dr_rc ?d)) else 0), seq_no = seq,
        payload_len = word_of_nat (nat (dr_rc ?d))\<rparr>"
    have l: "length ?pt = nat (dr_rc ?d)" using d(2) by simp
    have lt: "length ?pt < 2 ^ 31" using decrypt_small [OF refl 3(3)] l by simp
    have rel: "media_wire ?info @ ?pt = relayed ?info ?pt" unfolding relayed_def l by simp
    have r: "r = then_do (client_write (media_wire ?info) s) (client_write ?pt)"
      unfolding assms [symmetric] gateway_relay_media_def Let_def
      using 3 d by (simp add: write_media_wire)
    show ?thesis
    proof (cases r)
      case (Continue s')
      then show ?thesis using two_writes(1) [of _ s ?pt s'] r rel lt by metis
    next
      case (Break s')
      then show ?thesis using two_writes(2) [of _ s ?pt s'] r rel lt by metis
    next
      case Blocked
      then show ?thesis by blast
    next
      case Crashed
      then show ?thesis using r by (simp add: then_do_conv)
    qed
  qed
qed

text \<open>The rest of the loop's steps do not write to the client.\<close>

lemma upstream_frame_cases:
  assumes "gateway_upstream_frame c env malloc_ok s = r"
  shows "(\<exists>s'. (r = Continue s' \<or> r = Break s') \<and> sent (gw_client s') = sent (gw_client s)) \<or>
    (\<exists>s' info pt. length pt < 2 ^ 31 \<and> r = Continue s' \<and> sent (gw_client s') = sent (gw_client s) @ relayed info pt) \<or>
    (\<exists>s' info pt k. length pt < 2 ^ 31 \<and> r = Break s' \<and> sent (gw_client s') = sent (gw_client s) @ take k (relayed info pt)) \<or>
    r = Blocked \<or> r = Crashed"
proof (cases "ws_upstream_recv_frame malloc_ok (gw_upstream s)")
  case None
  with assms show ?thesis by (simp add: gateway_upstream_frame_def)
next
  case (Some a)
  obtain fr u where a: "a = (fr, u)" by fastforce
  let ?s = "s\<lparr>gw_upstream := u\<rparr>"
  show ?thesis
  proof (cases "\<exists>payload. fr = Some (0x2, payload)")
    case True
    then obtain payload where "fr = Some (0x2, payload)" by blast
    then have "gateway_relay_media c malloc_ok payload ?s = r"
      using assms Some a by (simp add: gateway_upstream_frame_def)
    from relay_media_cases [OF this] show ?thesis by fastforce
  next
    case False
    have "(\<exists>s'. (r = Continue s' \<or> r = Break s') \<and> sent (gw_client s') = sent (gw_client s)) \<or> r = Crashed"
      unfolding assms [symmetric] gateway_upstream_frame_def
      using Some a False by (auto simp: Let_def split: option.split outcome.split)
    then show ?thesis by blast
  qed
qed

text \<open>The payloads are small enough for the length field.\<close>

definition relay_stream :: "(gateway_proto_media_info \<times> byte list) list \<Rightarrow> byte list" where
  "relay_stream packets = concat (map (\<lambda>(info, pt). relayed info pt) packets)"

definition relay_ok :: "(gateway_proto_media_info \<times> byte list) list \<Rightarrow> bool" where
  "relay_ok packets = list_all (\<lambda>(info, pt). length pt < 2 ^ 31) packets"

lemma relay_ok_simps [simp]: "relay_ok []" "relay_ok ((info, pt) # ps) \<longleftrightarrow> length pt < 2 ^ 31 \<and> relay_ok ps"
  by (simp_all add: relay_ok_def)

lemma session_loop_output:
  "gateway_session_loop c env malloc_ok es s = Break s' \<Longrightarrow>
   \<exists>packets k. relay_ok packets \<and> sent (gw_client s') = sent (gw_client s) @ take k (relay_stream packets)"
proof (induction c env malloc_ok es s rule: gateway_session_loop.induct)
  case (4 c env malloc_ok client upstream es s)
  have nil: "take 0 (relay_stream []) = []" by simp
  show ?case
  proof (cases "client \<and> tcp_transport_peek_status (gw_client s) \<le> 1")
    case True
    with "4.prems" have "s' = s" by simp
    with nil show ?thesis by (metis append_Nil2 relay_ok_simps(1))
  next
    case go: False
    let ?r = "if upstream then gateway_upstream_frame c env malloc_ok s else Continue s"
    have r: "then_do ?r (gateway_session_loop c env malloc_ok es) = Break s'"
      using "4.prems" go by (simp only: gateway_session_loop.simps if_False)
    have step: "(\<exists>t. (?r = Continue t \<or> ?r = Break t) \<and> sent (gw_client t) = sent (gw_client s)) \<or>
      (\<exists>t info pt. length pt < 2 ^ 31 \<and> ?r = Continue t \<and> sent (gw_client t) = sent (gw_client s) @ relayed info pt) \<or>
      (\<exists>t info pt k. length pt < 2 ^ 31 \<and> ?r = Break t \<and> sent (gw_client t) = sent (gw_client s) @ take k (relayed info pt)) \<or>
      ?r = Blocked \<or> ?r = Crashed"
    proof (cases upstream)
      case True
      then show ?thesis using upstream_frame_cases [OF refl, of c env malloc_ok s] by simp
    next
      case False
      then show ?thesis by simp
    qed
    show ?thesis
    proof (cases "\<exists>t. ?r = Continue t")
      case True
      then obtain t where t: "?r = Continue t" by blast
      then have "gateway_session_loop c env malloc_ok es t = Break s'" using r by simp
      from "4.IH" [OF go this] obtain packets k
        where rest: "sent (gw_client s') = sent (gw_client t) @ take k (relay_stream packets)" "relay_ok packets" by blast
      from step t consider "sent (gw_client t) = sent (gw_client s)"
        | info pt where "sent (gw_client t) = sent (gw_client s) @ relayed info pt" "length pt < 2 ^ 31" by fastforce
      then show ?thesis
      proof cases
        case 1
        with rest show ?thesis by auto
      next
        case (2 info pt)
        have "relayed info pt @ take k (relay_stream packets) =
            take (length (relayed info pt) + k) (relay_stream ((info, pt) # packets))"
          by (simp add: relay_stream_def)
        with 2 rest show ?thesis by (metis append_assoc relay_ok_simps(2))
      qed
    next
      case False
      with r have "?r = Break s'" by (cases ?r) auto
      with step consider "sent (gw_client s') = sent (gw_client s)"
        | info pt k where "sent (gw_client s') = sent (gw_client s) @ take k (relayed info pt)" "length pt < 2 ^ 31" by fastforce
      then show ?thesis
      proof cases
        case 1
        with nil show ?thesis by (metis append_Nil2 relay_ok_simps(1))
      next
        case (2 info pt k)
        have "relay_stream [(info, pt)] = relayed info pt" by (simp add: relay_stream_def)
        with 2 show ?thesis by (metis relay_ok_simps)
      qed
    qed
  qed
next
  case (3 c env malloc_ok es s)
  have "take 0 (relay_stream []) = []" by simp
  with 3 show ?case by (metis append_Nil2 flow.inject(2) gateway_session_loop.simps(3) relay_ok_simps(1))
qed simp_all

section \<open>A whole session\<close>

lemma relay_media_no_crash: "gateway_relay_media c malloc_ok payload s \<noteq> Crashed"
  using relay_media_cases [OF refl, of c malloc_ok payload s] by fastforce

lemma upstream_frame_no_crash:
  assumes "strtod_ok (json_strtod env)"
  shows "gateway_upstream_frame c env malloc_ok s \<noteq> Crashed"
proof -
  have "(case gateway_parse_crypto_init env payload nonce of
      Ret (rc, sn, have) \<Rightarrow> (if rc \<noteq> 0 then Break else Continue) (f sn have) | _ \<Rightarrow> Crashed) \<noteq> Crashed"
    for payload nonce and f :: "byte list \<Rightarrow> bool \<Rightarrow> gw_session"
    using parse_crypto_init_returns [OF assms, of payload nonce] by (auto split: if_splits)
  then show ?thesis
    by (simp add: gateway_upstream_frame_def Let_def relay_media_no_crash split: option.split)
qed

lemma session_loop_ends:
  "strtod_ok (json_strtod env) \<Longrightarrow>
   gateway_session_loop c env malloc_ok es s \<noteq> Crashed \<and> (\<forall>s'. gateway_session_loop c env malloc_ok es s \<noteq> Continue s')"
proof (induction c env malloc_ok es s rule: gateway_session_loop.induct)
  case (4 c env malloc_ok client upstream es s)
  show ?case
  proof (cases "client \<and> tcp_transport_peek_status (gw_client s) \<le> 1")
    case True
    then show ?thesis by simp
  next
    case False
    note ih = "4.IH" [OF False "4.prems"]
    show ?thesis
      using False ih upstream_frame_no_crash [OF "4.prems", of c malloc_ok s]
      by (simp add: then_do_conv del: split_paired_All)
  qed
qed simp_all

lemma cleanup_client:
  "gateway_cleanup rng malloc_ok upstream_ready s = Blocked \<or>
   (\<exists>s'. gateway_cleanup rng malloc_ok upstream_ready s = Break s' \<and> gw_client s' = gw_client s \<and>
     fd (gw_upstream s') = None)"
proof -
  have texts: "(\<exists>t. ignore_rc (upstream_text g malloc_ok msg s) = Continue t \<and> gw_client t = gw_client s) \<or>
      ignore_rc (upstream_text g malloc_ok msg s) = Blocked" for g msg s
    by (simp add: ignore_rc_def upstream_text_def split: option.split prod.split)
  have bye: "(\<exists>t. upstream_goodbye g malloc_ok s = Continue t \<and> gw_client t = gw_client s) \<or>
      upstream_goodbye g malloc_ok s = Blocked" for g s
    by (simp add: upstream_goodbye_def split: option.split prod.split)
  let ?t1 = "json_cmd ''stop_stream'' @ str ''}''" and ?t2 = "json_cmd ''stop_audio_stream'' @ str ''}''"
  have "(\<exists>t. (if upstream_ready then
          then_do (ignore_rc (upstream_text (rng 2) malloc_ok ?t1 s)) (\<lambda>s.
          then_do (ignore_rc (upstream_text (rng 3) malloc_ok ?t2 s)) (upstream_goodbye (rng 4) malloc_ok))
        else Continue s) = Continue t \<and> gw_client t = gw_client s) \<or>
      (if upstream_ready then
          then_do (ignore_rc (upstream_text (rng 2) malloc_ok ?t1 s)) (\<lambda>s.
          then_do (ignore_rc (upstream_text (rng 3) malloc_ok ?t2 s)) (upstream_goodbye (rng 4) malloc_ok))
        else Continue s) = Blocked"
    using texts [of "rng 2" ?t1 s] texts [of "rng 3" ?t2] bye [of "rng 4"]
    by (cases upstream_ready) (fastforce simp: then_do_conv)+
  then show ?thesis
    by (auto simp: gateway_cleanup_def ws_upstream_close_def)
qed

lemma cleanup_keeps:
  assumes "P (sent (gw_client s))"
  shows "case gateway_cleanup rng malloc_ok upstream_ready s of
      Blocked \<Rightarrow> True | Break s' \<Rightarrow> fd (gw_upstream s') = None \<and> P (sent (gw_client s')) | _ \<Rightarrow> False"
  using cleanup_client [of rng malloc_ok upstream_ready s] assms by auto

text \<open>The init message of a session.\<close>

definition default_init :: gateway_proto_init_info where
  "default_init = \<lparr>version = 1, video_codec = 1, audio_codec = 1, audio_channels = 1,
     audio_sample_rate = 16000, audio_sample_bits = 16\<rparr>"

lemma session_main_unfold:
  "gateway_session_main c env malloc_ok rng sk host port selects client_fd =
     (let s = \<lparr>gw_client = client_fd, gw_upstream = \<lparr>fd = None, prebuffer = None, prebuffer_off = 0\<rparr>,
               gw_nonce = replicate CRYPTO_STREAM_NONCE_SIZE 0, gw_have_nonce = False\<rparr>
      in case ws_upstream_connect malloc_ok sk host port (Some (str ''/gateway'')) of
           None \<Rightarrow> Blocked
         | Some (rc, u) \<Rightarrow>
             if rc \<noteq> 0 then gateway_cleanup rng malloc_ok False (s\<lparr>gw_upstream := u\<rparr>)
             else cleanup_after rng malloc_ok True
               (then_do (client_write (init_wire default_init) (s\<lparr>gw_upstream := u\<rparr>)) (\<lambda>s.
                then_do (upstream_text (rng 0) malloc_ok start_stream_text s) (\<lambda>s.
                then_do (upstream_text (rng 1) malloc_ok (json_cmd ''start_audio_stream'' @ str ''}'') s)
                  (gateway_session_loop c env malloc_ok selects)))))"
proof -
  have init: "gateway_proto_write_init (Some (replicate GATEWAY_PROTO_INIT_SIZE 0))
      (gateway_proto_default_init (Some \<lparr>version = 0, video_codec = 0, audio_codec = 0, audio_channels = 0,
         audio_sample_rate = 0, audio_sample_bits = 0\<rparr>)) = (0, Some (init_wire default_init))"
    by (simp add: gateway_proto_default_init_def write_init_wire default_init_def)
  show ?thesis
    unfolding gateway_session_main_def init Let_def prod.case option.sel by simp
qed

lemma upstream_text_frame:
  "upstream_text g malloc_ok msg s = Continue t \<or> upstream_text g malloc_ok msg s = Break t \<Longrightarrow>
   gw_client t = gw_client s"
  "upstream_text g malloc_ok msg s \<noteq> Crashed"
  by (auto simp: upstream_text_def split: option.splits if_splits)

text \<open>The session between the connect and the cleanup.\<close>

lemma session_body_output:
  assumes r: "then_do (client_write (init_wire default_init) s) (\<lambda>s.
      then_do (upstream_text g0 malloc_ok m0 s) (\<lambda>s.
      then_do (upstream_text g1 malloc_ok m1 s) (gateway_session_loop c env malloc_ok selects))) = Break s'"
  shows "\<exists>packets k. relay_ok packets \<and> sent (gw_client s') =
    sent (gw_client s) @ take k (init_wire default_init @ relay_stream packets)"
proof -
  let ?i = "init_wire default_init"
  have prefix: ?thesis if "sent (gw_client s') = sent (gw_client s) @ take k ?i" for k
  proof -
    have "take k ?i = take (min k (length ?i)) (?i @ relay_stream [])" by (simp add: min_def)
    with that show ?thesis by (metis relay_ok_simps(1))
  qed
  show ?thesis
  proof (cases "client_write ?i s = Break s'")
    case True
    with client_write_cases(2) prefix show ?thesis by blast
  next
    case False
    with r obtain s1 where s1: "client_write ?i s = Continue s1"
      and r1: "then_do (upstream_text g0 malloc_ok m0 s1) (\<lambda>s.
        then_do (upstream_text g1 malloc_ok m1 s) (gateway_session_loop c env malloc_ok selects)) = Break s'"
      by (auto simp: then_do_conv)
    note w = client_write_cases(1) [OF s1]
    have "gw_client s' = gw_client s1 \<or>
      (\<exists>t. gw_client t = gw_client s1 \<and> gateway_session_loop c env malloc_ok selects t = Break s')"
      using r1 upstream_text_frame(1) unfolding then_do_conv by metis
    then show ?thesis
    proof
      assume "gw_client s' = gw_client s1"
      then show ?thesis using w prefix [of "length ?i"] by simp
    next
      assume "\<exists>t. gw_client t = gw_client s1 \<and> gateway_session_loop c env malloc_ok selects t = Break s'"
      then obtain packets k where "sent (gw_client s') = sent (gw_client s1) @ take k (relay_stream packets)"
          "relay_ok packets"
        using session_loop_output by metis
      moreover have "?i @ take k (relay_stream packets) = take (length ?i + k) (?i @ relay_stream packets)"
        by simp
      ultimately show ?thesis using w by (metis append_assoc)
    qed
  qed
qed

text \<open>
  C13: a session never faults, ends by letting go of the upstream, and its client is only ever sent a
  prefix of the init message followed by packets, each a header whose length field is that of the
  payload behind it; whatever the upstream sends, and whatever fails.
\<close>

theorem gateway_session_output:
  assumes "strtod_ok (json_strtod env)"
  shows "case gateway_session_main c env malloc_ok rng sk host port selects client_fd of
      Blocked \<Rightarrow> True
    | Break s \<Rightarrow> fd (gw_upstream s) = None \<and>
        (\<exists>packets k. relay_ok packets \<and> sent (gw_client s) =
           sent client_fd @ take k (init_wire default_init @ relay_stream packets))
    | _ \<Rightarrow> False"
proof (cases "ws_upstream_connect malloc_ok sk host port (Some (str ''/gateway''))")
  case None
  then show ?thesis by (simp add: session_main_unfold del: str_simps)
next
  case (Some a)
  obtain rc u where a: "a = (rc, u)" by fastforce
  let ?s = "\<lparr>gw_client = client_fd, gw_upstream = u, gw_nonce = replicate CRYPTO_STREAM_NONCE_SIZE 0,
      gw_have_nonce = False\<rparr>"
  have "relay_ok [] \<and> sent client_fd = sent client_fd @ take 0 (init_wire default_init @ relay_stream [])" by simp
  then have none: "\<exists>packets k. relay_ok packets \<and>
      sent client_fd = sent client_fd @ take k (init_wire default_init @ relay_stream packets)" by blast
  show ?thesis
  proof (cases "rc = 0")
    case False
    then have m: "gateway_session_main c env malloc_ok rng sk host port selects client_fd =
        gateway_cleanup rng malloc_ok False ?s"
      using Some a by (simp add: session_main_unfold Let_def del: str_simps)
    show ?thesis
      unfolding m
      by (rule cleanup_keeps [where P = "\<lambda>out. \<exists>packets k. relay_ok packets \<and>
            out = sent client_fd @ take k (init_wire default_init @ relay_stream packets)"])
        (use none in \<open>simp only: gw_session.select_convs\<close>)
  next
    case True
    let ?body = "then_do (client_write (init_wire default_init) ?s) (\<lambda>s.
        then_do (upstream_text (rng 0) malloc_ok start_stream_text s) (\<lambda>s.
        then_do (upstream_text (rng 1) malloc_ok (json_cmd ''start_audio_stream'' @ str ''}'') s)
          (gateway_session_loop c env malloc_ok selects)))"
    have main: "gateway_session_main c env malloc_ok rng sk host port selects client_fd =
        cleanup_after rng malloc_ok True ?body"
      using Some a True by (simp add: session_main_unfold Let_def del: str_simps)
    note ends = session_loop_ends [OF assms, of c malloc_ok selects]
    show ?thesis
    proof (cases ?body)
      case (Break s')
      show ?thesis
        unfolding main Break cleanup_after_def flow.case
        by (rule cleanup_keeps [where P = "\<lambda>out. \<exists>packets k. relay_ok packets \<and>
              out = sent client_fd @ take k (init_wire default_init @ relay_stream packets)"])
          (use session_body_output [OF Break] in \<open>simp only: gw_session.select_convs\<close>)
    next
      case (Continue s')
      with ends show ?thesis by (auto simp: then_do_conv)
    next
      case Crashed
      with ends show ?thesis by (auto simp: then_do_conv upstream_text_frame(2))
    qed (simp add: main cleanup_after_def)
  qed
qed

theorem gateway_session_output_witness:
  "case gateway_session_main toy_cipher demo_libc (\<lambda>_. True) (\<lambda>_. (Some [1, 2, 3, 4], \<lambda>_. 0)) None (str ''h'') 81 [] demo_sock of
      Blocked \<Rightarrow> True
    | Break s \<Rightarrow> fd (gw_upstream s) = None \<and>
        (\<exists>packets k. relay_ok packets \<and> sent (gw_client s) =
           sent demo_sock @ take k (init_wire default_init @ relay_stream packets))
    | _ \<Rightarrow> False"
  by (rule gateway_session_output) (simp add: demo_libc_def digits_strtod_ok)

section \<open>A media packet end to end\<close>

text \<open>
  C12: a media packet the upstream sealed under the session's nonce and sent in a binary frame, masked
  or not and however the network segments it, is relayed as one header with the packet's stream id,
  sequence number, video flags and the plaintext's length, then the plaintext; the upstream is left
  exactly behind the frame, and the session goes on.  (The two writes to the client succeed.)
\<close>

theorem gateway_relays_media:
  assumes "xor_stream_cipher c" and "gw_have_nonce s" and "8 + length pt < 2 ^ 31"
    and "client_stream (gw_upstream s) = frame_bytes 0x82 key (packet_wire c sid seq (gw_nonce s) pt) @ rest"
    and "\<forall>k. key = Some k \<longrightarrow> length k = 4" and "malloc_ok (8 + length pt)"
    and "info = \<lparr>stream_id = sid,
      flags = (if sid = GATEWAY_PROTO_STREAM_VIDEO then gateway_video_flags (Some pt) (length pt) else 0),
      seq_no = seq, payload_len = word_of_nat (length pt)\<rparr>"
    and "tcp_transport_write_all (gw_client s) (media_wire info) = Some (0, sk1)"
    and "tcp_transport_write_all sk1 pt = Some (0, sk2)"
  shows "\<exists>u. gateway_upstream_frame c env malloc_ok s = Continue (s\<lparr>gw_upstream := u, gw_client := sk2\<rparr>) \<and>
    client_stream u = rest \<and> sent sk2 = sent (gw_client s) @ media_wire info @ pt"
proof -
  let ?pkt = "packet_wire c sid seq (gw_nonce s) pt"
  have len: "length ?pkt = 8 + length pt" by (rule length_packet_wire [OF assms(1)])
  then have ne: "?pkt \<noteq> []" by auto
  obtain u where u: "recv_frame_via ws_read 64 malloc_ok (gw_upstream s) = Some (Some (0x82 AND 0x0F, Some ?pkt), u)"
      "client_stream u = rest"
    by (rule upstream.recv_frame_ok [OF TrueI assms(4), of 64 malloc_ok]) (use assms ne len in simp_all)
  have vid: "gateway_video_flags (Some (pt @ replicate 8 0)) (length pt) = gateway_video_flags (Some pt) (length pt)"
    by (cases "16 \<le> length pt"; cases "pt = []") (simp_all add: gateway_video_flags_def nth_append)
  have d: "crypto_stream_decrypt_packet c (Some (replicate (8 + length pt) 0)) (8 + length pt) (Some 0) (Some 0)
      (Some (gw_nonce s)) (Some ?pkt) (8 + length pt) =
      \<lparr>dr_rc = int (length pt), dr_plaintext = Some (pt @ replicate 8 0), dr_stream_id = Some sid, dr_seq_no = Some seq\<rparr>"
    using decrypt_packet_wire [OF assms(1,3), of "8 + length pt" "replicate (8 + length pt) 0" 0 0 "gw_nonce s" sid seq "[]"]
    by simp
  have "gateway_upstream_frame c env malloc_ok s = gateway_relay_media c malloc_ok (Some ?pkt) (s\<lparr>gw_upstream := u\<rparr>)"
    using u(1) by (simp add: gateway_upstream_frame_def ws_upstream_recv_frame_def)
  also have "\<dots> = then_do (client_write (media_wire info) (s\<lparr>gw_upstream := u\<rparr>)) (client_write pt)"
    using assms(2,6) d vid
    by (simp add: gateway_relay_media_def len Let_def write_media_wire assms(7))
  also have "\<dots> = Continue (s\<lparr>gw_upstream := u, gw_client := sk2\<rparr>)"
    using assms(8,9) by (simp add: client_write_def)
  finally show ?thesis
    using u(2) write_all_effect [OF assms(8)] write_all_effect [OF assms(9)] by auto
qed

definition demo_session :: gw_session where
  "demo_session =
     \<lparr>gw_client = \<lparr>incoming = [], outgoing = [STake 100, STake 100], sent = []\<rparr>,
      gw_upstream = \<lparr>fd = None,
        prebuffer = Some (frame_bytes 0x82 None (packet_wire toy_cipher 1 5 (replicate 12 7) [0x65, 1]) @ [0x89]),
        prebuffer_off = 0\<rparr>,
      gw_nonce = replicate 12 7, gw_have_nonce = True\<rparr>"

theorem gateway_relays_media_witness:
  "\<exists>s'. gateway_upstream_frame toy_cipher demo_libc (\<lambda>_. True) demo_session = Continue s' \<and>
     client_stream (gw_upstream s') = [0x89] \<and>
     sent (gw_client s') = media_wire \<lparr>stream_id = 1, flags = 1, seq_no = 5, payload_len = 2\<rparr> @ [0x65, 1]"
proof -
  let ?i = "\<lparr>stream_id = 1, flags = 1, seq_no = 5, payload_len = 2\<rparr> :: gateway_proto_media_info"
  let ?sk = "\<lambda>out es. \<lparr>incoming = [], outgoing = es, sent = out\<rparr>"
  have ne: "media_wire ?i \<noteq> []" by (simp add: media_wire_def)
  have w1: "tcp_transport_write_all (gw_client demo_session) (media_wire ?i) =
      Some (0, ?sk (media_wire ?i) [STake 100])"
    using ne by (simp add: demo_session_def tcp_transport_write_all.simps send.simps)
  have w2: "tcp_transport_write_all (?sk (media_wire ?i) [STake 100]) [0x65, 1] =
      Some (0, ?sk (media_wire ?i @ [0x65, 1]) [])"
    by (simp add: tcp_transport_write_all.simps send.simps)
  have info: "?i = \<lparr>stream_id = 1,
      flags = (if 1 = GATEWAY_PROTO_STREAM_VIDEO then gateway_video_flags (Some [0x65, 1]) (length [0x65 :: byte, 1]) else 0),
      seq_no = 5, payload_len = word_of_nat (length [0x65 :: byte, 1])\<rparr>"
    by (simp add: gateway_video_flags_def)
  have "\<exists>u. gateway_upstream_frame toy_cipher demo_libc (\<lambda>_. True) demo_session =
      Continue (demo_session\<lparr>gw_upstream := u, gw_client := ?sk (media_wire ?i @ [0x65, 1]) []\<rparr>) \<and>
    client_stream u = [0x89] \<and>
    sent (?sk (media_wire ?i @ [0x65, 1]) []) = sent (gw_client demo_session) @ media_wire ?i @ [0x65, 1]"
    by (rule gateway_relays_media [where key = None and pt = "[0x65, 1]", OF toy_cipher_xor _ _ _ _ _ info w1 w2])
       (simp_all add: demo_session_def client_stream_def unread_def fd_script_def)
  then show ?thesis by auto
qed

end
