(* ===== verification/BitrateCtrl.thy ===== *)
theory BitrateCtrl
  imports Outcome Prelude "HOL-Library.Signed_Division"
begin

text \<open>
  The encoder's rate control (\<open>wsh264/app/bitrate_ctrl.c\<close>): fixed-point averages of the frame sizes
  and the quantiser they lead to.  \<open>int\<close> has 32 bits and \<open>size_t\<close> 64; what C leaves undefined (signed
  overflow, shifting a negative number, dividing by zero, reading an uninitialised local) is \<open>Fault\<close>.
\<close>

section \<open>Integer arithmetic\<close>

definition int32 :: "int \<Rightarrow> int outcome" where
  "int32 x = (if - (2 ^ 31) \<le> x \<and> x < 2 ^ 31 then Ret x else Fault)"

definition shl32 :: "int \<Rightarrow> nat \<Rightarrow> int outcome" where
  "shl32 x k = (if x < 0 then Fault else int32 (x * 2 ^ k))"

definition div32 :: "int \<Rightarrow> int \<Rightarrow> int outcome" where
  "div32 x y = (if y = 0 then Fault else int32 (x sdiv y))"

abbreviation (input) FIXED_POINT_SHIFT :: nat where "FIXED_POINT_SHIFT \<equiv> 8"
abbreviation (input) QP_SHIFT :: nat where "QP_SHIFT \<equiv> 4"
abbreviation (input) AVERAGE_STEP :: int where "AVERAGE_STEP \<equiv> 8"

section \<open>The square root\<close>

lemma sdiv_2_between:
  assumes "a \<le> b"
  shows "a \<le> (a + b) sdiv 2" and "(a + b) sdiv 2 \<le> (b :: int)"
proof -
  have "(a + b) sdiv 2 = (if 0 \<le> a + b then (a + b) div 2 else - ((- (a + b)) div 2))"
    by (cases "a + b = 0") (auto simp: signed_divide_int_def)
  then show "a \<le> (a + b) sdiv 2" "(a + b) sdiv 2 \<le> b" using assms by (auto split: if_splits)
qed

text \<open>The bisection between \<open>start\<close> and \<open>fin\<close>; \<open>ans = None\<close> while the local is not assigned.\<close>

function int_sqrt_loop :: "int \<Rightarrow> int \<Rightarrow> int \<Rightarrow> int option \<Rightarrow> int outcome" where
  "int_sqrt_loop x start fin ans =
     (if start \<le> fin then
        obind (int32 (start + fin)) (\<lambda>sm.
        let mid = sm sdiv 2 in
        obind (int32 (mid * mid)) (\<lambda>sqr.
          if sqr = x then Ret mid
          else if sqr \<le> x then int_sqrt_loop x ((start + fin) sdiv 2 + 1) fin (Some ((start + fin) sdiv 2))
          else int_sqrt_loop x start ((start + fin) sdiv 2 - 1) ans))
      else (case ans of None \<Rightarrow> Fault | Some r \<Rightarrow> Ret r))"
  by pat_completeness auto
termination
  by (relation "measure (\<lambda>(x, start, fin, ans). nat (fin - start + 1))")
     (use sdiv_2_between in \<open>fastforce+\<close>)

declare int_sqrt_loop.simps [simp del]

definition int_sqrt :: "int \<Rightarrow> int outcome" where
  "int_sqrt x = (if x = 0 \<or> x = 1 then Ret x else int_sqrt_loop x 1 (x sdiv 2) None)"

section \<open>The controller\<close>

record bitrate_ctrl =
  target_bitrate :: int
  min_qp :: int
  max_qp :: int
  cal_qp :: int
  average_size :: int
  target_frame_size :: int
  i_cost :: int
  frame_count :: int
  gop :: int
  bc_fps :: int
  max_qp_step :: int

definition bitrate_ctrl_init :: "int \<Rightarrow> int \<Rightarrow> bitrate_ctrl outcome" where
  "bitrate_ctrl_init bitrate fps =
     obind (shl32 bitrate (FIXED_POINT_SHIFT - 3)) (\<lambda>b.
     obind (div32 b fps) (\<lambda>sz.
     Ret \<lparr>target_bitrate = bitrate, min_qp = 26, max_qp = 35, cal_qp = 0, average_size = 0,
          target_frame_size = sz, i_cost = 0, frame_count = 0, gop = 0, bc_fps = fps, max_qp_step = 4\<rparr>))"

definition bitrate_ctrl_setup_qp_range :: "bitrate_ctrl \<Rightarrow> int \<Rightarrow> int \<Rightarrow> bitrate_ctrl" where
  "bitrate_ctrl_setup_qp_range ctrl lo hi = ctrl\<lparr>min_qp := lo, max_qp := hi\<rparr>"

text \<open>\<open>(int)(size << FIXED_POINT_SHIFT)\<close>.\<close>

definition fixed_size :: "64 word \<Rightarrow> int" where
  "fixed_size sz = sint (ucast (push_bit FIXED_POINT_SHIFT sz) :: 32 word)"

text \<open>The cost of a key frame, and the average after a predicted one, computed in \<open>size_t\<close>.\<close>

definition idr_update :: "64 word \<Rightarrow> bitrate_ctrl \<Rightarrow> bitrate_ctrl outcome" where
  "idr_update sz ctrl =
     obind (int32 (fixed_size sz - average_size ctrl)) (\<lambda>size_diff.
     obind (if gop ctrl > 0 then div32 size_diff (gop ctrl) else div32 size_diff 30) (\<lambda>cost.
     Ret (ctrl\<lparr>i_cost := cost, gop := 0\<rparr>)))"

definition p_update :: "64 word \<Rightarrow> bitrate_ctrl \<Rightarrow> bitrate_ctrl outcome" where
  "p_update sz ctrl =
     obind (int32 (average_size ctrl * AVERAGE_STEP)) (\<lambda>a.
     obind (int32 (gop ctrl + 1)) (\<lambda>g.
     Ret (ctrl\<lparr>average_size := sint (ucast ((word_of_int a +
         (push_bit FIXED_POINT_SHIFT sz + word_of_int (i_cost ctrl))) div 9 :: 64 word) :: 32 word),
       gop := g\<rparr>)))"

definition clamp_qp :: "bitrate_ctrl \<Rightarrow> int \<Rightarrow> int" where
  "clamp_qp ctrl qp = (if qp < min_qp ctrl then min_qp ctrl else if qp > max_qp ctrl then max_qp ctrl else qp)"

text \<open>How far the quantiser moves: the root of the ratio of two sizes.\<close>

definition qp_step :: "int \<Rightarrow> int \<Rightarrow> int outcome" where
  "qp_step a b =
     obind (shl32 a FIXED_POINT_SHIFT) (\<lambda>n.
     obind (div32 n b) (\<lambda>slope.
     obind (int_sqrt slope) (\<lambda>r. Ret (r sdiv 9))))"

definition update_qp :: "bitrate_ctrl \<Rightarrow> (int \<times> bitrate_ctrl) outcome" where
  "update_qp ctrl =
     (if frame_count ctrl > AVERAGE_STEP then
        obind (if average_size ctrl > target_frame_size ctrl
               then obind (qp_step (average_size ctrl) (target_frame_size ctrl)) (\<lambda>st. int32 (cal_qp ctrl + st))
               else obind (qp_step (target_frame_size ctrl) (average_size ctrl)) (\<lambda>st. int32 (cal_qp ctrl - st))) (\<lambda>qp.
        obind (shl32 (min_qp ctrl) QP_SHIFT) (\<lambda>lo.
        obind (shl32 (max_qp ctrl) QP_SHIFT) (\<lambda>hi.
        let qp = (if qp < lo then lo else qp);
            qp = (if qp > hi then hi else qp)
        in Ret (clamp_qp ctrl (qp div 2 ^ QP_SHIFT), ctrl\<lparr>cal_qp := qp\<rparr>))))
      else obind (int32 (min_qp ctrl + max_qp ctrl)) (\<lambda>s. Ret (clamp_qp ctrl (s sdiv 2), ctrl)))"

definition bitrate_ctrl_update_frame ::
  "bitrate_ctrl \<Rightarrow> byte list \<Rightarrow> 64 word \<Rightarrow> (int \<times> bitrate_ctrl) outcome" where
  "bitrate_ctrl_update_frame ctrl frame sz =
     obind (read_at frame 0) (\<lambda>b.
       let nal_type = b AND 0x1F in
       if nal_type = 5 \<or> nal_type = 1 then
         obind (if nal_type = 5 then idr_update sz ctrl else p_update sz ctrl) (\<lambda>ctrl.
         obind (int32 (frame_count ctrl + 1)) (\<lambda>n. update_qp (ctrl\<lparr>frame_count := n\<rparr>)))
       else Ret (cal_qp ctrl div 2 ^ QP_SHIFT, ctrl))"

section \<open>The square root is one, within its range\<close>

lemma mid_nonneg: "0 \<le> a \<Longrightarrow> (a :: int) sdiv 2 = a div 2"
  by (cases "a = 0") (auto simp: signed_divide_int_def)

lemma int_sqrt_loop_ok:
  "1 \<le> start \<Longrightarrow> start \<le> fin + 1 \<Longrightarrow> (start - 1) * (start - 1) \<le> x \<Longrightarrow> x < (fin + 1) * (fin + 1) \<Longrightarrow>
   start + fin \<le> 92681 \<Longrightarrow> 2 \<le> x \<Longrightarrow> x \<le> 185361 \<Longrightarrow> ans = (if start = 1 then None else Some (start - 1)) \<Longrightarrow>
   \<exists>r. int_sqrt_loop x start fin ans = Ret r \<and> 0 \<le> r \<and> r * r \<le> x \<and> x < (r + 1) * (r + 1)"
proof (induction x start fin ans rule: int_sqrt_loop.induct)
  case (1 x start fin ans)
  note unroll = int_sqrt_loop.simps [of x start fin ans]
  show ?case
  proof (cases "start \<le> fin")
    case False
    then have e: "start = fin + 1" using "1.prems"(2) by simp
    have "start \<noteq> 1" using "1.prems"(4,6) e by auto
    then have "int_sqrt_loop x start fin ans = Ret (start - 1)" unfolding unroll using False "1.prems"(8) by simp
    with e "1.prems"(1,3,4) show ?thesis by auto
  next
    case True
    let ?mid = "(start + fin) sdiv 2"
    have m: "?mid = (start + fin) div 2" using "1.prems"(1) True by (simp add: mid_nonneg)
    have r: "1 \<le> ?mid" "start \<le> ?mid" "?mid \<le> fin" "?mid \<le> 46340"
      using "1.prems"(1,5) True unfolding m by linarith+
    have sq: "?mid * ?mid \<le> 46340 * 46340" using r by (intro mult_mono) auto
    have ok: "int32 (start + fin) = Ret (start + fin)" "int32 (?mid * ?mid) = Ret (?mid * ?mid)"
      using "1.prems"(1,5) True sq r(1) by (auto simp: int32_def intro: order_trans [of _ 0])
    have run: "int_sqrt_loop x start fin ans =
        (if ?mid * ?mid = x then Ret ?mid
         else if ?mid * ?mid \<le> x then int_sqrt_loop x (?mid + 1) fin (Some ?mid)
         else int_sqrt_loop x start (?mid - 1) ans)"
      using True by (simp add: unroll ok Let_def)
    consider "?mid * ?mid = x" | "?mid * ?mid < x" | "x < ?mid * ?mid" by linarith
    then show ?thesis
    proof cases
      case 1
      then show ?thesis using run r(1) by (auto simp: algebra_simps)
    next
      case 2
      have "?mid \<le> 430"
      proof (rule ccontr)
        assume "\<not> ?mid \<le> 430"
        then have "431 * 431 \<le> ?mid * ?mid" by (intro mult_mono) auto
        with 2 "1.prems"(7) show False by simp
      qed
      then have b: "?mid + 1 + fin \<le> 92681" using "1.prems"(1) unfolding m by presburger
      have "\<exists>r. int_sqrt_loop x (?mid + 1) fin (Some ?mid) = Ret r \<and> 0 \<le> r \<and> r * r \<le> x \<and> x < (r + 1) * (r + 1)"
        by (rule "1.IH"(1) [OF True ok(1) refl ok(2)]) (use 2 "1.prems" r b in auto)
      then show ?thesis using run 2 by simp
    next
      case 3
      have "\<exists>r. int_sqrt_loop x start (?mid - 1) ans = Ret r \<and> 0 \<le> r \<and> r * r \<le> x \<and> x < (r + 1) * (r + 1)"
        by (rule "1.IH"(2) [OF True ok(1) refl ok(2)]) (use 3 "1.prems" r in auto)
      then show ?thesis using run 3 by simp
    qed
  qed
qed

lemma int_sqrt_floor:
  assumes "0 \<le> x" and "x \<le> 185361"
  shows "\<exists>r. int_sqrt x = Ret r \<and> 0 \<le> r \<and> r * r \<le> x \<and> x < (r + 1) * (r + 1)"
proof (cases "2 \<le> x")
  case False
  then have "x = 0 \<or> x = 1" using assms(1) by auto
  then show ?thesis by (auto simp: int_sqrt_def)
next
  case True
  have "x < (x div 2 + 1) * (x div 2 + 1)"
  proof -
    have "x + 1 \<le> 2 * (x div 2 + 1)" by presburger
    also have "\<dots> \<le> (x div 2 + 1) * (x div 2 + 1)" using True by (intro mult_right_mono) auto
    finally show ?thesis by simp
  qed
  moreover have "1 + x div 2 \<le> 92681" using assms(2) by presburger
  ultimately have "\<exists>r. int_sqrt_loop x 1 (x div 2) None = Ret r \<and> 0 \<le> r \<and> r * r \<le> x \<and> x < (r + 1) * (r + 1)"
    using True assms by (intro int_sqrt_loop_ok) auto
  then show ?thesis using True by (simp add: int_sqrt_def mid_nonneg)
qed

lemma int_sqrt_fault:
  assumes "185362 \<le> x" and "x < 2 ^ 31"
  shows "int_sqrt x = Fault"
proof -
  let ?h = "x div 2" and ?mid = "(1 + x div 2) div 2"
  have m: "46341 \<le> ?mid" "1 \<le> ?h" "1 + ?h < 2 ^ 31" using assms by (presburger, presburger, simp)
  have "46341 * 46341 \<le> ?mid * ?mid" using m(1) by (intro mult_mono) auto
  then have "int32 (?mid * ?mid) = Fault" by (simp add: int32_def)
  moreover have "int32 (1 + ?h) = Ret (1 + ?h)" using m(2,3) by (simp add: int32_def)
  moreover have "(1 + ?h) sdiv 2 = ?mid" "x sdiv 2 = ?h" using assms(1) by (simp_all add: mid_nonneg)
  ultimately show ?thesis using assms m(2) by (simp add: int_sqrt_def int_sqrt_loop.simps [of x 1] Let_def)
qed

lemma int_sqrt_negative:
  assumes "x < 0" and "- (2 ^ 31) \<le> x"
  shows "int_sqrt x = Fault"
proof -
  have "x sdiv 2 = - ((- x) div 2)" using assms by (simp add: signed_divide_int_def)
  then have "x sdiv 2 < 1" using assms(1) by simp
  then show ?thesis using assms by (simp add: int_sqrt_def int_sqrt_loop.simps [of x 1])
qed

definition is_root :: "int \<Rightarrow> int \<Rightarrow> bool" where
  "is_root r x \<longleftrightarrow> 0 \<le> r \<and> r * r \<le> x \<and> x < (r + 1) * (r + 1)"

text \<open>
  For every \<open>int\<close>, \<open>int_sqrt\<close> returns the integer square root exactly when the argument is between 0
  and 185361; below, it returns an uninitialised local, and above, the square of the first midpoint
  overflows.
\<close>

lemma int_sqrt_correct:
  assumes "- (2 ^ 31) \<le> x" and "x < 2 ^ 31"
  shows "(\<exists>r. int_sqrt x = Ret r) = (x \<in> {0..185361}) \<and>
    (x \<in> {0..185361} \<longrightarrow> (\<exists>r. int_sqrt x = Ret r \<and> is_root r x)) \<and> int_sqrt x \<noteq> Timeout"
proof (cases "x \<in> {0..185361}")
  case True
  then show ?thesis using int_sqrt_floor [of x] by (auto simp: is_root_def)
next
  case False
  then have "int_sqrt x = Fault" using int_sqrt_negative [of x] int_sqrt_fault [of x] assms by fastforce
  with False show ?thesis by simp
qed

section \<open>The quantiser\<close>

text \<open>The quantiser of the state stays in its range from the ninth frame on.\<close>

definition ctrl_ok :: "bitrate_ctrl \<Rightarrow> bool" where
  "ctrl_ok c \<longleftrightarrow> min_qp c \<le> max_qp c \<and>
     (AVERAGE_STEP < frame_count c \<longrightarrow> min_qp c * 16 \<le> cal_qp c \<and> cal_qp c \<le> max_qp c * 16)"

lemma shl32_Ret: "shl32 x k = Ret y \<Longrightarrow> y = x * 2 ^ k"
  by (auto simp: shl32_def int32_def split: if_splits)

lemma int32_Ret: "int32 x = Ret y \<Longrightarrow> y = x"
  by (auto simp: int32_def split: if_splits)

lemma clamp_range: "min_qp c \<le> max_qp c \<Longrightarrow> min_qp c \<le> clamp_qp c q \<and> clamp_qp c q \<le> max_qp c"
  by (auto simp: clamp_qp_def)

lemma clamp_id: "min_qp c \<le> q \<Longrightarrow> q \<le> max_qp c \<Longrightarrow> clamp_qp c q = q"
  by (simp add: clamp_qp_def)

lemma update_qp_range:
  assumes "update_qp c = Ret (qp, c')" and "min_qp c \<le> max_qp c"
  shows "min_qp c \<le> qp \<and> qp \<le> max_qp c \<and> ctrl_ok c' \<and> c' = c\<lparr>cal_qp := cal_qp c'\<rparr>"
proof (cases "frame_count c > AVERAGE_STEP")
  case False
  with assms show ?thesis
    using clamp_range [OF assms(2)] by (auto simp: update_qp_def obind_Ret_conv ctrl_ok_def)
next
  case True
  obtain q lo hi where lo: "shl32 (min_qp c) QP_SHIFT = Ret lo" and hi: "shl32 (max_qp c) QP_SHIFT = Ret hi"
    and r: "(let p = (if q < lo then lo else q); p = (if p > hi then hi else p)
        in Ret (clamp_qp c (p div 2 ^ QP_SHIFT), c\<lparr>cal_qp := p\<rparr>)) = Ret (qp, c')"
    using assms(1) True by (simp only: update_qp_def if_True obind_Ret_conv) blast
  have "lo = min_qp c * 16" "hi = max_qp c * 16" using shl32_Ret [OF lo] shl32_Ret [OF hi] by simp_all
  with r clamp_range [OF assms(2)] assms(2) show ?thesis by (auto simp: ctrl_ok_def Let_def)
qed

text \<open>
  C36: the quantiser stays in range.  Whenever the update for a key or a predicted frame returns, the
  quantiser it returns lies between the configured bounds, and so does the one of the state once more
  than eight frames have been seen; the bounds themselves are not changed.
\<close>

theorem bitrate_qp_range:
  assumes "bitrate_ctrl_update_frame c frame sz = Ret (qp, c')" and "frame \<noteq> []" and "min_qp c \<le> max_qp c"
    and "frame ! 0 AND 0x1F \<in> {1, 5}"
  shows "min_qp c \<le> qp \<and> qp \<le> max_qp c \<and> ctrl_ok c' \<and> min_qp c' = min_qp c \<and> max_qp c' = max_qp c"
proof -
  obtain c1 n where c1: "(if frame ! 0 AND 0x1F = 5 then idr_update sz c else p_update sz c) = Ret c1"
    and u: "update_qp (c1\<lparr>frame_count := n\<rparr>) = Ret (qp, c')"
    using assms(1,2,4) by (auto simp: bitrate_ctrl_update_frame_def obind_Ret_conv Let_def)
  have "min_qp c1 = min_qp c \<and> max_qp c1 = max_qp c"
    using c1 by (auto simp: idr_update_def p_update_def obind_Ret_conv split: if_splits)
  then show ?thesis using update_qp_range [OF u] assms(3) by (metis bitrate_ctrl.select_convs bitrate_ctrl.surjective bitrate_ctrl.update_convs)
qed

section \<open>The controller against its formula\<close>

lemma average_word:
  assumes "0 \<le> a + 256 * uint sz + i" and "a + 256 * uint sz + i < 2 ^ 34"
  shows "sint (ucast ((word_of_int a + (push_bit 8 sz + word_of_int i)) div 9 :: 64 word) :: 32 word) =
    (a + 256 * uint sz + i) div 9"
proof -
  let ?x = "a + 256 * uint sz + i"
  have e: "word_of_int a + (push_bit 8 sz + word_of_int i) = (word_of_int ?x :: 64 word)"
    by (simp add: push_bit_eq_mult mult.commute)
  have u: "uint (word_of_int ?x :: 64 word) = ?x"
    using assms by (intro word_of_int_inverse [OF refl]) auto
  have "uint ((word_of_int a + (push_bit 8 sz + word_of_int i)) div 9 :: 64 word) = ?x div uint (9 :: 64 word)"
    unfolding e uint_div u ..
  then have q: "uint ((word_of_int a + (push_bit 8 sz + word_of_int i)) div 9 :: 64 word) = ?x div 9" by simp
  moreover have "0 \<le> ?x div 9" "?x div 9 < 2 ^ 31" using assms by auto
  ultimately show ?thesis
    by (simp add: sint_uint unsigned_ucast_eq signed_take_bit_int_eq_self take_bit_int_eq_self del: uint_div)
qed

lemma p_update_value:
  assumes "0 \<le> average_size c" and "average_size c < 2 ^ 23" and "uint sz < 2 ^ 15"
    and "- (8 * average_size c) \<le> i_cost c" and "i_cost c < 2 ^ 31" and "0 \<le> gop c" and "gop c < 2 ^ 31 - 1"
  shows "p_update sz c =
    Ret (c\<lparr>average_size := (8 * average_size c + 256 * uint sz + i_cost c) div 9, gop := gop c + 1\<rparr>)"
proof -
  have "0 \<le> average_size c * 8 + 256 * uint sz + i_cost c" "average_size c * 8 + 256 * uint sz + i_cost c < 2 ^ 34"
    using assms(2-5) uint_nonnegative [of sz] by (linarith, simp)
  from average_word [OF this] show ?thesis
    using assms by (simp add: p_update_def int32_def mult.commute)
qed

text \<open>A ninth of the root, and the step of the quantiser.\<close>

lemma root_ninth:
  assumes "is_root r slope" and "slope \<le> 185361"
  shows "r sdiv 9 = r div 9" and "0 \<le> r div 9" and "r div 9 \<le> 430"
proof -
  have r: "0 \<le> r" "r * r \<le> slope" using assms(1) by (simp_all add: is_root_def)
  then show "r sdiv 9 = r div 9" by (cases "r = 0") (auto simp: signed_divide_int_def)
  show "0 \<le> r div 9" using r(1) by simp
  show "r div 9 \<le> 430"
  proof (rule ccontr)
    assume "\<not> r div 9 \<le> 430"
    then have "431 \<le> r" by presburger
    then have "431 * 431 \<le> r * r" by (intro mult_mono) auto
    with r(2) assms(2) show False by simp
  qed
qed

lemma qp_step_value:
  assumes "int_sqrt slope = Ret r" and "is_root r slope" and "slope \<le> 185361"
    and "0 < y" and "0 \<le> x" and "x < 2 ^ 23" and "slope = x * 256 div y"
  shows "qp_step x y = Ret (r div 9)"
proof -
  have "0 \<le> slope" using assms(2) order_trans [OF zero_le_square [of r]] by (simp add: is_root_def)
  moreover have "(x * 256) sdiv y = slope"
    using assms(4,5,7) by (cases "x = 0") (auto simp: signed_divide_int_def)
  moreover have "x * 256 < 2 ^ 31" using assms(6) by simp
  ultimately show ?thesis
    using assms root_ninth [OF assms(2,3)] by (simp add: qp_step_def shl32_def div32_def int32_def)
qed

text \<open>
  C37: a predicted frame, against the formula.  With an average below 32768 bytes, a frame below 32768
  bytes and a ratio of the sizes the square root can take, the update returns, the new average is the
  weighted mean rounded down, and the quantiser moves by a ninth of the root of the ratio, towards
  fewer bits when the average is over the target and towards more otherwise, within its bounds.
\<close>

theorem bitrate_p_frame:
  fixes c frame sz
  defines "a \<equiv> (8 * average_size c + 256 * uint sz + i_cost c) div 9" and "t \<equiv> target_frame_size c"
  assumes "frame \<noteq> []" and "frame ! 0 AND 0x1F = 1"
    and "0 \<le> average_size c" and "average_size c < 2 ^ 23" and "uint sz < 2 ^ 15"
    and "- (8 * average_size c) \<le> i_cost c" and "i_cost c < 2 ^ 31"
    and "0 < a" and "a < 2 ^ 23" and "0 < t" and "t < 2 ^ 23"
    and "8 \<le> frame_count c" and "frame_count c < 2 ^ 31 - 1" and "0 \<le> gop c" and "gop c < 2 ^ 31 - 1"
    and "0 \<le> min_qp c" and "min_qp c \<le> max_qp c" and "max_qp c < 2 ^ 26" and "0 \<le> cal_qp c" and "cal_qp c \<le> max_qp c * 16"
    and "slope = (if a > t then a * 256 div t else t * 256 div a)" and "slope \<le> 185361"
  shows "\<exists>r. is_root r slope \<and>
    (let q = max (min_qp c * 16) (min (max_qp c * 16) (if a > t then cal_qp c + r div 9 else cal_qp c - r div 9))
     in bitrate_ctrl_update_frame c frame sz =
          Ret (q div 16, c\<lparr>average_size := a, gop := gop c + 1, frame_count := frame_count c + 1, cal_qp := q\<rparr>))"
proof -
  have "0 \<le> slope" using assms(10,12) unfolding assms(23) by (auto intro: pos_imp_zdiv_nonneg_iff [THEN iffD2])
  then obtain r where root: "int_sqrt slope = Ret r" "is_root r slope"
    using int_sqrt_floor [of slope] assms(24) by (auto simp: is_root_def)
  note r9 = root_ninth [OF root(2) assms(24)] and step = qp_step_value [OF root assms(24)]
  let ?c = "c\<lparr>average_size := a, gop := gop c + 1, frame_count := frame_count c + 1\<rparr>"
  let ?q = "if a > t then cal_qp c + r div 9 else cal_qp c - r div 9"
  have p: "p_update sz c = Ret (c\<lparr>average_size := a, gop := gop c + 1\<rparr>)"
    using p_update_value [OF assms(5-9,16,17)] by (simp add: a_def)
  have q: "(if average_size ?c > target_frame_size ?c
       then obind (qp_step (average_size ?c) (target_frame_size ?c)) (\<lambda>st. int32 (cal_qp ?c + st))
       else obind (qp_step (target_frame_size ?c) (average_size ?c)) (\<lambda>st. int32 (cal_qp ?c - st))) = Ret ?q"
  proof (cases "a > t")
    case True
    with step [of t a] assms(10-13,20-23) r9 show ?thesis by (simp add: int32_def t_def)
  next
    case False
    with step [of a t] assms(10-13,20-23) r9 show ?thesis by (simp add: int32_def t_def)
  qed
  have b: "shl32 (min_qp ?c) 4 = Ret (min_qp c * 16)" "shl32 (max_qp ?c) 4 = Ret (max_qp c * 16)"
    using assms(18-20) by (simp_all add: shl32_def int32_def)
  let ?m = "max (min_qp c * 16) (min (max_qp c * 16) ?q)"
  have m: "(let p = (if ?q < min_qp c * 16 then min_qp c * 16 else ?q) in if p > max_qp c * 16 then max_qp c * 16 else p) = ?m"
    using assms(19) by (auto simp: Let_def max_def min_def)
  have bounds: "min_qp ?c = min_qp c" "max_qp ?c = max_qp c" by simp_all
  have range: "min_qp c \<le> ?m div 16" "?m div 16 \<le> max_qp c" using assms(19) by auto
  have "update_qp ?c = Ret (?m div 16, ?c\<lparr>cal_qp := ?m\<rparr>)"
  proof -
    have "AVERAGE_STEP < frame_count ?c" using assms(14) by simp
    then have "update_qp ?c = (let p = (let p = (if ?q < min_qp c * 16 then min_qp c * 16 else ?q)
          in if p > max_qp c * 16 then max_qp c * 16 else p) in Ret (clamp_qp ?c (p div 2 ^ 4), ?c\<lparr>cal_qp := p\<rparr>))"
      unfolding update_qp_def q b obind.simps Let_def by (simp only: if_True)
    then have "update_qp ?c = (let p = ?m in Ret (clamp_qp ?c (p div 16), ?c\<lparr>cal_qp := p\<rparr>))"
      unfolding m by simp
    moreover have "clamp_qp ?c (?m div 16) = ?m div 16"
      by (rule clamp_id; unfold bounds) (fact range)+
    ultimately show ?thesis by (simp only: Let_def)
  qed
  then have "bitrate_ctrl_update_frame c frame sz = Ret (?m div 16, ?c\<lparr>cal_qp := ?m\<rparr>)"
    using assms(3,4,14,15) p by (simp add: bitrate_ctrl_update_frame_def int32_def)
  with root(2) show ?thesis by (auto simp: Let_def)
qed

text \<open>A state after eight frames of 4000 bytes each, and the ninth.\<close>

theorem bitrate_p_frame_witness:
  "\<exists>r. is_root r 300 \<and> (let q = max (26 * 16) (min (35 * 16) (420 - r div 9)) in
     bitrate_ctrl_update_frame
       \<lparr>target_bitrate = 1000000, min_qp = 26, max_qp = 35, cal_qp = 420, average_size = 910000,
        target_frame_size = 1066666, i_cost = 0, frame_count = 8, gop = 8, bc_fps = 30, max_qp_step = 4\<rparr>
       [0x41] 3554 =
     Ret (q div 16,
       \<lparr>target_bitrate = 1000000, min_qp = 26, max_qp = 35, cal_qp = q, average_size = 909980,
        target_frame_size = 1066666, i_cost = 0, frame_count = 9, gop = 9, bc_fps = 30, max_qp_step = 4\<rparr>))"
  using bitrate_p_frame [of "[0x41]" "\<lparr>target_bitrate = 1000000, min_qp = 26, max_qp = 35, cal_qp = 420, average_size = 910000,
        target_frame_size = 1066666, i_cost = 0, frame_count = 8, gop = 8, bc_fps = 30, max_qp_step = 4\<rparr>" 3554 300]
  by simp

theorem bitrate_qp_range_witness:
  "26 \<le> (30 :: int) \<and>
   (\<exists>c'. bitrate_ctrl_update_frame
       \<lparr>target_bitrate = 1000000, min_qp = 26, max_qp = 35, cal_qp = 0, average_size = 0,
        target_frame_size = 1066666, i_cost = 0, frame_count = 0, gop = 0, bc_fps = 30, max_qp_step = 4\<rparr>
       [0x65] 5000 = Ret (30, c') \<and> ctrl_ok c')"
proof -
  let ?c = "\<lparr>target_bitrate = 1000000, min_qp = 26, max_qp = 35, cal_qp = 0, average_size = 0,
        target_frame_size = 1066666, i_cost = 0, frame_count = 0, gop = 0, bc_fps = 30, max_qp_step = 4\<rparr>"
  have "\<exists>c'. bitrate_ctrl_update_frame ?c [0x65] 5000 = Ret (30, c')"
    by (simp add: bitrate_ctrl_update_frame_def idr_update_def fixed_size_def int32_def div32_def update_qp_def
        clamp_qp_def signed_divide_int_def)
  then obtain c' where c': "bitrate_ctrl_update_frame ?c [0x65] 5000 = Ret (30, c')" by blast
  from bitrate_qp_range [OF c'] c' show ?thesis by simp
qed

section \<open>Where the arithmetic breaks\<close>

fun feed :: "bitrate_ctrl \<Rightarrow> (byte list \<times> 64 word) list \<Rightarrow> bitrate_ctrl outcome" where
  "feed c [] = Ret c"
| "feed c ((frame, sz) # fs) = obind (bitrate_ctrl_update_frame c frame sz) (\<lambda>(qp, c). feed c fs)"

lemma key_frame_step:
  assumes "average_size c = 0" and "gop c = 0" and "0 \<le> target_frame_size c" and "0 \<le> frame_count c" and "frame_count c < 8"
    and "0 \<le> min_qp c" and "min_qp c \<le> 51" and "0 \<le> max_qp c" and "max_qp c \<le> 51" and "frame \<noteq> []" and "frame ! 0 AND 0x1F = 5"
  obtains qp cost where "bitrate_ctrl_update_frame c frame sz =
    Ret (qp, c\<lparr>i_cost := cost, gop := 0, frame_count := frame_count c + 1\<rparr>)"
proof -
  have f: "- (2 ^ 31) \<le> fixed_size sz" "fixed_size sz < 2 ^ 31"
    using sint_ge [of "ucast (push_bit 8 sz) :: 32 word"] sint_lt [of "ucast (push_bit 8 sz) :: 32 word"]
    by (simp_all add: fixed_size_def)
  then have "- (2 ^ 31) \<le> fixed_size sz sdiv 30 \<and> fixed_size sz sdiv 30 < 2 ^ 31"
    by (auto simp: signed_divide_int_def sgn_if)
  with f have "idr_update sz c = Ret (c\<lparr>i_cost := fixed_size sz sdiv 30, gop := 0\<rparr>)"
    using assms(1,2) by (simp add: idr_update_def int32_def div32_def)
  with assms that show thesis
    by (auto simp: bitrate_ctrl_update_frame_def int32_def update_qp_def)
qed

lemma key_frame_divides_by_zero:
  assumes "average_size c = 0" and "gop c = 0" and "0 \<le> target_frame_size c" and "frame_count c = 8"
    and "frame \<noteq> []" and "frame ! 0 AND 0x1F = 5"
  shows "bitrate_ctrl_update_frame c frame sz = Fault"
proof -
  have zero: "qp_step a 0 = Fault" for a
    by (simp add: qp_step_def shl32_def int32_def div32_def)
  obtain r where r: "idr_update sz c = r" by blast
  show ?thesis
  proof (cases r)
    case (Ret c1)
    then have "average_size c1 = 0 \<and> target_frame_size c1 = target_frame_size c \<and> frame_count c1 = 8"
      using r assms(1,4) by (auto simp: idr_update_def obind_Ret_conv)
    then show ?thesis
      using Ret r assms zero by (simp add: bitrate_ctrl_update_frame_def int32_def update_qp_def)
  next
    case Fault
    with r assms show ?thesis by (simp add: bitrate_ctrl_update_frame_def)
  next
    case Timeout
    then show ?thesis using r assms(2) by (auto simp: idr_update_def int32_def div32_def split: if_splits)
  qed
qed

lemma feed_key_frames:
  "average_size c = 0 \<Longrightarrow> gop c = 0 \<Longrightarrow> 0 \<le> target_frame_size c \<Longrightarrow> 0 \<le> frame_count c \<Longrightarrow> frame_count c \<le> 8 \<Longrightarrow>
   min_qp c = 26 \<Longrightarrow> max_qp c = 35 \<Longrightarrow> int (length fs) = 9 - frame_count c \<Longrightarrow>
   \<forall>(frame, sz) \<in> set fs. frame \<noteq> [] \<and> frame ! 0 AND 0x1F = 5 \<Longrightarrow> feed c fs = Fault"
proof (induction fs arbitrary: c)
  case (Cons f fs)
  obtain frame sz where f: "f = (frame, sz)" by fastforce
  then have k: "frame \<noteq> []" "frame ! 0 AND 0x1F = 5" using Cons.prems(9) by auto
  show ?case
  proof (cases "frame_count c = 8")
    case True
    with key_frame_divides_by_zero [OF Cons.prems(1-3) True k] f show ?thesis by simp
  next
    case False
    then have "frame_count c < 8" using Cons.prems(5) by simp
    then obtain qp cost where step: "bitrate_ctrl_update_frame c frame sz =
        Ret (qp, c\<lparr>i_cost := cost, gop := 0, frame_count := frame_count c + 1\<rparr>)"
      using key_frame_step [OF Cons.prems(1-4) _ _ _ _ _ k] Cons.prems(6,7) by auto
    have "feed (c\<lparr>i_cost := cost, gop := 0, frame_count := frame_count c + 1\<rparr>) fs = Fault"
      by (rule Cons.IH) (use Cons.prems False in auto)
    then show ?thesis using step f by simp
  qed
qed simp

text \<open>
  C38: a stream of key frames only divides by zero.  Nothing but predicted frames updates the average
  size, so it is still zero when the ninth key frame makes the controller divide the target by it; for
  any sizes of the frames and any target.
\<close>

theorem all_key_frames_fault:
  assumes "bitrate_ctrl_init bitrate fps = Ret c" and "0 \<le> target_frame_size c" and "length fs = 9"
    and "\<forall>(frame, sz) \<in> set fs. frame \<noteq> [] \<and> frame ! 0 AND 0x1F = 5"
  shows "feed c fs = Fault"
proof -
  have "average_size c = 0 \<and> gop c = 0 \<and> frame_count c = 0 \<and> min_qp c = 26 \<and> max_qp c = 35"
    using assms(1) by (auto simp: bitrate_ctrl_init_def obind_Ret_conv)
  then show ?thesis using assms by (intro feed_key_frames) auto
qed

theorem all_key_frames_fault_witness:
  "\<exists>c. bitrate_ctrl_init 1000000 30 = Ret c \<and> feed c (replicate 9 ([0x65], 4000)) = Fault"
proof -
  obtain c where c: "bitrate_ctrl_init 1000000 30 = Ret c" "target_frame_size c = 1066666"
    by (simp add: bitrate_ctrl_init_def shl32_def div32_def int32_def signed_divide_int_def)
  have "feed c (replicate 9 ([0x65], 4000)) = Fault"
    by (rule all_key_frames_fault [OF c(1)]) (simp_all add: c(2))
  with c(1) show ?thesis by blast
qed

end
