(* ===== verification/Handshake.thy ===== *)
theory Handshake
  imports Sha1 Base64 Outcome
begin

text \<open>
  The server's side of the WebSocket handshake (\<open>wsh264/src/handshake.c\<close>): the accept value of a key
  and the response to a request.  A C string is the list of its bytes without the NUL; \<open>Fault\<close> is a
  write outside a buffer or a NULL pointer read.
\<close>

abbreviation (input) WS_KEY_LEN :: nat where "WS_KEY_LEN \<equiv> 24"
abbreviation (input) WS_KEYMS_LEN :: nat where "WS_KEYMS_LEN \<equiv> 60"
abbreviation (input) WS_HS_ACCLEN :: nat where "WS_HS_ACCLEN \<equiv> 130"

definition MAGIC_STRING :: "byte list" where
  "MAGIC_STRING = str ''258EAFA5-E914-47DA-95CA-C5AB0DC85B11''"

definition WS_HS_REQ :: "byte list" where
  "WS_HS_REQ = str ''Sec-WebSocket-Key''"

definition cr_lf :: "byte list" where
  "cr_lf = [0x0D, 0x0A]"

definition WS_HS_ACCEPT :: "byte list" where
  "WS_HS_ACCEPT = str ''HTTP/1.1 101 Switching Protocols'' @ cr_lf @ str ''Upgrade: websocket'' @ cr_lf @
     str ''Connection: Upgrade'' @ cr_lf @ str ''Sec-WebSocket-Accept: ''"

text \<open>Any contents of the context before \<open>SHA1Reset\<close>.\<close>

definition sha1_local :: SHA1Context where
  "sha1_local = \<lparr>Intermediate_Hash = replicate 5 0, Length_Low = 0, Length_High = 0, Message_Block_Index = 0,
     Message_Block = replicate 64 0, Computed = False, Corrupted = 0\<rparr>"

text \<open>
  \<open>calloc_ok\<close> and \<open>encode_malloc\<close>: whether the two allocations succeed.  The buffer holds the first 24
  characters of the key, the magic string behind them, and zeros; 60 bytes of it are hashed.
\<close>

definition get_handshake_accept ::
  "bool \<Rightarrow> bool \<Rightarrow> byte list option \<Rightarrow> (int \<times> byte list option) outcome" where
  "get_handshake_accept calloc_ok encode_malloc wsKey =
     (case wsKey of
        None \<Rightarrow> Ret (-1, None)
      | Some key \<Rightarrow>
          if \<not> calloc_ok then Ret (-1, None)
          else
            let key_magic = take WS_KEY_LEN key @ MAGIC_STRING;
                buf = take WS_KEYMS_LEN (key_magic @ replicate (WS_KEYMS_LEN + 1) 0);
                (rc, hash, ctx) = SHA1Result (snd (SHA1Input (SHA1Reset sha1_local) buf))
            in (case base64_encode 64 encode_malloc (the hash) of
                  None \<Rightarrow> Fault
                | Some dest \<Rightarrow> Ret (0, Some (butlast (c_str dest)))))"

text \<open>
  \<open>strtok_r\<close>: the next token and what \<open>saveptr\<close> points to afterwards.
\<close>

definition strtok_r :: "byte list \<Rightarrow> byte list \<Rightarrow> (byte list \<times> byte list) option" where
  "strtok_r delims s =
     (let t = dropWhile (\<lambda>b. b \<in> set delims) s in
      if t = [] then None
      else Some (takeWhile (\<lambda>b. b \<notin> set delims) t, drop 1 (dropWhile (\<lambda>b. b \<notin> set delims) t)))"

lemma strtok_r_shorter:
  assumes "strtok_r delims s = Some (t, rest)"
  shows "length rest < length s"
proof -
  let ?t = "dropWhile (\<lambda>b. b \<in> set delims) s"
  let ?u = "dropWhile (\<lambda>b. b \<notin> set delims) ?t"
  have r: "rest = drop 1 ?u" "?t \<noteq> []" using assms by (auto simp: strtok_r_def Let_def split: if_splits)
  have "length ?u \<le> length ?t" "length ?t \<le> length s" by (rule length_dropWhile_le)+
  moreover have "0 < length ?t" using r(2) by blast
  ultimately show ?thesis unfolding r(1) length_drop by linarith
qed

text \<open>The loop over the lines, up to the one that names the key.\<close>

function key_line :: "byte list \<Rightarrow> byte list option" where
  "key_line hsrequest =
     (case strtok_r cr_lf hsrequest of
        None \<Rightarrow> None
      | Some (s, saveptr) \<Rightarrow> if find_sub WS_HS_REQ s \<noteq> None then Some s else key_line saveptr)"
  by pat_completeness auto
termination by (relation "measure length") (auto intro: strtok_r_shorter)

declare key_line.simps [simp del]

definition get_handshake_response ::
  "bool \<Rightarrow> bool \<Rightarrow> bool \<Rightarrow> byte list \<Rightarrow> (int \<times> byte list option) outcome" where
  "get_handshake_response calloc_ok encode_malloc malloc_ok hsrequest =
     (case key_line (c_str hsrequest) of
        None \<Rightarrow> Ret (-1, None)
      | Some s \<Rightarrow>
          let wsKey = (case strtok_r [0x20] s of
                         None \<Rightarrow> None
                       | Some (t, saveptr) \<Rightarrow> map_option fst (strtok_r [0x20] saveptr))
          in obind (get_handshake_accept calloc_ok encode_malloc wsKey) (\<lambda>(ret, accept).
             if ret < 0 then Ret (ret, None)
             else if \<not> malloc_ok then Ret (-1, None)
             else
               obind (put_bytes (WS_HS_ACCLEN - 1) [] WS_HS_ACCEPT) (\<lambda>resp.
               obind (put_bytes (WS_HS_ACCLEN - 1) resp (the accept)) (\<lambda>resp.
               obind (put_bytes (WS_HS_ACCLEN - 1) resp (cr_lf @ cr_lf)) (\<lambda>resp. Ret (0, Some resp))))))"

section \<open>The accept value\<close>

lemma table_no_nul: "0 \<notin> set base64_table"
  by code_simp

lemma table_char: "x < 64 \<Longrightarrow> base64_table ! unat (x :: byte) \<noteq> 0"
proof -
  assume "x < 64"
  then have "unat x < length base64_table" by (simp add: word_less_nat_alt length_table)
  then show ?thesis using table_no_nul nth_mem by metis
qed

lemma encode_loop_no_nul: "0 \<notin> set (base64_encode_loop src l)"
proof (induction src l rule: base64_encode_loop.induct)
  case (1 a b c rest l)
  then show ?case using sextet_less table_char by (auto simp: base64_quad_def)
next
  case (2 a b l)
  then show ?case using sextet_less table_char by auto
next
  case (3 a l)
  then show ?case using sextet_less table_char by auto
qed simp

text \<open>A short encoding is one line.\<close>

lemma encode_loop_line:
  "length src mod 3 \<noteq> 0 \<Longrightarrow> l + 4 * (length src div 3) < 72 \<Longrightarrow>
   \<exists>body. base64_encode_loop src l = body @ [0x0a] \<and> length body = 4 * (length src div 3) + 4"
proof (induction src l rule: base64_encode_loop.induct)
  case (1 a b c rest l)
  have "length (a # b # c # rest) = length rest + 3" by simp
  then have l3: "length (a # b # c # rest) div 3 = length rest div 3 + 1"
      "length (a # b # c # rest) mod 3 = length rest mod 3"
    by (simp_all only: div_add_self2 mod_add_self2 zero_neq_numeral not_False_eq_True)
  have d: "length rest mod 3 \<noteq> 0" "l + 4 + 4 * (length rest div 3) < 72"
    using "1.prems" unfolding l3 by simp_all
  then have l: "\<not> 72 \<le> l + 4" by simp
  from "1.IH"(2) [OF l d] obtain body
    where "base64_encode_loop rest (l + 4) = body @ [0x0a]" "length body = 4 * (length rest div 3) + 4" by blast
  then show ?case
    unfolding l3 using l by (intro exI [of _ "base64_quad a b c @ body"]) simp
qed auto

lemma decode_line: "base64_decode_loop (bs @ [0x0a]) block pad out = base64_decode_loop bs block pad out"
proof -
  have "dtable ! 10 = 0x80" using dtable_newline by simp
  then show ?thesis
    by (induction bs block pad out rule: base64_decode_loop.induct) (simp_all add: Let_def)
qed

lemma length_sha1: "length (sha1 msg) = 20"
proof -
  have "length (foldl sha1_compress sha1_init (chunks (sha1_pad msg))) = 5"
    by (rule length_foldl_compress) (simp add: sha1_init_def)
  then show ?thesis by (simp add: sha1_def length_concat comp_def sum_list_triv)
qed

text \<open>What the digest of a message of the library's size is.\<close>

lemma digest_of:
  assumes "8 * length msg < 2 ^ 64"
  shows "\<exists>ctx. SHA1Result (snd (SHA1Input (SHA1Reset sha1_local) msg)) = (shaSuccess, Some (sha1 msg), ctx)"
  using sha1_result [of sha1_local "[msg]"] assms by (auto simp: sha1_local_def sha1_inputs_def)

text \<open>The accept value of the protocol: the key and the magic string, hashed and encoded on one line.\<close>

definition accept_of :: "byte list \<Rightarrow> byte list" where
  "accept_of key = butlast (base64_encode_loop (sha1 (key @ MAGIC_STRING)) 0)"

lemma accept_of_props:
  "length (accept_of key) = 28"
  "base64_encode_loop (sha1 (key @ MAGIC_STRING)) 0 = accept_of key @ [0x0a]"
  "base64_decode True (accept_of key) = Some (sha1 (key @ MAGIC_STRING))"
proof -
  obtain body where b: "base64_encode_loop (sha1 (key @ MAGIC_STRING)) 0 = body @ [0x0a]" "length body = 28"
    using encode_loop_line [of "sha1 (key @ MAGIC_STRING)" 0] by (auto simp: length_sha1)
  then have a: "accept_of key = body" by (simp add: accept_of_def)
  show "length (accept_of key) = 28" "base64_encode_loop (sha1 (key @ MAGIC_STRING)) 0 = accept_of key @ [0x0a]"
    using a b by simp_all
  have "base64_count body = 28"
    using count_encode_loop [of "sha1 (key @ MAGIC_STRING)" 0] dtable_newline by (simp add: b(1) length_sha1)
  moreover have "base64_decode_loop body [] 0 [] = Some (sha1 (key @ MAGIC_STRING))"
    using decode_encode_loop [of "sha1 (key @ MAGIC_STRING)" 0 "[]"] by (simp add: b(1) decode_line)
  ultimately show "base64_decode True (accept_of key) = Some (sha1 (key @ MAGIC_STRING))"
    by (simp add: base64_decode_def a)
qed

lemma accept_ok:
  assumes "length key = 24" and "0 \<notin> set key"
  shows "get_handshake_accept True True (Some key) = Ret (0, Some (accept_of key))"
proof -
  have m: "length MAGIC_STRING = 36" by (simp add: MAGIC_STRING_def)
  let ?b = "key @ MAGIC_STRING"
  have buf: "take 60 ((take 24 key @ MAGIC_STRING) @ replicate (60 + 1) 0) = ?b" using assms(1) m by simp
  obtain ctx where d: "SHA1Result (snd (SHA1Input (SHA1Reset sha1_local) ?b)) = (0, Some (sha1 ?b), ctx)"
    using digest_of [of ?b] assms(1) m by auto
  have "base64_encode 64 True (sha1 ?b) = Some (accept_of key @ [0x0a, 0])"
    using accept_of_props(2) [of key] by (simp add: base64_encode_def base64_olen_def length_sha1)
  moreover have "c_str (accept_of key @ [0x0a, 0]) = accept_of key @ [0x0a]"
  proof -
    have "0 \<notin> set (accept_of key @ [0x0a])" using encode_loop_no_nul [of "sha1 ?b" 0] accept_of_props(2) by metis
    then have "takeWhile (\<lambda>b. b \<noteq> 0) ((accept_of key @ [0x0a]) @ [0]) = accept_of key @ [0x0a]"
      by (subst takeWhile_append2) auto
    then show ?thesis by (simp add: c_str_def)
  qed
  ultimately show ?thesis
    unfolding get_handshake_accept_def option.case Let_def buf d prod.case option.sel by simp
qed

section \<open>The response\<close>

lemma strtok_line:
  assumes "\<forall>b \<in> set l. b \<notin> set delims" and "l \<noteq> []" and "d \<in> set delims"
  shows "strtok_r delims (l @ d # rest) = Some (l, rest)"
proof -
  have "dropWhile (\<lambda>b. b \<in> set delims) (l @ d # rest) = l @ d # rest"
    using assms(1,2) by (cases l) auto
  moreover have "takeWhile (\<lambda>b. b \<notin> set delims) (l @ d # rest) = l" "dropWhile (\<lambda>b. b \<notin> set delims) (l @ d # rest) = d # rest"
    using assms(1,3) by (simp_all add: takeWhile_append2 dropWhile_append2)
  ultimately show ?thesis using assms(2) by (simp add: strtok_r_def Let_def)
qed

lemma strtok_skip: "d \<in> set delims \<Longrightarrow> strtok_r delims (d # rest) = strtok_r delims rest"
  by (simp add: strtok_r_def)

lemma strtok_last:
  assumes "\<forall>b \<in> set l. b \<notin> set delims" and "l \<noteq> []"
  shows "strtok_r delims l = Some (l, [])"
proof -
  have "dropWhile (\<lambda>b. b \<in> set delims) l = l" using assms by (cases l) auto
  moreover have "takeWhile (\<lambda>b. b \<notin> set delims) l = l" "dropWhile (\<lambda>b. b \<notin> set delims) l = []"
    using assms(1) by (simp_all add: takeWhile_eq_all_conv dropWhile_eq_Nil_conv)
  ultimately show ?thesis using assms(2) by (simp only: strtok_r_def Let_def) simp
qed

text \<open>A line of a request: no CR, LF or NUL in it.\<close>

definition plain_line :: "byte list \<Rightarrow> bool" where
  "plain_line l \<longleftrightarrow> (\<forall>b \<in> set l. b \<noteq> 0x0D \<and> b \<noteq> 0x0A \<and> b \<noteq> 0)"

lemma key_line_skip: "key_line (0x0A # rest) = key_line rest" "key_line (0x0D # rest) = key_line rest"
  by (simp_all add: key_line.simps [of "_ # rest"] key_line.simps [of rest] strtok_skip cr_lf_def)

lemma key_line_other:
  assumes "plain_line l" and "find_sub WS_HS_REQ l = None"
  shows "key_line (l @ cr_lf @ rest) = key_line rest"
proof (cases "l = []")
  case True
  then show ?thesis by (simp add: cr_lf_def key_line_skip)
next
  case False
  have "strtok_r cr_lf (l @ 0x0D # 0x0A # rest) = Some (l, 0x0A # rest)"
    by (rule strtok_line) (use assms(1) False in \<open>auto simp: plain_line_def cr_lf_def\<close>)
  then have "key_line (l @ cr_lf @ rest) = key_line (0x0A # rest)"
    using assms(2) by (simp add: key_line.simps [of "l @ _"] cr_lf_def)
  then show ?thesis by (simp add: key_line_skip)
qed

lemma key_line_others:
  "\<forall>l \<in> set ls. plain_line l \<and> find_sub WS_HS_REQ l = None \<Longrightarrow>
   key_line (concat (map (\<lambda>l. l @ cr_lf) ls) @ rest) = key_line rest"
  by (induction ls) (simp_all add: key_line_other)

lemma key_line_found:
  assumes "plain_line l" and "find_sub WS_HS_REQ l \<noteq> None"
  shows "key_line (l @ cr_lf @ rest) = Some l"
proof -
  have "l \<noteq> []" using assms(2) by (auto simp: WS_HS_REQ_def)
  then have "strtok_r cr_lf (l @ 0x0D # 0x0A # rest) = Some (l, 0x0A # rest)"
    by (intro strtok_line) (use assms(1) in \<open>auto simp: plain_line_def cr_lf_def\<close>)
  with assms(2) show ?thesis by (auto simp: key_line.simps [of "l @ _"] cr_lf_def)
qed

lemma find_sub_prefix: "find_sub pat (pat @ xs) = Some 0"
proof (cases "pat @ xs")
  case (Cons y ys)
  then have "take (length pat) (y # ys) = pat" by (metis append_eq_conv_conj)
  with Cons show ?thesis by simp
qed simp

lemma accept_response:
  assumes "\<forall>l \<in> set ls. plain_line l \<and> find_sub WS_HS_REQ l = None"
    and "length key = 24" and "\<forall>b \<in> set key. b \<notin> {0, 0x0A, 0x0D, 0x20}"
    and "c_str request = concat (map (\<lambda>l. l @ cr_lf) ls) @ WS_HS_REQ @ str '': '' @ key @ cr_lf @ rest"
  shows "get_handshake_response True True True request = Ret (0, Some (WS_HS_ACCEPT @ accept_of key @ cr_lf @ cr_lf))"
proof -
  let ?l = "WS_HS_REQ @ str '': '' @ key"
  have l: "plain_line ?l"
    using assms(3) by (auto simp: plain_line_def WS_HS_REQ_def)
  have f: "find_sub WS_HS_REQ ?l = Some 0" by (rule find_sub_prefix)
  have k: "key_line (c_str request) = Some ?l"
    unfolding assms(4) using key_line_others [OF assms(1)] key_line_found [OF l] f by simp
  have "strtok_r [0x20] (?l) = Some (WS_HS_REQ @ [0x3A], key)"
  proof -
    have "strtok_r [0x20] ((WS_HS_REQ @ [0x3A]) @ 0x20 # key) = Some (WS_HS_REQ @ [0x3A], key)"
      by (rule strtok_line) (auto simp: WS_HS_REQ_def)
    then show ?thesis by simp
  qed
  moreover have "strtok_r [0x20] key = Some (key, [])"
  proof (rule strtok_last)
    show "\<forall>b \<in> set key. b \<notin> set [0x20]" using assms(3) by simp
    show "key \<noteq> []" using assms(2) by (metis list.size(3) zero_neq_numeral)
  qed
  moreover have "0 \<notin> set key" using assms(3) by blast
  then have "get_handshake_accept True True (Some key) = Ret (0, Some (accept_of key))"
    by (rule accept_ok [OF assms(2)])
  moreover have "length WS_HS_ACCEPT = 97" by (simp add: WS_HS_ACCEPT_def cr_lf_def)
  ultimately show ?thesis
    unfolding get_handshake_response_def k option.case Let_def
    using accept_of_props(1) [of key] by (simp add: put_bytes_def cr_lf_def del: str_simps)
qed

text \<open>
  C35: the handshake.  For a request with a \<open>Sec-WebSocket-Key\<close> line that holds a key of 24 characters,
  behind any other lines, the response is the upgrade response with the accept value of the protocol:
  28 characters, decoding to the SHA-1 digest of the key and the magic string; it fills the 130 bytes
  allocated for it exactly, so nothing is written outside them.
\<close>

theorem handshake_response_ok:
  assumes "\<forall>l \<in> set ls. plain_line l \<and> find_sub WS_HS_REQ l = None"
    and "length key = 24" and "\<forall>b \<in> set key. b \<notin> {0, 0x0A, 0x0D, 0x20}"
    and "0 \<notin> set rest"
    and "request = concat (map (\<lambda>l. l @ cr_lf) ls) @ WS_HS_REQ @ str '': '' @ key @ cr_lf @ rest"
  shows "\<exists>accept. get_handshake_response True True True request =
      Ret (0, Some (WS_HS_ACCEPT @ accept @ cr_lf @ cr_lf)) \<and>
    length accept = 28 \<and> base64_decode True accept = Some (sha1 (key @ MAGIC_STRING))"
proof -
  have "plain_line (WS_HS_REQ @ str '': '' @ key)"
    using assms(3) by (auto simp: plain_line_def WS_HS_REQ_def)
  then have "0 \<notin> set request"
    using assms(1,4) unfolding assms(5) by (auto simp: plain_line_def cr_lf_def)
  then have "c_str request = request" unfolding c_str_def by (simp add: takeWhile_eq_all_conv) metis
  then show ?thesis using accept_response [OF assms(1-3), of request rest] accept_of_props assms(5) by blast
qed

theorem handshake_response_ok_witness:
  "\<exists>accept. get_handshake_response True True True (str ''GET / HTTP/1.1'' @ cr_lf @ WS_HS_REQ @ str '': '' @
       str ''dGhlIHNhbXBsZSBub25jZQ=='' @ cr_lf @ cr_lf) =
     Ret (0, Some (WS_HS_ACCEPT @ accept @ cr_lf @ cr_lf)) \<and> length accept = 28"
proof -
  have line: "\<forall>l \<in> set [str ''GET / HTTP/1.1'']. plain_line l \<and> find_sub WS_HS_REQ l = None"
    by (simp add: plain_line_def WS_HS_REQ_def)
  show ?thesis
    using handshake_response_ok [OF line, of "str ''dGhlIHNhbXBsZSBub25jZQ==''" cr_lf _, OF _ _ _ refl]
    by (auto simp: cr_lf_def)
qed

end
