(* ===== verification/WsServer.thy ===== *)
theory WsServer
  imports Outcome Frames Utf8 Handshake
begin

text \<open>
  The WebSocket server (\<open>wsh264/src/ws.c\<close>): sending frames, the byte reader over its receive buffer,
  reading one frame, assembling a message from fragments with control frames in between, closing and
  answering pings.  A call that waits for ever is \<open>Timeout\<close>, an access outside a buffer \<open>Fault\<close>.
  Locks are held around single accesses of the state and are left out.
\<close>

abbreviation (input) MESSAGE_LENGTH :: nat where "MESSAGE_LENGTH \<equiv> 2048"
abbreviation (input) MAX_FRAME_LENGTH :: "64 word" where "MAX_FRAME_LENGTH \<equiv> 16777216"
abbreviation (input) WS_FR_OP_CONT :: byte where "WS_FR_OP_CONT \<equiv> 0"
abbreviation (input) WS_FR_OP_TXT :: byte where "WS_FR_OP_TXT \<equiv> 1"
abbreviation (input) WS_FR_OP_BIN :: byte where "WS_FR_OP_BIN \<equiv> 2"
abbreviation (input) WS_FR_OP_CLSE :: byte where "WS_FR_OP_CLSE \<equiv> 8"
abbreviation (input) WS_FR_OP_PING :: byte where "WS_FR_OP_PING \<equiv> 9"
abbreviation (input) WS_FR_OP_PONG :: byte where "WS_FR_OP_PONG \<equiv> 10"
abbreviation (input) WS_CLSE_PROTERR :: int where "WS_CLSE_PROTERR \<equiv> 1002"
abbreviation (input) WS_CLSE_INVUTF8 :: int where "WS_CLSE_INVUTF8 \<equiv> 1007"
abbreviation (input) WS_STATE_OPEN :: int where "WS_STATE_OPEN \<equiv> 1"
abbreviation (input) WS_STATE_CLOSING :: int where "WS_STATE_CLOSING \<equiv> 2"
abbreviation (input) WS_STATE_CLOSED :: int where "WS_STATE_CLOSED \<equiv> 3"

section \<open>State\<close>

text \<open>\<open>client_sock = None\<close> is the descriptor -1 of a free slot.\<close>

record ws_connection =
  client_sock :: "sock option"
  ws_state :: int
  close_thrd :: bool
  last_pong_id :: int
  current_ping_id :: int

text \<open>
  \<open>frm\<close> is the receive buffer, of which \<open>amt_read\<close> bytes are filled; \<open>frame_type = None\<close> is -1.
\<close>

record ws_frame_data =
  frm :: "byte list"
  ws_msg :: "byte list option"
  msg_ctrl :: "byte list"
  cur_pos :: nat
  amt_read :: nat
  frame_type :: "byte option"
  frame_size :: "64 word"
  ws_error :: bool
  ws_client :: ws_connection

definition get_client_state :: "ws_connection \<Rightarrow> int" where
  "get_client_state client = ws_state client"

definition set_client_state :: "ws_connection \<Rightarrow> int \<Rightarrow> int \<times> ws_connection" where
  "set_client_state client st = (if st < 0 \<or> st > 3 then (-1, client) else (0, client\<lparr>ws_state := st\<rparr>))"

definition close_client :: "ws_connection \<Rightarrow> ws_connection" where
  "close_client client = (snd (set_client_state client WS_STATE_CLOSED))\<lparr>client_sock := None\<rparr>"

section \<open>Sending\<close>

text \<open>\<open>send\<close> returning -1, interrupted or not, ends the loop.\<close>

function send_all :: "sock \<Rightarrow> byte list \<Rightarrow> (int \<times> sock) option" where
  "send_all sk buf =
     (if buf \<noteq> [] then
        (case send sk buf of
           None \<Rightarrow> None
         | Some (Done n, sk') \<Rightarrow> send_all sk' (drop n buf)
         | Some (_, sk') \<Rightarrow> Some (-1, sk'))
      else Some (0, sk))"
  by pat_completeness auto
termination
  by (relation "measure (\<lambda>(sk, buf). length (outgoing sk))") (auto intro: outgoing_send)

declare send_all.simps [simp del]

definition client_send :: "ws_connection \<Rightarrow> byte list \<Rightarrow> (int \<times> ws_connection) outcome" where
  "client_send client buf =
     (case client_sock client of
        None \<Rightarrow> Ret (if buf = [] then 0 else -1, client)
      | Some sk \<Rightarrow>
          (case send_all sk buf of
             None \<Rightarrow> Timeout
           | Some (rc, sk) \<Rightarrow> Ret (rc, client\<lparr>client_sock := Some sk\<rparr>)))"

text \<open>The header of a frame, and the frame with the first \<open>n\<close> bytes of \<open>msg\<close>.\<close>

definition frame_header :: "byte \<Rightarrow> 64 word \<Rightarrow> byte list" where
  "frame_header type n =
     (0x80 OR type) #
     (if n \<le> 125 then [ucast n AND 0x7F]
      else if n \<le> 65535 then [126, ucast (drop_bit 8 n AND 255), ucast (n AND 255)]
      else 127 # map (\<lambda>i. ucast (drop_bit (8 * i) n AND 255)) [7, 6, 5, 4, 3, 2, 1, 0])"

definition ws_response :: "(nat \<Rightarrow> bool) \<Rightarrow> byte list \<Rightarrow> 64 word \<Rightarrow> byte \<Rightarrow> byte list option outcome" where
  "ws_response malloc_ok msg n type =
     (let hdr = frame_header type n in
      if \<not> malloc_ok (unat (word_of_nat (length hdr) + n + 1)) then Ret None
      else if length msg < unat n then Fault
      else Ret (Some (hdr @ take (unat n) msg)))"

definition ws_sendframe ::
  "(nat \<Rightarrow> bool) \<Rightarrow> ws_connection \<Rightarrow> byte list \<Rightarrow> 64 word \<Rightarrow> byte \<Rightarrow> (int \<times> ws_connection) outcome" where
  "ws_sendframe malloc_ok client msg n type =
     obind (ws_response malloc_ok msg n type) (\<lambda>response.
       case response of None \<Rightarrow> Ret (-1, client) | Some r \<Rightarrow> client_send client r)"

text \<open>The broadcast: the loop over the slots, up to the first that fails.\<close>

fun broadcast_loop :: "byte list \<Rightarrow> ws_connection list \<Rightarrow> (int \<times> ws_connection list) outcome" where
  "broadcast_loop response [] = Ret (0, [])"
| "broadcast_loop response (cli # clis) =
     (if client_sock cli \<noteq> None \<and> get_client_state cli = WS_STATE_OPEN then
        obind (client_send cli response) (\<lambda>(rc, cli).
          if rc \<noteq> -1 then obind (broadcast_loop response clis) (\<lambda>(out, clis). Ret (out, cli # clis))
          else Ret (-1, cli # clis))
      else obind (broadcast_loop response clis) (\<lambda>(out, clis). Ret (out, cli # clis)))"

definition ws_sendframe_bcast ::
  "(nat \<Rightarrow> bool) \<Rightarrow> ws_connection list \<Rightarrow> byte list \<Rightarrow> 64 word \<Rightarrow> byte \<Rightarrow> (int \<times> ws_connection list) outcome" where
  "ws_sendframe_bcast malloc_ok clients msg n type =
     obind (ws_response malloc_ok msg n type) (\<lambda>response.
       case response of None \<Rightarrow> Ret (-1, clients) | Some r \<Rightarrow> broadcast_loop r clients)"

definition send_msg_ctrl ::
  "(nat \<Rightarrow> bool) \<Rightarrow> ws_frame_data \<Rightarrow> 64 word \<Rightarrow> byte \<Rightarrow> (int \<times> ws_frame_data) outcome" where
  "send_msg_ctrl malloc_ok wfd n type =
     obind (ws_sendframe malloc_ok (ws_client wfd) (msg_ctrl wfd) n type) (\<lambda>(rc, client).
     Ret (if rc < 0 then -1 else 0, wfd\<lparr>ws_client := client\<rparr>))"

text \<open>A close code of its own, or an invalid one replaced, goes through \<open>msg_ctrl\<close>.\<close>

definition do_close :: "(nat \<Rightarrow> bool) \<Rightarrow> ws_frame_data \<Rightarrow> int \<Rightarrow> (int \<times> ws_frame_data) outcome" where
  "do_close malloc_ok wfd close_code =
     (let custom = (\<lambda>cc. send_msg_ctrl malloc_ok
          (wfd\<lparr>msg_ctrl := (msg_ctrl wfd)[0 := word_of_int (cc div 256), 1 := word_of_int (cc mod 256)]\<rparr>) 2 WS_FR_OP_CLSE)
      in if close_code \<noteq> -1 then custom close_code
         else if frame_size wfd = 0 \<or> frame_size wfd > 2
         then send_msg_ctrl malloc_ok wfd (frame_size wfd) WS_FR_OP_CLSE
         else
           let cc = (if frame_size wfd = 1 then uint (msg_ctrl wfd ! 0)
                     else uint (msg_ctrl wfd ! 0) * 256 + uint (msg_ctrl wfd ! 1))
           in if (cc < 1000 \<or> cc > 1003) \<and> (cc < 1007 \<or> cc > 1011) \<and> (cc < 3000 \<or> cc > 4999)
              then custom WS_CLSE_PROTERR
              else send_msg_ctrl malloc_ok wfd (frame_size wfd) WS_FR_OP_CLSE)"

definition do_pong :: "(nat \<Rightarrow> bool) \<Rightarrow> ws_frame_data \<Rightarrow> 64 word \<Rightarrow> (int \<times> ws_frame_data) outcome" where
  "do_pong malloc_ok wfd n =
     obind (send_msg_ctrl malloc_ok wfd n WS_FR_OP_PONG) (\<lambda>(rc, wfd).
     if rc < 0 then Ret (-1, wfd\<lparr>ws_error := True\<rparr>) else Ret (0, wfd))"

section \<open>Reading bytes\<close>

text \<open>\<open>None\<close> is the -1 of a failed read.\<close>

definition next_byte :: "ws_frame_data \<Rightarrow> (byte option \<times> ws_frame_data) outcome" where
  "next_byte wfd =
     (let take_byte = (\<lambda>wfd. obind (read_at (frm wfd) (cur_pos wfd)) (\<lambda>b.
                        Ret (Some b, wfd\<lparr>cur_pos := cur_pos wfd + 1\<rparr>)))
      in if cur_pos wfd = 0 \<or> cur_pos wfd = amt_read wfd then
           (case recv_fd (client_sock (ws_client wfd)) MESSAGE_LENGTH of
              None \<Rightarrow> Timeout
            | Some (Done bs, sk) \<Rightarrow>
                take_byte (wfd\<lparr>frm := blit (frm wfd) 0 bs, amt_read := length bs, cur_pos := 0,
                              ws_client := (ws_client wfd)\<lparr>client_sock := sk\<rparr>\<rparr>)
            | Some (_, sk) \<Rightarrow>
                Ret (None, wfd\<lparr>ws_error := True, ws_client := (ws_client wfd)\<lparr>client_sock := sk\<rparr>\<rparr>))
         else take_byte wfd)"

fun skip_frame :: "ws_frame_data \<Rightarrow> nat \<Rightarrow> (int \<times> ws_frame_data) outcome" where
  "skip_frame wfd 0 = Ret (0, wfd)"
| "skip_frame wfd (Suc n) =
     obind (next_byte wfd) (\<lambda>(b, wfd).
       if b = None then Ret (-1, wfd\<lparr>ws_error := True\<rparr>) else skip_frame wfd n)"

text \<open>
  The length and the masks are computed from the returned \<open>int\<close>s, the -1 of a failure included; C
  leaves the order of the calls in the length open, and they are made from left to right here.
\<close>

definition byte_int :: "byte option \<Rightarrow> 64 word" where
  "byte_int b = (case b of None \<Rightarrow> -1 | Some b \<Rightarrow> ucast b)"

fun read_be :: "nat \<Rightarrow> 64 word \<Rightarrow> ws_frame_data \<Rightarrow> (64 word \<times> ws_frame_data) outcome" where
  "read_be 0 acc wfd = Ret (acc, wfd)"
| "read_be (Suc k) acc wfd =
     obind (next_byte wfd) (\<lambda>(b, wfd). read_be k (push_bit 8 acc OR byte_int b) wfd)"

fun read_masks :: "nat \<Rightarrow> byte list \<Rightarrow> ws_frame_data \<Rightarrow> (byte list \<times> ws_frame_data) outcome" where
  "read_masks 0 masks wfd = Ret (masks, wfd)"
| "read_masks (Suc k) masks wfd =
     obind (next_byte wfd) (\<lambda>(b, wfd). read_masks k (masks @ [case b of None \<Rightarrow> 0xFF | Some b \<Rightarrow> b]) wfd)"

section \<open>Reading a frame\<close>

text \<open>
  What \<open>read_frame\<close> gets by reference: the buffer (\<open>NULL\<close> as \<open>None\<close>; its length is its allocated
  size), the length of the frame, the size of the message so far, the place of the next byte.
\<close>

record frame_io =
  io_buf :: "byte list option"
  io_length :: "64 word"
  io_size :: "64 word"
  io_idx :: nat

definition realloc :: "(nat \<Rightarrow> bool) \<Rightarrow> byte list option \<Rightarrow> 64 word \<Rightarrow> byte list option" where
  "realloc malloc_ok buf n =
     (let old = (case buf of None \<Rightarrow> [] | Some b \<Rightarrow> b)
      in if malloc_ok (unat n) then Some (take (unat n) old @ replicate (unat n - length old) 0) else None)"

definition store :: "byte list option \<Rightarrow> nat \<Rightarrow> byte \<Rightarrow> byte list option outcome" where
  "store buf i b =
     (case buf of None \<Rightarrow> Fault | Some xs \<Rightarrow> if i < length xs then Ret (Some (xs[i := b])) else Fault)"

text \<open>The copy of the payload, \<open>n\<close> bytes of it left; \<open>i\<close> is the position in the frame.\<close>

fun copy_payload ::
  "nat \<Rightarrow> nat \<Rightarrow> byte list \<Rightarrow> ws_frame_data \<Rightarrow> frame_io \<Rightarrow> (int \<times> ws_frame_data \<times> frame_io) outcome" where
  "copy_payload 0 i masks wfd fio = Ret (0, wfd, fio)"
| "copy_payload (Suc n) i masks wfd fio =
     obind (next_byte wfd) (\<lambda>(b, wfd).
       case b of
         None \<Rightarrow> Ret (-1, wfd, fio)
       | Some b \<Rightarrow>
           obind (store (io_buf fio) (io_idx fio) (b XOR masks ! (i mod 4))) (\<lambda>buf.
           copy_payload n (i + 1) masks wfd (fio\<lparr>io_buf := buf, io_idx := io_idx fio + 1\<rparr>)))"

text \<open>Growing a data message's buffer; control frames go to \<open>msg_ctrl\<close>, which has a fixed size.\<close>

definition grow ::
  "(nat \<Rightarrow> bool) \<Rightarrow> bool \<Rightarrow> 64 word \<Rightarrow> frame_io \<Rightarrow> frame_io option" where
  "grow malloc_ok control n fio =
     (if control then Some fio
      else (case realloc malloc_ok (io_buf fio) n of
              None \<Rightarrow> None
            | Some buf \<Rightarrow> Some (fio\<lparr>io_buf := Some buf\<rparr>)))"

text \<open>Behind the masks: the payload, and the NUL behind the last fragment.\<close>

definition read_payload ::
  "(nat \<Rightarrow> bool) \<Rightarrow> bool \<Rightarrow> bool \<Rightarrow> byte list \<Rightarrow> ws_frame_data \<Rightarrow> frame_io \<Rightarrow> (int \<times> ws_frame_data \<times> frame_io) outcome" where
  "read_payload malloc_ok control is_fin masks wfd fio =
     (let len = io_length fio;
          failed = (\<lambda>fio. Ret (-1, wfd\<lparr>ws_error := True\<rparr>, fio))
      in obind (if len > 0 then
                  (case grow malloc_ok control (word_of_nat (io_idx fio) + len + (if is_fin then 1 else 0)) fio of
                     None \<Rightarrow> failed fio
                   | Some fio \<Rightarrow> copy_payload (unat len) 0 masks wfd fio)
                else Ret (0, wfd, fio)) (\<lambda>(rc, wfd, fio).
         if rc < 0 then Ret (-1, wfd, fio)
         else if is_fin \<and> io_size fio > 0 then
           (case (if len = 0 then grow malloc_ok control (word_of_nat (io_idx fio) + 1) fio else Some fio) of
              None \<Rightarrow> Ret (-1, wfd\<lparr>ws_error := True\<rparr>, fio)
            | Some fio \<Rightarrow>
                obind (store (io_buf fio) (io_idx fio) 0) (\<lambda>buf. Ret (0, wfd, fio\<lparr>io_buf := buf\<rparr>)))
         else Ret (0, wfd, fio)))"

definition read_length :: "64 word \<Rightarrow> ws_frame_data \<Rightarrow> (64 word \<times> ws_frame_data) outcome" where
  "read_length len wfd =
     (if len = 126 then read_be 2 0 wfd else if len = 127 then read_be 8 0 wfd else Ret (len, wfd))"

definition read_frame ::
  "(nat \<Rightarrow> bool) \<Rightarrow> bool \<Rightarrow> bool \<Rightarrow> ws_frame_data \<Rightarrow> frame_io \<Rightarrow> (int \<times> ws_frame_data \<times> frame_io) outcome" where
  "read_frame malloc_ok control is_fin wfd fio =
     obind (read_length (io_length fio) wfd) (\<lambda>(len, wfd).
     let fio = fio\<lparr>io_length := len, io_size := io_size fio + len\<rparr>
     in if io_size fio > MAX_FRAME_LENGTH then Ret (-1, wfd\<lparr>ws_error := True\<rparr>, fio)
        else obind (read_masks 4 [] wfd) (\<lambda>(masks, wfd).
          if ws_error wfd then Ret (-1, wfd, fio)
          else read_payload malloc_ok control is_fin masks wfd fio))"

section \<open>Reading a message\<close>

definition is_control_frame :: "byte \<Rightarrow> bool" where
  "is_control_frame frame \<longleftrightarrow> frame = WS_FR_OP_CLSE \<or> frame = WS_FR_OP_PING \<or> frame = WS_FR_OP_PONG"

definition pong_msg_to_int32 :: "byte list \<Rightarrow> int" where
  "pong_msg_to_int32 msg =
     sint (ucast (msg ! 3) OR push_bit 8 (ucast (msg ! 2)) OR push_bit 16 (ucast (msg ! 1)) OR
       push_bit 24 (ucast (msg ! 0)) :: 32 word)"

text \<open>
  The locals that live through the loop: the message so far, its index, the state of the validator.
  A turn of the loop returns from the function, leaves the loop, or reaches its condition with
  \<open>is_fin\<close>.  \<open>validate\<close> says whether the code is compiled with \<open>VALIDATE_UTF8\<close>.
\<close>

record msg_state =
  msg_data :: "byte list option"
  msg_idx_data :: nat
  utf8_state :: u32

datatype msg_turn =
    Returns int ws_frame_data
  | Breaks ws_frame_data msg_state
  | Reaches bool ws_frame_data msg_state

text \<open>A data frame, with the fragment of a text checked against the validator's state.\<close>

definition data_frame ::
  "bool \<Rightarrow> (nat \<Rightarrow> bool) \<Rightarrow> bool \<Rightarrow> 64 word \<Rightarrow> ws_frame_data \<Rightarrow> msg_state \<Rightarrow> msg_turn outcome" where
  "data_frame validate malloc_ok is_fin len wfd st =
     obind (read_frame malloc_ok False is_fin wfd
        \<lparr>io_buf = msg_data st, io_length = len, io_size = frame_size wfd, io_idx = msg_idx_data st\<rparr>) (\<lambda>(rc, wfd, fio).
     let wfd = wfd\<lparr>frame_size := io_size fio\<rparr>;
         st = st\<lparr>msg_data := io_buf fio, msg_idx_data := io_idx fio\<rparr>
     in if rc < 0 then Ret (Breaks wfd st)
        else if validate \<and> frame_type wfd = Some WS_FR_OP_TXT then
          let n = unat (io_length fio);
              fragment = slice (io_idx fio - n) n (case io_buf fio of None \<Rightarrow> [] | Some xs \<Rightarrow> xs);
              state = is_utf8_len_state fragment (utf8_state st);
              st = (if is_fin then st else st\<lparr>utf8_state := state\<rparr>)
          in if (if is_fin then state \<noteq> UTF8_ACCEPT else state = UTF8_REJECT) then
               obind (do_close malloc_ok (wfd\<lparr>ws_error := True\<rparr>) WS_CLSE_INVUTF8)
                 (\<lambda>(rc, wfd). Ret (Reaches is_fin wfd st))
             else Ret (Reaches is_fin wfd st)
        else Ret (Reaches is_fin wfd st))"

text \<open>The payload of a control frame goes to \<open>msg_ctrl\<close>; the size of the frame is returned.\<close>

definition control_frame ::
  "(nat \<Rightarrow> bool) \<Rightarrow> bool \<Rightarrow> 64 word \<Rightarrow> ws_frame_data \<Rightarrow> (int \<times> 64 word \<times> ws_frame_data) outcome" where
  "control_frame malloc_ok is_fin len wfd =
     obind (read_frame malloc_ok True is_fin wfd
        \<lparr>io_buf = Some (msg_ctrl wfd), io_length = len, io_size = 0, io_idx = 0\<rparr>) (\<lambda>(rc, wfd, fio).
     Ret (rc, io_size fio, wfd\<lparr>msg_ctrl := (case io_buf fio of None \<Rightarrow> [] | Some xs \<Rightarrow> xs)\<rparr>))"

definition pong_frame ::
  "(nat \<Rightarrow> bool) \<Rightarrow> bool \<Rightarrow> 64 word \<Rightarrow> ws_frame_data \<Rightarrow> msg_state \<Rightarrow> msg_turn outcome" where
  "pong_frame malloc_ok is_fin len wfd st =
     obind (control_frame malloc_ok is_fin len wfd) (\<lambda>(rc, n, wfd).
       if rc < 0 then Ret (Breaks wfd st)
       else if n \<noteq> 4 then Ret (Reaches False wfd st)
       else
         let pong_id = pong_msg_to_int32 (msg_ctrl wfd)
         in if pong_id < 0 \<or> pong_id > current_ping_id (ws_client wfd) then Ret (Reaches False wfd st)
            else Ret (Reaches False (wfd\<lparr>ws_client := (ws_client wfd)\<lparr>last_pong_id := pong_id\<rparr>\<rparr>) st))"

definition ping_frame ::
  "(nat \<Rightarrow> bool) \<Rightarrow> bool \<Rightarrow> 64 word \<Rightarrow> ws_frame_data \<Rightarrow> msg_state \<Rightarrow> msg_turn outcome" where
  "ping_frame malloc_ok is_fin len wfd st =
     obind (control_frame malloc_ok is_fin len wfd) (\<lambda>(rc, n, wfd).
       if rc < 0 then Ret (Breaks wfd st)
       else obind (do_pong malloc_ok wfd n) (\<lambda>(rc, wfd).
         if rc < 0 then Ret (Breaks wfd st) else Ret (Reaches False wfd st)))"

definition close_frame ::
  "bool \<Rightarrow> (nat \<Rightarrow> bool) \<Rightarrow> bool \<Rightarrow> 64 word \<Rightarrow> ws_frame_data \<Rightarrow> msg_state \<Rightarrow> msg_turn outcome" where
  "close_frame validate malloc_ok is_fin len wfd st =
     obind (control_frame malloc_ok is_fin len wfd) (\<lambda>(rc, n, wfd).
       if rc < 0 then Ret (Breaks wfd st)
       else if validate \<and> n > 2 \<and> \<not> is_utf8_len (slice 2 (unat n - 2) (msg_ctrl wfd))
       then Ret (Breaks (wfd\<lparr>ws_error := True\<rparr>) st)
       else Ret (Returns 0 (wfd\<lparr>frame_size := n, frame_type := Some WS_FR_OP_CLSE\<rparr>)))"

text \<open>The turn behind the first byte of a frame.\<close>

definition known_opcode :: "byte \<Rightarrow> bool" where
  "known_opcode opcode \<longleftrightarrow> opcode = WS_FR_OP_TXT \<or> opcode = WS_FR_OP_BIN \<or> opcode = WS_FR_OP_CONT \<or>
     opcode = WS_FR_OP_PING \<or> opcode = WS_FR_OP_PONG \<or> opcode = WS_FR_OP_CLSE"

definition frame_turn ::
  "bool \<Rightarrow> (nat \<Rightarrow> bool) \<Rightarrow> byte \<Rightarrow> ws_frame_data \<Rightarrow> msg_state \<Rightarrow> msg_turn outcome" where
  "frame_turn validate malloc_ok cur_byte wfd st =
     (let is_fin = (drop_bit 7 cur_byte \<noteq> 0); opcode = cur_byte AND 0xF in
      if cur_byte AND 0x70 \<noteq> 0 then Ret (Breaks (wfd\<lparr>ws_error := True\<rparr>) st)
      else if frame_type wfd = None \<and> opcode = WS_FR_OP_CONT \<or>
              frame_type wfd \<noteq> None \<and> \<not> is_control_frame opcode \<and> opcode \<noteq> WS_FR_OP_CONT
      then Ret (Breaks (wfd\<lparr>ws_error := True\<rparr>) st)
      else if known_opcode opcode then
        if get_client_state (ws_client wfd) = WS_STATE_CLOSING \<and> opcode \<noteq> WS_FR_OP_CLSE
        then Ret (Breaks (wfd\<lparr>ws_error := True\<rparr>) st)
        else
          let wfd = (if opcode \<noteq> WS_FR_OP_CONT \<and> \<not> is_control_frame opcode
                     then wfd\<lparr>frame_type := Some opcode\<rparr> else wfd)
          in obind (next_byte wfd) (\<lambda>(mask, wfd).
             let len = byte_int mask AND 0x7F in
             if is_control_frame opcode \<and> (\<not> is_fin \<or> len > 125)
             then Ret (Breaks (wfd\<lparr>ws_error := True\<rparr>) st)
             else if opcode = WS_FR_OP_TXT \<or> opcode = WS_FR_OP_BIN \<or> opcode = WS_FR_OP_CONT
             then data_frame validate malloc_ok is_fin len wfd st
             else if opcode = WS_FR_OP_PONG then pong_frame malloc_ok is_fin len wfd st
             else if opcode = WS_FR_OP_PING then ping_frame malloc_ok is_fin len wfd st
             else close_frame validate malloc_ok is_fin len wfd st)
      else Ret (Reaches is_fin (wfd\<lparr>frame_type := Some opcode, ws_error := True\<rparr>) st))"

text \<open>Behind the loop.\<close>

definition frame_end :: "ws_frame_data \<Rightarrow> msg_state \<Rightarrow> int \<times> ws_frame_data" where
  "frame_end wfd st =
     (if ws_error wfd then (-1, wfd\<lparr>ws_msg := None\<rparr>) else (0, wfd\<lparr>ws_msg := msg_data st\<rparr>))"

text \<open>The loop, for at most \<open>fuel\<close> frames.\<close>

primrec frame_loop ::
  "nat \<Rightarrow> bool \<Rightarrow> (nat \<Rightarrow> bool) \<Rightarrow> ws_frame_data \<Rightarrow> msg_state \<Rightarrow> (int \<times> ws_frame_data) outcome" where
  "frame_loop 0 validate malloc_ok wfd st = Timeout"
| "frame_loop (Suc fuel) validate malloc_ok wfd st =
     obind (next_byte wfd) (\<lambda>(cur_byte, wfd).
       case cur_byte of
         None \<Rightarrow> Ret (-1, wfd)
       | Some b \<Rightarrow>
           obind (frame_turn validate malloc_ok b wfd st) (\<lambda>turn.
             case turn of
               Returns rc wfd \<Rightarrow> Ret (rc, wfd)
             | Breaks wfd st \<Rightarrow> Ret (frame_end wfd st)
             | Reaches is_fin wfd st \<Rightarrow>
                 if \<not> is_fin \<and> \<not> ws_error wfd then frame_loop fuel validate malloc_ok wfd st
                 else Ret (frame_end wfd st)))"

definition next_frame ::
  "nat \<Rightarrow> bool \<Rightarrow> (nat \<Rightarrow> bool) \<Rightarrow> ws_frame_data \<Rightarrow> (int \<times> ws_frame_data) outcome" where
  "next_frame fuel validate malloc_ok wfd =
     frame_loop fuel validate malloc_ok (wfd\<lparr>frame_size := 0, frame_type := None, ws_msg := None\<rparr>)
       \<lparr>msg_data = None, msg_idx_data = 0, utf8_state = UTF8_ACCEPT\<rparr>"

end
