(* ===== verification/WsMessage.thy ===== *)
theory WsMessage
  imports WsServer
begin

text \<open>
  What the server's reader makes of a client's bytes: every read below \<open>next_frame\<close> takes exactly
  the bytes it is specified to take, wherever the network cut the stream, and leaves the rest of the
  state alone; a message in fragments is put together, and the pings between them are answered.
\<close>

section \<open>The stream behind the receive buffer\<close>

definition unread :: "ws_frame_data \<Rightarrow> byte list" where
  "unread wfd = (if cur_pos wfd = 0 then [] else drop (cur_pos wfd) (take (amt_read wfd) (frm wfd)))"

definition wire :: "ws_frame_data \<Rightarrow> byte list" where
  "wire wfd = unread wfd @ lwip_bytes (fd_script (client_sock (ws_client wfd)))"

definition reader_ok :: "ws_frame_data \<Rightarrow> bool" where
  "reader_ok wfd \<longleftrightarrow> length (frm wfd) = MESSAGE_LENGTH \<and> cur_pos wfd \<le> amt_read wfd \<and> amt_read wfd \<le> MESSAGE_LENGTH"

text \<open>What reading leaves as it is.\<close>

definition sender :: "ws_connection \<Rightarrow> (send_event list \<times> byte list) option" where
  "sender client = map_option (\<lambda>sk. (outgoing sk, sent sk)) (client_sock client)"

definition beside :: "ws_frame_data \<Rightarrow> ws_frame_data \<Rightarrow> bool" where
  "beside wfd wfd' \<longleftrightarrow> ws_msg wfd' = ws_msg wfd \<and> msg_ctrl wfd' = msg_ctrl wfd \<and> frame_type wfd' = frame_type wfd \<and>
     frame_size wfd' = frame_size wfd \<and> ws_error wfd' = ws_error wfd \<and>
     sender (ws_client wfd') = sender (ws_client wfd) \<and> ws_state (ws_client wfd') = ws_state (ws_client wfd) \<and>
     close_thrd (ws_client wfd') = close_thrd (ws_client wfd) \<and>
     last_pong_id (ws_client wfd') = last_pong_id (ws_client wfd) \<and>
     current_ping_id (ws_client wfd') = current_ping_id (ws_client wfd)"

lemma beside_refl [simp]: "beside wfd wfd"
  by (simp add: beside_def)

lemma beside_trans [trans]: "beside a b \<Longrightarrow> beside b c \<Longrightarrow> beside a c"
  by (simp add: beside_def)

definition reads :: "ws_frame_data \<Rightarrow> byte list \<Rightarrow> ws_frame_data \<Rightarrow> bool" where
  "reads wfd rest wfd' \<longleftrightarrow> reader_ok wfd' \<and> wire wfd' = rest \<and> beside wfd wfd'"

lemma reads_trans: "reads a r b \<Longrightarrow> reads b r' c \<Longrightarrow> reads a r' c"
  using beside_trans by (auto simp: reads_def)

lemma next_byte_reads:
  assumes "reader_ok wfd" and "wire wfd = b # rest"
  obtains wfd' where "next_byte wfd = Ret (Some b, wfd')" "reads wfd rest wfd'"
proof (cases "cur_pos wfd = 0 \<or> cur_pos wfd = amt_read wfd")
  case True
  then have "unread wfd = []" by (auto simp: unread_def)
  then have l: "lwip_bytes (fd_script (client_sock (ws_client wfd))) = b # rest" using assms(2) by (simp add: wire_def)
  then obtain bs sk where r: "recv_fd (client_sock (ws_client wfd)) MESSAGE_LENGTH = Some (Done bs, sk)"
    using recv_fd_lwip(2) [of MESSAGE_LENGTH "client_sock (ws_client wfd)"] by auto
  then have p: "bs \<noteq> []" "length bs \<le> MESSAGE_LENGTH" "b # rest = bs @ lwip_bytes (fd_script sk)"
    using recv_fd_lwip(1) [OF r] l by simp_all
  then obtain bs1 where bs: "bs = b # bs1" "rest = bs1 @ lwip_bytes (fd_script sk)" by (cases bs) auto
  let ?w = "wfd\<lparr>frm := blit (frm wfd) 0 bs, amt_read := length bs, cur_pos := 1,
              ws_client := (ws_client wfd)\<lparr>client_sock := sk\<rparr>\<rparr>"
  have f: "blit (frm wfd) 0 ys = ys @ drop (length ys) (frm wfd)" for ys by (simp add: blit_def)
  have "next_byte wfd = Ret (Some b, ?w)"
    using True r bs(1) by (simp add: next_byte_def Let_def f read_at_def)
  moreover have "map_option (\<lambda>s. (outgoing s, sent s)) sk = map_option (\<lambda>s. (outgoing s, sent s)) (client_sock (ws_client wfd))"
    using r by (auto simp: recv_fd_def split: option.splits)
  then have "reads wfd rest ?w"
    using assms(1) p(2) bs by (simp add: reads_def reader_ok_def wire_def unread_def beside_def sender_def f)
  ultimately show thesis by (rule that)
next
  case False
  then have c: "0 < cur_pos wfd" "cur_pos wfd < amt_read wfd" "amt_read wfd \<le> length (frm wfd)"
    using assms(1) by (auto simp: reader_ok_def)
  then have "unread wfd = frm wfd ! cur_pos wfd # drop (Suc (cur_pos wfd)) (take (amt_read wfd) (frm wfd))"
    using Cons_nth_drop_Suc [of "cur_pos wfd" "take (amt_read wfd) (frm wfd)"] by (simp add: unread_def)
  then have b: "b = frm wfd ! cur_pos wfd"
    "rest = drop (Suc (cur_pos wfd)) (take (amt_read wfd) (frm wfd)) @ lwip_bytes (fd_script (client_sock (ws_client wfd)))"
    using assms(2) by (simp_all add: wire_def)
  let ?w = "wfd\<lparr>cur_pos := cur_pos wfd + 1\<rparr>"
  have "next_byte wfd = Ret (Some b, ?w)" using False c b by (simp add: next_byte_def)
  moreover have "reads wfd rest ?w"
    using assms(1) c b by (simp add: reads_def reader_ok_def wire_def unread_def beside_def)
  ultimately show thesis by (rule that)
qed

lemma read_be_reads:
  assumes "reader_ok wfd" and "wire wfd = bs @ rest"
  obtains wfd' where "read_be (length bs) acc wfd = Ret (foldl (\<lambda>n b. push_bit 8 n OR ucast b) acc bs, wfd')"
    "reads wfd rest wfd'"
  using assms
proof (induction bs arbitrary: acc wfd thesis)
  case Nil
  then show ?case by (simp add: reads_def)
next
  case (Cons b bs)
  obtain w where w: "next_byte wfd = Ret (Some b, w)" "reads wfd (bs @ rest) w"
    using next_byte_reads [OF Cons.prems(2), of b "bs @ rest"] Cons.prems(3) by auto
  obtain w' where "read_be (length bs) (push_bit 8 acc OR ucast b) w =
      Ret (foldl (\<lambda>n b. push_bit 8 n OR ucast b) (push_bit 8 acc OR ucast b) bs, w')" "reads w rest w'"
    using Cons.IH [of "push_bit 8 acc OR ucast b" w] w(2) by (auto simp: reads_def)
  with w Cons.prems(1) [of w'] show ?case by (simp add: byte_int_def reads_trans)
qed

lemma read_masks_reads:
  assumes "reader_ok wfd" and "wire wfd = bs @ rest"
  obtains wfd' where "read_masks (length bs) masks wfd = Ret (masks @ bs, wfd')" "reads wfd rest wfd'"
  using assms
proof (induction bs arbitrary: masks wfd thesis)
  case Nil
  then show ?case by (simp add: reads_def)
next
  case (Cons b bs)
  obtain w where w: "next_byte wfd = Ret (Some b, w)" "reads wfd (bs @ rest) w"
    using next_byte_reads [OF Cons.prems(2), of b "bs @ rest"] Cons.prems(3) by auto
  obtain w' where "read_masks (length bs) (masks @ [b]) w = Ret ((masks @ [b]) @ bs, w')" "reads w rest w'"
    using Cons.IH [of "masks @ [b]" w] w(2) by (auto simp: reads_def)
  with w Cons.prems(1) [of w'] show ?case by (simp add: reads_trans)
qed

text \<open>The payload, unmasked at its place in the frame, into the buffer.\<close>

definition mask_from :: "nat \<Rightarrow> byte list \<Rightarrow> byte list \<Rightarrow> byte list" where
  "mask_from i masks bs = map (\<lambda>j. bs ! j XOR masks ! ((i + j) mod 4)) [0..<length bs]"

lemma mask_from_simps [simp]:
  "mask_from i masks [] = []"
  "mask_from i masks (b # bs) = (b XOR masks ! (i mod 4)) # mask_from (Suc i) masks bs"
  "length (mask_from i masks bs) = length bs"
  by (simp_all add: mask_from_def map_upt_Suc del: upt_Suc)

lemma mask_from_0: "mask_from 0 masks bs = ws_mask masks bs"
  by (simp add: mask_from_def ws_mask_def)

lemma blit_update:
  "i < length xs \<Longrightarrow> blit (xs[i := y]) (Suc i) ys = blit xs i (y # ys)"
  by (simp add: blit_def take_Suc_conv_app_nth)

lemma copy_payload_reads:
  assumes "reader_ok wfd" and "wire wfd = bs @ rest"
    and "io_buf fio = Some xs" and "io_idx fio + length bs \<le> length xs"
  obtains wfd' where "copy_payload (length bs) i masks wfd fio =
      Ret (0, wfd', fio\<lparr>io_buf := Some (blit xs (io_idx fio) (mask_from i masks bs)), io_idx := io_idx fio + length bs\<rparr>)"
    "reads wfd rest wfd'"
  using assms
proof (induction bs arbitrary: i xs fio wfd thesis)
  case Nil
  then show ?case by (auto simp: reads_def)
next
  case (Cons b bs)
  obtain w where w: "next_byte wfd = Ret (Some b, w)" "reads wfd (bs @ rest) w"
    using next_byte_reads [OF Cons.prems(2), of b "bs @ rest"] Cons.prems(3) by auto
  let ?x = "b XOR masks ! (i mod 4)"
  let ?fio = "fio\<lparr>io_buf := Some (xs[io_idx fio := ?x]), io_idx := io_idx fio + 1\<rparr>"
  have i: "io_idx fio < length xs" using Cons.prems(5) by simp
  obtain w' where "copy_payload (length bs) (Suc i) masks w ?fio = Ret (0, w',
      ?fio\<lparr>io_buf := Some (blit (xs[io_idx fio := ?x]) (io_idx ?fio) (mask_from (Suc i) masks bs)),
           io_idx := io_idx ?fio + length bs\<rparr>)" "reads w rest w'"
    using Cons.IH [of "Suc i" w ?fio "xs[io_idx fio := ?x]"] w(2) Cons.prems(5) by (auto simp: reads_def)
  with w i Cons.prems(1) [of w'] Cons.prems(4) show ?case
    by (simp add: store_def blit_update reads_trans)
qed

text \<open>The length field, read after its first byte.\<close>

lemma push_or_value: "push_bit 8 w OR ucast (b :: byte) = w * 256 + (ucast b :: 64 word)"
proof -
  have "push_bit 8 w AND (ucast b :: 64 word) = 0"
    by (intro bit_word_eqI) (auto simp: bit_simps dest: bit_imp_le_length)
  then show ?thesis by (simp add: disjunctive_add_eq_or [symmetric] push_bit_eq_mult)
qed

lemma foldl_bytes: "foldl (\<lambda>n b. push_bit 8 n OR ucast b) 0 bs = (word_of_nat (be_value bs) :: 64 word)"
proof (induction bs rule: rev_induct)
  case (snoc b bs)
  have "(ucast b :: 64 word) = word_of_nat (unat b)" by simp
  with snoc show ?case by (simp add: push_or_value be_value_snoc)
qed (simp add: be_value_def)

lemma read_length_reads:
  assumes "reader_ok wfd" and "wire wfd = ext @ rest" and "n < 2 ^ 64"
    and "unat (b1 AND 0x7F) = (if n \<le> 125 then n else if n \<le> 0xFFFF then 126 else 127)"
    and "ext = (if n \<le> 125 then [] else if n \<le> 0xFFFF then be_bytes 2 n else be_bytes 8 n)"
  obtains wfd' where "read_length (ucast (b1 AND 0x7F)) wfd = Ret (word_of_nat n, wfd')" "reads wfd rest wfd'"
proof -
  have u: "(ucast (b1 AND 0x7F) :: 64 word) = word_of_nat (unat (b1 AND 0x7F))" by simp
  consider "n \<le> 125" | "125 < n" "n \<le> 0xFFFF" | "0xFFFF < n" by linarith
  then show thesis
  proof cases
    case 1
    then have "ucast (b1 AND 0x7F) = (word_of_nat n :: 64 word)" using assms(4) u by simp
    moreover have "(word_of_nat n :: 64 word) \<noteq> 126" "(word_of_nat n :: 64 word) \<noteq> 127"
      using 1 by (auto simp: word_unat_eq_iff unat_word_of_nat)
    ultimately show ?thesis using 1 assms that [of wfd] by (simp add: read_length_def reads_def)
  next
    case 2
    obtain w where "read_be (length (be_bytes 2 n)) 0 wfd = Ret (word_of_nat (be_value (be_bytes 2 n)), w)" "reads wfd rest w"
      using read_be_reads [OF assms(1), of "be_bytes 2 n" rest 0] 2 assms(2,5) foldl_bytes by auto
    with 2 assms(4) u that [of w] show ?thesis by (simp add: read_length_def be_value_be_bytes)
  next
    case 3
    obtain w where "read_be (length (be_bytes 8 n)) 0 wfd = Ret (word_of_nat (be_value (be_bytes 8 n)), w)" "reads wfd rest w"
      using read_be_reads [OF assms(1), of "be_bytes 8 n" rest 0] 3 assms(2,5) foldl_bytes by auto
    with 3 assms(3,4) u that [of w] show ?thesis by (simp add: read_length_def be_value_be_bytes)
  qed
qed

section \<open>One frame\<close>

text \<open>The buffer of a message that holds \<open>xs\<close>: none for an empty one, a NUL behind the last fragment.\<close>

definition msg_buf :: "bool \<Rightarrow> byte list \<Rightarrow> byte list option" where
  "msg_buf fin xs = (if xs = [] then None else Some (if fin then xs @ [0] else xs))"

lemma realloc_msg_buf:
  assumes "malloc_ok m" and "length acc \<le> m" and "m < 2 ^ 64"
  shows "realloc malloc_ok (msg_buf False acc) (word_of_nat m) = Some (acc @ replicate (m - length acc) 0)"
  using assms by (auto simp: realloc_def msg_buf_def unat_word_of_nat Let_def)

lemma unmasked: "mask_from 0 k (ws_mask k p) = p"
  by (simp add: mask_from_0)

lemma blit_behind: "blit (acc @ replicate m x) (length acc) ys = acc @ ys @ replicate (m - length ys) x"
  by (simp add: blit_def)

lemma data_payload_reads:
  assumes "reader_ok wfd" and "wire wfd = ws_mask k p @ rest"
    and "length acc + length p \<le> 16777216" and "\<forall>n \<le> 16777217. malloc_ok n"
  obtains wfd' where "read_payload malloc_ok False fin k wfd
      \<lparr>io_buf = msg_buf False acc, io_length = word_of_nat (length p), io_size = word_of_nat (length (acc @ p)), io_idx = length acc\<rparr> =
      Ret (0, wfd', \<lparr>io_buf = msg_buf fin (acc @ p), io_length = word_of_nat (length p),
        io_size = word_of_nat (length (acc @ p)), io_idx = length (acc @ p)\<rparr>)"
    "reads wfd rest wfd'"
proof (cases "p = []")
  case True
  have "realloc malloc_ok (msg_buf False acc) (word_of_nat (length acc) + 1) = Some (acc @ [0])"
    using realloc_msg_buf [of malloc_ok "length acc + 1" acc] assms(3,4) by (simp add: add.commute)
  moreover have "(0 < (word_of_nat (length acc) :: 64 word)) = (acc \<noteq> [])"
    using assms(3) by (simp add: word_less_nat_alt unat_word_of_nat)
  ultimately have "read_payload malloc_ok False fin k wfd
      \<lparr>io_buf = msg_buf False acc, io_length = word_of_nat (length p), io_size = word_of_nat (length (acc @ p)), io_idx = length acc\<rparr> =
      Ret (0, wfd, \<lparr>io_buf = msg_buf fin (acc @ p), io_length = word_of_nat (length p),
        io_size = word_of_nat (length (acc @ p)), io_idx = length (acc @ p)\<rparr>)"
    using True by (auto simp: read_payload_def grow_def store_def msg_buf_def)
  moreover have "reads wfd rest wfd" using assms(1,2) True by (simp add: reads_def ws_mask_def)
  ultimately show thesis by (rule that)
next
  case False
  let ?m = "length acc + length p + (if fin then 1 else 0)"
  have w: "word_of_nat (length acc) + word_of_nat (length p) + (if fin then 1 else 0) = (word_of_nat ?m :: 64 word)"
    by simp
  let ?io = "\<lparr>io_buf = Some (acc @ replicate (?m - length acc) 0), io_length = word_of_nat (length p) :: 64 word,
     io_size = word_of_nat (length (acc @ p)) :: 64 word, io_idx = length acc\<rparr>"
  have u: "unat (word_of_nat (length p) :: 64 word) = length p" using assms(3) by (intro unat_word_of_nat) simp
  have "unat (word_of_nat (length (acc @ p)) :: 64 word) = length (acc @ p)" using assms(3) by (intro unat_word_of_nat) simp
  then have pos: "(0 < (word_of_nat (length p) :: 64 word))" "(0 < (word_of_nat (length (acc @ p)) :: 64 word))"
    using u False by (simp_all only: word_less_nat_alt unat_0) auto
  then have nz: "word_of_nat (length p) \<noteq> (0 :: 64 word)" by auto
  have g: "realloc malloc_ok (msg_buf False acc) (word_of_nat ?m) = Some (acc @ replicate (?m - length acc) 0)"
    using assms(3,4) by (intro realloc_msg_buf) auto
  obtain w1 where c: "copy_payload (length (ws_mask k p)) 0 k wfd ?io = Ret (0, w1,
      ?io\<lparr>io_buf := Some (blit (acc @ replicate (?m - length acc) 0) (length acc) (mask_from 0 k (ws_mask k p))),
          io_idx := length acc + length p\<rparr>)" "reads wfd rest w1"
    using copy_payload_reads [OF assms(1,2), of ?io "acc @ replicate (?m - length acc) 0" 0 k] by auto
  have b: "blit (acc @ replicate (?m - length acc) 0) (length acc) (mask_from 0 k (ws_mask k p)) =
      acc @ p @ (if fin then [0] else [])"
    unfolding unmasked blit_behind by simp
  have "read_payload malloc_ok False fin k wfd
      \<lparr>io_buf = msg_buf False acc, io_length = word_of_nat (length p), io_size = word_of_nat (length (acc @ p)), io_idx = length acc\<rparr> =
      Ret (0, w1, \<lparr>io_buf = msg_buf fin (acc @ p), io_length = word_of_nat (length p),
        io_size = word_of_nat (length (acc @ p)), io_idx = length (acc @ p)\<rparr>)"
    using c(1) False pos nz unfolding b read_payload_def grow_def Let_def frame_io.simps w g u
    by (simp add: store_def msg_buf_def nth_append list_update_append)
  from this c(2) show thesis by (rule that)
qed

lemma control_payload_reads:
  assumes "reader_ok wfd" and "wire wfd = ws_mask k p @ rest" and "length p \<le> 124" and "length buf = 125"
  obtains wfd' where "read_payload malloc_ok True True k wfd
      \<lparr>io_buf = Some buf, io_length = word_of_nat (length p), io_size = word_of_nat (length p), io_idx = 0\<rparr> =
      Ret (0, wfd', \<lparr>io_buf = Some (blit buf 0 (if p = [] then [] else p @ [0])), io_length = word_of_nat (length p),
        io_size = word_of_nat (length p), io_idx = length p\<rparr>)"
    "reads wfd rest wfd'"
proof (cases "p = []")
  case True
  then show ?thesis using assms(1,2) that [of wfd] by (simp add: read_payload_def reads_def ws_mask_def)
next
  case False
  let ?io = "\<lparr>io_buf = Some buf, io_length = word_of_nat (length p) :: 64 word, io_size = word_of_nat (length p) :: 64 word, io_idx = 0\<rparr>"
  have u: "unat (word_of_nat (length p) :: 64 word) = length p" using assms(3) by (intro unat_word_of_nat) simp
  have pos: "(0 < (word_of_nat (length p) :: 64 word))"
    using assms(3) False by (simp add: word_less_nat_alt unat_word_of_nat)
  obtain w1 where c: "copy_payload (length (ws_mask k p)) 0 k wfd ?io = Ret (0, w1,
      ?io\<lparr>io_buf := Some (blit buf 0 (mask_from 0 k (ws_mask k p))), io_idx := 0 + length p\<rparr>)" "reads wfd rest w1"
    using copy_payload_reads [OF assms(1,2), of ?io buf 0 k] assms(3,4) by auto
  have b: "(blit buf 0 p)[length p := 0] = blit buf 0 (p @ [0])"
    using assms(3,4) by (simp add: blit_def list_update_append drop_update_swap Cons_nth_drop_Suc [symmetric])
  show thesis
    using c that [of w1] False pos u b assms(3,4)
    by (simp add: read_payload_def grow_def Let_def unmasked store_def)
qed

lemma read_frame_prefix:
  assumes "reader_ok wfd" and "\<not> ws_error wfd" and "wire wfd = ext @ k @ ws_mask k p @ rest" and "length k = 4"
    and "length p < 2 ^ 64"
    and "unat (b1 AND 0x7F) = (if length p \<le> 125 then length p else if length p \<le> 0xFFFF then 126 else 127)"
    and "ext = (if length p \<le> 125 then [] else if length p \<le> 0xFFFF then be_bytes 2 (length p) else be_bytes 8 (length p))"
    and "io_length fio = ucast (b1 AND 0x7F)" and "io_size fio + word_of_nat (length p) \<le> MAX_FRAME_LENGTH"
  obtains wfd' where "read_frame malloc_ok control fin wfd fio = read_payload malloc_ok control fin k wfd'
      (fio\<lparr>io_length := word_of_nat (length p), io_size := io_size fio + word_of_nat (length p)\<rparr>)"
    "reads wfd (ws_mask k p @ rest) wfd'"
proof -
  obtain w1 where w1: "read_length (ucast (b1 AND 0x7F)) wfd = Ret (word_of_nat (length p), w1)"
    "reads wfd (k @ ws_mask k p @ rest) w1"
    by (rule read_length_reads [OF assms(1,3,5,6,7)])
  obtain w2 where w2: "read_masks (length k) [] w1 = Ret ([] @ k, w2)" "reads w1 (ws_mask k p @ rest) w2"
    using read_masks_reads [of w1 k "ws_mask k p @ rest" "[]"] w1(2) by (auto simp: reads_def)
  have "reads wfd (ws_mask k p @ rest) w2" using reads_trans [OF w1(2) w2(2)] .
  moreover from this have "\<not> ws_error w2" using assms(2) by (simp add: reads_def beside_def)
  moreover have "\<not> io_size fio + word_of_nat (length p) > MAX_FRAME_LENGTH" using assms(9) by (simp add: not_less)
  ultimately show thesis
    using w1(1) w2(1) assms(4,8) that [of w2] by (simp add: read_frame_def Let_def)
qed

text \<open>A whole masked frame, behind its first byte.\<close>

definition masked :: "byte list \<Rightarrow> byte list \<Rightarrow> byte list" where
  "masked k p = length_field 0x80 (length p) @ k @ ws_mask k p"

lemma frame_bytes_masked: "frame_bytes b0 (Some k) p = b0 # masked k p"
  by (simp add: frame_bytes_def masked_def)

lemma masked_split:
  obtains b1 ext where "masked k p = b1 # ext @ k @ ws_mask k p"
    "unat (b1 AND 0x7F) = (if length p \<le> 125 then length p else if length p \<le> 0xFFFF then 126 else 127)"
    "ext = (if length p \<le> 125 then [] else if length p \<le> 0xFFFF then be_bytes 2 (length p) else be_bytes 8 (length p))"
    "ucast b1 AND 0x7F = (ucast (b1 AND 0x7F) :: 64 word)"
proof -
  have "ucast b1 AND 0x7F = (ucast (b1 AND 0x7F) :: 64 word)" for b1 :: byte
    by (simp add: unsigned_and_eq)
  then show thesis using length_field_first [of "0x80" "length p"] that by (auto simp: masked_def)
qed

lemma wire_updates [simp]:
  "wire (wfd\<lparr>frame_type := t\<rparr>) = wire wfd" "reader_ok (wfd\<lparr>frame_type := t\<rparr>) = reader_ok wfd"
  "wire (wfd\<lparr>frame_size := n\<rparr>) = wire wfd" "reader_ok (wfd\<lparr>frame_size := n\<rparr>) = reader_ok wfd"
  "wire (wfd\<lparr>msg_ctrl := m\<rparr>) = wire wfd" "reader_ok (wfd\<lparr>msg_ctrl := m\<rparr>) = reader_ok wfd"
  "wire (wfd\<lparr>ws_msg := x\<rparr>) = wire wfd" "reader_ok (wfd\<lparr>ws_msg := x\<rparr>) = reader_ok wfd"
  by (simp_all add: wire_def unread_def reader_ok_def)

lemma control_frame_reads:
  assumes "reader_ok wfd" and "\<not> ws_error wfd" and "wire wfd = masked k p @ rest" and "length k = 4"
    and "length p \<le> 124" and "length (msg_ctrl wfd) = 125"
  obtains b1 w1 wfd' where "next_byte wfd = Ret (Some b1, w1)"
    "control_frame malloc_ok True (ucast b1 AND 0x7F) w1 = Ret (0, word_of_nat (length p), wfd')"
    "(ucast b1 AND 0x7F :: 64 word) = word_of_nat (length p)"
    "reads (wfd\<lparr>msg_ctrl := blit (msg_ctrl wfd) 0 (if p = [] then [] else p @ [0])\<rparr>) rest wfd'"
proof -
  obtain b1 ext where b: "masked k p = b1 # ext @ k @ ws_mask k p"
    and e: "unat (b1 AND 0x7F) = (if length p \<le> 125 then length p else if length p \<le> 0xFFFF then 126 else 127)"
      "ext = (if length p \<le> 125 then [] else if length p \<le> 0xFFFF then be_bytes 2 (length p) else be_bytes 8 (length p))"
    and u: "ucast b1 AND 0x7F = (ucast (b1 AND 0x7F) :: 64 word)"
    by (rule masked_split)
  have "wire wfd = b1 # (ext @ k @ ws_mask k p @ rest)" using assms(3) b by simp
  then obtain w1 where w1: "next_byte wfd = Ret (Some b1, w1)" "reads wfd (ext @ k @ ws_mask k p @ rest) w1"
    by (rule next_byte_reads [OF assms(1)])
  then have r: "reader_ok w1" "wire w1 = ext @ k @ ws_mask k p @ rest" "beside wfd w1" by (simp_all add: reads_def)
  then have n: "\<not> ws_error w1" "msg_ctrl w1 = msg_ctrl wfd" using assms(2) by (simp_all add: beside_def)
  let ?io = "\<lparr>io_buf = Some (msg_ctrl w1), io_length = ucast (b1 AND 0x7F) :: 64 word, io_size = 0, io_idx = 0\<rparr>"
  have sz: "io_size ?io + word_of_nat (length p) \<le> MAX_FRAME_LENGTH"
    using assms(5) by (simp add: word_le_nat_alt unat_word_of_nat)
  obtain w2 where w2: "read_frame malloc_ok True True w1 ?io = read_payload malloc_ok True True k w2
      (?io\<lparr>io_length := word_of_nat (length p), io_size := io_size ?io + word_of_nat (length p)\<rparr>)"
    "reads w1 (ws_mask k p @ rest) w2"
    by (rule read_frame_prefix [OF r(1) n(1) r(2) assms(4) _ e _ sz]) (use assms(5) in simp_all)
  obtain w3 where w3: "read_payload malloc_ok True True k w2
      \<lparr>io_buf = Some (msg_ctrl wfd), io_length = word_of_nat (length p), io_size = word_of_nat (length p), io_idx = 0\<rparr> =
      Ret (0, w3, \<lparr>io_buf = Some (blit (msg_ctrl wfd) 0 (if p = [] then [] else p @ [0])), io_length = word_of_nat (length p),
        io_size = word_of_nat (length p), io_idx = length p\<rparr>)" "reads w2 rest w3"
    using control_payload_reads [of w2 k p rest "msg_ctrl wfd"] w2(2) assms(5,6) by (auto simp: reads_def)
  let ?w = "w3\<lparr>msg_ctrl := blit (msg_ctrl wfd) 0 (if p = [] then [] else p @ [0])\<rparr>"
  have "control_frame malloc_ok True (ucast b1 AND 0x7F) w1 = Ret (0, word_of_nat (length p), ?w)"
    using w2(1) w3(1) n(2) by (simp add: control_frame_def u)
  moreover have "reads (wfd\<lparr>msg_ctrl := blit (msg_ctrl wfd) 0 (if p = [] then [] else p @ [0])\<rparr>) rest ?w"
    using w1(2) w2(2) w3(2) by (simp add: reads_def beside_def)
  moreover have "(ucast b1 AND 0x7F :: 64 word) = word_of_nat (length p)"
  proof -
    have "(ucast b1 AND 0x7F :: 64 word) = word_of_nat (unat (b1 AND 0x7F))" by (simp add: u)
    then show ?thesis using e(1) assms(5) by simp
  qed
  ultimately show thesis using w1(1) that by blast
qed

section \<open>Sending\<close>

text \<open>The network takes at least \<open>n\<close> more bytes.\<close>

definition willing :: "nat \<Rightarrow> send_event list \<Rightarrow> bool" where
  "willing n es \<longleftrightarrow> n \<le> length es \<and> (\<forall>e \<in> set es. \<exists>m > 0. e = STake m)"

lemma send_all_willing:
  "willing (length buf + n) (outgoing sk) \<Longrightarrow>
     \<exists>es. send_all sk buf = Some (0, sk\<lparr>outgoing := es, sent := sent sk @ buf\<rparr>) \<and> willing n es"
proof (induction sk buf rule: send_all.induct)
  case (1 sk buf)
  show ?case
  proof (cases "buf = []")
    case True
    with 1(2) show ?thesis by (intro exI [of _ "outgoing sk"]) (simp add: send_all.simps [of sk "[]"])
  next
    case False
    then obtain m es where m: "outgoing sk = STake m # es" "0 < m" "willing (length buf + n - 1) es"
      using 1(2) by (cases "outgoing sk") (auto simp: willing_def)
    let ?n = "min m (length buf)" and ?sk = "sk\<lparr>outgoing := es, sent := sent sk @ take m buf\<rparr>"
    have s: "send sk buf = Some (Done ?n, ?sk)" using m(1) by (simp add: send.simps)
    have "willing (length (drop ?n buf) + n) (outgoing ?sk)"
      using m(2,3) False by (cases buf) (auto simp: willing_def min_def)
    from "1.IH" [OF False s refl refl this]
    obtain es' where "send_all ?sk (drop ?n buf) = Some (0, ?sk\<lparr>outgoing := es', sent := sent ?sk @ drop ?n buf\<rparr>)"
      "willing n es'" by blast
    moreover have "take m buf @ drop ?n buf = buf" by (cases "m \<le> length buf") simp_all
    ultimately show ?thesis using False s by (auto simp: send_all.simps [of sk buf] append_assoc)
  qed
qed

text \<open>The frame the server sends with an opcode and a short payload.\<close>

definition server_frame :: "byte \<Rightarrow> byte list \<Rightarrow> byte list" where
  "server_frame op p = [0x80 OR op, word_of_nat (length p)] @ p"

lemma ws_sendframe_short:
  assumes "client_sock client = Some sk" and "willing (length (server_frame op p) + n) (outgoing sk)"
    and "length p \<le> 125" and "\<forall>n \<le> 16777217. malloc_ok n"
  obtains es where "ws_sendframe malloc_ok client (p @ extra) (word_of_nat (length p)) op =
      Ret (0, client\<lparr>client_sock := Some (sk\<lparr>outgoing := es, sent := sent sk @ server_frame op p\<rparr>)\<rparr>)"
    "willing n es"
proof -
  have u: "unat (word_of_nat (length p) :: 64 word) = length p" using assms(3) by (intro unat_word_of_nat) simp
  have le: "(word_of_nat (length p) :: 64 word) \<le> 125" using assms(3) u by (simp add: word_le_nat_alt)
  have "length p < 128" using assms(3) by simp
  have lb: "(ucast (word_of_nat (length p) :: 64 word) :: byte) AND 0x7F = word_of_nat (length p)"
    using length_bits(2) [OF \<open>length p < 128\<close>] of_nat_unat [of "word_of_nat (length p) :: 64 word"] u by metis
  have h: "frame_header op (word_of_nat (length p)) = [0x80 OR op, word_of_nat (length p)]"
    using le lb by (simp add: frame_header_def)
  have "malloc_ok (unat (word_of_nat (length [0x80 OR op, word_of_nat (length p) :: byte]) + word_of_nat (length p) + 1 :: 64 word))"
  proof -
    have "unat (word_of_nat (length p + 3) :: 64 word) = length p + 3" using assms(3) by (intro unat_word_of_nat) simp
    then show ?thesis using assms(3,4) by (simp add: ac_simps)
  qed
  then have "ws_response malloc_ok (p @ extra) (word_of_nat (length p)) op = Ret (Some (server_frame op p))"
    by (simp add: ws_response_def h u server_frame_def Let_def)
  moreover obtain es where "send_all sk (server_frame op p) = Some (0, sk\<lparr>outgoing := es, sent := sent sk @ server_frame op p\<rparr>)" "willing n es"
    using send_all_willing [OF assms(2)] by blast
  ultimately show thesis using assms(1) that [of es] by (simp add: ws_sendframe_def client_send_def)
qed

section \<open>One turn of the loop\<close>

text \<open>The state between two frames of a message of type \<open>t\<close> that holds \<open>acc\<close> so far.\<close>

definition between :: "byte option \<Rightarrow> byte list \<Rightarrow> ws_frame_data \<Rightarrow> msg_state \<Rightarrow> bool" where
  "between t acc wfd st \<longleftrightarrow> reader_ok wfd \<and> \<not> ws_error wfd \<and> length (msg_ctrl wfd) = 125 \<and>
     ws_state (ws_client wfd) \<noteq> WS_STATE_CLOSING \<and> frame_type wfd = t \<and> frame_size wfd = word_of_nat (length acc) \<and>
     msg_data st = msg_buf False acc \<and> msg_idx_data st = length acc"

lemma opcode_bits:
  "op \<in> {0, 1, 2, 8, 9, 10} \<Longrightarrow> ((if fin then 0x80 else 0) OR op) AND 0xF = (op :: byte)"
  "op \<in> {0, 1, 2, 8, 9, 10} \<Longrightarrow> ((if fin then 0x80 else 0) OR op) AND 0x70 = (0 :: byte)"
  "op \<in> {0, 1, 2, 8, 9, 10} \<Longrightarrow> (drop_bit 7 ((if fin then 0x80 else 0) OR op :: byte) \<noteq> 0) = fin"
  by auto

lemma pong_id_prefix:
  assumes "length p = 4"
  shows "pong_msg_to_int32 (p @ xs) = pong_msg_to_int32 p"
  using assms by (simp add: pong_msg_to_int32_def nth_append)

definition pong_seen :: "int \<Rightarrow> byte list \<Rightarrow> int \<Rightarrow> int" where
  "pong_seen ping_id p seen =
     (if length p = 4 \<and> 0 \<le> pong_msg_to_int32 p \<and> pong_msg_to_int32 p \<le> ping_id then pong_msg_to_int32 p else seen)"

lemma data_turn:
  assumes b: "between (if op = WS_FR_OP_CONT then Some t else None) acc wfd st"
    and op: "op = WS_FR_OP_CONT \<or> op = t" "t \<in> {WS_FR_OP_TXT, WS_FR_OP_BIN}" and v: "validate \<Longrightarrow> t \<noteq> WS_FR_OP_TXT"
    and stream: "wire wfd = masked k p @ rest" and k: "length k = 4"
    and n: "length acc + length p \<le> 16777216" and malloc: "\<forall>n \<le> 16777217. malloc_ok n"
  obtains wfd' where "frame_turn validate malloc_ok ((if fin then 0x80 else 0) OR op) wfd st =
      Ret (Reaches fin wfd' (st\<lparr>msg_data := msg_buf fin (acc @ p), msg_idx_data := length (acc @ p)\<rparr>))"
    "reads (wfd\<lparr>frame_type := Some t, frame_size := word_of_nat (length (acc @ p))\<rparr>) rest wfd'"
proof -
  let ?w = "if op \<noteq> WS_FR_OP_CONT \<and> \<not> is_control_frame op then wfd\<lparr>frame_type := Some op\<rparr> else wfd"
  have w: "?w = wfd\<lparr>frame_type := Some t\<rparr>"
    using op b by (auto simp: is_control_frame_def between_def)
  obtain b1 ext where bx: "masked k p = b1 # ext @ k @ ws_mask k p"
    and e: "unat (b1 AND 0x7F) = (if length p \<le> 125 then length p else if length p \<le> 0xFFFF then 126 else 127)"
      "ext = (if length p \<le> 125 then [] else if length p \<le> 0xFFFF then be_bytes 2 (length p) else be_bytes 8 (length p))"
    and u: "ucast b1 AND 0x7F = (ucast (b1 AND 0x7F) :: 64 word)"
    by (rule masked_split)
  have "reader_ok ?w" "wire ?w = b1 # (ext @ k @ ws_mask k p @ rest)"
    using b stream bx unfolding w by (simp_all add: between_def)
  then obtain w1 where w1: "next_byte ?w = Ret (Some b1, w1)" "reads ?w (ext @ k @ ws_mask k p @ rest) w1"
    by (rule next_byte_reads)
  then have r: "reader_ok w1" "wire w1 = ext @ k @ ws_mask k p @ rest" "beside ?w w1" by (simp_all add: reads_def)
  have s1: "\<not> ws_error w1" "frame_size w1 = word_of_nat (length acc)" "frame_type w1 = Some t"
    using r(3) b unfolding w by (auto simp: beside_def between_def)
  let ?io = "\<lparr>io_buf = msg_buf False acc, io_length = ucast (b1 AND 0x7F) :: 64 word,
      io_size = word_of_nat (length acc), io_idx = length acc\<rparr>"
  have "unat (word_of_nat (length acc + length p) :: 64 word) = length acc + length p"
    using n by (intro unat_word_of_nat) simp
  then have sz: "io_size ?io + word_of_nat (length p) \<le> MAX_FRAME_LENGTH"
    using n by (simp add: word_le_nat_alt)
  obtain w2 where w2: "read_frame malloc_ok False fin w1 ?io = read_payload malloc_ok False fin k w2
      (?io\<lparr>io_length := word_of_nat (length p), io_size := io_size ?io + word_of_nat (length p)\<rparr>)"
    "reads w1 (ws_mask k p @ rest) w2"
    by (rule read_frame_prefix [OF r(1) s1(1) r(2) k _ e _ sz]) (use n in simp_all)
  obtain w3 where w3: "read_payload malloc_ok False fin k w2
      \<lparr>io_buf = msg_buf False acc, io_length = word_of_nat (length p), io_size = word_of_nat (length (acc @ p)), io_idx = length acc\<rparr> =
      Ret (0, w3, \<lparr>io_buf = msg_buf fin (acc @ p), io_length = word_of_nat (length p),
        io_size = word_of_nat (length (acc @ p)), io_idx = length (acc @ p)\<rparr>)" "reads w2 rest w3"
    using data_payload_reads [OF _ _ n malloc, of w2 k rest fin] w2(2) by (auto simp: reads_def)
  have s3: "frame_type w3 = Some t"
    using w2(2) w3(2) s1(3) by (simp add: reads_def beside_def)
  let ?st = "st\<lparr>msg_data := msg_buf fin (acc @ p), msg_idx_data := length (acc @ p)\<rparr>"
  let ?w3 = "w3\<lparr>frame_size := word_of_nat (length (acc @ p))\<rparr>"
  have d: "data_frame validate malloc_ok fin (ucast b1 AND 0x7F) w1 st = Ret (Reaches fin ?w3 ?st)"
    using w2(1) w3(1) b s1 s3 v op by (auto simp: data_frame_def u between_def Let_def)
  have "op \<in> {0, 1, 2, 8, 9, 10}" using op by auto
  note bits = opcode_bits [OF this]
  have "known_opcode op" "\<not> is_control_frame op" "op = WS_FR_OP_TXT \<or> op = WS_FR_OP_BIN \<or> op = WS_FR_OP_CONT"
    "\<not> (frame_type wfd = None \<and> op = WS_FR_OP_CONT \<or> frame_type wfd \<noteq> None \<and> op \<noteq> WS_FR_OP_CONT)"
    "get_client_state (ws_client wfd) \<noteq> WS_STATE_CLOSING"
    using op b by (auto simp: known_opcode_def is_control_frame_def between_def get_client_state_def)
  then have "frame_turn validate malloc_ok ((if fin then 0x80 else 0) OR op) wfd st = Ret (Reaches fin ?w3 ?st)"
    unfolding frame_turn_def Let_def bits using w1(1) d by (auto simp: byte_int_def)
  moreover have "reads (wfd\<lparr>frame_type := Some t, frame_size := word_of_nat (length (acc @ p))\<rparr>) rest ?w3"
    using w1(2) w2(2) w3(2) unfolding w by (simp add: reads_def beside_def)
  ultimately show thesis by (rule that)
qed

text \<open>What the connection looks like beside the stream: what was sent, and the ids of the pings.\<close>

definition link :: "nat \<Rightarrow> byte list \<Rightarrow> int \<Rightarrow> int \<Rightarrow> ws_connection \<Rightarrow> bool" where
  "link n out seen ping_id client \<longleftrightarrow>
     (\<exists>es. sender client = Some (es, out) \<and> willing n es) \<and> last_pong_id client = seen \<and> current_ping_id client = ping_id"

lemma link_sock: "link n out seen ping_id client \<Longrightarrow> \<exists>sk. client_sock client = Some sk \<and> sent sk = out \<and> willing n (outgoing sk)"
  by (auto simp: link_def sender_def)

lemma beside_link: "beside wfd wfd' \<Longrightarrow> link n out seen ping_id (ws_client wfd') = link n out seen ping_id (ws_client wfd)"
  by (simp add: beside_def link_def)

lemma between_reads:
  assumes "between t acc wfd st" and "reads (wfd\<lparr>msg_ctrl := buf\<rparr>) rest wfd'" and "length buf = 125"
  shows "between t acc wfd' st" and "wire wfd' = rest" and "link n out seen ping_id (ws_client wfd') = link n out seen ping_id (ws_client wfd)"
  using assms beside_link [of "wfd\<lparr>msg_ctrl := buf\<rparr>" wfd'] by (simp_all add: between_def reads_def beside_def)

lemma ctrl_turn:
  assumes b: "between t acc wfd st" and "wire wfd = masked k p @ rest" and "length k = 4" and "length p \<le> 124"
    and op: "op \<in> {WS_FR_OP_CLSE, WS_FR_OP_PING, WS_FR_OP_PONG}"
  obtains len w1 wfd' where "frame_turn validate malloc_ok (0x80 OR op) wfd st =
      (if op = WS_FR_OP_PONG then pong_frame malloc_ok True len w1 st
       else if op = WS_FR_OP_PING then ping_frame malloc_ok True len w1 st else close_frame validate malloc_ok True len w1 st)"
    "control_frame malloc_ok True len w1 = Ret (0, word_of_nat (length p), wfd')"
    "reads (wfd\<lparr>msg_ctrl := msg_ctrl wfd'\<rparr>) rest wfd'" "length (msg_ctrl wfd') = 125"
    "\<exists>extra. msg_ctrl wfd' = p @ extra"
proof -
  let ?buf = "blit (msg_ctrl wfd) 0 (if p = [] then [] else p @ [0])"
  have "reader_ok wfd" "\<not> ws_error wfd" "length (msg_ctrl wfd) = 125" using b by (simp_all add: between_def)
  then obtain b1 w1 wfd' where c: "next_byte wfd = Ret (Some b1, w1)"
    "control_frame malloc_ok True (ucast b1 AND 0x7F) w1 = Ret (0, word_of_nat (length p), wfd')"
    "(ucast b1 AND 0x7F :: 64 word) = word_of_nat (length p)"
    "reads (wfd\<lparr>msg_ctrl := ?buf\<rparr>) rest wfd'"
    using control_frame_reads [of wfd k p rest malloc_ok] assms(2-4) by blast
  have m: "msg_ctrl wfd' = ?buf" using c(4) by (simp add: reads_def beside_def)
  have op': "op \<in> {0, 1, 2, 8, 9, 10}" using op by auto
  note bits = opcode_bits [OF op', of True, unfolded if_True]
  have "\<not> (word_of_nat (length p) :: 64 word) > 125" using assms(4) by (simp add: not_less word_le_nat_alt unat_word_of_nat)
  moreover have "known_opcode op" "is_control_frame op" "op \<noteq> WS_FR_OP_CONT" "op \<noteq> WS_FR_OP_TXT" "op \<noteq> WS_FR_OP_BIN"
    "get_client_state (ws_client wfd) \<noteq> WS_STATE_CLOSING"
    using op b by (auto simp: known_opcode_def is_control_frame_def between_def get_client_state_def)
  ultimately have "frame_turn validate malloc_ok (0x80 OR op) wfd st =
      (if op = WS_FR_OP_PONG then pong_frame malloc_ok True (ucast b1 AND 0x7F) w1 st
       else if op = WS_FR_OP_PING then ping_frame malloc_ok True (ucast b1 AND 0x7F) w1 st
       else close_frame validate malloc_ok True (ucast b1 AND 0x7F) w1 st)"
    unfolding frame_turn_def Let_def bits using c(1,3) by (simp add: byte_int_def)
  moreover have "length ?buf = 125" "\<exists>extra. ?buf = p @ extra"
    using \<open>length (msg_ctrl wfd) = 125\<close> assms(4) by (auto simp: blit_def)
  ultimately show thesis using c(2,4) that m by metis
qed

lemma pong_turn:
  assumes "between t acc wfd st" and "wire wfd = masked k p @ rest" and "length k = 4" and "length p \<le> 124"
    and "link n out seen ping_id (ws_client wfd)"
  obtains wfd' where "frame_turn validate malloc_ok 0x8A wfd st = Ret (Reaches False wfd' st)"
    "between t acc wfd' st" "wire wfd' = rest" "link n out (pong_seen ping_id p seen) ping_id (ws_client wfd')"
proof -
  obtain len w1 w where c: "frame_turn validate malloc_ok (0x80 OR WS_FR_OP_PONG) wfd st =
      (if WS_FR_OP_PONG = WS_FR_OP_PONG then pong_frame malloc_ok True len w1 st
       else if WS_FR_OP_PONG = WS_FR_OP_PING then ping_frame malloc_ok True len w1 st
       else close_frame validate malloc_ok True len w1 st)"
    "control_frame malloc_ok True len w1 = Ret (0, word_of_nat (length p), w)"
    "reads (wfd\<lparr>msg_ctrl := msg_ctrl w\<rparr>) rest w" "length (msg_ctrl w) = 125" "\<exists>extra. msg_ctrl w = p @ extra"
    by (rule ctrl_turn [OF assms(1-4), of WS_FR_OP_PONG]) auto
  note b = between_reads [OF assms(1) c(3,4)]
  have l: "link n out seen ping_id (ws_client w)" using b(3) assms(5) by simp
  then have i: "current_ping_id (ws_client w) = ping_id" by (simp add: link_def)
  have four: "(word_of_nat (length p) = (4 :: 64 word)) = (length p = 4)"
    using assms(4) by (simp add: word_unat_eq_iff unat_word_of_nat)
  have id: "length p = 4 \<Longrightarrow> pong_msg_to_int32 (msg_ctrl w) = pong_msg_to_int32 p"
    using c(5) pong_id_prefix by auto
  let ?w = "if length p = 4 \<and> 0 \<le> pong_msg_to_int32 p \<and> pong_msg_to_int32 p \<le> ping_id
    then w\<lparr>ws_client := (ws_client w)\<lparr>last_pong_id := pong_msg_to_int32 p\<rparr>\<rparr> else w"
  have "frame_turn validate malloc_ok 0x8A wfd st = Ret (Reaches False ?w st)"
    using c(1,2) i id by (auto simp: pong_frame_def four Let_def)
  moreover have "between t acc ?w st" "wire ?w = rest"
    using b(1,2) by (auto simp: between_def reader_ok_def wire_def unread_def split: if_splits)
  moreover have "link n out (pong_seen ping_id p seen) ping_id (ws_client ?w)"
    using l by (auto simp: link_def sender_def pong_seen_def)
  ultimately show thesis by (rule that)
qed

lemma ping_turn:
  assumes "between t acc wfd st" and "wire wfd = masked k p @ rest" and "length k = 4" and "length p \<le> 124"
    and "link (length (server_frame WS_FR_OP_PONG p) + n) out seen ping_id (ws_client wfd)" and "\<forall>n \<le> 16777217. malloc_ok n"
  obtains wfd' where "frame_turn validate malloc_ok 0x89 wfd st = Ret (Reaches False wfd' st)"
    "between t acc wfd' st" "wire wfd' = rest" "link n (out @ server_frame WS_FR_OP_PONG p) seen ping_id (ws_client wfd')"
proof -
  obtain len w1 w where c: "frame_turn validate malloc_ok (0x80 OR WS_FR_OP_PING) wfd st =
      (if WS_FR_OP_PING = WS_FR_OP_PONG then pong_frame malloc_ok True len w1 st
       else if WS_FR_OP_PING = WS_FR_OP_PING then ping_frame malloc_ok True len w1 st
       else close_frame validate malloc_ok True len w1 st)"
    "control_frame malloc_ok True len w1 = Ret (0, word_of_nat (length p), w)"
    "reads (wfd\<lparr>msg_ctrl := msg_ctrl w\<rparr>) rest w" "length (msg_ctrl w) = 125" "\<exists>extra. msg_ctrl w = p @ extra"
    by (rule ctrl_turn [OF assms(1-4), of WS_FR_OP_PING]) auto
  note b = between_reads [OF assms(1) c(3,4)]
  obtain extra where x: "msg_ctrl w = p @ extra" using c(5) by blast
  have l: "link (length (server_frame WS_FR_OP_PONG p) + n) out seen ping_id (ws_client w)" using b(3) assms(5) by simp
  then obtain sk where sk: "client_sock (ws_client w) = Some sk" "sent sk = out"
    "willing (length (server_frame WS_FR_OP_PONG p) + n) (outgoing sk)" using link_sock by blast
  obtain es where s: "ws_sendframe malloc_ok (ws_client w) (p @ extra) (word_of_nat (length p)) WS_FR_OP_PONG =
      Ret (0, (ws_client w)\<lparr>client_sock := Some (sk\<lparr>outgoing := es, sent := sent sk @ server_frame WS_FR_OP_PONG p\<rparr>)\<rparr>)"
    "willing n es"
    using ws_sendframe_short [OF sk(1,3) _ assms(6)] assms(4) by auto
  let ?w = "w\<lparr>ws_client := (ws_client w)\<lparr>client_sock := Some (sk\<lparr>outgoing := es, sent := sent sk @ server_frame WS_FR_OP_PONG p\<rparr>)\<rparr>\<rparr>"
  have "frame_turn validate malloc_ok 0x89 wfd st = Ret (Reaches False ?w st)"
    using c(1,2) s(1) x by (simp add: ping_frame_def do_pong_def send_msg_ctrl_def)
  moreover have "between t acc ?w st" "wire ?w = rest"
    using b(1,2) sk(1) by (auto simp: between_def reader_ok_def wire_def unread_def fd_script_def split: if_splits)
  moreover have "link n (out @ server_frame WS_FR_OP_PONG p) seen ping_id (ws_client ?w)"
    using l s(2) sk(2) by (simp add: link_def sender_def)
  ultimately show thesis by (rule that)
qed

section \<open>A message in fragments, with control frames between them\<close>

text \<open>What a client sends, with the mask and the payload of each frame, and its bytes.\<close>

datatype client_frame =
    Fragment "byte list" "byte list"
  | Ping "byte list" "byte list"
  | Pong "byte list" "byte list"

fun client_wire :: "byte \<Rightarrow> client_frame list \<Rightarrow> byte list" where
  "client_wire op [] = []"
| "client_wire op (Fragment k p # fs) = frame_bytes op (Some k) p @ client_wire WS_FR_OP_CONT fs"
| "client_wire op (Ping k p # fs) = frame_bytes 0x89 (Some k) p @ client_wire op fs"
| "client_wire op (Pong k p # fs) = frame_bytes 0x8A (Some k) p @ client_wire op fs"

fun next_opcode :: "byte \<Rightarrow> client_frame list \<Rightarrow> byte" where
  "next_opcode op [] = op"
| "next_opcode op (Fragment k p # fs) = next_opcode WS_FR_OP_CONT fs"
| "next_opcode op (_ # fs) = next_opcode op fs"

fun client_frame_ok :: "client_frame \<Rightarrow> bool" where
  "client_frame_ok (Fragment k p) \<longleftrightarrow> length k = 4"
| "client_frame_ok (Ping k p) \<longleftrightarrow> length k = 4 \<and> length p \<le> 124"
| "client_frame_ok (Pong k p) \<longleftrightarrow> length k = 4 \<and> length p \<le> 124"

fun body :: "client_frame list \<Rightarrow> byte list" where
  "body [] = []"
| "body (Fragment k p # fs) = p @ body fs"
| "body (_ # fs) = body fs"

fun answers :: "client_frame list \<Rightarrow> byte list" where
  "answers [] = []"
| "answers (Ping k p # fs) = server_frame WS_FR_OP_PONG p @ answers fs"
| "answers (_ # fs) = answers fs"

fun pongs_seen :: "int \<Rightarrow> client_frame list \<Rightarrow> int \<Rightarrow> int" where
  "pongs_seen ping_id [] seen = seen"
| "pongs_seen ping_id (Pong k p # fs) seen = pongs_seen ping_id fs (pong_seen ping_id p seen)"
| "pongs_seen ping_id (_ # fs) seen = pongs_seen ping_id fs seen"

lemma loop_reaches:
  assumes "reader_ok wfd" and "wire wfd = b # stream"
    and "\<And>w. reads wfd stream w \<Longrightarrow> \<exists>w' st'. frame_turn validate malloc_ok b w st = Ret (Reaches False w' st') \<and> P w' st'"
    and "\<And>w' st'. P w' st' \<Longrightarrow> \<not> ws_error w'"
  obtains w' st' where "frame_loop (Suc fuel) validate malloc_ok wfd st = frame_loop fuel validate malloc_ok w' st'" "P w' st'"
proof -
  obtain w where w: "next_byte wfd = Ret (Some b, w)" "reads wfd stream w"
    by (rule next_byte_reads [OF assms(1,2)])
  obtain w' st' where t: "frame_turn validate malloc_ok b w st = Ret (Reaches False w' st')" "P w' st'"
    using assms(3) [OF w(2)] by blast
  from t(2) have "\<not> ws_error w'" by (rule assms(4))
  with w(1) t that show thesis by simp
qed

lemma between_first:
  assumes "between t acc wfd st" and "reads wfd stream w" and "link n out seen ping_id (ws_client wfd)"
  shows "between t acc w st" and "wire w = stream" and "link n out seen ping_id (ws_client w)"
  using assms beside_link [of wfd w] by (auto simp: between_def reads_def beside_def)

lemma fragment_step:
  assumes b: "between (if op = WS_FR_OP_CONT then Some t else None) acc wfd st"
    and op: "op = WS_FR_OP_CONT \<or> op = t" "t \<in> {WS_FR_OP_TXT, WS_FR_OP_BIN}" "validate \<Longrightarrow> t \<noteq> WS_FR_OP_TXT"
    and "wire wfd = frame_bytes op (Some k) p @ rest" and k: "length k = 4"
    and n: "length acc + length p \<le> 16777216" and malloc: "\<forall>n \<le> 16777217. malloc_ok n"
  obtains w' st' where "frame_loop (Suc fuel) validate malloc_ok wfd st = frame_loop fuel validate malloc_ok w' st'"
    "between (Some t) (acc @ p) w' st'" "wire w' = rest"
    "\<And>m out seen ping_id. link m out seen ping_id (ws_client w') = link m out seen ping_id (ws_client wfd)"
proof -
  let ?frame = "\<lambda>w. w\<lparr>frame_type := Some t, frame_size := word_of_nat (length (acc @ p))\<rparr>"
  let ?P = "\<lambda>w' st'. between (Some t) (acc @ p) w' st' \<and> wire w' = rest \<and> beside (?frame wfd) w'"
  have ok: "reader_ok wfd" and s: "wire wfd = op # (masked k p @ rest)"
    using assms(1,5) by (simp_all add: between_def frame_bytes_masked)
  have "\<exists>w' st'. frame_turn validate malloc_ok op w st = Ret (Reaches False w' st') \<and> ?P w' st'"
    if r: "reads wfd (masked k p @ rest) w" for w
  proof -
    have first: "between (if op = WS_FR_OP_CONT then Some t else None) acc w st" "wire w = masked k p @ rest"
      using b r by (auto simp: between_def reads_def beside_def)
    obtain w2 where t: "frame_turn validate malloc_ok ((if False then 0x80 else 0) OR op) w st =
        Ret (Reaches False w2 (st\<lparr>msg_data := msg_buf False (acc @ p), msg_idx_data := length (acc @ p)\<rparr>))"
      "reads (?frame w) rest w2"
      by (rule data_turn [OF first(1) op first(2) k n malloc])
    have "?P w2 (st\<lparr>msg_data := msg_buf False (acc @ p), msg_idx_data := length (acc @ p)\<rparr>)"
      using t(2) first r by (simp add: between_def reads_def beside_def)
    with t(1) show ?thesis by auto
  qed
  then obtain w' st' where "frame_loop (Suc fuel) validate malloc_ok wfd st = frame_loop fuel validate malloc_ok w' st'" "?P w' st'"
    by (rule loop_reaches [OF ok s, where P = ?P and fuel = fuel]) (auto simp: between_def)
  then show thesis using that [of w' st'] beside_link [of "?frame wfd" w'] by simp
qed

lemma ping_step:
  assumes b: "between t acc wfd st" and "wire wfd = frame_bytes 0x89 (Some k) p @ rest" and kp: "length k = 4" "length p \<le> 124"
    and malloc: "\<forall>n \<le> 16777217. malloc_ok n"
    and l: "link (length (server_frame WS_FR_OP_PONG p) + m) out seen ping_id (ws_client wfd)"
  obtains w' st' where "frame_loop (Suc fuel) validate malloc_ok wfd st = frame_loop fuel validate malloc_ok w' st'"
    "between t acc w' st'" "wire w' = rest" "link m (out @ server_frame WS_FR_OP_PONG p) seen ping_id (ws_client w')"
proof -
  let ?P = "\<lambda>w' st'. between t acc w' st' \<and> wire w' = rest \<and> link m (out @ server_frame WS_FR_OP_PONG p) seen ping_id (ws_client w')"
  have ok: "reader_ok wfd" and s: "wire wfd = 0x89 # (masked k p @ rest)"
    using assms(1,2) by (simp_all add: between_def frame_bytes_masked)
  have "\<exists>w' st'. frame_turn validate malloc_ok 0x89 w st = Ret (Reaches False w' st') \<and> ?P w' st'"
    if r: "reads wfd (masked k p @ rest) w" for w
    using between_first [OF b r l] ping_turn [OF _ _ kp _ malloc] by metis
  then show thesis
    by (rule loop_reaches [OF ok s, where P = ?P]) (auto simp: between_def intro: that)
qed

lemma pong_step:
  assumes b: "between t acc wfd st" and "wire wfd = frame_bytes 0x8A (Some k) p @ rest" and kp: "length k = 4" "length p \<le> 124"
    and l: "link m out seen ping_id (ws_client wfd)"
  obtains w' st' where "frame_loop (Suc fuel) validate malloc_ok wfd st = frame_loop fuel validate malloc_ok w' st'"
    "between t acc w' st'" "wire w' = rest" "link m out (pong_seen ping_id p seen) ping_id (ws_client w')"
proof -
  let ?P = "\<lambda>w' st'. between t acc w' st' \<and> wire w' = rest \<and> link m out (pong_seen ping_id p seen) ping_id (ws_client w')"
  have ok: "reader_ok wfd" and s: "wire wfd = 0x8A # (masked k p @ rest)"
    using assms(1,2) by (simp_all add: between_def frame_bytes_masked)
  have "\<exists>w' st'. frame_turn validate malloc_ok 0x8A w st = Ret (Reaches False w' st') \<and> ?P w' st'"
    if r: "reads wfd (masked k p @ rest) w" for w
    using between_first [OF b r l] pong_turn [OF _ _ kp] by metis
  then show thesis
    by (rule loop_reaches [OF ok s, where P = ?P]) (auto simp: between_def intro: that)
qed

lemma frames_loop:
  assumes "\<forall>f \<in> set fs. client_frame_ok f" and t: "t \<in> {WS_FR_OP_TXT, WS_FR_OP_BIN}" "validate \<Longrightarrow> t \<noteq> WS_FR_OP_TXT"
    and malloc: "\<forall>n \<le> 16777217. malloc_ok n"
    and "op = WS_FR_OP_CONT \<or> op = t" and "between (if op = WS_FR_OP_CONT then Some t else None) acc wfd st"
    and "wire wfd = client_wire op fs @ rest" and "length acc + length (body fs) \<le> 16777216"
    and "link (length (answers fs) + n) out seen ping_id (ws_client wfd)"
  shows "\<exists>wfd' st'. frame_loop (length fs + fuel) validate malloc_ok wfd st = frame_loop fuel validate malloc_ok wfd' st' \<and>
    between (if next_opcode op fs = WS_FR_OP_CONT then Some t else None) (acc @ body fs) wfd' st' \<and> wire wfd' = rest \<and>
    link n (out @ answers fs) (pongs_seen ping_id fs seen) ping_id (ws_client wfd')"
  using assms(1,5-)
proof (induction fs arbitrary: op acc wfd st out seen)
  case Nil
  then show ?case by (intro exI [of _ wfd] exI [of _ st]) simp
next
  case (Cons f fs)
  show ?case
  proof (cases f)
    case (Fragment k p)
    obtain w' st' where "frame_loop (Suc (length fs + fuel)) validate malloc_ok wfd st = frame_loop (length fs + fuel) validate malloc_ok w' st'"
      "between (Some t) (acc @ p) w' st'" "wire w' = client_wire WS_FR_OP_CONT fs @ rest"
      "\<And>m out seen ping_id. link m out seen ping_id (ws_client w') = link m out seen ping_id (ws_client wfd)"
      by (rule fragment_step [OF Cons.prems(3,2) t, where k = k and p = p and malloc_ok = malloc_ok and fuel = "length fs + fuel"])
         (use Cons.prems malloc Fragment in auto)
    with Cons.IH [of WS_FR_OP_CONT "acc @ p" w' st' out seen] Cons.prems(1,5,6) Fragment show ?thesis by auto
  next
    case (Ping k p)
    obtain w' st' where "frame_loop (Suc (length fs + fuel)) validate malloc_ok wfd st = frame_loop (length fs + fuel) validate malloc_ok w' st'"
      "between (if op = WS_FR_OP_CONT then Some t else None) acc w' st'" "wire w' = client_wire op fs @ rest"
      "link (length (answers fs) + n) (out @ server_frame WS_FR_OP_PONG p) seen ping_id (ws_client w')"
      by (rule ping_step [OF Cons.prems(3), where k = k and p = p and malloc_ok = malloc_ok and fuel = "length fs + fuel"])
         (use Cons.prems malloc Ping in \<open>auto simp: add.assoc\<close>)
    with Cons.IH [of op acc w' st' "out @ server_frame WS_FR_OP_PONG p" seen] Cons.prems(1,2,5) Ping show ?thesis by auto
  next
    case (Pong k p)
    obtain w' st' where "frame_loop (Suc (length fs + fuel)) validate malloc_ok wfd st = frame_loop (length fs + fuel) validate malloc_ok w' st'"
      "between (if op = WS_FR_OP_CONT then Some t else None) acc w' st'" "wire w' = client_wire op fs @ rest"
      "link (length (answers fs) + n) out (pong_seen ping_id p seen) ping_id (ws_client w')"
      by (rule pong_step [OF Cons.prems(3), where k = k and p = p and fuel = "length fs + fuel"]) (use Cons.prems Pong in auto)
    with Cons.IH [of op acc w' st' out "pong_seen ping_id p seen"] Cons.prems(1,2,5) Pong show ?thesis by auto
  qed
qed

text \<open>The whole message: its frames, and the fragment that ends it.\<close>

definition message_wire :: "byte \<Rightarrow> client_frame list \<Rightarrow> byte list \<Rightarrow> byte list \<Rightarrow> byte list" where
  "message_wire op fs k p = client_wire op fs @ frame_bytes (0x80 OR next_opcode op fs) (Some k) p"

lemma next_opcode_cases: "next_opcode op fs = op \<or> next_opcode op fs = WS_FR_OP_CONT"
  by (induction op fs rule: next_opcode.induct) auto

lemma message_loop:
  assumes "\<forall>f \<in> set fs. client_frame_ok f" and t: "t \<in> {WS_FR_OP_TXT, WS_FR_OP_BIN}" "validate \<Longrightarrow> t \<noteq> WS_FR_OP_TXT"
    and malloc: "\<forall>n \<le> 16777217. malloc_ok n" and b: "between None [] wfd st"
    and "wire wfd = message_wire t fs k p @ rest" and k: "length k = 4" and n: "length (body fs) + length p \<le> 16777216"
    and "link (length (answers fs) + m) out seen ping_id (ws_client wfd)" and "length fs < fuel"
  obtains wfd' where "frame_loop fuel validate malloc_ok wfd st = Ret (0, wfd'\<lparr>ws_msg := msg_buf True (body fs @ p)\<rparr>)"
    "reader_ok wfd'" "wire wfd' = rest" "\<not> ws_error wfd'" "frame_type wfd' = Some t" "length (msg_ctrl wfd') = 125"
    "frame_size wfd' = word_of_nat (length (body fs @ p))" "ws_state (ws_client wfd') \<noteq> WS_STATE_CLOSING"
    "link m (out @ answers fs) (pongs_seen ping_id fs seen) ping_id (ws_client wfd')"
proof -
  let ?op = "next_opcode t fs"
  obtain f1 where f1: "fuel = length fs + Suc f1" using assms(10) less_iff_Suc_add by auto
  have t0: "t \<noteq> WS_FR_OP_CONT" using t by auto
  obtain w st' where w: "frame_loop fuel validate malloc_ok wfd st = frame_loop (Suc f1) validate malloc_ok w st'"
    "between (if ?op = WS_FR_OP_CONT then Some t else None) (body fs) w st'"
    "wire w = frame_bytes (0x80 OR ?op) (Some k) p @ rest"
    "link m (out @ answers fs) (pongs_seen ping_id fs seen) ping_id (ws_client w)"
    using frames_loop [OF assms(1) t malloc, where validate = validate and op = t and acc = "[]" and wfd = wfd and st = st and fuel = "Suc f1" and n = m and
        rest = "frame_bytes (0x80 OR ?op) (Some k) p @ rest" and out = out and seen = seen and ping_id = ping_id]
      b n assms(6,9) t0 f1 by (auto simp: message_wire_def simp del: frame_loop.simps)
  have ok: "reader_ok w" and s: "wire w = (0x80 OR ?op) # (masked k p @ rest)"
    using w(2,3) by (simp_all add: between_def frame_bytes_masked)
  obtain w1 where w1: "next_byte w = Ret (Some (0x80 OR ?op), w1)" "reads w (masked k p @ rest) w1"
    by (rule next_byte_reads [OF ok s])
  note first = between_first [OF w(2) w1(2) w(4)]
  have op: "?op = WS_FR_OP_CONT \<or> ?op = t" using next_opcode_cases [of t fs] by auto
  obtain w2 where w2: "frame_turn validate malloc_ok ((if True then 0x80 else 0) OR ?op) w1 st' =
      Ret (Reaches True w2 (st'\<lparr>msg_data := msg_buf True (body fs @ p), msg_idx_data := length (body fs @ p)\<rparr>))"
    "reads (w1\<lparr>frame_type := Some t, frame_size := word_of_nat (length (body fs @ p))\<rparr>) rest w2"
    by (rule data_turn [OF first(1) op t first(2) k n malloc])
  have r: "reader_ok w2" "wire w2 = rest" "\<not> ws_error w2" "frame_type w2 = Some t" "length (msg_ctrl w2) = 125"
    "frame_size w2 = word_of_nat (length (body fs @ p))" "ws_state (ws_client w2) \<noteq> WS_STATE_CLOSING"
    "link m (out @ answers fs) (pongs_seen ping_id fs seen) ping_id (ws_client w2)"
    using w2(2) first beside_link [of "w1\<lparr>frame_type := Some t, frame_size := word_of_nat (length (body fs @ p))\<rparr>" w2]
    by (simp_all add: between_def reads_def beside_def)
  have "frame_loop fuel validate malloc_ok wfd st = Ret (0, w2\<lparr>ws_msg := msg_buf True (body fs @ p)\<rparr>)"
    using w(1) w1(1) w2(1) r(3) by (simp add: frame_end_def)
  from this r show thesis by (rule that)
qed

section \<open>Messages\<close>

text \<open>A connection between two messages.\<close>

definition ready :: "ws_frame_data \<Rightarrow> bool" where
  "ready wfd \<longleftrightarrow> reader_ok wfd \<and> \<not> ws_error wfd \<and> length (msg_ctrl wfd) = 125 \<and>
     ws_state (ws_client wfd) \<noteq> WS_STATE_CLOSING"

lemma ready_between:
  "ready wfd \<Longrightarrow> between None [] (wfd\<lparr>frame_size := 0, frame_type := None, ws_msg := None\<rparr>)
     \<lparr>msg_data = None, msg_idx_data = 0, utf8_state = 0\<rparr>"
  by (auto simp: ready_def between_def msg_buf_def reader_ok_def)

lemma message_next:
  assumes "\<forall>f \<in> set fs. client_frame_ok f" and t: "t \<in> {WS_FR_OP_TXT, WS_FR_OP_BIN}" "validate \<Longrightarrow> t \<noteq> WS_FR_OP_TXT"
    and malloc: "\<forall>n \<le> 16777217. malloc_ok n" and "ready wfd"
    and "wire wfd = message_wire t fs k p @ rest" and k: "length k = 4" and n: "length (body fs) + length p \<le> 16777216"
    and "link (length (answers fs) + m) out seen ping_id (ws_client wfd)" and "length fs < fuel"
  obtains wfd' where "next_frame fuel validate malloc_ok wfd = Ret (0, wfd')" "ready wfd'" "wire wfd' = rest"
    "ws_msg wfd' = msg_buf True (body fs @ p)" "frame_type wfd' = Some t" "frame_size wfd' = word_of_nat (length (body fs @ p))"
    "link m (out @ answers fs) (pongs_seen ping_id fs seen) ping_id (ws_client wfd')"
proof -
  let ?w = "wfd\<lparr>frame_size := 0, frame_type := None, ws_msg := None\<rparr>"
  have "wire ?w = message_wire t fs k p @ rest" "link (length (answers fs) + m) out seen ping_id (ws_client ?w)"
    using assms(6,9) by simp_all
  then obtain wfd' where w: "frame_loop fuel validate malloc_ok ?w \<lparr>msg_data = None, msg_idx_data = 0, utf8_state = 0\<rparr> =
      Ret (0, wfd'\<lparr>ws_msg := msg_buf True (body fs @ p)\<rparr>)"
    "reader_ok wfd'" "wire wfd' = rest" "\<not> ws_error wfd'" "frame_type wfd' = Some t" "length (msg_ctrl wfd') = 125"
    "frame_size wfd' = word_of_nat (length (body fs @ p))" "ws_state (ws_client wfd') \<noteq> WS_STATE_CLOSING"
    "link m (out @ answers fs) (pongs_seen ping_id fs seen) ping_id (ws_client wfd')"
    using message_loop [OF assms(1) t malloc ready_between [OF assms(5)] _ k n _ assms(10)] by blast
  then show thesis
    using that [of "wfd'\<lparr>ws_msg := msg_buf True (body fs @ p)\<rparr>"] by (simp add: next_frame_def ready_def)
qed

text \<open>
  C11: a message arrives whole.  A client sends a message of at most 16 MiB in any number of masked
  fragments, with pings and pongs of at most 124 bytes between them; the network cuts the bytes
  anywhere.  With as many turns as there are frames, the server's reader returns 0 and hands over exactly
  the unmasked bytes with a NUL behind them (no buffer for an empty message), their number and the type
  of the first fragment; it answers each ping with a pong of the same payload, in order and before the
  message is handed over, records the last pong whose id is one it has sent, and leaves the stream at
  the byte behind the message.
\<close>

theorem ws_message_delivered:
  assumes "\<forall>f \<in> set fs. client_frame_ok f" and "length k = 4" and "length (body fs) + length p \<le> 16777216"
    and "t = WS_FR_OP_TXT \<and> \<not> validate \<or> t = WS_FR_OP_BIN" and "\<forall>n \<le> 16777217. malloc_ok n" and "ready wfd"
    and "wire wfd = message_wire t fs k p @ rest" and "link (length (answers fs)) out seen ping_id (ws_client wfd)"
    and "length fs < fuel"
  shows "\<exists>wfd'. next_frame fuel validate malloc_ok wfd = Ret (0, wfd') \<and>
    ws_msg wfd' = (if body fs @ p = [] then None else Some (body fs @ p @ [0])) \<and>
    frame_size wfd' = word_of_nat (length (body fs @ p)) \<and> frame_type wfd' = Some t \<and> wire wfd' = rest \<and>
    ready wfd' \<and> link 0 (out @ answers fs) (pongs_seen ping_id fs seen) ping_id (ws_client wfd')"
proof -
  have t: "t \<in> {WS_FR_OP_TXT, WS_FR_OP_BIN}" "validate \<Longrightarrow> t \<noteq> WS_FR_OP_TXT" using assms(4) by auto
  have l: "link (length (answers fs) + 0) out seen ping_id (ws_client wfd)" using assms(8) by simp
  obtain wfd' where "next_frame fuel validate malloc_ok wfd = Ret (0, wfd')" "ready wfd'" "wire wfd' = rest"
    "ws_msg wfd' = msg_buf True (body fs @ p)" "frame_type wfd' = Some t" "frame_size wfd' = word_of_nat (length (body fs @ p))"
    "link 0 (out @ answers fs) (pongs_seen ping_id fs seen) ping_id (ws_client wfd')"
    by (rule message_next [OF assms(1) t assms(5-7,2,3) l assms(9)])
  then show ?thesis by (intro exI [of _ wfd']) (simp add: msg_buf_def)
qed

text \<open>"Hi!" in two fragments with a ping between them, cut by the network behind the third byte.\<close>

theorem ws_message_delivered_witness:
  "\<exists>wfd'. next_frame 3 False (\<lambda>n. True)
      \<lparr>frm = replicate 2048 0, ws_msg = None, msg_ctrl = replicate 125 0, cur_pos = 0, amt_read = 0, frame_type = None,
       frame_size = 0, ws_error = False,
       ws_client = \<lparr>client_sock = Some \<lparr>incoming = [RData 0x01 [0x82, 1], RData 2 [3, 4, 0x49, 0x6B, 0x89, 0x81, 0, 0, 0, 0, 7,
           0x80, 0x81, 0, 0, 0, 0, 0x21]], outgoing = replicate 3 (STake 9), sent = []\<rparr>,
         ws_state = 1, close_thrd = False, last_pong_id = -1, current_ping_id = -1\<rparr>\<rparr> = Ret (0, wfd') \<and>
    ws_msg wfd' = Some [0x48, 0x69, 0x21, 0] \<and> link 0 [0x8A, 1, 7] (-1) (-1) (ws_client wfd')"
proof -
  let ?c = "\<lparr>client_sock = Some \<lparr>incoming = [RData 0x01 [0x82, 1], RData 2 [3, 4, 0x49, 0x6B, 0x89, 0x81, 0, 0, 0, 0, 7,
           0x80, 0x81, 0, 0, 0, 0, 0x21]], outgoing = replicate 3 (STake 9), sent = []\<rparr>,
         ws_state = 1, close_thrd = False, last_pong_id = -1, current_ping_id = -1\<rparr>"
  let ?w = "\<lparr>frm = replicate 2048 0, ws_msg = None, msg_ctrl = replicate 125 0, cur_pos = 0, amt_read = 0, frame_type = None,
       frame_size = 0, ws_error = False, ws_client = ?c\<rparr>"
  let ?fs = "[Fragment [1, 2, 3, 4] [0x48, 0x69], Ping [0, 0, 0, 0] [7]]"
  have f: "\<forall>f \<in> set ?fs. client_frame_ok f" by simp
  have w: "wire ?w = message_wire 1 ?fs [0, 0, 0, 0] [0x21] @ []"
    by (simp add: wire_def unread_def fd_script_def message_wire_def frame_bytes_def length_field_def ws_mask_def)
  have l: "link (length (answers ?fs)) [] (-1) (-1) (ws_client ?w)"
    by (simp add: link_def sender_def willing_def server_frame_def)
  have r: "ready ?w" by (simp add: ready_def reader_ok_def)
  show ?thesis
    using ws_message_delivered [OF f _ _ _ _ r w l, where fuel = 3 and validate = False and malloc_ok = "\<lambda>n. True"] by (auto simp: server_frame_def)
qed

end
