(* ===== verification/WsConnection.thy ===== *)
theory WsConnection
  imports WsServer
begin

text \<open>
  A connection of the server from its slot to its end (\<open>wsh264/src/ws.c\<close>): the handshake, the loop
  over the messages with the application's callbacks, the closing from either side with its timeout
  thread, the pings, and the slots that new connections take.  The callbacks are parameters: functions
  of the application's state and the connection they are called with.
\<close>

section \<open>Pings and closing from the server's side\<close>

definition int32_to_ping_msg :: "int \<Rightarrow> byte list" where
  "int32_to_ping_msg ping_id = map (\<lambda>k. word_of_int (ping_id div 2 ^ k)) [24, 16, 8, 0]"

text \<open>\<open>current_ping_id++\<close> on an \<open>int32_t\<close>, and its distance to the last answer.\<close>

definition send_ping_close :: "(nat \<Rightarrow> bool) \<Rightarrow> ws_connection \<Rightarrow> int \<Rightarrow> ws_connection outcome" where
  "send_ping_close malloc_ok cli threshold =
     (if get_client_state cli \<noteq> WS_STATE_OPEN then Ret cli
      else if current_ping_id cli \<ge> 2 ^ 31 - 1 then Fault
      else
        let cli = cli\<lparr>current_ping_id := current_ping_id cli + 1\<rparr>
        in obind (ws_sendframe malloc_ok cli (int32_to_ping_msg (current_ping_id cli)) 4 WS_FR_OP_PING) (\<lambda>(rc, cli).
           Ret (if current_ping_id cli - last_pong_id cli > threshold then close_client cli else cli)))"

fun ping_slots :: "(nat \<Rightarrow> bool) \<Rightarrow> ws_connection list \<Rightarrow> int \<Rightarrow> ws_connection list outcome" where
  "ping_slots malloc_ok [] threshold = Ret []"
| "ping_slots malloc_ok (cli # clis) threshold =
     obind (send_ping_close malloc_ok cli threshold) (\<lambda>cli.
     obind (ping_slots malloc_ok clis threshold) (\<lambda>clis. Ret (cli # clis)))"

text \<open>A ping to one slot, or to all (\<open>NULL\<close>).\<close>

definition ws_ping ::
  "(nat \<Rightarrow> bool) \<Rightarrow> ws_connection list \<Rightarrow> nat option \<Rightarrow> int \<Rightarrow> ws_connection list outcome" where
  "ws_ping malloc_ok clients cli threshold =
     (if threshold \<le> 0 then Ret clients
      else case cli of
        Some i \<Rightarrow> if i < length clients
                  then obind (send_ping_close malloc_ok (clients ! i) threshold) (\<lambda>c. Ret (clients[i := c]))
                  else Ret clients
      | None \<Rightarrow> ping_slots malloc_ok clients threshold)"

definition ws_sendframe_txt ::
  "(nat \<Rightarrow> bool) \<Rightarrow> ws_connection \<Rightarrow> byte list \<Rightarrow> (int \<times> ws_connection) outcome" where
  "ws_sendframe_txt malloc_ok client msg =
     ws_sendframe malloc_ok client (c_str msg) (word_of_nat (length (c_str msg))) WS_FR_OP_TXT"

definition ws_sendframe_bin ::
  "(nat \<Rightarrow> bool) \<Rightarrow> ws_connection \<Rightarrow> byte list \<Rightarrow> 64 word \<Rightarrow> (int \<times> ws_connection) outcome" where
  "ws_sendframe_bin malloc_ok client msg n = ws_sendframe malloc_ok client msg n WS_FR_OP_BIN"

text \<open>The timeout thread: started once, while the connection is open; it closes what is still open.\<close>

definition start_close_timeout :: "ws_connection \<Rightarrow> int \<times> ws_connection" where
  "start_close_timeout client =
     (if ws_state client \<noteq> WS_STATE_OPEN then (0, client)
      else (0, client\<lparr>ws_state := WS_STATE_CLOSING, close_thrd := True\<rparr>))"

definition close_timeout :: "ws_connection \<Rightarrow> ws_connection" where
  "close_timeout conn = (if ws_state conn = WS_STATE_CLOSED then conn else close_client conn)"

definition ws_close_client :: "(nat \<Rightarrow> bool) \<Rightarrow> ws_connection \<Rightarrow> (int \<times> ws_connection) outcome" where
  "ws_close_client malloc_ok client =
     (if client_sock client = None then Ret (-1, client)
      else
        obind (ws_sendframe malloc_ok client [word_of_int (1000 div 256), word_of_int (1000 mod 256)] 2 WS_FR_OP_CLSE) (\<lambda>(rc, client).
        if rc < 0 then Ret (-1, client) else Ret (0, snd (start_close_timeout client))))"

section \<open>The connection\<close>

record 'u ws_events =
  onopen :: "'u \<Rightarrow> ws_connection \<Rightarrow> 'u \<times> ws_connection"
  onclose :: "'u \<Rightarrow> ws_connection \<Rightarrow> 'u \<times> ws_connection"
  onmessage :: "'u \<Rightarrow> ws_connection \<Rightarrow> byte list option \<Rightarrow> 64 word \<Rightarrow> byte \<Rightarrow> 'u \<times> ws_connection"

text \<open>
  The handshake: one \<open>recv\<close> has to bring the whole request.  The three flags are those of
  \<open>get_handshake_response\<close>.
\<close>

definition do_handshake ::
  "bool \<times> bool \<times> bool \<Rightarrow> 'u ws_events \<Rightarrow> 'u \<Rightarrow> ws_frame_data \<Rightarrow> (int \<times> 'u \<times> ws_frame_data) outcome" where
  "do_handshake hs evs u wfd =
     (case recv_fd (client_sock (ws_client wfd)) (MESSAGE_LENGTH - 1) of
        None \<Rightarrow> Timeout
      | Some (r, sk) \<Rightarrow>
          let wfd = wfd\<lparr>ws_client := (ws_client wfd)\<lparr>client_sock := sk\<rparr>\<rparr>
          in case (case r of Done bs \<Rightarrow> Some bs | Eof \<Rightarrow> Some [] | _ \<Rightarrow> None) of
               None \<Rightarrow> Ret (-1, u, wfd)
             | Some bs \<Rightarrow>
                 let wfd = wfd\<lparr>frm := blit (frm wfd) 0 bs\<rparr>
                 in case strstr (frm wfd) (cr_lf @ cr_lf) of
                      None \<Rightarrow> Ret (-1, u, wfd)
                    | Some p \<Rightarrow>
                        let wfd = wfd\<lparr>amt_read := length bs, cur_pos := p + 4\<rparr>
                        in obind (get_handshake_response (fst hs) (fst (snd hs)) (snd (snd hs)) (frm wfd)) (\<lambda>(rc, response).
                           if rc < 0 then Ret (-1, u, wfd)
                           else obind (client_send (ws_client wfd) (the response)) (\<lambda>(rc, client).
                             let wfd = wfd\<lparr>ws_client := client\<rparr>
                             in if rc < 0 then Ret (-1, u, wfd)
                                else let (u, client) = onopen evs u client
                                     in Ret (0, u, wfd\<lparr>ws_client := client\<rparr>))))"

text \<open>
  The loop over the messages: the first \<open>fuel\<close> bounds their number, the second the frames of one.
  A close frame is answered unless the server closed first.
\<close>

primrec message_loop ::
  "nat \<Rightarrow> nat \<Rightarrow> bool \<Rightarrow> (nat \<Rightarrow> bool) \<Rightarrow> 'u ws_events \<Rightarrow> 'u \<Rightarrow> ws_frame_data \<Rightarrow> ('u \<times> ws_frame_data) outcome" where
  "message_loop 0 frames validate malloc_ok evs u wfd = Timeout"
| "message_loop (Suc fuel) frames validate malloc_ok evs u wfd =
     obind (next_frame frames validate malloc_ok wfd) (\<lambda>(rc, wfd).
       if rc < 0 then Ret (u, wfd)
       else if frame_type wfd \<in> {Some WS_FR_OP_TXT, Some WS_FR_OP_BIN} \<and> \<not> ws_error wfd then
         let (u, client) = onmessage evs u (ws_client wfd) (ws_msg wfd) (frame_size wfd) (the (frame_type wfd))
         in message_loop fuel frames validate malloc_ok evs u (wfd\<lparr>ws_client := client\<rparr>)
       else if frame_type wfd = Some WS_FR_OP_CLSE \<and> \<not> ws_error wfd then
         if get_client_state (ws_client wfd) \<noteq> WS_STATE_CLOSING then
           obind (do_close malloc_ok (wfd\<lparr>ws_client := snd (set_client_state (ws_client wfd) WS_STATE_CLOSING)\<rparr>) (-1)) (\<lambda>(rc, wfd).
           Ret (u, wfd))
         else Ret (u, wfd)
       else message_loop fuel frames validate malloc_ok evs u wfd)"

definition closed_connection :: "ws_connection \<Rightarrow> ws_connection" where
  "closed_connection client =
     (let client = (if close_thrd client then close_timeout client else client)
      in if get_client_state client \<noteq> WS_STATE_CLOSED then close_client client else client)"

definition ws_establishconnection ::
  "nat \<Rightarrow> nat \<Rightarrow> bool \<Rightarrow> (nat \<Rightarrow> bool) \<Rightarrow> bool \<times> bool \<times> bool \<Rightarrow> 'u ws_events \<Rightarrow> 'u \<Rightarrow> ws_connection \<Rightarrow>
   ('u \<times> ws_connection) outcome" where
  "ws_establishconnection fuel frames validate malloc_ok hs evs u client =
     obind (do_handshake hs evs u
        \<lparr>frm = replicate MESSAGE_LENGTH 0, ws_msg = None, msg_ctrl = replicate 125 0, cur_pos = 0, amt_read = 0,
         frame_type = Some 0, frame_size = 0, ws_error = False, ws_client = client\<rparr>) (\<lambda>(rc, u, wfd).
     if rc < 0 then Ret (u, closed_connection (ws_client wfd))
     else
       obind (message_loop fuel frames validate malloc_ok evs u
                (wfd\<lparr>ws_client := snd (set_client_state (ws_client wfd) WS_STATE_OPEN)\<rparr>)) (\<lambda>(u, wfd).
       let (u, client) = onclose evs u (ws_client wfd)
       in Ret (u, closed_connection client)))"

section \<open>The slots\<close>

abbreviation (input) MAX_CLIENTS :: nat where "MAX_CLIENTS \<equiv> 8"

text \<open>
  A new connection takes the first free slot; \<open>None\<close> in the second component is the socket closed for
  want of one, and otherwise the slot whose thread is started.
\<close>

fun take_slot :: "sock \<Rightarrow> nat \<Rightarrow> ws_connection list \<Rightarrow> nat option \<times> ws_connection list" where
  "take_slot new_sock i [] = (None, [])"
| "take_slot new_sock i (c # cs) =
     (if client_sock c = None then
        (Some i, \<lparr>client_sock = Some new_sock, ws_state = 0, close_thrd = False, last_pong_id = -1, current_ping_id = -1\<rparr> # cs)
      else let (r, cs) = take_slot new_sock (i + 1) cs in (r, c # cs))"

text \<open>\<open>memset(client_socks, -1, ..)\<close>.\<close>

definition boot_slots :: "ws_connection list" where
  "boot_slots = replicate MAX_CLIENTS
     \<lparr>client_sock = None, ws_state = -1, close_thrd = True, last_pong_id = -1, current_ping_id = -1\<rparr>"

end
