(* ===== verification/WsSession.thy ===== *)
theory WsSession
  imports WsMessage WsConnection
begin

text \<open>
  A whole connection to the server: the handshake, any number of messages, the close handshake, as the
  application and the client see it.
\<close>

section \<open>The request in the receive buffer\<close>

lemma find_sub_skip:
  assumes "pat = c # cs" and "c \<notin> set xs"
  shows "find_sub pat (xs @ ys) = map_option ((+) (length xs)) (find_sub pat ys)"
  using assms(2)
proof (induction xs)
  case (Cons x xs)
  then have "take (length pat) (x # xs @ ys) \<noteq> pat" using assms(1) by auto
  with Cons show ?case by (cases "find_sub pat ys") auto
qed (cases "find_sub pat ys"; simp)

text \<open>The lines of a header, each ended, and the empty line behind them.\<close>

definition header :: "byte list list \<Rightarrow> byte list" where
  "header ls = concat (map (\<lambda>l. l @ cr_lf) ls) @ cr_lf"

lemma header_end:
  assumes "\<forall>l \<in> set ls. plain_line l \<and> l \<noteq> []" and "ls \<noteq> []"
  shows "find_sub (cr_lf @ cr_lf) (header ls @ extra) = Some (length (header ls) - 4) \<and> 4 \<le> length (header ls)"
  using assms
proof (induction ls)
  case (Cons l ls)
  have pat: "cr_lf @ cr_lf = 0x0D # [0x0A, 0x0D, 0x0A]" by (simp add: cr_lf_def)
  have l: "0x0D \<notin> set l" using Cons.prems(1) by (auto simp: plain_line_def)
  have s: "find_sub (cr_lf @ cr_lf) (header (l # ls) @ extra) =
      map_option ((+) (length l)) (find_sub (cr_lf @ cr_lf) (cr_lf @ header ls @ extra))"
    using find_sub_skip [OF pat l, of "cr_lf @ header ls @ extra"] by (simp add: header_def)
  show ?case
  proof (cases ls)
    case Nil
    then have "find_sub (cr_lf @ cr_lf) (cr_lf @ header ls @ extra) = Some 0" by (simp add: header_def cr_lf_def)
    then show ?thesis unfolding s using Nil by (simp add: header_def cr_lf_def)
  next
    case (Cons l1 ls1)
    then obtain x xs where x: "l1 = x # xs" "x \<noteq> 0x0D" using Cons.prems(1) by (cases l1) (auto simp: plain_line_def)
    then obtain zs where zs: "header ls @ extra = x # zs" using Cons by (simp add: header_def)
    have "find_sub (cr_lf @ cr_lf) (cr_lf @ header ls @ extra) =
        map_option ((+) 2) (find_sub (cr_lf @ cr_lf) (header ls @ extra))"
      unfolding zs using x(2) by (cases "find_sub (cr_lf @ cr_lf) (x # zs)") (auto simp: cr_lf_def)
    moreover have "find_sub (cr_lf @ cr_lf) (header ls @ extra) = Some (length (header ls) - 4) \<and> 4 \<le> length (header ls)"
      using Cons.IH Cons.prems Cons by auto
    ultimately show ?thesis unfolding s by (auto simp: header_def cr_lf_def)
  qed
qed simp

section \<open>The handshake\<close>

text \<open>Callbacks that look at what they are given and leave the connection alone.\<close>

definition observer ::
  "('u \<Rightarrow> 'u) \<Rightarrow> ('u \<Rightarrow> byte list option \<Rightarrow> 64 word \<Rightarrow> byte \<Rightarrow> 'u) \<Rightarrow> ('u \<Rightarrow> ws_connection \<Rightarrow> 'u) \<Rightarrow> 'u ws_events" where
  "observer greet got bye =
     \<lparr>onopen = (\<lambda>u c. (greet u, c)), onclose = (\<lambda>u c. (bye u c, c)), onmessage = (\<lambda>u c m n t. (got u m n t, c))\<rparr>"

definition upgrade_header :: "byte list list \<Rightarrow> byte list \<Rightarrow> byte list list \<Rightarrow> byte list" where
  "upgrade_header before key after = header (before @ [WS_HS_REQ @ str '': '' @ key] @ after)"

definition header_ok :: "byte list list \<Rightarrow> byte list \<Rightarrow> byte list list \<Rightarrow> bool" where
  "header_ok before key after \<longleftrightarrow>
     (\<forall>l \<in> set before. plain_line l \<and> l \<noteq> [] \<and> find_sub WS_HS_REQ l = None) \<and>
     (\<forall>l \<in> set after. plain_line l \<and> l \<noteq> []) \<and> length key = 24 \<and> (\<forall>b \<in> set key. b \<notin> {0, 0x0A, 0x0D, 0x20})"

definition upgrade_response :: "byte list \<Rightarrow> byte list" where
  "upgrade_response key = WS_HS_ACCEPT @ accept_of key @ cr_lf @ cr_lf"

lemma header_plain:
  assumes "header_ok before key after"
  shows "\<forall>l \<in> set (before @ [WS_HS_REQ @ str '': '' @ key] @ after). plain_line l \<and> l \<noteq> []"
proof -
  have "\<forall>b \<in> set key. b \<noteq> 0x0D \<and> b \<noteq> 0x0A \<and> b \<noteq> 0" using assms by (simp add: header_ok_def)
  then have "plain_line (WS_HS_REQ @ str '': '' @ key)"
    unfolding plain_line_def set_append ball_Un by (simp add: WS_HS_REQ_def)
  moreover have "WS_HS_REQ @ str '': '' @ key \<noteq> []" by (simp add: WS_HS_REQ_def)
  ultimately show ?thesis using assms unfolding set_append ball_Un by (simp add: header_ok_def)
qed

lemma c_str_header:
  assumes "header_ok before key after"
  shows "c_str (upgrade_header before key after @ xs) = upgrade_header before key after @ c_str xs"
proof -
  have "0 \<notin> set (header ls)" if "\<forall>l \<in> set ls. plain_line l \<and> l \<noteq> []" for ls
    using that by (auto simp: header_def plain_line_def cr_lf_def)
  from this [OF header_plain [OF assms]] show ?thesis
    unfolding c_str_def upgrade_header_def by (subst takeWhile_append2) auto
qed

lemma handshake_done:
  assumes h: "header_ok before key after" and sk: "client_sock client = Some sk"
    and r: "recv (incoming sk) (MESSAGE_LENGTH - 1) = Some (Done (upgrade_header before key after @ extra), es)"
    and w: "willing (length (upgrade_response key) + n) (outgoing sk)"
  obtains wfd where "do_handshake (True, True, True) (observer greet got bye) u
        \<lparr>frm = replicate MESSAGE_LENGTH 0, ws_msg = None, msg_ctrl = replicate 125 0, cur_pos = 0, amt_read = 0,
         frame_type = Some 0, frame_size = 0, ws_error = False, ws_client = client\<rparr> = Ret (0, greet u, wfd)"
    "reader_ok wfd" "\<not> ws_error wfd" "length (msg_ctrl wfd) = 125" "wire wfd = extra @ lwip_bytes es"
    "link n (sent sk @ upgrade_response key) (last_pong_id client) (current_ping_id client) (ws_client wfd)"
    "close_thrd (ws_client wfd) = close_thrd client"
proof -
  let ?head = "upgrade_header before key after"
  let ?bs = "?head @ extra" and ?z = "replicate (MESSAGE_LENGTH - length (?head @ extra)) 0 :: byte list"
  have len: "length ?bs \<le> MESSAGE_LENGTH - 1" using recv_Done [OF r] by simp
  have frm: "blit (replicate MESSAGE_LENGTH 0) 0 ?bs = ?bs @ ?z" by (simp add: blit_def)
  have e: "find_sub (cr_lf @ cr_lf) (?head @ c_str (extra @ ?z)) = Some (length ?head - 4)" "4 \<le> length ?head"
    using header_end [OF header_plain [OF h], of "c_str (extra @ ?z)"] by (simp_all add: upgrade_header_def)
  have c: "c_str (?bs @ ?z) = ?head @ c_str (extra @ ?z)" using c_str_header [OF h, of "extra @ ?z"] by simp
  have s: "strstr (?bs @ ?z) (cr_lf @ cr_lf) = Some (length ?head - 4)" unfolding strstr_def c by (rule e(1))
  have resp: "get_handshake_response True True True (?bs @ ?z) = Ret (0, Some (upgrade_response key))"
    unfolding upgrade_response_def
  proof (rule accept_response)
    show "\<forall>l \<in> set before. plain_line l \<and> find_sub WS_HS_REQ l = None" "length key = 24" "\<forall>b \<in> set key. b \<notin> {0, 0x0A, 0x0D, 0x20}"
      using h by (auto simp: header_ok_def)
    show "c_str (?bs @ ?z) = concat (map (\<lambda>l. l @ cr_lf) before) @ WS_HS_REQ @ str '': '' @ key @ cr_lf @
        (concat (map (\<lambda>l. l @ cr_lf) after) @ cr_lf @ c_str (extra @ ?z))"
      unfolding c by (simp add: upgrade_header_def header_def)
  qed
  obtain out where send: "send_all (sk\<lparr>incoming := es\<rparr>) (upgrade_response key) =
      Some (0, sk\<lparr>incoming := es, outgoing := out, sent := sent sk @ upgrade_response key\<rparr>)" "willing n out"
    using send_all_willing [of "upgrade_response key" n "sk\<lparr>incoming := es\<rparr>"] w by auto
  let ?c = "client\<lparr>client_sock := Some (sk\<lparr>incoming := es, outgoing := out, sent := sent sk @ upgrade_response key\<rparr>)\<rparr>"
  let ?wfd = "\<lparr>frm = ?bs @ ?z, ws_msg = None, msg_ctrl = replicate 125 0, cur_pos = length ?head, amt_read = length ?bs,
     frame_type = Some 0, frame_size = 0, ws_error = False, ws_client = ?c\<rparr>"
  have "do_handshake (True, True, True) (observer greet got bye) u
        \<lparr>frm = replicate MESSAGE_LENGTH 0, ws_msg = None, msg_ctrl = replicate 125 0, cur_pos = 0, amt_read = 0,
         frame_type = Some 0, frame_size = 0, ws_error = False, ws_client = client\<rparr> = Ret (0, greet u, ?wfd)"
    using r sk send(1) frm s resp e(2)
    by (simp add: do_handshake_def recv_fd_def Let_def client_send_def observer_def)
  moreover have "reader_ok ?wfd" "wire ?wfd = extra @ lwip_bytes es"
    using len e(2) by (auto simp: reader_ok_def wire_def unread_def fd_script_def)
  moreover have "link n (sent sk @ upgrade_response key) (last_pong_id client) (current_ping_id client) (ws_client ?wfd)"
    using send(2) by (simp add: link_def sender_def)
  ultimately show thesis by (intro that [of ?wfd]) simp_all
qed

section \<open>The close frame\<close>

lemma close_next:
  assumes "ready wfd" and "wire wfd = frame_bytes 0x88 (Some k) p @ rest" and "length k = 4" and "length p \<le> 124"
    and "link n out seen ping_id (ws_client wfd)"
  obtains wfd' extra where "next_frame (Suc fuel) False malloc_ok wfd = Ret (0, wfd')" "\<not> ws_error wfd'"
    "frame_type wfd' = Some WS_FR_OP_CLSE" "frame_size wfd' = word_of_nat (length p)" "msg_ctrl wfd' = p @ extra"
    "length (msg_ctrl wfd') = 125" "ws_state (ws_client wfd') = ws_state (ws_client wfd)" "link n out seen ping_id (ws_client wfd')"
proof -
  let ?w = "wfd\<lparr>frame_size := 0, frame_type := None, ws_msg := None\<rparr>" and ?st = "\<lparr>msg_data = None, msg_idx_data = 0, utf8_state = 0\<rparr>"
  have b: "between None [] ?w ?st" by (rule ready_between [OF assms(1)])
  have "reader_ok ?w" "wire ?w = 0x88 # (masked k p @ rest)"
    using b assms(2) by (simp_all add: between_def frame_bytes_masked)
  then obtain w where w: "next_byte ?w = Ret (Some 0x88, w)" "reads ?w (masked k p @ rest) w"
    by (rule next_byte_reads)
  have "link n out seen ping_id (ws_client ?w)" using assms(5) by simp
  note first = between_first [OF b w(2) this]
  obtain len w1 v where c: "frame_turn False malloc_ok (0x80 OR WS_FR_OP_CLSE) w ?st =
      (if WS_FR_OP_CLSE = WS_FR_OP_PONG then pong_frame malloc_ok True len w1 ?st
       else if WS_FR_OP_CLSE = WS_FR_OP_PING then ping_frame malloc_ok True len w1 ?st
       else close_frame False malloc_ok True len w1 ?st)"
    "control_frame malloc_ok True len w1 = Ret (0, word_of_nat (length p), v)"
    "reads (w\<lparr>msg_ctrl := msg_ctrl v\<rparr>) rest v" "length (msg_ctrl v) = 125" "\<exists>extra. msg_ctrl v = p @ extra"
    by (rule ctrl_turn [OF first(1,2) assms(3,4), of WS_FR_OP_CLSE]) auto
  obtain extra where x: "msg_ctrl v = p @ extra" using c(5) by blast
  note b = between_reads [OF first(1) c(3,4)]
  let ?v = "v\<lparr>frame_size := word_of_nat (length p), frame_type := Some WS_FR_OP_CLSE\<rparr>"
  have "next_frame (Suc fuel) False malloc_ok wfd = Ret (0, ?v)"
    using w(1) c(1,2) by (simp add: next_frame_def close_frame_def)
  moreover have "ws_state (ws_client v) = ws_state (ws_client wfd)"
    using w(2) c(3) by (simp add: reads_def beside_def)
  moreover have "link n out seen ping_id (ws_client v)" using b(3) first(3) by simp
  ultimately show thesis using b(1) x c(4) by (intro that [of ?v extra]) (simp_all add: between_def)
qed

text \<open>The payload of the answer: the payload received, unless it holds a close code that is not allowed.\<close>

definition close_code_ok :: "int \<Rightarrow> bool" where
  "close_code_ok cc \<longleftrightarrow> 1000 \<le> cc \<and> cc \<le> 1003 \<or> 1007 \<le> cc \<and> cc \<le> 1011 \<or> 3000 \<le> cc \<and> cc \<le> 4999"

definition close_reply :: "byte list \<Rightarrow> byte list" where
  "close_reply p =
     (if p = [] \<or> length p > 2 \<or> length p = 2 \<and> close_code_ok (uint (p ! 0) * 256 + uint (p ! 1)) then p else [0x03, 0xEA])"

lemma do_close_choice:
  assumes "msg_ctrl wfd = p @ extra" and "frame_size wfd = word_of_nat (length p)" and "length p \<le> 124"
  shows "do_close malloc_ok wfd (-1) =
    (if p = [] \<or> length p > 2 \<or> length p = 2 \<and> close_code_ok (uint (p ! 0) * 256 + uint (p ! 1))
     then send_msg_ctrl malloc_ok wfd (frame_size wfd) WS_FR_OP_CLSE
     else send_msg_ctrl malloc_ok (wfd\<lparr>msg_ctrl := (msg_ctrl wfd)[0 := 0x03, 1 := 0xEA]\<rparr>) 2 WS_FR_OP_CLSE)"
proof -
  have n: "(frame_size wfd = 0) = (p = [])" "(frame_size wfd > 2) = (length p > 2)" "(frame_size wfd = 1) = (length p = 1)"
    using assms(2,3) by (auto simp: word_unat_eq_iff word_less_nat_alt unat_word_of_nat)
  have small: "uint b < 256" for b :: byte using uint_lt2p [of b] by simp
  consider "p = []" | b where "p = [b]" | b0 b1 where "p = [b0, b1]" | "length p > 2"
    by (cases p rule: remdups_adj.cases) (auto simp: numeral_2_eq_2 Suc_lessI)
  then show ?thesis
  proof cases
    case 1
    then show ?thesis using n by (simp add: do_close_def)
  next
    case (2 b)
    then have "msg_ctrl wfd ! 0 = b" using assms(1) by simp
    moreover have "uint b < 1000" "uint b < 1007" "uint b < 3000" using small [of b] by linarith+
    ultimately show ?thesis using 2 n by (simp add: do_close_def Let_def)
  next
    case (3 b0 b1)
    then have "msg_ctrl wfd ! 0 = b0" "msg_ctrl wfd ! 1 = b1" using assms(1) by simp_all
    moreover have "((cc < 1000 \<or> cc > 1003) \<and> (cc < 1007 \<or> cc > 1011) \<and> (cc < 3000 \<or> cc > 4999)) = (\<not> close_code_ok cc)" for cc :: int
      unfolding close_code_ok_def by linarith
    ultimately show ?thesis using 3 n by (simp add: do_close_def Let_def)
  next
    case 4
    then show ?thesis using n by (auto simp: do_close_def)
  qed
qed

lemma do_close_replies:
  assumes "msg_ctrl wfd = p @ extra" and "length (msg_ctrl wfd) = 125" and "frame_size wfd = word_of_nat (length p)"
    and "length p \<le> 124" and "link (length (server_frame WS_FR_OP_CLSE (close_reply p)) + n) out seen ping_id (ws_client wfd)"
    and malloc: "\<forall>n \<le> 16777217. malloc_ok n"
  obtains wfd' where "do_close malloc_ok wfd (-1) = Ret (0, wfd')" "ws_state (ws_client wfd') = ws_state (ws_client wfd)"
    "link n (out @ server_frame WS_FR_OP_CLSE (close_reply p)) seen ping_id (ws_client wfd')"
proof -
  let ?r = "close_reply p"
  have ext: "\<exists>xs. (msg_ctrl wfd)[0 := 0x03, 1 := 0xEA] = [0x03, 0xEA] @ xs"
    using assms(2) by (cases "msg_ctrl wfd" rule: remdups_adj.cases) auto
  obtain wfd1 xs where m: "wfd1 = wfd \<or> wfd1 = wfd\<lparr>msg_ctrl := (msg_ctrl wfd)[0 := 0x03, 1 := 0xEA]\<rparr>"
    and r: "msg_ctrl wfd1 = ?r @ xs"
    and d: "do_close malloc_ok wfd (-1) = send_msg_ctrl malloc_ok wfd1 (word_of_nat (length ?r)) WS_FR_OP_CLSE"
  proof -
    show thesis
    proof (cases "p = [] \<or> length p > 2 \<or> length p = 2 \<and> close_code_ok (uint (p ! 0) * 256 + uint (p ! 1))")
      case True
      with do_close_choice [OF assms(1,3,4)] assms(1,3) that [of wfd extra] show thesis by (simp add: close_reply_def)
    next
      case False
      then have "?r = [0x03, 0xEA]" by (auto simp: close_reply_def)
      with do_close_choice [OF assms(1,3,4)] False ext
        that [of "wfd\<lparr>msg_ctrl := (msg_ctrl wfd)[0 := 0x03, 1 := 0xEA]\<rparr>"] show thesis by auto
    qed
  qed
  obtain sk where sk: "client_sock (ws_client wfd) = Some sk" "sent sk = out"
    "willing (length (server_frame WS_FR_OP_CLSE ?r) + n) (outgoing sk)" using link_sock [OF assms(5)] by blast
  have le: "length ?r \<le> 125" using assms(4) by (simp add: close_reply_def)
  have c1: "ws_client wfd1 = ws_client wfd" using m by auto
  obtain es where s: "ws_sendframe malloc_ok (ws_client wfd) (?r @ xs) (word_of_nat (length ?r)) WS_FR_OP_CLSE =
      Ret (0, (ws_client wfd)\<lparr>client_sock := Some (sk\<lparr>outgoing := es, sent := sent sk @ server_frame WS_FR_OP_CLSE ?r\<rparr>)\<rparr>)"
    "willing n es"
    by (rule ws_sendframe_short [OF sk(1,3) le malloc])
  have "do_close malloc_ok wfd (-1) = Ret (0, wfd1\<lparr>ws_client := (ws_client wfd)\<lparr>client_sock :=
      Some (sk\<lparr>outgoing := es, sent := sent sk @ server_frame WS_FR_OP_CLSE ?r\<rparr>)\<rparr>\<rparr>)"
    unfolding d send_msg_ctrl_def r c1 using s(1) by simp
  from this show thesis
    by (rule that) (use assms(5) s(2) sk(2) in \<open>simp_all add: link_def sender_def\<close>)
qed

section \<open>The messages\<close>

text \<open>The type of a message, its frames but the last, the mask and the payload of the last.\<close>

type_synonym client_message = "byte \<times> client_frame list \<times> byte list \<times> byte list"

fun client_message_ok :: "nat \<Rightarrow> client_message \<Rightarrow> bool" where
  "client_message_ok frames (t, fs, k, p) \<longleftrightarrow>
     t \<in> {WS_FR_OP_TXT, WS_FR_OP_BIN} \<and> (\<forall>f \<in> set fs. client_frame_ok f) \<and> length k = 4 \<and>
     length (body fs) + length p \<le> 16777216 \<and> length fs < frames"

fun client_message_bytes :: "client_message \<Rightarrow> byte list" where
  "client_message_bytes (t, fs, k, p) = message_wire t fs k p"

fun message_answers :: "client_message \<Rightarrow> byte list" where
  "message_answers (t, fs, k, p) = answers fs"

fun message_pongs :: "int \<Rightarrow> client_message \<Rightarrow> int \<Rightarrow> int" where
  "message_pongs ping_id (t, fs, k, p) seen = pongs_seen ping_id fs seen"

fun deliver :: "('u \<Rightarrow> byte list option \<Rightarrow> 64 word \<Rightarrow> byte \<Rightarrow> 'u) \<Rightarrow> client_message \<Rightarrow> 'u \<Rightarrow> 'u" where
  "deliver got (t, fs, k, p) u = got u (msg_buf True (body fs @ p)) (word_of_nat (length (body fs @ p))) t"

lemma session_loop:
  assumes malloc: "\<forall>n \<le> 16777217. malloc_ok n" and k: "length k = 4" and p: "length p \<le> 124" and "0 < frames"
    and "\<forall>m \<in> set ms. client_message_ok frames m" and "ready wfd"
    and "wire wfd = concat (map client_message_bytes ms) @ frame_bytes 0x88 (Some k) p @ rest"
    and "link (length (concat (map message_answers ms)) + length (server_frame WS_FR_OP_CLSE (close_reply p))) out seen ping_id (ws_client wfd)"
    and "length ms < fuel"
  shows "\<exists>wfd'. message_loop fuel frames False malloc_ok (observer greet got bye) u wfd = Ret (fold (deliver got) ms u, wfd') \<and>
    link 0 (out @ concat (map message_answers ms) @ server_frame WS_FR_OP_CLSE (close_reply p))
      (fold (message_pongs ping_id) ms seen) ping_id (ws_client wfd') \<and> ws_state (ws_client wfd') = WS_STATE_CLOSING"
  using assms(5-)
proof (induction ms arbitrary: wfd u out seen fuel)
  case Nil
  obtain f fr where f: "fuel = Suc f" "frames = Suc fr" using Nil.prems(5) assms(4) by (metis gr0_implies_Suc list.size(3))
  obtain w extra where w: "next_frame (Suc fr) False malloc_ok wfd = Ret (0, w)" "\<not> ws_error w"
    "frame_type w = Some WS_FR_OP_CLSE" "frame_size w = word_of_nat (length p)" "msg_ctrl w = p @ extra"
    "length (msg_ctrl w) = 125" "ws_state (ws_client w) = ws_state (ws_client wfd)"
    "link (length (server_frame WS_FR_OP_CLSE (close_reply p))) out seen ping_id (ws_client w)"
    by (rule close_next [OF Nil.prems(2) _ k p, of rest]) (use Nil.prems(3,4) in auto)
  have open_: "ws_state (ws_client w) \<noteq> WS_STATE_CLOSING" using w(7) Nil.prems(2) by (simp add: ready_def)
  let ?w = "w\<lparr>ws_client := (ws_client w)\<lparr>ws_state := WS_STATE_CLOSING\<rparr>\<rparr>"
  have l: "link (length (server_frame WS_FR_OP_CLSE (close_reply p)) + 0) out seen ping_id (ws_client ?w)"
    using w(8) by (simp add: link_def sender_def)
  obtain v where v: "do_close malloc_ok ?w (-1) = Ret (0, v)" "ws_state (ws_client v) = ws_state (ws_client ?w)"
    "link 0 (out @ server_frame WS_FR_OP_CLSE (close_reply p)) seen ping_id (ws_client v)"
    by (rule do_close_replies [OF _ _ _ p l malloc]) (use w in simp_all)
  have "message_loop fuel frames False malloc_ok (observer greet got bye) u wfd = Ret (u, v)"
    unfolding f using w(1-3) v(1) open_ by (simp add: get_client_state_def set_client_state_def)
  with v(2,3) show ?case by simp
next
  case (Cons m ms)
  obtain t fs k1 p1 where m: "m = (t, fs, k1, p1)" by (cases m)
  obtain f where f: "fuel = Suc f" using Cons.prems(5) by (cases fuel) auto
  have ok: "t \<in> {WS_FR_OP_TXT, WS_FR_OP_BIN}" "\<forall>f \<in> set fs. client_frame_ok f" "length k1 = 4"
    "length (body fs) + length p1 \<le> 16777216" "length fs < frames"
    using Cons.prems(1) m by auto
  let ?n = "length (concat (map message_answers ms)) + length (server_frame WS_FR_OP_CLSE (close_reply p))"
  have wire: "wire wfd = message_wire t fs k1 p1 @ (concat (map client_message_bytes ms) @ frame_bytes 0x88 (Some k) p @ rest)"
    and l: "link (length (answers fs) + ?n) out seen ping_id (ws_client wfd)"
    using Cons.prems(3,4) m by (simp_all add: add.assoc)
  obtain w where w: "next_frame frames False malloc_ok wfd = Ret (0, w)" "ready w"
    "wire w = concat (map client_message_bytes ms) @ frame_bytes 0x88 (Some k) p @ rest"
    "ws_msg w = msg_buf True (body fs @ p1)" "frame_type w = Some t" "frame_size w = word_of_nat (length (body fs @ p1))"
    "link ?n (out @ answers fs) (pongs_seen ping_id fs seen) ping_id (ws_client w)"
    by (rule message_next [OF ok(2,1) _ malloc Cons.prems(2) wire ok(3,4) l ok(5), of False]) simp
  have "message_loop fuel frames False malloc_ok (observer greet got bye) u wfd =
      message_loop f frames False malloc_ok (observer greet got bye) (deliver got m u) w"
    unfolding f using w(1,2,4-6) ok(1) m by (auto simp: observer_def ready_def)
  moreover have "\<forall>m \<in> set ms. client_message_ok frames m" "length ms < f" using Cons.prems(1,5) f by auto
  ultimately show ?case
    using Cons.IH [of w "out @ answers fs" "pongs_seen ping_id fs seen" f "deliver got m u"] w(2,3,7) m by auto
qed

text \<open>
  C10: a connection, from its first byte to its end.  A client sends an upgrade request whose header
  arrives in one read, any messages of at most 16 MiB in fragments with pings and pongs between them,
  and a close frame; the network cuts the bytes behind the header anywhere, and takes what the server
  sends.  The connection's thread ends with its slot free and closed, without any access outside a
  buffer; the application sees the opening, every message whole and once, in order, and the closing;
  and what was sent by then is the upgrade response, a pong for every ping, in order, and the answer to
  the close frame, which repeats its payload or reports a protocol error.
\<close>

theorem ws_session_served:
  assumes "header_ok before key after" and "client_sock client = Some sk"
    and "recv (incoming sk) (MESSAGE_LENGTH - 1) = Some (Done (upgrade_header before key after @ extra), es)"
    and "extra @ lwip_bytes es = concat (map client_message_bytes ms) @ frame_bytes 0x88 (Some k) p @ rest"
    and "\<forall>m \<in> set ms. client_message_ok frames m" and "length k = 4" and "length p \<le> 124"
    and "answer = upgrade_response key @ concat (map message_answers ms) @ server_frame WS_FR_OP_CLSE (close_reply p)"
    and "willing (length answer) (outgoing sk)" and "\<forall>n \<le> 16777217. malloc_ok n" and "length ms < fuel" and "0 < frames"
  shows "\<exists>c. ws_establishconnection fuel frames False malloc_ok (True, True, True) (observer greet got bye) u client =
      Ret (bye (fold (deliver got) ms (greet u)) c, c\<lparr>client_sock := None, ws_state := WS_STATE_CLOSED\<rparr>) \<and>
    map_option sent (client_sock c) = Some (sent sk @ answer)"
proof -
  let ?n = "length (concat (map message_answers ms)) + length (server_frame WS_FR_OP_CLSE (close_reply p))"
  have "willing (length (upgrade_response key) + ?n) (outgoing sk)" using assms(9) unfolding assms(8) by simp
  then obtain w where w: "do_handshake (True, True, True) (observer greet got bye) u
        \<lparr>frm = replicate MESSAGE_LENGTH 0, ws_msg = None, msg_ctrl = replicate 125 0, cur_pos = 0, amt_read = 0,
         frame_type = Some 0, frame_size = 0, ws_error = False, ws_client = client\<rparr> = Ret (0, greet u, w)"
    "reader_ok w" "\<not> ws_error w" "length (msg_ctrl w) = 125" "wire w = extra @ lwip_bytes es"
    "link ?n (sent sk @ upgrade_response key) (last_pong_id client) (current_ping_id client) (ws_client w)"
    by (rule handshake_done [OF assms(1-3)])
  let ?w = "w\<lparr>ws_client := (ws_client w)\<lparr>ws_state := WS_STATE_OPEN\<rparr>\<rparr>"
  have r: "ready ?w" "wire ?w = concat (map client_message_bytes ms) @ frame_bytes 0x88 (Some k) p @ rest"
    "link ?n (sent sk @ upgrade_response key) (last_pong_id client) (current_ping_id client) (ws_client ?w)"
    using w(2-6) assms(4) by (auto simp: ready_def reader_ok_def wire_def unread_def link_def sender_def split: if_splits)
  obtain v where v: "message_loop fuel frames False malloc_ok (observer greet got bye) (greet u) ?w =
      Ret (fold (deliver got) ms (greet u), v)" "ws_state (ws_client v) = WS_STATE_CLOSING"
    "map_option sent (client_sock (ws_client v)) = Some (sent sk @ answer)"
    using session_loop [OF assms(10,6,7,12,5) r assms(11), of greet got bye "greet u"] unfolding assms(8)
    by (auto simp: link_def sender_def)
  let ?c = "ws_client v"
  have "closed_connection ?c = ?c\<lparr>client_sock := None, ws_state := WS_STATE_CLOSED\<rparr>"
    using v(2) by (simp add: closed_connection_def close_timeout_def close_client_def set_client_state_def get_client_state_def)
  then have "ws_establishconnection fuel frames False malloc_ok (True, True, True) (observer greet got bye) u client =
      Ret (bye (fold (deliver got) ms (greet u)) ?c, ?c\<lparr>client_sock := None, ws_state := WS_STATE_CLOSED\<rparr>)"
    using w(1) v(1) by (simp add: ws_establishconnection_def set_client_state_def) (simp add: observer_def)
  with v(3) show ?thesis by blast
qed

text \<open>
  A client with the key of the protocol's example, a ping and a message of two bytes, and a normal
  close; the application lists what it is given.
\<close>

definition demo_key :: "byte list" where
  "demo_key = str ''dGhlIHNhbXBsZSBub25jZQ==''"

definition demo_header :: "byte list" where
  "demo_header = upgrade_header [str ''GET / HTTP/1.1''] demo_key []"

theorem ws_session_served_witness:
  "\<exists>c. ws_establishconnection 2 2 False (\<lambda>n. True) (True, True, True)
      (observer (\<lambda>u. [[]]) (\<lambda>u m n t. u @ [the m]) (\<lambda>u c. u)) []
      \<lparr>client_sock = Some \<lparr>incoming = [RData (hd demo_header) (tl demo_header), RData 0x89 [0x81, 0, 0, 0, 0, 7], RData 0x82 [0x82, 0, 0, 0, 0, 5, 6, 0x88],
           RData 0x82 [0, 0, 0, 0, 3, 0xE8]], outgoing = replicate 140 (STake 200), sent = []\<rparr>,
         ws_state = 0, close_thrd = False, last_pong_id = -1, current_ping_id = -1\<rparr> =
      Ret ([[], [5, 6, 0]], c\<lparr>client_sock := None, ws_state := WS_STATE_CLOSED\<rparr>) \<and>
    map_option sent (client_sock c) = Some (upgrade_response demo_key @ [0x8A, 1, 7, 0x88, 2, 3, 0xE8])"
proof -
  let ?ms = "[(0x02, [Ping [0, 0, 0, 0] [7]], [0, 0, 0, 0], [5, 6])]"
  let ?es = "[RData 0x89 [0x81, 0, 0, 0, 0, 7], RData 0x82 [0x82, 0, 0, 0, 0, 5, 6, 0x88], RData 0x82 [0, 0, 0, 0, 3, 0xE8]]"
  let ?c = "\<lparr>client_sock = Some \<lparr>incoming = RData (hd demo_header) (tl demo_header) # ?es, outgoing = replicate 140 (STake 200), sent = []\<rparr>,
         ws_state = 0, close_thrd = False, last_pong_id = -1, current_ping_id = -1\<rparr>"
  have ok: "header_ok [str ''GET / HTTP/1.1''] demo_key []"
    by (simp add: header_ok_def plain_line_def WS_HS_REQ_def demo_key_def)
  have l: "0 < length demo_header" "length demo_header \<le> 2047" by (simp_all add: demo_header_def upgrade_header_def header_def demo_key_def cr_lf_def WS_HS_REQ_def)
  then have "demo_header \<noteq> []" by auto
  then have r: "recv (incoming (the (client_sock ?c))) (MESSAGE_LENGTH - 1) = Some (Done (upgrade_header [str ''GET / HTTP/1.1''] demo_key [] @ []), ?es)"
    unfolding demo_header_def [symmetric] using l(2) by simp
  have w: "[] @ lwip_bytes ?es = concat (map client_message_bytes ?ms) @ frame_bytes 0x88 (Some [0, 0, 0, 0]) [3, 0xE8] @ []"
    by (simp add: message_wire_def frame_bytes_def length_field_def ws_mask_def)
  have a: "length (upgrade_response demo_key) = 129"
    by (simp add: upgrade_response_def accept_of_props(1) WS_HS_ACCEPT_def cr_lf_def)
  have reply: "close_reply [3, 0xE8] = [3, 0xE8]" by (simp add: close_reply_def close_code_ok_def)
  have m: "\<forall>m \<in> set ?ms. client_message_ok 2 m" by simp
  show ?thesis
    using ws_session_served [OF ok _ r w m _ _ refl, where client = ?c and malloc_ok = "\<lambda>n. True" and fuel = 2
        and greet = "\<lambda>u. [[]]" and got = "\<lambda>u m n t. u @ [the m]" and bye = "\<lambda>u c. u" and u = "[]"] a
    by (simp add: reply server_frame_def willing_def msg_buf_def)
qed

end
