(* ===== verification/WsOverflow.thy ===== *)
theory WsOverflow
  imports WsMessage
begin

text \<open>
  Two sequences of bytes with which a client makes the server write outside a buffer: a control frame
  of the greatest size allowed, and a continuation frame whose 64-bit length makes the size of the
  message wrap.
\<close>

section \<open>Control frames of 125 bytes\<close>

lemma full_control_frame:
  assumes "reader_ok wfd" and "\<not> ws_error wfd" and "wire wfd = masked k p @ rest" and "length k = 4"
    and "length p = 125" and "length (msg_ctrl wfd) = 125"
  obtains b1 w1 where "next_byte wfd = Ret (Some b1, w1)" "(ucast b1 AND 0x7F :: 64 word) = 125"
    "control_frame malloc_ok True 125 w1 = Fault"
proof -
  obtain b1 ext where b: "masked k p = b1 # ext @ k @ ws_mask k p"
    and e: "unat (b1 AND 0x7F) = (if length p \<le> 125 then length p else if length p \<le> 0xFFFF then 126 else 127)"
      "ext = (if length p \<le> 125 then [] else if length p \<le> 0xFFFF then be_bytes 2 (length p) else be_bytes 8 (length p))"
    and u: "ucast b1 AND 0x7F = (ucast (b1 AND 0x7F) :: 64 word)"
    by (rule masked_split)
  have "wire wfd = b1 # (ext @ k @ ws_mask k p @ rest)" using assms(3) b by simp
  then obtain w1 where w1: "next_byte wfd = Ret (Some b1, w1)" "reads wfd (ext @ k @ ws_mask k p @ rest) w1"
    by (rule next_byte_reads [OF assms(1)])
  then have r: "reader_ok w1" "wire w1 = ext @ k @ ws_mask k p @ rest" and n: "\<not> ws_error w1" "length (msg_ctrl w1) = 125"
    using assms(2,6) by (simp_all add: reads_def beside_def)
  have len: "ucast (b1 AND 0x7F) = (125 :: 64 word)"
  proof -
    have "ucast (b1 AND 0x7F) = (word_of_nat (unat (b1 AND 0x7F)) :: 64 word)" by simp
    then show ?thesis using e(1) assms(5) by simp
  qed
  let ?io = "\<lparr>io_buf = Some (msg_ctrl w1), io_length = ucast (b1 AND 0x7F) :: 64 word, io_size = 0, io_idx = 0\<rparr>"
  obtain w2 where w2: "read_frame malloc_ok True True w1 ?io = read_payload malloc_ok True True k w2
      (?io\<lparr>io_length := word_of_nat (length p), io_size := io_size ?io + word_of_nat (length p)\<rparr>)"
    "reads w1 (ws_mask k p @ rest) w2"
    by (rule read_frame_prefix [OF r(1) n(1) r(2) assms(4) _ e, where fio = ?io]) (use assms(5) in simp_all)
  let ?io2 = "\<lparr>io_buf = Some (msg_ctrl w1), io_length = 125 :: 64 word, io_size = 125, io_idx = 0\<rparr>"
  let ?xs = "blit (msg_ctrl w1) 0 (mask_from 0 k (ws_mask k p))"
  obtain w3 where w3: "copy_payload (length (ws_mask k p)) 0 k w2 ?io2 =
      Ret (0, w3, ?io2\<lparr>io_buf := Some ?xs, io_idx := io_idx ?io2 + length (ws_mask k p)\<rparr>)"
    by (rule copy_payload_reads [of w2 "ws_mask k p" rest ?io2 "msg_ctrl w1" 0 k])
       (use w2(2) n(2) assms(5) in \<open>simp_all add: reads_def\<close>)
  have "length ?xs = 125" using n(2) assms(5) by simp
  have "control_frame malloc_ok True 125 w1 = Fault"
    using w2(1) w3 \<open>length ?xs = 125\<close> assms(5) len by (simp add: control_frame_def read_payload_def grow_def store_def Let_def)
  then show thesis using w1(1) u len that by simp
qed

text \<open>A ping, a pong or a close frame of 125 bytes, which the protocol allows, is stored with a NUL behind it.\<close>

lemma full_control_faults:
  assumes "ready wfd" and "op \<in> {WS_FR_OP_CLSE, WS_FR_OP_PING, WS_FR_OP_PONG}"
    and "wire wfd = frame_bytes (0x80 OR op) (Some k) p @ rest" and "length k = 4" and "length p = 125"
  shows "next_frame (Suc fuel) validate malloc_ok wfd = Fault"
proof -
  let ?w = "wfd\<lparr>frame_size := 0, frame_type := None, ws_msg := None\<rparr>" and ?st = "\<lparr>msg_data = None, msg_idx_data = 0, utf8_state = 0\<rparr>"
  have b: "between None [] ?w ?st" by (rule ready_between [OF assms(1)])
  have "reader_ok ?w" "wire ?w = (0x80 OR op) # (masked k p @ rest)"
    using b assms(3) by (simp_all add: between_def frame_bytes_masked)
  then obtain w where w: "next_byte ?w = Ret (Some (0x80 OR op), w)" "reads ?w (masked k p @ rest) w"
    by (rule next_byte_reads)
  then have "reader_ok w" "\<not> ws_error w" "wire w = masked k p @ rest" "length (msg_ctrl w) = 125"
    using b by (simp_all add: between_def reads_def beside_def)
  then obtain b1 w1 where f: "next_byte w = Ret (Some b1, w1)" "(ucast b1 AND 0x7F :: 64 word) = 125"
    "control_frame malloc_ok True 125 w1 = Fault"
    using full_control_frame [of w k p rest malloc_ok] assms(4,5) by blast
  have op: "op \<in> {0, 1, 2, 8, 9, 10}" using assms(2) by auto
  note bits = opcode_bits [OF op, of True, unfolded if_True]
  have "known_opcode op" "is_control_frame op" "op \<noteq> WS_FR_OP_CONT" "op \<noteq> WS_FR_OP_TXT" "op \<noteq> WS_FR_OP_BIN"
    "get_client_state (ws_client w) \<noteq> WS_STATE_CLOSING"
    using assms(2) b w(2) by (auto simp: known_opcode_def is_control_frame_def between_def get_client_state_def reads_def beside_def)
  then have "frame_turn validate malloc_ok (0x80 OR op) w ?st = Fault"
    unfolding frame_turn_def Let_def bits using f assms(2)
    by (auto simp: byte_int_def pong_frame_def ping_frame_def close_frame_def)
  with w(1) show ?thesis by (simp add: next_frame_def)
qed

section \<open>Lengths that wrap\<close>

lemma minus_length: "d \<le> 2 ^ 64 \<Longrightarrow> - (word_of_nat d :: 64 word) = word_of_nat (2 ^ 64 - d)"
  by (simp add: of_nat_diff)

lemma be_bytes_wrap:
  assumes "0 < d" and "d \<le> 2 ^ 64"
  shows "foldl (\<lambda>n b. push_bit 8 n OR ucast b) 0 (be_bytes 8 (2 ^ 64 - d)) = - (word_of_nat d :: 64 word)"
proof -
  have "(2 ^ 64 - d) mod 256 ^ 8 = 2 ^ 64 - d" using assms by simp
  then show ?thesis unfolding minus_length [OF assms(2)] by (simp only: foldl_bytes be_value_be_bytes)
qed

text \<open>The continuation frame, behind its first byte, in the state after a fragment \<open>p\<close>.\<close>

lemma wrapped_payload:
  assumes "0 < d" and "d < length p" and "length p \<le> 16777216" and "\<forall>n \<le> 16777217. malloc_ok n"
    and "next_byte wfd = Ret (Some b, wfd')"
  shows "read_payload malloc_ok False False k wfd
    \<lparr>io_buf = Some p, io_length = - word_of_nat d, io_size = word_of_nat (length p - d), io_idx = length p\<rparr> = Fault"
proof -
  let ?io = "\<lparr>io_buf = Some p, io_length = - word_of_nat d :: 64 word, io_size = word_of_nat (length p - d), io_idx = length p\<rparr>"
  have d: "d \<le> 2 ^ 64" using assms(2,3) by simp
  have "unat (- word_of_nat d :: 64 word) = 2 ^ 64 - d"
    unfolding minus_length [OF d] by (rule unat_word_of_nat) (use assms(1) in simp)
  also have "2 ^ 64 - d = Suc (2 ^ 64 - d - 1)" using assms(2,3) by simp
  finally obtain m where m: "unat (- word_of_nat d :: 64 word) = Suc m" by blast
  have pos: "0 < (- word_of_nat d :: 64 word)" unfolding word_less_nat_alt m by simp
  have small: "unat (word_of_nat (length p - d) :: 64 word) = length p - d" using assms(3) by (intro unat_word_of_nat) simp
  have g: "grow malloc_ok False (word_of_nat (length p - d)) ?io = Some (?io\<lparr>io_buf := Some (take (length p - d) p)\<rparr>)"
    using assms(3,4) small by (simp add: grow_def realloc_def)
  have len: "io_length ?io = - word_of_nat d" by simp
  have ga: "word_of_nat (io_idx ?io) + io_length ?io + (if False then 1 else 0) = (word_of_nat (length p - d) :: 64 word)"
    using assms(2) by (simp add: of_nat_diff)
  have "(length p < length p - d) = False" by (simp add: not_less)
  then have "copy_payload (Suc m) 0 k wfd (?io\<lparr>io_buf := Some (take (length p - d) p)\<rparr>) = Fault"
    using assms(1,2,5) by (simp add: store_def)
  then show ?thesis
    unfolding read_payload_def Let_def ga g unfolding len m option.case using pos by (simp only: if_True obind.simps)
qed

lemma wrapped_turn:
  assumes "between (Some t) p wfd st" and "p \<noteq> []" and "0 < d" and "d < length p" and "length p \<le> 16777216"
    and "\<forall>n \<le> 16777217. malloc_ok n" and "length k = 4"
    and "wire wfd = 0xFF # (be_bytes 8 (2 ^ 64 - d) @ k @ b # rest)"
  shows "frame_turn validate malloc_ok 0x00 wfd st = Fault"
proof -
  let ?ext = "be_bytes 8 (2 ^ 64 - d)"
  have ok: "reader_ok wfd" using assms(1) by (simp add: between_def)
  obtain w2 where w2: "next_byte wfd = Ret (Some 0xFF, w2)" "reads wfd (?ext @ k @ b # rest) w2"
    by (rule next_byte_reads [OF ok assms(8)])
  obtain w3 where w3: "read_be 8 0 w2 = Ret (- word_of_nat d, w3)" "reads w2 (k @ b # rest) w3"
    using read_be_reads [of w2 ?ext "k @ b # rest" 0] w2(2) be_bytes_wrap [of d] assms(3-5) by (auto simp: reads_def)
  obtain w4 where w4: "read_masks 4 [] w3 = Ret (k, w4)" "reads w3 (b # rest) w4"
    using read_masks_reads [of w3 k "b # rest" "[]"] w3(2) assms(7) by (auto simp: reads_def)
  obtain w5 where w5: "next_byte w4 = Ret (Some b, w5)"
    using next_byte_reads [of w4 b rest] w4(2) by (auto simp: reads_def)
  have s: "beside wfd w4" "beside wfd w2"
    using w2(2) w3(2) w4(2) by (auto simp: reads_def intro: beside_trans)
  then have st: "ws_error w4 = False" "msg_data st = Some p" "msg_idx_data st = length p"
    "frame_size w2 = word_of_nat (length p)" "get_client_state (ws_client wfd) \<noteq> WS_STATE_CLOSING" "frame_type wfd = Some t"
    using assms(1,2) by (auto simp: between_def beside_def msg_buf_def get_client_state_def)
  let ?io = "\<lparr>io_buf = Some p, io_length = 127 :: 64 word, io_size = word_of_nat (length p) :: 64 word, io_idx = length p\<rparr>"
  have size: "(word_of_nat (length p) - word_of_nat d :: 64 word) = word_of_nat (length p - d)"
    using assms(4) by (simp add: of_nat_diff)
  have "\<not> (word_of_nat (length p - d) :: 64 word) > MAX_FRAME_LENGTH"
    using assms(5) by (simp add: not_less word_le_nat_alt unat_word_of_nat)
  then have "read_frame malloc_ok False False w2 ?io = Fault"
    using w3(1) w4(1) st(1) size wrapped_payload [OF assms(3-6) w5, of k] by (simp add: read_frame_def read_length_def Let_def)
  then have "data_frame validate malloc_ok False 127 w2 st = Fault"
    using st(2-4) by (simp add: data_frame_def)
  moreover have "is_control_frame 0 = False" "known_opcode 0" by (simp_all add: is_control_frame_def known_opcode_def)
  ultimately show ?thesis using st(5,6) w2(1) by (simp add: frame_turn_def byte_int_def)
qed

text \<open>
  C39: a length that wraps.  Behind a first fragment of \<open>n\<close> bytes the client sends a continuation frame
  whose 64-bit length field is \<open>2 ^ 64 - d\<close>, for any \<open>d\<close> from 1 to \<open>n - 1\<close>.  The sum of the lengths, a
  \<open>uint64_t\<close>, wraps to \<open>n - d\<close> and passes the check against the maximum; the buffer is shrunk to
  \<open>n - d\<close> bytes, and the first byte of the payload is written \<open>d\<close> bytes behind its end.
\<close>

theorem ws_length_wrap_faults:
  assumes "ready wfd" and "t = WS_FR_OP_TXT \<and> \<not> validate \<or> t = WS_FR_OP_BIN" and "\<forall>n \<le> 16777217. malloc_ok n"
    and "length k = 4" and "length k' = 4" and "0 < d" and "d < length p" and "length p \<le> 16777216"
    and "wire wfd = frame_bytes t (Some k) p @ [0x00, 0xFF] @ be_bytes 8 (2 ^ 64 - d) @ k' @ b # rest" and "2 \<le> fuel"
  shows "next_frame fuel validate malloc_ok wfd = Fault"
proof -
  let ?w = "wfd\<lparr>frame_size := 0, frame_type := None, ws_msg := None\<rparr>" and ?st = "\<lparr>msg_data = None, msg_idx_data = 0, utf8_state = 0\<rparr>"
  obtain f where fuel: "fuel = Suc (Suc f)" using assms(10) by (metis add_2_eq_Suc le_Suc_ex)
  have t: "t \<in> {WS_FR_OP_TXT, WS_FR_OP_BIN}" "t \<noteq> WS_FR_OP_CONT" "validate \<Longrightarrow> t \<noteq> WS_FR_OP_TXT" using assms(2) by auto
  have b: "between (if t = WS_FR_OP_CONT then Some t else None) [] ?w ?st" using ready_between [OF assms(1)] t(2) by simp
  obtain w st where w: "frame_loop (Suc (Suc f)) validate malloc_ok ?w ?st = frame_loop (Suc f) validate malloc_ok w st"
    "between (Some t) ([] @ p) w st" "wire w = 0x00 # (0xFF # (be_bytes 8 (2 ^ 64 - d) @ k' @ b # rest))"
    by (rule fragment_step [OF b _ t(1,3), where k = k and p = p and malloc_ok = malloc_ok and fuel = "Suc f"])
       (use assms in simp_all)
  then have ok: "reader_ok w" by (simp add: between_def)
  obtain w1 where w1: "next_byte w = Ret (Some 0x00, w1)" "reads w (0xFF # (be_bytes 8 (2 ^ 64 - d) @ k' @ b # rest)) w1"
    by (rule next_byte_reads [OF ok w(3)])
  then have b1: "between (Some t) p w1 st" "wire w1 = 0xFF # (be_bytes 8 (2 ^ 64 - d) @ k' @ b # rest)"
    using w(2) by (auto simp: between_def reads_def beside_def)
  have "p \<noteq> []" using assms(7) by auto
  then have "frame_turn validate malloc_ok 0x00 w1 st = Fault"
    by (rule wrapped_turn [OF b1(1) _ assms(6-8,3,5) b1(2)])
  then show ?thesis using w(1) w1(1) fuel by (simp add: next_frame_def)
qed

text \<open>A fragment of three bytes, and a continuation of \<open>2 ^ 64 - 1\<close>.\<close>

theorem ws_length_wrap_faults_witness:
  "next_frame 2 False (\<lambda>n. True)
      \<lparr>frm = replicate 2048 0, ws_msg = None, msg_ctrl = replicate 125 0, cur_pos = 0, amt_read = 0, frame_type = None,
       frame_size = 0, ws_error = False,
       ws_client = \<lparr>client_sock = Some \<lparr>incoming = [RData 0x02 [0x83, 0, 0, 0, 0, 1, 2, 3, 0x00, 0xFF, 255, 255, 255, 255, 255, 255, 255, 255,
           0, 0, 0, 0, 7]], outgoing = [], sent = []\<rparr>,
         ws_state = 1, close_thrd = False, last_pong_id = -1, current_ping_id = -1\<rparr>\<rparr> = Fault"
proof -
  let ?w = "\<lparr>frm = replicate 2048 0, ws_msg = None, msg_ctrl = replicate 125 0, cur_pos = 0, amt_read = 0, frame_type = None,
       frame_size = 0, ws_error = False,
       ws_client = \<lparr>client_sock = Some \<lparr>incoming = [RData 0x02 [0x83, 0, 0, 0, 0, 1, 2, 3, 0x00, 0xFF, 255, 255, 255, 255, 255, 255, 255, 255,
           0, 0, 0, 0, 7]], outgoing = [], sent = []\<rparr>,
         ws_state = 1, close_thrd = False, last_pong_id = -1, current_ping_id = -1\<rparr>\<rparr>"
  have r: "ready ?w" by (simp add: ready_def reader_ok_def)
  have w: "wire ?w = frame_bytes 2 (Some [0, 0, 0, 0]) [1, 2, 3] @ [0x00, 0xFF] @ be_bytes 8 (2 ^ 64 - 1) @ [0, 0, 0, 0] @ 7 # []"
    by (simp add: wire_def unread_def fd_script_def frame_bytes_def length_field_def ws_mask_def be_bytes_def upt_rec)
  show ?thesis
    by (rule ws_length_wrap_faults [OF r _ _ _ _ _ _ _ w]) simp_all
qed

end
