(* ===== verification/MediaServer.thy ===== *)
theory MediaServer
  imports WsMessage CryptoStream Base64 BitrateCtrl
begin

text \<open>
  The media side of the capture server (\<open>wsh264/app/wsh264.cpp\<close>): cutting the H.264 bitstream into NAL units and the audio
  into chunks, sealing each payload, announcing the session's nonce before the first, and cutting a large frame
  into fragments.  The three locks of an application object are left out: a call is modelled as it runs
  when no other thread holds them, and waiting for pending audio packets as \<open>Timeout\<close>.
\<close>

unbundle bit_operations_syntax

section \<open>State and fields\<close>

abbreviation (input) CRYPTO_STREAM_ID_VIDEO :: byte where "CRYPTO_STREAM_ID_VIDEO \<equiv> 1"
abbreviation (input) CRYPTO_STREAM_ID_AUDIO :: byte where "CRYPTO_STREAM_ID_AUDIO \<equiv> 2"
abbreviation (input) VIDEO_FRAGMENT_DATA_SIZE :: nat where "VIDEO_FRAGMENT_DATA_SIZE \<equiv> 16384"
abbreviation (input) VIDEO_FRAGMENT_HEADER_SIZE :: nat where "VIDEO_FRAGMENT_HEADER_SIZE \<equiv> 16"
abbreviation (input) AUDIO_CHUNK_SIZE :: nat where "AUDIO_CHUNK_SIZE \<equiv> 8192"

record app =
  app_state :: u32
  conn :: ws_connection
  session_nonce :: "byte list"
  media_seq :: u32
  audio_chunk_index :: u32
  video_frame_id :: u32
  pending_audio_packets :: u32
  crypto_init_sent :: bool

definition write_u32le :: "byte list \<Rightarrow> nat \<Rightarrow> u32 \<Rightarrow> byte list" where
  "write_u32le out off v =
     out[off := ucast (v AND 0xFF), off + 1 := ucast (drop_bit 8 v AND 0xFF),
         off + 2 := ucast (drop_bit 16 v AND 0xFF), off + 3 := ucast (drop_bit 24 v AND 0xFF)]"

definition write_u16le :: "byte list \<Rightarrow> nat \<Rightarrow> u16 \<Rightarrow> byte list" where
  "write_u16le out off v = out[off := ucast (v AND 0xFF), off + 1 := ucast (drop_bit 8 v AND 0xFF)]"

definition video_payload_flags :: "byte list option \<Rightarrow> nat \<Rightarrow> byte" where
  "video_payload_flags payload len =
     (case payload of
        None \<Rightarrow> 0
      | Some p \<Rightarrow>
          if len = 0 then 0
          else
            let nal_type = p ! 0 AND 0x1F;
                fl = (if nal_type = 5 then 1 else 0)
            in if nal_type = 7 \<or> nal_type = 8 then fl OR 2 else fl)"

definition begin_audio_priority :: "app \<Rightarrow> app" where
  "begin_audio_priority a = a\<lparr>pending_audio_packets := pending_audio_packets a + 1\<rparr>"

definition end_audio_priority :: "app \<Rightarrow> app" where
  "end_audio_priority a =
     (if pending_audio_packets a > 0 then a\<lparr>pending_audio_packets := pending_audio_packets a - 1\<rparr> else a)"

definition wait_for_audio_priority :: "app \<Rightarrow> app outcome" where
  "wait_for_audio_priority a = (if pending_audio_packets a > 0 then Timeout else Ret a)"

section \<open>Sending\<close>

text \<open>A string in quotes.\<close>

definition quoted :: "string \<Rightarrow> byte list" where
  "quoted s = [0x22] @ str s @ [0x22]"

definition crypto_init_json :: "byte list \<Rightarrow> byte list" where
  "crypto_init_json clean =
     str ''{'' @ quoted ''type'' @ str '':'' @ quoted ''crypto_init'' @ str '','' @ quoted ''result'' @ str '':{'' @
     quoted ''status'' @ str '':'' @ quoted ''ok'' @ str '','' @ quoted ''cipher'' @ str '':'' @ quoted ''chacha20'' @ str '','' @
     quoted ''protocol_version'' @ str '':1,'' @ quoted ''key_id'' @ str '':'' @ quoted ''carplay-poc-static-v1'' @ str '','' @
     quoted ''session_nonce'' @ str '':'' @ [0x22] @ clean @ [0x22] @ str ''}}''"

text \<open>\<open>snprintf\<close> writes at most 255 characters and a NUL; neither the text nor \<open>clean\<close> contains a NUL.\<close>

definition send_crypto_init_locked :: "(nat \<Rightarrow> bool) \<Rightarrow> app \<Rightarrow> (int \<times> app) outcome" where
  "send_crypto_init_locked malloc_ok a =
     (if crypto_init_sent a then Ret (0, a)
      else
        (case base64_encode 64 (malloc_ok (base64_olen 64 CRYPTO_STREAM_NONCE_SIZE)) (session_nonce a) of
           None \<Rightarrow> Ret (-1, a)
         | Some encoded \<Rightarrow>
             let encoded_len = length encoded - 1 in
             if \<not> malloc_ok (encoded_len + 1) then Ret (-1, a)
             else
               let clean = filter (\<lambda>b. b \<noteq> 0x0A \<and> b \<noteq> 0x0D) (take encoded_len encoded);
                   json = take 255 (crypto_init_json clean) in
               obind (ws_sendframe malloc_ok (conn a) json (word_of_nat (length json)) WS_FR_OP_TXT) (\<lambda>(rc, cli).
                 Ret (if rc < 0 then (-1, a\<lparr>conn := cli\<rparr>) else (0, a\<lparr>conn := cli, crypto_init_sent := True\<rparr>)))))"

definition send_encrypted_media ::
  "cipher \<Rightarrow> (nat \<Rightarrow> bool) \<Rightarrow> app option \<Rightarrow> byte \<Rightarrow> byte list option \<Rightarrow> nat \<Rightarrow> (int \<times> app option) outcome" where
  "send_encrypted_media chacha20_xor malloc_ok app sid payload len =
     (case (app, payload) of
        (Some a, Some p) \<Rightarrow>
          obind (if sid = CRYPTO_STREAM_ID_AUDIO then Ret (begin_audio_priority a) else wait_for_audio_priority a) (\<lambda>a.
          let finish = (\<lambda>a. if sid = CRYPTO_STREAM_ID_AUDIO then end_audio_priority a else a);
              packet_size = crypto_stream_packet_size len in
          if \<not> malloc_ok packet_size then Ret (-1, Some (finish a))
          else
            obind (send_crypto_init_locked malloc_ok a) (\<lambda>(rc, a).
            let seq = media_seq a;
                a = a\<lparr>media_seq := media_seq a + 1\<rparr> in
            if rc \<noteq> 0 then Ret (-1, Some (finish a))
            else
              (case crypto_stream_encrypt_packet chacha20_xor (Some (replicate packet_size 0)) packet_size sid seq
                      (Some (session_nonce a)) (Some p) len of
                 (encoded_size, packet) \<Rightarrow>
                   if encoded_size < 0 then Ret (-1, Some (finish a))
                   else
                     obind (ws_sendframe malloc_ok (conn a) (the packet) (word_of_int encoded_size) WS_FR_OP_BIN) (\<lambda>(rc, cli).
                     Ret (rc, Some (finish (a\<lparr>conn := cli\<rparr>)))))))
      | _ \<Rightarrow> Ret (-1, app))"

text \<open>The buffer of a fragment, which is allocated and written in full.\<close>

definition fragment_packet :: "byte \<Rightarrow> u16 \<Rightarrow> u16 \<Rightarrow> u32 \<Rightarrow> byte list \<Rightarrow> byte list" where
  "fragment_packet fl frag_index count frame_id data =
     (let b = replicate (VIDEO_FRAGMENT_HEADER_SIZE + length data) 0;
          b = blit b 0 (str ''VFG1'');
          b = b[4 := fl, 5 := 0];
          b = write_u16le b 6 frag_index;
          b = write_u16le b 8 count;
          b = write_u16le b 10 0;
          b = write_u32le b 12 frame_id
      in blit b VIDEO_FRAGMENT_HEADER_SIZE data)"

text \<open>The loop over the fragments; the application's object comes back from \<open>send_encrypted_media\<close> whenever it was given.\<close>

function fragment_loop ::
  "cipher \<Rightarrow> (nat \<Rightarrow> bool) \<Rightarrow> byte \<Rightarrow> u16 \<Rightarrow> u32 \<Rightarrow> byte list \<Rightarrow> nat \<Rightarrow> u16 \<Rightarrow> nat \<Rightarrow> app \<Rightarrow> (int \<times> app) outcome" where
  "fragment_loop c malloc_ok fl count frame_id payload len frag_index offset a =
     (if frag_index < count then
        let frag_len = len - offset;
            frag_len = (if frag_len > VIDEO_FRAGMENT_DATA_SIZE then VIDEO_FRAGMENT_DATA_SIZE else frag_len) in
        if \<not> malloc_ok (VIDEO_FRAGMENT_HEADER_SIZE + frag_len) then Ret (-1, a)
        else if length payload < offset + frag_len then Fault
        else
          obind (send_encrypted_media c malloc_ok (Some a) CRYPTO_STREAM_ID_VIDEO
                   (Some (fragment_packet fl frag_index count frame_id (slice offset frag_len payload)))
                   (VIDEO_FRAGMENT_HEADER_SIZE + frag_len)) (\<lambda>(rc, app).
            if rc < 0 then Ret (rc, the app)
            else fragment_loop c malloc_ok fl count frame_id payload len (frag_index + 1) (offset + frag_len) (the app))
      else Ret (0, a))"
  by pat_completeness auto
termination
proof (relation "measure (\<lambda>(c, malloc_ok, fl, count, frame_id, payload, len, frag_index, offset, a). unat count - unat frag_index)")
  fix count frag_index :: u16
  assume "frag_index < count"
  then have "unat frag_index < unat count" "unat count < 65536"
    using unsigned_less [of count] by (simp_all add: word_less_nat_alt)
  then have "unat (frag_index + 1) = unat frag_index + 1" by (simp add: unat_word_ariths)
  with \<open>frag_index < count\<close> have "unat count - unat (frag_index + 1) < unat count - unat frag_index"
    by (simp add: word_less_nat_alt)
  then show "((c, malloc_ok, fl, count, frame_id, payload, len, frag_index + 1, offset', a'),
       c, malloc_ok, fl, count, frame_id, payload, len, frag_index, offset, a) \<in>
     measure (\<lambda>(c, malloc_ok, fl, count, frame_id, payload, len, frag_index, offset, a). unat count - unat frag_index)"
    for c malloc_ok fl frame_id payload len offset a offset' a' by simp
qed simp_all

declare fragment_loop.simps [simp del]

definition send_video_media ::
  "cipher \<Rightarrow> (nat \<Rightarrow> bool) \<Rightarrow> app \<Rightarrow> byte list option \<Rightarrow> nat \<Rightarrow> (int \<times> app) outcome" where
  "send_video_media c malloc_ok a payload len =
     (case payload of
        None \<Rightarrow> Ret (-1, a)
      | Some p \<Rightarrow>
          if len = 0 then Ret (-1, a)
          else if len \<le> VIDEO_FRAGMENT_DATA_SIZE then
            obind (send_encrypted_media c malloc_ok (Some a) CRYPTO_STREAM_ID_VIDEO (Some p) len) (\<lambda>(rc, app).
            Ret (rc, the app))
          else
            let fl = video_payload_flags (Some p) len;
                count = word_of_nat ((len + VIDEO_FRAGMENT_DATA_SIZE - 1) div VIDEO_FRAGMENT_DATA_SIZE);
                frame_id = video_frame_id a
            in fragment_loop c malloc_ok fl count frame_id p len 0 0 (a\<lparr>video_frame_id := video_frame_id a + 1\<rparr>))"

section \<open>Cutting the bitstreams\<close>

text \<open>
  \<open>check_size\<close> and \<open>next_chunk\<close> get a pointer into the bitstream and a size that is at most what is left; the
  model has the bitstream and the offset.  The tests look back as far as three bytes before \<open>start + i\<close>.
\<close>

fun check_size_loop :: "byte list \<Rightarrow> nat \<Rightarrow> nat \<Rightarrow> nat \<Rightarrow> nat \<Rightarrow> nat outcome" where
  "check_size_loop bs start n i 0 = Ret n"
| "check_size_loop bs start n i (Suc k) =
     obind (read_at bs (start + i)) (\<lambda>b0.
     if b0 \<noteq> 1 then check_size_loop bs start n (i + 1) k
     else if start + i < 1 then Fault
     else obind (read_at bs (start + i - 1)) (\<lambda>b1.
     if b1 \<noteq> 0 then check_size_loop bs start n (i + 1) k
     else if start + i < 2 then Fault
     else obind (read_at bs (start + i - 2)) (\<lambda>b2.
     if b2 \<noteq> 0 then check_size_loop bs start n (i + 1) k
     else if i \<ge> 3 \<and> bs ! (start + i - 3) = 0 then Ret (i - 3)
     else Ret ((2 ^ 64 + i - 2) mod 2 ^ 64))))"

definition check_size :: "byte list \<Rightarrow> nat \<Rightarrow> nat \<Rightarrow> nat outcome" where
  "check_size bs start n = check_size_loop bs start n 0 (nat (c_int n))"

text \<open>The chunk as offset and size, \<open>None\<close> when no start code is found.\<close>

fun next_chunk_loop :: "byte list \<Rightarrow> nat \<Rightarrow> nat \<Rightarrow> nat \<Rightarrow> nat \<Rightarrow> (nat \<times> nat) option outcome" where
  "next_chunk_loop bs start n i 0 = Ret None"
| "next_chunk_loop bs start n i (Suc k) =
     obind (read_at bs (start + i)) (\<lambda>b0.
     if b0 = 1 \<and> bs ! (start + i - 1) = 0 \<and> bs ! (start + i - 2) = 0 then
       (let i = i + 1 in obind (check_size bs (start + i) (n - i)) (\<lambda>m. Ret (Some (start + i, m))))
     else next_chunk_loop bs start n (i + 1) k)"

definition next_chunk :: "byte list \<Rightarrow> nat \<Rightarrow> nat \<Rightarrow> (nat \<times> nat) option outcome" where
  "next_chunk bs start n = next_chunk_loop bs start n 2 (nat (c_int n) - 2)"

text \<open>
  One turn of \<open>h264_streaming\<close> at an offset of the bitstream with so many bytes left: at the end it starts over.
  The thread runs its turns until another thread asks it to stop; the number of turns until then is \<open>k\<close>.
\<close>

definition h264_turn ::
  "cipher \<Rightarrow> (nat \<Rightarrow> bool) \<Rightarrow> byte list \<Rightarrow> nat \<times> nat \<times> bitrate_ctrl \<times> app \<Rightarrow> (nat \<times> nat \<times> bitrate_ctrl \<times> app) outcome" where
  "h264_turn c malloc_ok bs s =
     (case s of (start, n, ctrl, a) \<Rightarrow>
        obind (next_chunk bs start n) (\<lambda>chunk.
        case chunk of
          None \<Rightarrow> Ret (0, length bs, ctrl, a)
        | Some (at, m) \<Rightarrow>
            obind (bitrate_ctrl_update_frame ctrl (drop at bs) (word_of_nat m)) (\<lambda>(qp, ctrl).
            obind (send_video_media c malloc_ok a (Some (drop at bs)) m) (\<lambda>(rc, a).
            Ret (at + m, n - ((at - start) + m), ctrl, a)))))"

abbreviation (input) STATE_CLOSING_VIDEO :: u32 where "STATE_CLOSING_VIDEO \<equiv> 1"
abbreviation (input) STATE_STREAMING_VIDEO :: u32 where "STATE_STREAMING_VIDEO \<equiv> 2"
abbreviation (input) STATE_CLOSING_AUDIO :: u32 where "STATE_CLOSING_AUDIO \<equiv> 8"
abbreviation (input) STATE_STREAMING_AUDIO :: u32 where "STATE_STREAMING_AUDIO \<equiv> 16"

primrec h264_streaming ::
  "cipher \<Rightarrow> (nat \<Rightarrow> bool) \<Rightarrow> byte list \<Rightarrow> nat \<Rightarrow> nat \<times> nat \<times> bitrate_ctrl \<times> app \<Rightarrow> (bitrate_ctrl \<times> app) outcome" where
  "h264_streaming c malloc_ok bs 0 s =
     (case s of (start, n, ctrl, a) \<Rightarrow>
        Ret (ctrl, a\<lparr>app_state := app_state a AND NOT STATE_CLOSING_VIDEO AND NOT STATE_STREAMING_VIDEO\<rparr>))"
| "h264_streaming c malloc_ok bs (Suc k) s =
     obind (h264_turn c malloc_ok bs s) (h264_streaming c malloc_ok bs k)"

text \<open>
  A turn of \<open>audio_streaming\<close>, whose result is ignored by the loop; \<open>None\<close> ends the loop when the packet cannot be allocated.
\<close>

definition audio_turn ::
  "cipher \<Rightarrow> (nat \<Rightarrow> bool) \<Rightarrow> byte list \<Rightarrow> nat \<times> app \<Rightarrow> (nat \<times> app) option outcome" where
  "audio_turn c malloc_ok bs s =
     (case s of (cursor, a) \<Rightarrow>
        let chunk_size = (if length bs < AUDIO_CHUNK_SIZE then length bs else AUDIO_CHUNK_SIZE);
            cursor = (if cursor + chunk_size > length bs then 0 else cursor);
            packet_size = 12 + chunk_size in
        if \<not> malloc_ok packet_size then Ret None
        else
          let b = replicate packet_size 0;
              b = blit b 0 (str ''AUD0'');
              b = write_u32le b 4 (audio_chunk_index a);
              b = write_u32le b 8 (word_of_nat cursor);
              b = blit b 12 (slice cursor chunk_size bs);
              a = a\<lparr>audio_chunk_index := audio_chunk_index a + 1\<rparr> in
          obind (send_encrypted_media c malloc_ok (Some a) CRYPTO_STREAM_ID_AUDIO (Some b) packet_size) (\<lambda>(rc, app).
          Ret (Some (cursor + chunk_size, the app))))"

primrec audio_streaming ::
  "cipher \<Rightarrow> (nat \<Rightarrow> bool) \<Rightarrow> byte list \<Rightarrow> nat \<Rightarrow> nat \<times> app \<Rightarrow> app outcome" where
  "audio_streaming c malloc_ok bs 0 s =
     Ret ((snd s)\<lparr>app_state := app_state (snd s) AND NOT STATE_STREAMING_AUDIO AND NOT STATE_CLOSING_AUDIO\<rparr>)"
| "audio_streaming c malloc_ok bs (Suc k) s =
     (if bs = [] then Ret (snd s)
      else
        obind (audio_turn c malloc_ok bs s) (\<lambda>r.
        case r of
          None \<Rightarrow> Ret ((snd s)\<lparr>app_state := app_state (snd s) AND NOT STATE_STREAMING_AUDIO AND NOT STATE_CLOSING_AUDIO\<rparr>)
        | Some s \<Rightarrow> audio_streaming c malloc_ok bs k s))"

section \<open>A frame on the wire\<close>

lemma byte_of_drop: "(ucast (drop_bit (8 * j) w AND 255) :: byte) = word_of_nat (unat (w :: 64 word) div 256 ^ j)"
proof -
  have lt: "unat w < 2 ^ 64" using unsigned_less [of w] by simp
  have m: "(255 :: 64 word) = mask 8" by (simp add: mask_eq_decr_exp)
  have "(ucast (drop_bit (8 * j) w AND 255) :: byte) = ucast (drop_bit (8 * j) w)"
    unfolding m by (rule bit_word_eqI) (auto simp: bit_simps)
  also have "\<dots> = word_of_nat (unat (drop_bit (8 * j) w))" by (rule of_nat_unat [symmetric])
  also have "unat (drop_bit (8 * j) w) = unat w div 256 ^ j"
    using lt
    unfolding unsigned_drop_bit_eq by (simp add: drop_bit_eq_div power_mult take_bit_eq_mod)
  finally show ?thesis .
qed

text \<open>\<open>ws_sendframe\<close> puts the frame on the wire that the receivers of both gateways read.\<close>

lemma frame_header_eq:
  assumes "length p < 2 ^ 63"
  shows "frame_header op (word_of_nat (length p)) @ p = frame_bytes (0x80 OR op) None p"
proof -
  define n where "n = (word_of_nat (length p) :: 64 word)"
  have u: "unat n = length p" using assms by (simp add: n_def unat_word_of_nat)
  have cmp: "n \<le> 125 \<longleftrightarrow> length p \<le> 125" "n \<le> 65535 \<longleftrightarrow> length p \<le> 65535"
    using u by (simp_all add: word_le_nat_alt)
  have low: "(ucast (n AND 255) :: byte) = word_of_nat (unat n)" using byte_of_drop [of 0 n] by simp
  have small: "(ucast n :: byte) AND 0x7F = word_of_nat (length p)" if l: "length p \<le> 125"
  proof -
    have "length p < 128" using l by simp
    from length_bits(2) [OF this] of_nat_unat [of n] u show ?thesis by metis
  qed
  have "frame_header op n = (0x80 OR op) # length_field 0 (length p)"
    using small low byte_of_drop [of 1 n] byte_of_drop [of 2 n] byte_of_drop [of 3 n] byte_of_drop [of 4 n]
      byte_of_drop [of 5 n] byte_of_drop [of 6 n] byte_of_drop [of 7 n]
    unfolding u by (simp add: frame_header_def length_field_def cmp be_bytes_def upt_rec)
  then show ?thesis by (simp add: frame_bytes_def n_def)
qed

lemma ws_sendframe_wire:
  assumes "client_sock client = Some sk" and "willing (length (frame_bytes (0x80 OR op) None p) + n) (outgoing sk)"
    and "length p < 2 ^ 31" and "\<forall>n. malloc_ok n"
  obtains es where "ws_sendframe malloc_ok client p (word_of_nat (length p)) op =
      Ret (0, client\<lparr>client_sock := Some (sk\<lparr>outgoing := es, sent := sent sk @ frame_bytes (0x80 OR op) None p\<rparr>)\<rparr>)"
    "willing n es"
proof -
  have u: "unat (word_of_nat (length p) :: 64 word) = length p" using assms(3) by (intro unat_word_of_nat) simp
  have "frame_header op (word_of_nat (length p)) @ p = frame_bytes (0x80 OR op) None p"
    using assms(3) by (intro frame_header_eq) simp
  then have "ws_response malloc_ok p (word_of_nat (length p)) op = Ret (Some (frame_bytes (0x80 OR op) None p))"
    using assms(4) by (simp add: ws_response_def Let_def u)
  moreover obtain es where "send_all sk (frame_bytes (0x80 OR op) None p) =
      Some (0, sk\<lparr>outgoing := es, sent := sent sk @ frame_bytes (0x80 OR op) None p\<rparr>)" "willing n es"
    using send_all_willing [OF assms(2)] by blast
  ultimately show thesis using assms(1) that [of es] by (simp add: ws_sendframe_def client_send_def)
qed

section \<open>What a send puts on the wire\<close>

text \<open>The text frame that announces the nonce, unless it went out before, and a sealed packet in its frame.\<close>

definition init_frame :: "byte list \<Rightarrow> byte list" where
  "init_frame nonce =
     frame_bytes 0x81 None (take 255 (crypto_init_json
       (filter (\<lambda>b. b \<noteq> 0x0A \<and> b \<noteq> 0x0D) (base64_encode_loop nonce 0))))"

definition media_frame :: "cipher \<Rightarrow> byte list \<Rightarrow> byte \<Rightarrow> u32 \<Rightarrow> byte list \<Rightarrow> byte list" where
  "media_frame c nonce sid seq p = frame_bytes 0x82 None (packet_wire c sid seq nonce p)"

text \<open>An application object whose connection takes at least \<open>n\<close> more bytes, and what it has sent.\<close>

definition app_ready :: "nat \<Rightarrow> app \<Rightarrow> bool" where
  "app_ready n a \<longleftrightarrow> (\<exists>sk. client_sock (conn a) = Some sk \<and> willing n (outgoing sk)) \<and>
     length (session_nonce a) = CRYPTO_STREAM_NONCE_SIZE \<and> pending_audio_packets a = 0"

definition app_sent :: "app \<Rightarrow> byte list" where
  "app_sent a = (case client_sock (conn a) of None \<Rightarrow> [] | Some sk \<Rightarrow> sent sk)"

definition announce :: "app \<Rightarrow> byte list" where
  "announce a = (if crypto_init_sent a then [] else init_frame (session_nonce a))"

lemma send_crypto_init_ok:
  assumes ready: "app_ready (length (announce a) + n) a" and alloc: "\<forall>n. malloc_ok n"
  shows "\<exists>cli. send_crypto_init_locked malloc_ok a = Ret (0, a\<lparr>conn := cli, crypto_init_sent := True\<rparr>) \<and>
    app_sent (a\<lparr>conn := cli\<rparr>) = app_sent a @ announce a \<and> app_ready n (a\<lparr>conn := cli\<rparr>)"
proof (cases "crypto_init_sent a")
  case True
  moreover have "a\<lparr>conn := conn a\<rparr> = a" by simp
  moreover have "a\<lparr>conn := conn a, crypto_init_sent := True\<rparr> = a" using True by (cases a) simp
  ultimately show ?thesis using ready
    by (intro exI [of _ "conn a"]) (simp add: send_crypto_init_locked_def announce_def)
next
  case False
  obtain sk where sk: "client_sock (conn a) = Some sk" "willing (length (announce a) + n) (outgoing sk)"
      and nl: "length (session_nonce a) = 12" using ready by (auto simp: app_ready_def)
  define json where "json = take 255 (crypto_init_json (filter (\<lambda>b. b \<noteq> 0x0A \<and> b \<noteq> 0x0D) (base64_encode_loop (session_nonce a) 0)))"
  have short: "length json < 2 ^ 31" by (simp add: json_def)
  have enc: "base64_encode 64 (malloc_ok (base64_olen 64 12)) (session_nonce a) =
      Some (base64_encode_loop (session_nonce a) 0 @ [0])"
    using alloc nl by (simp add: base64_encode_def base64_olen_def)
  have ann: "announce a = frame_bytes (0x80 OR 1) None json" using False by (simp add: announce_def init_frame_def json_def)
  obtain es where "ws_sendframe malloc_ok (conn a) json (word_of_nat (length json)) 1 =
      Ret (0, (conn a)\<lparr>client_sock := Some (sk\<lparr>outgoing := es, sent := sent sk @ announce a\<rparr>)\<rparr>)" "willing n es"
    using ws_sendframe_wire [OF sk(1) sk(2) [unfolded ann] short alloc] unfolding ann by blast
  then show ?thesis using False enc alloc sk(1) ready
    by (intro exI [of _ "(conn a)\<lparr>client_sock := Some (sk\<lparr>outgoing := es, sent := sent sk @ announce a\<rparr>)\<rparr>"])
       (simp add: send_crypto_init_locked_def Let_def app_sent_def app_ready_def json_def)
qed

lemma encrypt_prefix:
  "crypto_stream_encrypt_packet c out n sid seq sn (Some (p @ extra)) (length p) =
   crypto_stream_encrypt_packet c out n sid seq sn (Some p) (length p)"
  by (simp add: crypto_stream_encrypt_packet_def Let_def split: option.split)

lemma send_crypto_init_pending:
  "send_crypto_init_locked malloc_ok (a\<lparr>pending_audio_packets := k\<rparr>) =
   obind (send_crypto_init_locked malloc_ok a) (\<lambda>(rc, a). Ret (rc, a\<lparr>pending_audio_packets := k\<rparr>))"
  by (auto simp: send_crypto_init_locked_def Let_def obind_assoc case_prod_beta intro!: obind_cong split: option.split)

text \<open>One packet: the object afterwards, and what has gone out.\<close>

definition advanced :: "app \<Rightarrow> nat \<Rightarrow> app \<Rightarrow> bool" where
  "advanced a k a' \<longleftrightarrow> session_nonce a' = session_nonce a \<and> media_seq a' = media_seq a + word_of_nat k \<and>
     crypto_init_sent a' \<and> video_frame_id a' = video_frame_id a \<and> audio_chunk_index a' = audio_chunk_index a \<and>
     app_state a' = app_state a"

lemma send_encrypted_media_ok:
  assumes c: "xor_stream_cipher c" and alloc: "\<forall>n. malloc_ok n" and len: "8 + length p < 2 ^ 31"
    and ready: "app_ready (length (announce a) + length (media_frame c (session_nonce a) sid (media_seq a) p) + n) a"
  shows "\<exists>a'. send_encrypted_media c malloc_ok (Some a) sid (Some (p @ extra)) (length p) = Ret (0, Some a') \<and>
    app_sent a' = app_sent a @ announce a @ media_frame c (session_nonce a) sid (media_seq a) p \<and>
    app_ready n a' \<and> advanced a 1 a'"
proof -
  let ?pkt = "packet_wire c sid (media_seq a) (session_nonce a) p"
  have l: "length ?pkt = 8 + length p" by (rule length_packet_wire [OF c])
  define a1 where "a1 = (if sid = 2 then begin_audio_priority a else a)"
  have a1: "announce a1 = announce a" "app_ready m a1 \<longleftrightarrow> app_ready m (a\<lparr>pending_audio_packets := pending_audio_packets a1\<rparr>)"
      "session_nonce a1 = session_nonce a" "media_seq a1 = media_seq a" "conn a1 = conn a" for m
    by (simp_all add: a1_def begin_audio_priority_def announce_def app_ready_def)
  have pend: "pending_audio_packets a = 0" using ready by (simp add: app_ready_def)
  let ?m = "length (announce a) + (length (frame_bytes (0x80 OR 2) None ?pkt) + n)"
  have "app_ready ?m a" using ready by (simp add: media_frame_def add.assoc)
  then obtain cli where i: "send_crypto_init_locked malloc_ok a = Ret (0, a\<lparr>conn := cli, crypto_init_sent := True\<rparr>)"
      "app_sent (a\<lparr>conn := cli\<rparr>) = app_sent a @ announce a"
      "app_ready (length (frame_bytes (0x80 OR 2) None ?pkt) + n) (a\<lparr>conn := cli\<rparr>)"
    using send_crypto_init_ok [OF _ alloc] by blast
  have i1: "send_crypto_init_locked malloc_ok a1 = Ret (0, a1\<lparr>conn := cli, crypto_init_sent := True\<rparr>)"
    using i(1) send_crypto_init_pending [where malloc_ok = malloc_ok and a = a and k = "pending_audio_packets a + 1"]
    by (simp add: a1_def begin_audio_priority_def)
  obtain sk where sk: "client_sock cli = Some sk" "willing (length (frame_bytes (0x80 OR 2) None ?pkt) + n) (outgoing sk)"
    using i(3) by (auto simp: app_ready_def)
  have "length ?pkt < 2 ^ 31" using l len by simp
  from ws_sendframe_wire [OF sk this alloc] obtain es where w: "ws_sendframe malloc_ok cli ?pkt (word_of_nat (length ?pkt)) 2 =
      Ret (0, cli\<lparr>client_sock := Some (sk\<lparr>outgoing := es, sent := sent sk @ frame_bytes (0x80 OR 2) None ?pkt\<rparr>)\<rparr>)"
      "willing n es" by blast
  let ?cli = "cli\<lparr>client_sock := Some (sk\<lparr>outgoing := es, sent := sent sk @ frame_bytes (0x80 OR 2) None ?pkt\<rparr>)\<rparr>"
  let ?a = "a\<lparr>conn := ?cli, crypto_init_sent := True, media_seq := media_seq a + 1\<rparr>"
  have e: "crypto_stream_encrypt_packet c (Some (replicate (8 + length p) 0)) (8 + length p) sid (media_seq a)
      (Some (session_nonce a)) (Some (p @ extra)) (length p) = (int (8 + length p), Some ?pkt)"
    unfolding encrypt_prefix using encrypt_packet_wire [OF c, of p "8 + length p" "replicate (8 + length p) 0"] len
    by (simp add: c_int_small)
  have size: "word_of_int (int (8 + length p)) = (word_of_nat (length ?pkt) :: 64 word)" using l by simp
  have run: "send_encrypted_media c malloc_ok (Some a) sid (Some (p @ extra)) (length p) = Ret (0, Some ?a)"
    using i1 w(1) e size pend alloc a1(3,4)
    by (cases "sid = 2")
       (simp_all add: send_encrypted_media_def crypto_stream_packet_size_def a1_def begin_audio_priority_def
          end_audio_priority_def wait_for_audio_priority_def Let_def)
  have "app_sent ?a = app_sent a @ announce a @ media_frame c (session_nonce a) sid (media_seq a) p"
    using i(2) sk(1) by (simp add: app_sent_def media_frame_def)
  moreover have "app_ready n ?a" using ready w(2) by (simp add: app_ready_def)
  ultimately show ?thesis using run by (intro exI [of _ ?a]) (simp add: advanced_def)
qed

text \<open>Several packets: the frames, and the bytes that go out from a state of the application.\<close>

fun media_frames :: "cipher \<Rightarrow> byte list \<Rightarrow> byte \<Rightarrow> u32 \<Rightarrow> byte list list \<Rightarrow> byte list" where
  "media_frames c nonce sid seq [] = []"
| "media_frames c nonce sid seq (p # ps) = media_frame c nonce sid seq p @ media_frames c nonce sid (seq + 1) ps"

definition outgoing_media :: "cipher \<Rightarrow> app \<Rightarrow> byte \<Rightarrow> byte list list \<Rightarrow> byte list" where
  "outgoing_media c a sid ps =
     (if ps = [] then [] else announce a @ media_frames c (session_nonce a) sid (media_seq a) ps)"

lemma outgoing_media_Cons:
  "advanced a 1 a' \<Longrightarrow> outgoing_media c a sid (p # ps) =
     (announce a @ media_frame c (session_nonce a) sid (media_seq a) p) @ outgoing_media c a' sid ps"
  by (simp add: outgoing_media_def advanced_def announce_def)

definition piece :: "byte list \<Rightarrow> nat \<Rightarrow> nat \<Rightarrow> byte list" where
  "piece payload len i = slice (i * VIDEO_FRAGMENT_DATA_SIZE) (min VIDEO_FRAGMENT_DATA_SIZE (len - i * VIDEO_FRAGMENT_DATA_SIZE)) payload"

definition fragment_number :: "nat \<Rightarrow> nat" where
  "fragment_number len = (len + VIDEO_FRAGMENT_DATA_SIZE - 1) div VIDEO_FRAGMENT_DATA_SIZE"

lemma fragment_number_less: "i < fragment_number len \<longleftrightarrow> i * 16384 < len"
  unfolding fragment_number_def by linarith

lemma length_fragment_packet [simp]: "length (fragment_packet fl i n fid data) = 16 + length data"
  by (simp add: fragment_packet_def Let_def write_u16le_def write_u32le_def)

lemma length_piece:
  "len \<le> length payload \<Longrightarrow> length (piece payload len i) = min 16384 (len - i * 16384)"
  by (auto simp: piece_def slice_def)

lemma fragment_loop_ok:
  assumes c: "xor_stream_cipher c" and alloc: "\<forall>n. malloc_ok n" and len: "len \<le> length payload"
    and n: "fragment_number len < 2 ^ 16"
  shows "k + d = fragment_number len \<Longrightarrow>
    ps = map (\<lambda>i. fragment_packet fl (word_of_nat i) (word_of_nat (fragment_number len)) fid (piece payload len i)) [k..<k + d] \<Longrightarrow>
    app_ready (length (outgoing_media c a 1 ps) + m) a \<Longrightarrow>
    \<exists>a'. fragment_loop c malloc_ok fl (word_of_nat (fragment_number len)) fid payload len (word_of_nat k) (min (k * 16384) len) a =
        Ret (0, a') \<and>
      app_sent a' = app_sent a @ outgoing_media c a 1 ps \<and> app_ready m a' \<and> (d = 0 \<or> advanced a d a') \<and> (d = 0 \<longrightarrow> a' = a)"
proof (induction d arbitrary: k a ps)
  case 0
  then show ?case
    by (subst fragment_loop.simps) (simp add: outgoing_media_def)
next
  case (Suc d)
  let ?n = "fragment_number len"
  let ?f = "\<lambda>i. fragment_packet fl (word_of_nat i) (word_of_nat ?n) fid (piece payload len i)"
  let ?qs = "map ?f [Suc k..<Suc k + d]"
  have k: "k < ?n" using Suc.prems(1) by simp
  then have kl: "k * 16384 < len" by (simp add: fragment_number_less)
  have u: "unat (word_of_nat k :: u16) = k" "unat (word_of_nat ?n :: u16) = ?n"
    using k n by (simp_all add: unat_word_of_nat)
  have lt: "(word_of_nat k :: u16) < word_of_nat ?n" using k u by (simp add: word_less_nat_alt)
  have ps: "ps = ?f k # ?qs" using Suc.prems(2) by (simp add: upt_conv_Cons del: upt_Suc)
  have fl: "(if 16384 < len - min (k * 16384) len then 16384 else len - min (k * 16384) len) =
      min 16384 (len - k * 16384)" using kl by auto
  have pc: "slice (min (k * 16384) len) (min 16384 (len - k * 16384)) payload = piece payload len k"
    using kl by (simp add: piece_def min_def)
  have lp: "length (?f k) = 16 + min 16384 (len - k * 16384)" by (simp add: length_piece [OF len])
  have "app_ready (length (announce a) + length (media_frame c (session_nonce a) 1 (media_seq a) (?f k)) +
      (length (media_frames c (session_nonce a) 1 (media_seq a + 1) ?qs) + m)) a"
    using Suc.prems(3) by (simp add: ps outgoing_media_def add.assoc)
  moreover have "8 + length (?f k) < 2 ^ 31" unfolding lp by (simp add: min_def)
  ultimately obtain a1 where a1: "send_encrypted_media c malloc_ok (Some a) 1 (Some (?f k)) (length (?f k)) = Ret (0, Some a1)"
      "app_sent a1 = app_sent a @ announce a @ media_frame c (session_nonce a) 1 (media_seq a) (?f k)"
      "app_ready (length (media_frames c (session_nonce a) 1 (media_seq a + 1) ?qs) + m) a1" "advanced a 1 a1"
    using send_encrypted_media_ok [OF c alloc, of "?f k" a 1 _ "[]"] by auto
  have out: "outgoing_media c a1 1 ?qs = media_frames c (session_nonce a) 1 (media_seq a + 1) ?qs"
    using a1(4) by (auto simp: outgoing_media_def announce_def advanced_def)
  have kd: "Suc k + d = ?n" using Suc.prems(1) by simp
  have rd: "app_ready (length (outgoing_media c a1 1 ?qs) + m) a1" using a1(3) unfolding out .
  have next_off: "min (k * 16384) len + min 16384 (len - k * 16384) = min (Suc k * 16384) len" using kl by auto
  have fits: "\<not> length payload < min (Suc k * 16384) len" using len by auto
  have step: "fragment_loop c malloc_ok fl (word_of_nat ?n) fid payload len (word_of_nat k) (min (k * 16384) len) a =
      fragment_loop c malloc_ok fl (word_of_nat ?n) fid payload len (word_of_nat (Suc k)) (min (Suc k * 16384) len) a1"
    using lt alloc a1(1) fits unfolding lp
    by (subst fragment_loop.simps) (simp only: Let_def fl pc next_off if_True if_False simp_thms obind.simps
        case_prod_conv option.sel less_irrefl of_nat_Suc add.commute [of 1])
  obtain a' where "fragment_loop c malloc_ok fl (word_of_nat ?n) fid payload len (word_of_nat (Suc k)) (min (Suc k * 16384) len) a1 =
      Ret (0, a')" "app_sent a' = app_sent a1 @ outgoing_media c a1 1 ?qs" "app_ready m a'"
      "d = 0 \<or> advanced a1 d a'" "d = 0 \<longrightarrow> a' = a1"
    using Suc.IH [OF kd refl rd] by blast
  moreover have "advanced a (Suc d) a'" using calculation(4,5) a1(4) by (auto simp: advanced_def algebra_simps)
  ultimately show ?case using step a1(2) outgoing_media_Cons [OF a1(4), of c 1 "?f k" ?qs] by (auto simp: ps)
qed

text \<open>The payloads a frame is sent in.\<close>

definition video_packets :: "u32 \<Rightarrow> byte list \<Rightarrow> byte list list" where
  "video_packets fid payload =
     (if length payload \<le> VIDEO_FRAGMENT_DATA_SIZE then [payload]
      else map (\<lambda>i. fragment_packet (video_payload_flags (Some payload) (length payload)) (word_of_nat i)
                 (word_of_nat (fragment_number (length payload))) fid (piece payload (length payload) i))
             [0..<fragment_number (length payload)])"

lemma send_video_media_ok:
  assumes c: "xor_stream_cipher c" and alloc: "\<forall>n. malloc_ok n" and ne: "payload \<noteq> []"
    and len: "length payload \<le> 16384 * 65535"
    and ready: "app_ready (length (outgoing_media c a 1 (video_packets (video_frame_id a) payload)) + m) a"
  shows "\<exists>a'. send_video_media c malloc_ok a (Some (payload @ extra)) (length payload) = Ret (0, a') \<and>
    app_sent a' = app_sent a @ outgoing_media c a 1 (video_packets (video_frame_id a) payload) \<and> app_ready m a' \<and>
    crypto_init_sent a' \<and> session_nonce a' = session_nonce a \<and>
    media_seq a' = media_seq a + word_of_nat (length (video_packets (video_frame_id a) payload))"
proof (cases "length payload \<le> 16384")
  case True
  then have ps: "video_packets (video_frame_id a) payload = [payload]" by (simp add: video_packets_def)
  have r: "app_ready (length (announce a) + length (media_frame c (session_nonce a) 1 (media_seq a) payload) + m) a"
    using ready by (simp add: ps outgoing_media_def)
  have "8 + length payload < 2 ^ 31" using True by simp
  from send_encrypted_media_ok [OF c alloc this r, of extra] obtain a' where
    "send_encrypted_media c malloc_ok (Some a) 1 (Some (payload @ extra)) (length payload) = Ret (0, Some a')"
    "app_sent a' = app_sent a @ announce a @ media_frame c (session_nonce a) 1 (media_seq a) payload"
    "app_ready m a'" "advanced a 1 a'" by blast
  then show ?thesis using True ne
    by (intro exI [of _ a']) (simp add: send_video_media_def ps outgoing_media_def advanced_def)
next
  case False
  let ?len = "length payload" and ?fid = "video_frame_id a"
  let ?fl = "video_payload_flags (Some payload) ?len"
  let ?a = "a\<lparr>video_frame_id := ?fid + 1\<rparr>"
  have ps: "video_packets ?fid payload = map (\<lambda>i. fragment_packet ?fl (word_of_nat i)
      (word_of_nat (fragment_number ?len)) ?fid (piece (payload @ extra) ?len i)) [0..<0 + fragment_number ?len]"
    (is "?ps = ?qs")
  proof -
    have "piece payload ?len i = piece (payload @ extra) ?len i" for i
      by (auto simp: piece_def slice_def min_def not_le)
    then show ?thesis using False by (simp add: video_packets_def)
  qed
  have n: "fragment_number ?len < 2 ^ 16" using len by (simp add: fragment_number_def)
  have fl: "video_payload_flags (Some (payload @ extra)) ?len = ?fl"
    using ne by (cases payload) (simp_all add: video_payload_flags_def Let_def)
  have out: "outgoing_media c ?a 1 ?ps = outgoing_media c a 1 ?ps" by (simp add: outgoing_media_def announce_def)
  have r: "app_ready (length (outgoing_media c ?a 1 ?ps) + m) ?a" using ready unfolding out by (simp add: app_ready_def)
  have pos: "0 < fragment_number ?len" using ne by (simp add: fragment_number_less)
  obtain a' where "fragment_loop c malloc_ok ?fl (word_of_nat (fragment_number ?len)) ?fid (payload @ extra) ?len (word_of_nat 0)
      (min (0 * 16384) ?len) ?a = Ret (0, a')"
    "app_sent a' = app_sent ?a @ outgoing_media c ?a 1 ?ps" "app_ready m a'" "advanced ?a (fragment_number ?len) a'"
    using fragment_loop_ok [OF c alloc _ n, of "payload @ extra" 0 "fragment_number ?len" ?ps ?fl ?fid ?a m] ps r pos by auto
  moreover have "send_video_media c malloc_ok a (Some (payload @ extra)) ?len =
      fragment_loop c malloc_ok ?fl (word_of_nat (fragment_number ?len)) ?fid (payload @ extra) ?len 0 0 ?a"
    using False ne by (simp add: send_video_media_def fl fragment_number_def add.commute Let_def)
  moreover have "length ?ps = fragment_number ?len" by (simp add: ps)
  ultimately show ?thesis unfolding out
    by (intro exI [of _ a']) (simp add: advanced_def app_sent_def)
qed

end
