(* ===== verification/ClientVideo.thy ===== *)
theory ClientVideo
  imports GatewayProto CryptoStream
begin

text \<open>
  The video side of \<open>gateway_client/gateway_client.cpp\<close>: putting the fragments of a large frame together, the queue
  of packets between the network thread and the decoding main thread, which both threads access under one lock,
  and the main thread's loop.  What the decoder answers is an input of the step that models it.
\<close>

unbundle bit_operations_syntax

section \<open>State\<close>

record queued_video_packet =
  packet :: "byte list"
  keyframe :: bool
  q_seq_no :: u32

record shared_video_state =
  sps :: "byte list"
  pps :: "byte list"
  queue :: "queued_video_packet list"
  waiting_for_keyframe :: bool
  dropped_packets :: nat
  frag_active :: bool
  frag_frame_id :: u32
  frag_flags :: byte
  frag_count :: u16
  frag_last_seq_no :: u32
  frag_received :: nat
  frag_total_size :: nat
  frag_parts :: "byte list list"

definition video_start :: shared_video_state where
  "video_start = \<lparr>sps = [], pps = [], queue = [], waiting_for_keyframe = True, dropped_packets = 0,
     frag_active = False, frag_frame_id = 0, frag_flags = 0, frag_count = 0, frag_last_seq_no = 0,
     frag_received = 0, frag_total_size = 0, frag_parts = []\<rparr>"

abbreviation (input) kMaxQueuedVideoPackets :: nat where "kMaxQueuedVideoPackets \<equiv> 8"
abbreviation (input) kVideoCatchupThreshold :: nat where "kVideoCatchupThreshold \<equiv> 6"
abbreviation (input) kVideoDecodeBurst :: nat where "kVideoDecodeBurst \<equiv> 4"

definition annexb_append :: "byte list \<Rightarrow> byte list \<Rightarrow> byte list" where
  "annexb_append pkt nal = (if nal = [] then pkt else pkt @ [0, 0, 0, 1] @ nal)"

definition h264_nal_type :: "byte list \<Rightarrow> byte" where
  "h264_nal_type payload = (if payload = [] then 0 else payload ! 0 AND 0x1F)"

definition read_u32le :: "byte list \<Rightarrow> nat \<Rightarrow> u32" where
  "read_u32le p off =
     ucast (p ! off) OR push_bit 8 (ucast (p ! (off + 1))) OR push_bit 16 (ucast (p ! (off + 2))) OR
     push_bit 24 (ucast (p ! (off + 3)))"

definition read_u16le :: "byte list \<Rightarrow> nat \<Rightarrow> u16" where
  "read_u16le p off = ucast (p ! off) OR push_bit 8 (ucast (p ! (off + 1)))"

section \<open>Fragments\<close>

definition reset_video_fragments :: "shared_video_state \<Rightarrow> shared_video_state" where
  "reset_video_fragments st =
     st\<lparr>frag_active := False, frag_frame_id := 0, frag_flags := 0, frag_count := 0, frag_last_seq_no := 0,
        frag_received := 0, frag_total_size := 0, frag_parts := []\<rparr>"

text \<open>The loop that joins the parts; \<open>None\<close> when one is empty.\<close>

fun assemble :: "byte list list \<Rightarrow> byte list \<Rightarrow> byte list option" where
  "assemble [] assembled = Some assembled"
| "assemble (part # parts) assembled = (if part = [] then None else assemble parts (assembled @ part))"

text \<open>
  Whether there is a payload to go on with, the state, the payload and the flags.  \<open>flags\<close> and \<open>payload\<close> are references
  in the code: they come back changed or not.
\<close>

definition reassemble_video_payload ::
  "shared_video_state \<Rightarrow> byte list \<Rightarrow> byte \<Rightarrow> u32 \<Rightarrow> bool \<times> shared_video_state \<times> byte list \<times> byte" where
  "reassemble_video_payload st payload fl seq =
     (if length payload < 16 \<or> take 4 payload \<noteq> str ''VFG1'' then (True, st, payload, fl)
      else
        let fl = payload ! 4;
            frag_index = read_u16le payload 6;
            count = read_u16le payload 8;
            frame_id = read_u32le payload 12;
            frag_len = length payload - 16 in
        if count = 0 \<or> count \<le> frag_index then (False, reset_video_fragments st, payload, fl)
        else
          let st = (if \<not> frag_active st \<or> frag_frame_id st \<noteq> frame_id \<or> frag_count st \<noteq> count then
                      (reset_video_fragments st)\<lparr>frag_active := True, frag_frame_id := frame_id, frag_flags := fl,
                        frag_count := count, frag_parts := replicate (unat count) []\<rparr>
                    else st);
              st = (if frag_parts st ! unat frag_index = [] then
                      st\<lparr>frag_parts := (frag_parts st)[unat frag_index := drop 16 payload],
                         frag_received := frag_received st + 1, frag_total_size := frag_total_size st + frag_len\<rparr>
                    else st);
              st = st\<lparr>frag_last_seq_no := seq\<rparr> in
          if frag_received st \<noteq> unat (frag_count st) then (False, st, payload, fl)
          else
            (case assemble (frag_parts st) [] of
               None \<Rightarrow> (False, reset_video_fragments st, payload, fl)
             | Some assembled \<Rightarrow> (True, reset_video_fragments st, assembled, frag_flags st)))"

section \<open>The queue\<close>

definition enqueue_video_packet ::
  "shared_video_state \<Rightarrow> byte list \<Rightarrow> bool \<Rightarrow> u32 \<Rightarrow> shared_video_state" where
  "enqueue_video_packet st pkt key seq =
     (if waiting_for_keyframe st \<and> \<not> key then st
      else
        let st = (if key then st\<lparr>waiting_for_keyframe := False\<rparr> else st);
            queued = \<lparr>packet = pkt, keyframe = key, q_seq_no = seq\<rparr> in
        if kMaxQueuedVideoPackets \<le> length (queue st) then
          let st = st\<lparr>dropped_packets := dropped_packets st + length (queue st), queue := [],
                      waiting_for_keyframe := True\<rparr> in
          if \<not> key then st
          else st\<lparr>waiting_for_keyframe := False, queue := queue st @ [queued]\<rparr>
        else st\<lparr>queue := queue st @ [queued]\<rparr>)"

text \<open>The index of the last keyframe, searched from the end.\<close>

fun last_keyframe :: "queued_video_packet list \<Rightarrow> nat \<Rightarrow> nat option" where
  "last_keyframe q 0 = None"
| "last_keyframe q (Suc i) = (if keyframe (q ! i) then Some i else last_keyframe q i)"

definition trim_video_queue_for_latency :: "shared_video_state \<Rightarrow> shared_video_state" where
  "trim_video_queue_for_latency st =
     (if length (queue st) \<le> kVideoCatchupThreshold then st
      else
        let keep_from = (case last_keyframe (queue st) (length (queue st)) of
                           Some i \<Rightarrow> i | None \<Rightarrow> length (queue st)) in
        if length (queue st) \<le> keep_from then
          st\<lparr>dropped_packets := dropped_packets st + length (queue st), queue := [], waiting_for_keyframe := True\<rparr>
        else if 0 < keep_from then
          st\<lparr>dropped_packets := dropped_packets st + keep_from, queue := drop keep_from (queue st)\<rparr>
        else st)"

text \<open>
  What \<open>network_reader\<close> does with a decrypted video payload, under the lock: the packet it makes for the
  queue, if any, and what it does with it.
\<close>

definition video_packet ::
  "shared_video_state \<Rightarrow> byte list \<Rightarrow> byte \<Rightarrow> u32 \<Rightarrow> queued_video_packet option \<times> shared_video_state" where
  "video_packet st payload fl seq =
     (case reassemble_video_payload st payload fl seq of (complete, st, payload, video_flags) \<Rightarrow>
        if \<not> complete then (None, st)
        else
          let nal_type = h264_nal_type payload in
          if video_flags AND GATEWAY_PROTO_FLAG_CONFIG \<noteq> 0 then
            (None, if nal_type = 7 then st\<lparr>sps := payload\<rparr>
                   else if nal_type = 8 then st\<lparr>pps := payload\<rparr> else st)
          else
            let key = (video_flags AND GATEWAY_PROTO_FLAG_KEYFRAME \<noteq> 0);
                pkt = (if key then annexb_append (annexb_append [] (sps st)) (pps st) else []);
                pkt = annexb_append pkt payload
            in (Some \<lparr>packet = pkt, keyframe = key, q_seq_no = seq\<rparr>, st))"

definition video_payload :: "shared_video_state \<Rightarrow> byte list \<Rightarrow> byte \<Rightarrow> u32 \<Rightarrow> shared_video_state" where
  "video_payload st payload fl seq =
     (case video_packet st payload fl seq of
        (None, st) \<Rightarrow> st
      | (Some q, st) \<Rightarrow>
          trim_video_queue_for_latency (enqueue_video_packet st (packet q) (keyframe q) (q_seq_no q)))"

section \<open>The fragments of a frame\<close>

text \<open>A fragment as it is sent: index and number of the fragments, number of the frame, and the data.\<close>

definition fragment :: "byte \<Rightarrow> u32 \<Rightarrow> u16 \<Rightarrow> u16 \<Rightarrow> byte list \<Rightarrow> byte list" where
  "fragment fl frame_id count i data =
     str ''VFG1'' @ [fl, 0, ucast i, ucast (drop_bit 8 i), ucast count, ucast (drop_bit 8 count), 0, 0,
       ucast frame_id, ucast (drop_bit 8 frame_id), ucast (drop_bit 16 frame_id), ucast (drop_bit 24 frame_id)] @ data"

lemma fragment_fields:
  "16 \<le> length (fragment fl fid n i data)" "take 4 (fragment fl fid n i data) = str ''VFG1''"
  "fragment fl fid n i data ! 4 = fl" "read_u16le (fragment fl fid n i data) 6 = i"
  "read_u16le (fragment fl fid n i data) 8 = n" "read_u32le (fragment fl fid n i data) 12 = fid"
  "drop 16 (fragment fl fid n i data) = data" "length (fragment fl fid n i data) = 16 + length data"
  by (simp_all add: fragment_def read_u16le_def read_u32le_def codec)

text \<open>
  The state while the fragments with the indices in \<open>S\<close> of a frame have been received, and a state that is not
  in the middle of that frame.
\<close>

definition collecting :: "byte \<Rightarrow> u32 \<Rightarrow> byte list list \<Rightarrow> nat set \<Rightarrow> shared_video_state \<Rightarrow> bool" where
  "collecting fl fid datas S st \<longleftrightarrow>
     frag_active st \<and> frag_frame_id st = fid \<and> frag_count st = word_of_nat (length datas) \<and> frag_flags st = fl \<and>
     frag_parts st = map (\<lambda>i. if i \<in> S then datas ! i else []) [0..<length datas] \<and>
     frag_received st = card S \<and> S \<subseteq> {..<length datas}"

definition between_frames :: "u32 \<Rightarrow> u16 \<Rightarrow> shared_video_state \<Rightarrow> bool" where
  "between_frames fid n st \<longleftrightarrow> \<not> frag_active st \<or> frag_frame_id st \<noteq> fid \<or> frag_count st \<noteq> n"

lemma assemble_eq: "[] \<notin> set parts \<Longrightarrow> assemble parts acc = Some (acc @ concat parts)"
  by (induction parts acc rule: assemble.induct) auto

lemma collecting_update:
  assumes "i < length datas"
  shows "(map (\<lambda>k. if k \<in> S then datas ! k else []) [0..<length datas])[i := datas ! i] =
         map (\<lambda>k. if k \<in> insert i S then datas ! k else []) [0..<length datas]"
  by (rule nth_equalityI) (use assms in \<open>auto simp: nth_list_update\<close>)

lemma collect_all:
  "map (\<lambda>i. if i \<in> {..<length datas} then datas ! i else []) [0..<length datas] = datas"
  by (rule nth_equalityI) auto

text \<open>One fragment: either it completes the frame or its index is added to those received.\<close>

lemma reassemble_fragment:
  assumes st: "collecting fl fid datas S st \<or> S = {} \<and> between_frames fid (word_of_nat (length datas)) st"
    and n: "length datas < 2 ^ 16" and i: "i < length datas" and data: "[] \<notin> set datas"
    and part: "S \<noteq> {..<length datas}"
  shows "insert i S = {..<length datas} \<Longrightarrow>
      \<exists>st'. reassemble_video_payload st (fragment fl fid (word_of_nat (length datas)) (word_of_nat i) (datas ! i)) fl0 seq =
        (True, st', concat datas, fl) \<and> \<not> frag_active st' \<and> queue st' = queue st"
    and "insert i S \<noteq> {..<length datas} \<Longrightarrow>
      \<exists>st' p. reassemble_video_payload st (fragment fl fid (word_of_nat (length datas)) (word_of_nat i) (datas ! i)) fl0 seq =
        (False, st', p, fl) \<and> collecting fl fid datas (insert i S) st' \<and> queue st' = queue st"
proof -
  let ?n = "word_of_nat (length datas) :: u16" and ?i = "word_of_nat i :: u16"
  let ?f = "fragment fl fid ?n ?i (datas ! i)"
  have un: "unat ?n = length datas" "unat ?i = i" using n i by (simp_all add: unat_word_of_nat)
  then have valid: "\<not> (?n = 0 \<or> ?n \<le> ?i)" using i by (auto simp: word_le_nat_alt)
  define st1 where "st1 = (if \<not> frag_active st \<or> frag_frame_id st \<noteq> fid \<or> frag_count st \<noteq> ?n then
      (reset_video_fragments st)\<lparr>frag_active := True, frag_frame_id := fid, frag_flags := fl,
        frag_count := ?n, frag_parts := replicate (unat ?n) []\<rparr> else st)"
  have "replicate (length datas) [] = map (\<lambda>i. if i \<in> {} then datas ! i else []) [0..<length datas]"
    by (simp add: map_replicate_const)
  then have c1: "collecting fl fid datas S st1" and q1: "queue st1 = queue st"
    using st un by (auto simp: st1_def collecting_def between_frames_def reset_video_fragments_def)
  define st2 where "st2 = (if frag_parts st1 ! i = [] then
      st1\<lparr>frag_parts := (frag_parts st1)[i := datas ! i], frag_received := frag_received st1 + 1,
        frag_total_size := frag_total_size st1 + length (datas ! i)\<rparr> else st1)"
  have fin: "finite S" using c1 by (auto simp: collecting_def intro: finite_subset)
  have di: "datas ! i \<noteq> []" using data i by (metis nth_mem)
  have part_i: "frag_parts st1 ! i = [] \<longleftrightarrow> i \<notin> S" using c1 i di by (auto simp: collecting_def)
  have c2: "collecting fl fid datas (insert i S) st2"
    using c1 i part_i fin by (auto simp: st2_def collecting_def collecting_update insert_absorb)
  have q2: "queue st2 = queue st" using q1 by (simp add: st2_def)
  let ?st = "st2\<lparr>frag_last_seq_no := seq\<rparr>"
  have c3: "collecting fl fid datas (insert i S) ?st" using c2 by (simp add: collecting_def)
  have run: "reassemble_video_payload st ?f fl0 seq =
      (if frag_received ?st \<noteq> unat (frag_count ?st) then (False, ?st, ?f, fl)
       else (case assemble (frag_parts ?st) [] of
               None \<Rightarrow> (False, reset_video_fragments ?st, ?f, fl)
             | Some assembled \<Rightarrow> (True, reset_video_fragments ?st, assembled, frag_flags ?st)))"
    unfolding reassemble_video_payload_def Let_def fragment_fields un
    using valid fragment_fields(1,2) [of fl fid ?n ?i "datas ! i"]
    by (simp only: st1_def [symmetric, unfolded un] st2_def [symmetric] if_False not_less [symmetric]
        fragment_fields add_diff_cancel_left' de_Morgan_disj simp_thms)
  have full: "frag_received ?st = unat (frag_count ?st) \<longleftrightarrow> insert i S = {..<length datas}"
    using c3 card_subset_eq [of "{..<length datas}" "insert i S"] by (auto simp: collecting_def un)
  show "\<exists>st'. reassemble_video_payload st ?f fl0 seq = (True, st', concat datas, fl) \<and> \<not> frag_active st' \<and> queue st' = queue st"
    if all: "insert i S = {..<length datas}"
  proof -
    have "frag_parts ?st = datas" using c3 all collect_all [of datas] by (simp only: collecting_def)
    then have "assemble (frag_parts ?st) [] = Some (concat datas)" using assemble_eq [OF data] by simp
    with run full all c3 q2 show ?thesis by (simp add: collecting_def reset_video_fragments_def)
  qed
  show "\<exists>st' p. reassemble_video_payload st ?f fl0 seq = (False, st', p, fl) \<and> collecting fl fid datas (insert i S) st' \<and> queue st' = queue st"
    if "insert i S \<noteq> {..<length datas}"
    using run full that c3 q2 by simp
qed

text \<open>What comes out of the reassembly when payloads with their outer flags and sequence numbers go in one after the other.\<close>

fun feed :: "shared_video_state \<Rightarrow> (byte list \<times> byte \<times> u32) list \<Rightarrow> (byte list \<times> byte) list \<times> shared_video_state" where
  "feed st [] = ([], st)"
| "feed st ((p, fl, seq) # ps) =
     (case reassemble_video_payload st p fl seq of (complete, st, out, fl) \<Rightarrow>
        case feed st ps of (outs, st) \<Rightarrow> ((if complete then [(out, fl)] else []) @ outs, st))"

lemma feed_append:
  "feed st (ps @ qs) = (case feed st ps of (o1, st) \<Rightarrow> case feed st qs of (o2, st) \<Rightarrow> (o1 @ o2, st))"
  by (induction st ps rule: feed.induct) (auto split: prod.splits)

definition fragments_of :: "byte \<Rightarrow> u32 \<Rightarrow> byte list list \<Rightarrow> (nat \<times> byte \<times> u32) list \<Rightarrow> (byte list \<times> byte \<times> u32) list" where
  "fragments_of fl fid datas order =
     map (\<lambda>(i, fl0, seq). (fragment fl fid (word_of_nat (length datas)) (word_of_nat i) (datas ! i), fl0, seq)) order"

lemma feed_incomplete:
  assumes n: "length datas < 2 ^ 16" and data: "[] \<notin> set datas"
  shows "collecting fl fid datas S st \<or> S = {} \<and> between_frames fid (word_of_nat (length datas)) st \<Longrightarrow>
    fst ` set order \<subseteq> {..<length datas} \<Longrightarrow> S \<union> fst ` set order \<noteq> {..<length datas} \<Longrightarrow> S \<subseteq> {..<length datas} \<Longrightarrow>
    \<exists>st'. feed st (fragments_of fl fid datas order) = ([], st') \<and> queue st' = queue st \<and>
      (collecting fl fid datas (S \<union> fst ` set order) st' \<or>
       S \<union> fst ` set order = {} \<and> between_frames fid (word_of_nat (length datas)) st')"
proof (induction order arbitrary: S st)
  case Nil
  then show ?case by (auto simp: fragments_of_def)
next
  case (Cons f order)
  obtain i fl0 seq where f: "f = (i, fl0, seq)" by (cases f)
  have i: "i < length datas" using Cons.prems(2) f by auto
  have "S \<noteq> {..<length datas}" "insert i S \<noteq> {..<length datas}" using Cons.prems(2-4) f by auto
  from reassemble_fragment(2) [OF Cons.prems(1) n i data this, of fl0 seq] obtain st1 p where
    r: "reassemble_video_payload st (fragment fl fid (word_of_nat (length datas)) (word_of_nat i) (datas ! i)) fl0 seq =
      (False, st1, p, fl)" and c: "collecting fl fid datas (insert i S) st1" and q: "queue st1 = queue st" by blast
  have u: "insert i S \<union> fst ` set order = S \<union> fst ` set (f # order)" by (auto simp: f)
  obtain st' where "feed st1 (fragments_of fl fid datas order) = ([], st')" "queue st' = queue st1"
      "collecting fl fid datas (insert i S \<union> fst ` set order) st' \<or>
       insert i S \<union> fst ` set order = {} \<and> between_frames fid (word_of_nat (length datas)) st'"
    using Cons.IH [of "insert i S" st1] c Cons.prems(2,3,4) i u by (auto simp: f)
  then show ?case using r q u by (auto simp: fragments_of_def f)
qed

lemma feed_frame:
  assumes "between_frames fid (word_of_nat (length datas)) st" and "length datas < 2 ^ 16" and "[] \<notin> set datas"
    and "fst ` set order \<subseteq> {..<length datas} - {j}" and "{..<length datas} - {j} \<subseteq> fst ` set order" and "j < length datas"
  shows "\<exists>st'. feed st (fragments_of fl fid datas (order @ [(j, fl0, seq)])) = ([(concat datas, fl)], st') \<and>
    \<not> frag_active st' \<and> queue st' = queue st"
proof -
  have idx: "fst ` set order = {..<length datas} - {j}" using assms(4,5) by blast
  then have "{} \<union> fst ` set order \<noteq> {..<length datas}" using assms(6) by auto
  with feed_incomplete [OF assms(2,3), of fl fid "{}" st order] assms(1,4) obtain st1 where
    f: "feed st (fragments_of fl fid datas order) = ([], st1)" "queue st1 = queue st"
      "collecting fl fid datas (fst ` set order) st1 \<or>
       fst ` set order = {} \<and> between_frames fid (word_of_nat (length datas)) st1"
    by auto
  have "insert j (fst ` set order) = {..<length datas}" "fst ` set order \<noteq> {..<length datas}" using idx assms(6) by auto
  from reassemble_fragment(1) [OF f(3) assms(2,6,3) this(2,1), of fl0 seq] obtain st' where
    "reassemble_video_payload st1 (fragment fl fid (word_of_nat (length datas)) (word_of_nat j) (datas ! j)) fl0 seq =
       (True, st', concat datas, fl)" "\<not> frag_active st'" "queue st' = queue st1" by blast
  with f(1,2) show ?thesis by (simp add: fragments_of_def feed_append)
qed

section \<open>The queue never lets a frame pass whose predecessor was dropped\<close>

text \<open>
  The main thread: about to take the next packet, in the decoder with one, or about to drop the queue after
  a failure.  The decoder rendered frames, took the packet without rendering, or failed.
\<close>

datatype main_pc = Ready | Decoding nat queued_video_packet | Dropping

datatype decoder_answer = Rendered | NoFrame | DecodeFailed

text \<open>
  The client's video threads.  The last two fields record the history: every packet the network thread
  offered to the queue, and for every packet handed to \<open>decode_video_packet\<close> its place in that history and whether it was decoded.
\<close>

record video_threads =
  shared :: shared_video_state
  have_sync :: bool
  main_at :: main_pc
  offered :: "queued_video_packet list"
  decoded :: "(nat \<times> queued_video_packet \<times> bool) list"

text \<open>The network thread with the next decrypted payload, under the lock.\<close>

definition receive_payload :: "byte list \<Rightarrow> byte \<Rightarrow> u32 \<Rightarrow> video_threads \<Rightarrow> video_threads" where
  "receive_payload payload fl seq v =
     v\<lparr>shared := video_payload (shared v) payload fl seq,
       offered := offered v @ (case fst (video_packet (shared v) payload fl seq) of None \<Rightarrow> [] | Some q \<Rightarrow> [q])\<rparr>"

text \<open>The main thread takes the front of the queue; a packet that is not a keyframe is skipped without sync.\<close>

definition take_packet :: "video_threads \<Rightarrow> video_threads" where
  "take_packet v =
     (case queue (shared v) of
        [] \<Rightarrow> v
      | queued # rest \<Rightarrow>
          let v' = v\<lparr>shared := (shared v)\<lparr>queue := rest\<rparr>\<rparr> in
          if \<not> keyframe queued \<and> \<not> have_sync v then v'
          else v'\<lparr>main_at := Decoding (length (offered v) - length (queue (shared v))) queued\<rparr>)"

text \<open>\<open>decode_video_packet\<close> with the decoder's answer: success, and the value of \<open>have_sync\<close>.\<close>

definition decode_video_packet :: "decoder_answer \<Rightarrow> queued_video_packet \<Rightarrow> bool \<Rightarrow> bool \<times> bool" where
  "decode_video_packet answer queued sync =
     (if packet queued = [] then (True, sync)
      else
        (case answer of
           DecodeFailed \<Rightarrow> (False, sync)
         | Rendered \<Rightarrow> (True, True)
         | NoFrame \<Rightarrow> (True, sync \<or> keyframe queued)))"

definition finish_packet :: "decoder_answer \<Rightarrow> nat \<Rightarrow> queued_video_packet \<Rightarrow> video_threads \<Rightarrow> video_threads" where
  "finish_packet answer i queued v =
     (case decode_video_packet answer queued (have_sync v) of (ok, sync) \<Rightarrow>
        let v = v\<lparr>decoded := decoded v @ [(i, queued, ok)]\<rparr> in
        if ok then v\<lparr>have_sync := sync, main_at := Ready\<rparr>
        else v\<lparr>have_sync := False, main_at := Dropping\<rparr>)"

definition drop_queue :: "video_threads \<Rightarrow> video_threads" where
  "drop_queue v = v\<lparr>shared := (shared v)\<lparr>queue := [], waiting_for_keyframe := True\<rparr>, main_at := Ready\<rparr>"

inductive video_step :: "video_threads \<Rightarrow> video_threads \<Rightarrow> bool" where
  Receive: "video_step v (receive_payload payload fl seq v)"
| Take: "main_at v = Ready \<Longrightarrow> video_step v (take_packet v)"
| Finish: "main_at v = Decoding i queued \<Longrightarrow> video_step v (finish_packet answer i queued v)"
| Drop: "main_at v = Dropping \<Longrightarrow> video_step v (drop_queue v)"

inductive_cases video_stepE: "video_step v v'"

inductive video_reachable :: "video_threads \<Rightarrow> bool" where
  Start: "video_reachable \<lparr>shared = video_start, have_sync = False, main_at = Ready, offered = [], decoded = []\<rparr>"
| Step: "video_reachable v \<Longrightarrow> video_step v v' \<Longrightarrow> video_reachable v'"

text \<open>
  The queue holds at most eight packets; while it waits for a keyframe it is empty; otherwise it is the end of
  what was offered.
\<close>

definition queue_ok :: "shared_video_state \<Rightarrow> queued_video_packet list \<Rightarrow> bool" where
  "queue_ok st offs \<longleftrightarrow>
     length (queue st) \<le> 8 \<and> (waiting_for_keyframe st \<longrightarrow> queue st = []) \<and>
     (\<exists>earlier. offs = earlier @ queue st)"

text \<open>Where the queue begins in the history.\<close>

definition base :: "shared_video_state \<Rightarrow> queued_video_packet list \<Rightarrow> nat" where
  "base st offs = length offs - length (queue st)"

text \<open>The next packet can follow one at place \<open>i\<close>, if any packet can come before the next keyframe.\<close>

definition follows :: "shared_video_state \<Rightarrow> queued_video_packet list \<Rightarrow> nat \<Rightarrow> bool" where
  "follows st offs i \<longleftrightarrow>
     waiting_for_keyframe st \<or> base st offs = Suc i \<or> (queue st \<noteq> [] \<and> keyframe (hd (queue st)))"

lemma last_keyframe_Some: "last_keyframe q n = Some i \<Longrightarrow> i < n \<and> keyframe (q ! i)"
  by (induction q n rule: last_keyframe.induct) (auto split: if_splits)

lemma trim_cases:
  fixes st
  defines "st' \<equiv> trim_video_queue_for_latency st"
  obtains (same) "st' = st"
    | (empty) "queue st' = []" "waiting_for_keyframe st'"
    | (later) k where "queue st' = drop k (queue st)" "k < length (queue st)" "keyframe (queue st ! k)"
        "waiting_for_keyframe st' = waiting_for_keyframe st"
proof (cases "length (queue st) \<le> 6")
  case True
  then show thesis by (intro same) (simp add: st'_def trim_video_queue_for_latency_def)
next
  case False
  show thesis
  proof (cases "last_keyframe (queue st) (length (queue st))")
    case None
    with False show thesis by (intro empty) (simp_all add: st'_def trim_video_queue_for_latency_def)
  next
    case (Some i)
    with last_keyframe_Some [OF this] False show thesis
      by (intro later [of i]) (simp_all add: st'_def trim_video_queue_for_latency_def Let_def)
  qed
qed

lemma trim_ok:
  assumes ok: "queue_ok st offs"
  shows "queue_ok (trim_video_queue_for_latency st) offs"
proof (cases st rule: trim_cases)
  case (later k)
  from ok obtain e where "offs = e @ queue st" by (auto simp: queue_ok_def)
  then have "offs = (e @ take k (queue st)) @ drop k (queue st)" by simp
  then have "\<exists>earlier. offs = earlier @ drop k (queue st)" by blast
  with ok later show ?thesis by (auto simp: queue_ok_def)
qed (use ok in \<open>auto simp: queue_ok_def\<close>)

lemma trim_follows:
  assumes ok: "queue_ok st offs" and f: "follows st offs i"
  shows "follows (trim_video_queue_for_latency st) offs i"
proof (cases st rule: trim_cases)
  case (later k)
  then show ?thesis by (simp add: follows_def hd_drop_conv_nth)
qed (use f in \<open>simp_all add: follows_def\<close>)

lemma enqueue_cases:
  fixes st pkt key seq
  defines "st' \<equiv> enqueue_video_packet st pkt key seq"
  defines "q \<equiv> \<lparr>packet = pkt, keyframe = key, q_seq_no = seq\<rparr>"
  assumes w: "waiting_for_keyframe st \<Longrightarrow> queue st = []"
  obtains (drop) "queue st' = []" "waiting_for_keyframe st'"
    | (restart) "queue st' = [q]" "key" "\<not> waiting_for_keyframe st'"
    | (append) "queue st' = queue st @ [q]" "length (queue st) < 8" "\<not> waiting_for_keyframe st'"
        "waiting_for_keyframe st \<longrightarrow> key"
proof (cases "waiting_for_keyframe st \<and> \<not> key")
  case True
  then show thesis using w by (intro drop) (simp_all add: st'_def enqueue_video_packet_def)
next
  case go: False
  show thesis
  proof (cases "8 \<le> length (queue st)")
    case True
    with go show thesis
      by (cases key) (auto intro: drop restart simp: st'_def q_def enqueue_video_packet_def Let_def)
  next
    case False
    with go show thesis
      by (cases key) (auto intro!: append simp: st'_def q_def enqueue_video_packet_def Let_def)
  qed
qed

lemma enqueue_ok:
  fixes st pkt key seq
  defines "st' \<equiv> enqueue_video_packet st pkt key seq"
  defines "q \<equiv> \<lparr>packet = pkt, keyframe = key, q_seq_no = seq\<rparr>"
  assumes ok: "queue_ok st offs"
  shows "queue_ok st' (offs @ [q])" and "follows st offs i \<Longrightarrow> follows st' (offs @ [q]) i"
proof -
  from ok obtain e where e: "offs = e @ queue st" and l: "length (queue st) \<le> 8"
      and w: "waiting_for_keyframe st \<Longrightarrow> queue st = []" by (auto simp: queue_ok_def)
  note cases' = enqueue_cases [OF w, of pkt key seq, folded st'_def q_def]
  show "queue_ok st' (offs @ [q])" by (rule cases') (auto simp: queue_ok_def e)
  have q: "keyframe q = key" by (simp add: q_def)
  show "follows st' (offs @ [q]) i" if f: "follows st offs i"
  proof (rule cases')
    assume a: "queue st' = queue st @ [q]" "length (queue st) < 8" "\<not> waiting_for_keyframe st'"
        "waiting_for_keyframe st \<longrightarrow> key"
    have b: "base st' (offs @ [q]) = base st offs" using a(1) by (simp add: base_def)
    show ?thesis
    proof (cases "queue st = []")
      case True
      then show ?thesis using f a q b by (auto simp: follows_def)
    next
      case False
      then show ?thesis using f a w b by (auto simp: follows_def)
    qed
  qed (simp_all add: follows_def q)
qed

text \<open>
  The invariant of the two threads: the queue is well formed; with sync, the last packet handed to the decoder was decoded and the
  next one can follow it; the packet in the decoder is a keyframe or follows the last one.
\<close>

definition can_follow :: "(nat \<times> queued_video_packet \<times> bool) list \<Rightarrow> nat \<Rightarrow> queued_video_packet \<Rightarrow> bool" where
  "can_follow ds i queued \<longleftrightarrow>
     keyframe queued \<or> (ds \<noteq> [] \<and> i = Suc (fst (last ds)) \<and> snd (snd (last ds)))"

text \<open>Every packet handed to the decoder was offered, and is a keyframe or follows one that was decoded.\<close>

fun decodable :: "queued_video_packet list \<Rightarrow> (nat \<times> queued_video_packet \<times> bool) list \<Rightarrow> bool" where
  "decodable offs ds \<longleftrightarrow>
     (\<forall>j < length ds. case ds ! j of (i, queued, ok) \<Rightarrow>
        i < length offs \<and> queued = offs ! i \<and> can_follow (take j ds) i queued)"

declare decodable.simps [simp del]

definition video_inv :: "video_threads \<Rightarrow> bool" where
  "video_inv v \<longleftrightarrow>
     queue_ok (shared v) (offered v) \<and> decodable (offered v) (decoded v) \<and>
     (case main_at v of
        Ready \<Rightarrow>
          have_sync v \<longrightarrow> decoded v \<noteq> [] \<and> snd (snd (last (decoded v))) \<and>
            follows (shared v) (offered v) (fst (last (decoded v)))
      | Decoding i queued \<Rightarrow>
          i < length (offered v) \<and> queued = offered v ! i \<and> can_follow (decoded v) i queued \<and>
          follows (shared v) (offered v) i
      | Dropping \<Rightarrow> \<not> have_sync v)"

lemma decodable_snoc:
  "decodable offs (ds @ [(i, queued, ok)]) \<longleftrightarrow>
   decodable offs ds \<and> i < length offs \<and> queued = offs ! i \<and> can_follow ds i queued"
  by (auto simp: decodable.simps nth_append less_Suc_eq all_conj_distrib)

lemma decodable_mono: "decodable offs ds \<Longrightarrow> decodable (offs @ [q]) ds"
  by (auto simp: decodable.simps nth_append split: prod.splits)

lemma reassemble_queue:
  "reassemble_video_payload st payload fl seq = (complete, st', out, fl') \<Longrightarrow>
   queue st' = queue st \<and> waiting_for_keyframe st' = waiting_for_keyframe st"
  by (auto simp: reassemble_video_payload_def Let_def reset_video_fragments_def split: if_splits option.splits)

lemma video_packet_queue:
  "video_packet st payload fl seq = (q, st') \<Longrightarrow>
   queue st' = queue st \<and> waiting_for_keyframe st' = waiting_for_keyframe st"
  by (auto simp: video_packet_def Let_def dest: reassemble_queue split: prod.splits if_splits)

lemma same_queue:
  "queue st' = queue st \<and> waiting_for_keyframe st' = waiting_for_keyframe st \<Longrightarrow>
   queue_ok st' offs = queue_ok st offs \<and> follows st' offs i = follows st offs i"
  by (simp add: queue_ok_def follows_def base_def)

text \<open>A payload keeps the queue well formed, and keeps what can follow.\<close>

lemma payload_ok:
  fixes st payload fl seq offs
  defines "st' \<equiv> video_payload st payload fl seq"
  defines "offs' \<equiv> offs @ (case fst (video_packet st payload fl seq) of None \<Rightarrow> [] | Some q \<Rightarrow> [q])"
  assumes ok: "queue_ok st offs"
  shows "queue_ok st' offs'" and "follows st offs i \<Longrightarrow> follows st' offs' i"
proof -
  obtain q st1 where v: "video_packet st payload fl seq = (q, st1)" by fastforce
  note same = same_queue [OF video_packet_queue [OF v], of offs]
  have ok1: "queue_ok st1 offs" using same ok by blast
  have "queue_ok st' offs' \<and> (follows st offs i \<longrightarrow> follows st' offs' i)"
  proof (cases q)
    case None
    then show ?thesis using ok same v by (simp add: st'_def offs'_def video_payload_def)
  next
    case (Some p)
    let ?st = "enqueue_video_packet st1 (packet p) (keyframe p) (q_seq_no p)"
    have ok2: "queue_ok ?st (offs @ [p])" and f2: "follows st1 offs i \<Longrightarrow> follows ?st (offs @ [p]) i"
      using enqueue_ok(1) [OF ok1, of "packet p" "keyframe p" "q_seq_no p"]
        enqueue_ok(2) [OF ok1, of i "packet p" "keyframe p" "q_seq_no p"] by (cases p; simp)+
    with trim_ok [OF ok2] trim_follows [OF ok2] Some v same show ?thesis
      by (simp add: st'_def offs'_def video_payload_def)
  qed
  then show "queue_ok st' offs'" and "follows st offs i \<Longrightarrow> follows st' offs' i" by simp_all
qed

lemma receive_inv:
  assumes inv: "video_inv v"
  shows "video_inv (receive_payload payload fl seq v)"
proof -
  let ?v = "receive_payload payload fl seq v"
  obtain more where o': "offered ?v = offered v @ more" "length more \<le> 1"
    by (auto simp: receive_payload_def split: option.split)
  have d: "decodable (offered ?v) (decoded v)"
    using inv o' decodable_mono [of "offered v" "decoded v" "hd more"]
    by (cases more) (auto simp: video_inv_def)
  have q: "queue_ok (shared v) (offered v)" using inv by (simp add: video_inv_def)
  have ok: "queue_ok (shared ?v) (offered ?v)"
      "follows (shared v) (offered v) i \<Longrightarrow> follows (shared ?v) (offered ?v) i" for i
    using payload_ok [OF q] by (simp_all add: receive_payload_def)
  have same: "main_at ?v = main_at v" "decoded ?v = decoded v" "have_sync ?v = have_sync v"
    by (simp_all add: receive_payload_def)
  show ?thesis using inv ok d o'(1) unfolding video_inv_def same
    by (auto simp: nth_append split: main_pc.splits)
qed

lemma finish_inv: "video_inv v \<Longrightarrow> main_at v = Decoding i queued \<Longrightarrow> video_inv (finish_packet answer i queued v)"
  by (auto simp: video_inv_def finish_packet_def decodable_snoc Let_def split: prod.splits)

lemma drop_inv: "video_inv v \<Longrightarrow> main_at v = Dropping \<Longrightarrow> video_inv (drop_queue v)"
  by (auto simp: video_inv_def drop_queue_def queue_ok_def)

lemma take_inv:
  assumes inv: "video_inv v" and r: "main_at v = Ready"
  shows "video_inv (take_packet v)"
proof (cases "queue (shared v)")
  case Nil
  with inv show ?thesis by (simp add: take_packet_def)
next
  case (Cons queued rest)
  from inv have q: "queue_ok (shared v) (offered v)" by (simp add: video_inv_def)
  then obtain e where e: "offered v = e @ queued # rest" using Cons by (auto simp: queue_ok_def)
  let ?st = "(shared v)\<lparr>queue := rest\<rparr>"
  have q': "queue_ok ?st (offered v)" using q e Cons by (auto simp: queue_ok_def)
  have b: "base (shared v) (offered v) = length e" "length (offered v) - length (queue (shared v)) = length e"
    using e Cons by (simp_all add: base_def)
  have f: "follows ?st (offered v) (length e)" using e by (simp add: follows_def base_def)
  have nw: "\<not> waiting_for_keyframe (shared v)" using q Cons by (auto simp: queue_ok_def)
  show ?thesis
  proof (cases "\<not> keyframe queued \<and> \<not> have_sync v")
    case True
    with inv r Cons q' show ?thesis by (simp add: take_packet_def video_inv_def)
  next
    case False
    have "can_follow (decoded v) (length e) queued"
      using inv r False nw Cons b by (auto simp: video_inv_def can_follow_def follows_def)
    moreover have "length e < length (offered v)" "offered v ! length e = queued" using e by simp_all
    ultimately show ?thesis using inv r False q' f Cons b(2)
      by (auto simp: take_packet_def video_inv_def Let_def)
  qed
qed

lemma video_reachable_inv: "video_reachable v \<Longrightarrow> video_inv v"
proof (induction rule: video_reachable.induct)
  case Start
  then show ?case by (simp add: video_inv_def queue_ok_def video_start_def decodable.simps)
next
  case (Step v v')
  from Step.hyps(2) Step.IH show ?case
    by (cases rule: video_stepE) (auto intro: receive_inv take_inv finish_inv drop_inv)
qed

text \<open>
  C5: the decoder never gets a frame whose predecessor is missing.  Whatever the network thread offers, however the two threads
  interleave and whatever the decoder answers, the queue never holds more than eight packets, and each packet handed to the decoder is
  one that was offered and is a keyframe or directly follows, in the order of arrival, the packet handed over just before,
  which was decoded: dropping packets, trimming the backlog and failing to decode all skip to a keyframe.
\<close>

theorem video_no_gap:
  assumes "video_reachable v"
  shows "length (queue (shared v)) \<le> 8 \<and>
    (\<forall>j < length (decoded v). case decoded v ! j of (i, queued, ok) \<Rightarrow>
       i < length (offered v) \<and> queued = offered v ! i \<and>
       (keyframe queued \<or> 0 < j \<and> (case decoded v ! (j - 1) of (i', _, ok') \<Rightarrow> i = Suc i' \<and> ok')))"
proof -
  from video_reachable_inv [OF assms] have l: "length (queue (shared v)) \<le> 8"
      and d: "decodable (offered v) (decoded v)" by (simp_all add: video_inv_def queue_ok_def)
  have prev: "take j xs \<noteq> [] \<Longrightarrow> j < length xs \<Longrightarrow> 0 < j \<and> last (take j xs) = xs ! (j - 1)"
    for j and xs :: "(nat \<times> queued_video_packet \<times> bool) list"
    by (cases j) (auto simp: take_Suc_conv_app_nth)
  have "case decoded v ! j of (i, queued, ok) \<Rightarrow>
       i < length (offered v) \<and> queued = offered v ! i \<and>
       (keyframe queued \<or> 0 < j \<and> (case decoded v ! (j - 1) of (i', _, ok') \<Rightarrow> i = Suc i' \<and> ok'))"
    if j: "j < length (decoded v)" for j
  proof -
    obtain i queued ok where e: "decoded v ! j = (i, queued, ok)" by (cases "decoded v ! j")
    with d j have "i < length (offered v)" "queued = offered v ! i" "can_follow (take j (decoded v)) i queued"
      by (auto simp: decodable.simps)
    with prev [OF _ j] e show ?thesis by (cases "decoded v ! (j - 1)") (auto simp: can_follow_def)
  qed
  with l show ?thesis by blast
qed

text \<open>A frame without a keyframe before it, a keyframe and a frame, of which the main thread decodes the last two.\<close>

definition demo_video :: video_threads where
  "demo_video =
     (let v = \<lparr>shared = video_start, have_sync = False, main_at = Ready, offered = [], decoded = []\<rparr>;
          v = receive_payload [0x41] 0 6 v;
          v = receive_payload [0x65] 1 7 v;
          v = receive_payload [0x41, 5] 0 8 v;
          v = take_packet v;
          v = finish_packet Rendered 1 \<lparr>packet = [0, 0, 0, 1, 0x65], keyframe = True, q_seq_no = 7\<rparr> v;
          v = take_packet v
      in finish_packet NoFrame 2 \<lparr>packet = [0, 0, 0, 1, 0x41, 5], keyframe = False, q_seq_no = 8\<rparr> v)"

lemma demo_video_reachable:
  "video_reachable demo_video"
  "decoded demo_video = [(1, \<lparr>packet = [0, 0, 0, 1, 0x65], keyframe = True, q_seq_no = 7\<rparr>, True),
     (2, \<lparr>packet = [0, 0, 0, 1, 0x41, 5], keyframe = False, q_seq_no = 8\<rparr>, True)]"
  "queue (shared demo_video) = []"
proof -
  show "decoded demo_video = [(1, \<lparr>packet = [0, 0, 0, 1, 0x65], keyframe = True, q_seq_no = 7\<rparr>, True),
       (2, \<lparr>packet = [0, 0, 0, 1, 0x41, 5], keyframe = False, q_seq_no = 8\<rparr>, True)]"
    "queue (shared demo_video) = []"
    by code_simp+
  show "video_reachable demo_video"
  proof -
    let ?v0 = "\<lparr>shared = video_start, have_sync = False, main_at = Ready, offered = [], decoded = []\<rparr>"
    let ?v1 = "receive_payload [0x41] 0 6 ?v0"
    let ?v2 = "receive_payload [0x65] 1 7 ?v1"
    let ?v3 = "receive_payload [0x41, 5] 0 8 ?v2"
    let ?q = "\<lparr>packet = [0, 0, 0, 1, 0x65], keyframe = True, q_seq_no = 7\<rparr>"
    let ?v5 = "finish_packet Rendered 1 ?q (take_packet ?v3)"
    have "video_reachable ?v3"
      by (rule video_reachable.Step [OF video_reachable.Step [OF video_reachable.Step [OF video_reachable.Start
            video_step.Receive] video_step.Receive] video_step.Receive])
    moreover have ready: "main_at ?v3 = Ready" by (simp add: receive_payload_def)
    ultimately have r4: "video_reachable (take_packet ?v3)" by (blast intro: video_reachable.Step video_step.Take)
    have "main_at (take_packet ?v3) = Decoding 1 ?q" by code_simp
    with r4 have r5: "video_reachable ?v5" by (blast intro: video_reachable.Step video_step.Finish)
    have "main_at ?v5 = Ready" by code_simp
    with r5 have r6: "video_reachable (take_packet ?v5)" by (blast intro: video_reachable.Step video_step.Take)
    have "main_at (take_packet ?v5) = Decoding 2 \<lparr>packet = [0, 0, 0, 1, 0x41, 5], keyframe = False, q_seq_no = 8\<rparr>"
      by code_simp
    with r6 show ?thesis unfolding demo_video_def Let_def
      by (blast intro: video_reachable.Step video_step.Finish)
  qed
qed

theorem video_no_gap_witness:
  "length (queue (shared demo_video)) \<le> 8 \<and>
   decoded demo_video ! 1 = (2, \<lparr>packet = [0, 0, 0, 1, 0x41, 5], keyframe = False, q_seq_no = 8\<rparr>, True) \<and>
   2 < length (offered demo_video) \<and>
   offered demo_video ! 2 = \<lparr>packet = [0, 0, 0, 1, 0x41, 5], keyframe = False, q_seq_no = 8\<rparr>"
proof -
  note gap = video_no_gap [OF demo_video_reachable(1)]
  have "1 < length (decoded demo_video)" by (simp add: demo_video_reachable(2))
  from gap [THEN conjunct2, rule_format, OF this] gap [THEN conjunct1] show ?thesis
    by (simp add: demo_video_reachable(2))
qed

end
