(* ===== verification/VideoPath.thy ===== *)
theory VideoPath
  imports MediaServer ClientVideo
begin

text \<open>
  A video frame from the capture server to the client's decoder queue: the server's fragments
  (\<open>wsh264/app/wsh264.cpp\<close>) are put together by the client (\<open>gateway_client/gateway_client.cpp\<close>), and the server's cutting of
  the bitstream undoes the start codes the client writes.
\<close>

unbundle bit_operations_syntax

section \<open>Fragments and their reassembly\<close>

lemma fragment_packet_eq: "fragment_packet fl i n fid data = fragment fl fid n i data"
proof -
  have w: "(ucast (v AND 0xFF) :: byte) = ucast v" for v :: "'a::len word"
  proof -
    have m: "(0xFF :: 'a word) = mask 8" by (simp add: mask_eq_decr_exp)
    show ?thesis unfolding m by (rule bit_word_eqI) (auto simp: bit_simps dest: bit_imp_le_length)
  qed
  have "replicate (16 + length data) (0 :: byte) = [0, 0, 0, 0, 0, 0, 0, 0, 0, 0, 0, 0, 0, 0, 0, 0] @ replicate (length data) 0"
    by (simp add: numeral_eq_Suc)
  then show ?thesis
    by (simp add: fragment_packet_def fragment_def blit_def write_u16le_def write_u32le_def w Let_def)
qed

lemma concat_pieces:
  "n * 16384 \<le> length payload + 16383 \<Longrightarrow>
   concat (map (piece payload (length payload)) [0..<n]) = take (n * 16384) payload"
proof (induction n)
  case (Suc n)
  then have "n * 16384 \<le> length payload" by simp
  moreover have "take (n * 16384) payload @ piece payload (length payload) n = take (Suc n * 16384) payload"
    using calculation by (auto simp: piece_def slice_def min_def take_add add.commute [of _ 16384])
      (simp add: take_add [symmetric] add.commute)
  ultimately show ?case using Suc by simp
qed simp

lemma fragment_pieces:
  assumes "16384 < length payload"
  defines "n \<equiv> fragment_number (length payload)"
  defines "datas \<equiv> map (piece payload (length payload)) [0..<n]"
  shows "concat datas = payload" and "[] \<notin> set datas" and "length datas = n"
    and "video_packets fid payload = map (\<lambda>i. fragment (video_payload_flags (Some payload) (length payload)) fid
          (word_of_nat n) (word_of_nat i) (datas ! i)) [0..<n]"
proof -
  have n: "n * 16384 \<le> length payload + 16383" "length payload \<le> n * 16384"
    unfolding n_def fragment_number_def by linarith+
  show "concat datas = payload" using concat_pieces [OF n(1)] n(2) by (simp add: datas_def)
  have "piece payload (length payload) i \<noteq> []" if "i < n" for i
    using that length_piece [of "length payload" payload i] by (auto simp: n_def fragment_number_less)
  then show "[] \<notin> set datas" unfolding datas_def set_map by fastforce
  show "length datas = n" by (simp add: datas_def)
  show "video_packets fid payload = map (\<lambda>i. fragment (video_payload_flags (Some payload) (length payload)) fid
          (word_of_nat n) (word_of_nat i) (datas ! i)) [0..<n]"
    using assms(1) by (simp add: video_packets_def fragment_packet_eq datas_def n_def)
qed

text \<open>
  C3: a video frame survives the path from the server to the client.  On a connection that takes the bytes, \<open>send_video_media\<close> sends the frame's packets,
  each sealed in a binary frame of its own under consecutive sequence numbers (after the announcement of the nonce, if it has not gone out);
  and whatever order they arrive in, some of them more than once, the client puts a frame of more than 16384 bytes together when the last missing
  one arrives, exactly once and with the flags of its NAL type, and passes a smaller one through.
\<close>

theorem video_frame_path:
  assumes c: "xor_stream_cipher c" and alloc: "\<forall>n. malloc_ok n" and ne: "payload \<noteq> []"
    and len: "length payload \<le> 16384 * 65535"
    and ps: "ps = video_packets (video_frame_id a) payload"
    and ready: "app_ready (length (outgoing_media c a 1 ps)) a"
    and arrival: "j < length ps" "fst ` set order = {..<length ps} - {j}"
    and st: "between_frames (video_frame_id a) (word_of_nat (length ps)) st"
  shows "(\<exists>a'. send_video_media c malloc_ok a (Some (payload @ extra)) (length payload) = Ret (0, a') \<and>
            app_sent a' = app_sent a @ outgoing_media c a 1 ps) \<and>
    (16384 < length payload \<longrightarrow>
       fst (feed st (map (\<lambda>(i, fl, seq). (ps ! i, fl, seq)) (order @ [(j, fl0, seq0)]))) =
         [(payload, video_payload_flags (Some payload) (length payload))]) \<and>
    (length payload \<le> 16384 \<and> take 4 payload \<noteq> str ''VFG1'' \<longrightarrow>
       ps = [payload] \<and> feed st [(payload, fl0, seq0)] = ([(payload, fl0)], st))"
proof (intro conjI impI)
  show "\<exists>a'. send_video_media c malloc_ok a (Some (payload @ extra)) (length payload) = Ret (0, a') \<and>
      app_sent a' = app_sent a @ outgoing_media c a 1 ps"
    using send_video_media_ok [OF c alloc ne len, of a 0 extra] ready ps by auto
  show "fst (feed st (map (\<lambda>(i, fl, seq). (ps ! i, fl, seq)) (order @ [(j, fl0, seq0)]))) =
      [(payload, video_payload_flags (Some payload) (length payload))]" if big: "16384 < length payload"
  proof -
    let ?n = "fragment_number (length payload)" and ?fl = "video_payload_flags (Some payload) (length payload)"
    let ?datas = "map (piece payload (length payload)) [0..<?n]"
    note f = fragment_pieces [OF big]
    have n: "?n < 2 ^ 16" using len by (simp add: fragment_number_def)
    have lp: "length ps = ?n" by (simp add: ps f(4))
    have st': "between_frames (video_frame_id a) (word_of_nat (length ?datas)) st" using st lp by simp
    have ld: "length ?datas < 2 ^ 16" using n by simp
    have order: "fst ` set order \<subseteq> {..<length ?datas} - {j}" "{..<length ?datas} - {j} \<subseteq> fst ` set order" "j < length ?datas"
      using arrival lp by simp_all
    have "map (\<lambda>(i, fl, seq). (ps ! i, fl, seq)) (order @ [(j, fl0, seq0)]) =
        fragments_of ?fl (video_frame_id a) ?datas (order @ [(j, fl0, seq0)])"
      unfolding fragments_of_def
    proof (rule map_cong [OF refl])
      fix x assume x: "x \<in> set (order @ [(j, fl0, seq0)])"
      obtain i fl seq where e: "x = (i, fl, seq)" by (cases x)
      have "i \<in> insert j (fst ` set order)" using x e by force
      then have "i < ?n" using arrival lp by auto
      then show "(case x of (i, fl, seq) \<Rightarrow> (ps ! i, fl, seq)) =
          (case x of (i, fl0, seq) \<Rightarrow> (fragment ?fl (video_frame_id a) (word_of_nat (length ?datas)) (word_of_nat i) (?datas ! i), fl0, seq))"
        by (simp add: e ps f(4))
    qed
    with feed_frame [OF st' ld f(2) order, of ?fl fl0 seq0] f(1) show ?thesis by auto
  qed
  assume "length payload \<le> 16384 \<and> take 4 payload \<noteq> str ''VFG1''"
  then show "ps = [payload]" "feed st [(payload, fl0, seq0)] = ([(payload, fl0)], st)"
    by (simp_all add: ps video_packets_def reassemble_video_payload_def del: str_simps)
qed

text \<open>A keyframe of 16400 bytes, whose two fragments arrive in the wrong order, the second one twice.\<close>

definition demo_app :: "nat \<Rightarrow> app" where
  "demo_app n = \<lparr>app_state = 2,
     conn = \<lparr>client_sock = Some \<lparr>incoming = [], outgoing = replicate n (STake 1), sent = []\<rparr>, ws_state = 1, close_thrd = False,
       last_pong_id = -1, current_ping_id = -1\<rparr>,
     session_nonce = replicate 12 7, media_seq = 3, audio_chunk_index = 0, video_frame_id = 5, pending_audio_packets = 0,
     crypto_init_sent = False\<rparr>"

lemma demo_app_ready: "\<exists>n. app_ready (length (outgoing_media c (demo_app n) 1 ps)) (demo_app n)"
  by (intro exI [of _ "length (outgoing_media c (demo_app 0) 1 ps)"])
     (simp add: app_ready_def demo_app_def willing_def outgoing_media_def announce_def)

theorem video_frame_path_witness:
  "\<exists>n a'. send_video_media toy_cipher (\<lambda>_. True) (demo_app n) (Some (replicate 16400 0x65)) 16400 = Ret (0, a') \<and>
     fst (feed video_start (map (\<lambda>i. (video_packets 5 (replicate 16400 0x65) ! i, 0, 9)) [1, 1, 0])) =
       [(replicate 16400 0x65, 1)]"
proof -
  let ?p = "replicate 16400 (0x65 :: byte)"
  let ?ps = "video_packets 5 ?p"
  have lps: "length ?ps = 2" by (simp add: video_packets_def fragment_number_def)
  obtain n where n: "app_ready (length (outgoing_media toy_cipher (demo_app n) 1 ?ps)) (demo_app n)"
    using demo_app_ready by blast
  have id: "video_frame_id (demo_app n) = 5" by (simp add: demo_app_def)
  have fl: "video_payload_flags (Some ?p) (length ?p) = 1" by (simp add: video_payload_flags_def)
  have ne: "?p \<noteq> []" and len: "length ?p \<le> 16384 * 65535" and big: "16384 < length ?p"
    and st: "between_frames 5 (word_of_nat (length ?ps)) video_start"
    and order: "fst ` set [(1 :: nat, 0 :: byte, 9 :: u32), (1, 0, 9)] = {..<length ?ps} - {0}"
    and j: "0 < length ?ps"
    by (simp_all add: between_frames_def video_start_def lps lessThan_Suc numeral_2_eq_2) auto
  show ?thesis
    using video_frame_path [where a = "demo_app n" and extra = "[]" and malloc_ok = "\<lambda>_. True" and ?fl0.0 = 0 and ?seq0.0 = 9,
        unfolded id, OF toy_cipher_xor _ ne len refl n j order st] big
    unfolding fl by (auto simp del: feed.simps)
qed

section \<open>Cutting the bitstream\<close>

text \<open>
  A bitstream as start codes of three or of four bytes, each followed by the bytes of its unit.  No unit has a start code
  in it, and a unit in front of a code of three bytes does not end with a zero, which would belong to the code.
\<close>

definition start_code :: "bool \<Rightarrow> byte list" where
  "start_code four = (if four then [0, 0, 0, 1] else [0, 0, 1])"

definition unit_stream :: "(bool \<times> byte list) list \<Rightarrow> byte list" where
  "unit_stream us = concat (map (\<lambda>(four, nal). start_code four @ nal) us)"

definition no_code :: "byte list \<Rightarrow> bool" where
  "no_code nal \<longleftrightarrow> (\<forall>i < length nal - 2. \<not> (nal ! i = 0 \<and> nal ! (i + 1) = 0 \<and> nal ! (i + 2) = 1))"

definition before_code :: "byte list \<Rightarrow> (bool \<times> byte list) list \<Rightarrow> bool" where
  "before_code nal us \<longleftrightarrow> (case us of [] \<Rightarrow> True | (four, _) # _ \<Rightarrow> four \<or> nal = [] \<or> last nal \<noteq> 0)"

fun units_ok :: "(bool \<times> byte list) list \<Rightarrow> bool" where
  "units_ok [] = True"
| "units_ok ((four, nal) # us) = (no_code nal \<and> before_code nal us \<and> units_ok us)"

lemma unit_stream_simps [simp]:
  "unit_stream [] = []" "unit_stream ((four, nal) # us) = start_code four @ nal @ unit_stream us"
  "unit_stream (us @ vs) = unit_stream us @ unit_stream vs"
  by (simp_all add: unit_stream_def)

text \<open>The bitstream of some NAL units as the client writes them for its decoder.\<close>

lemma annexb_units: "[] \<notin> set nals \<Longrightarrow> foldl annexb_append [] nals = unit_stream (map (Pair True) nals)"
proof -
  have "[] \<notin> set nals \<Longrightarrow> foldl annexb_append acc nals = acc @ unit_stream (map (Pair True) nals)" for acc
    by (induction nals arbitrary: acc) (auto simp: annexb_append_def start_code_def)
  then show "[] \<notin> set nals \<Longrightarrow> foldl annexb_append [] nals = unit_stream (map (Pair True) nals)" by simp
qed

text \<open>Whatever stands behind a start code can be read that way.\<close>

lemma units_exist: "\<exists>nal us. units_ok ((four, nal) # us) \<and> nal @ unit_stream us = bs"
proof (induction bs arbitrary: four rule: length_induct)
  case (1 bs)
  let ?code = "\<lambda>i. i < length bs - 2 \<and> bs ! i = 0 \<and> bs ! (i + 1) = 0 \<and> bs ! (i + 2) = 1"
  show ?case
  proof (cases "\<exists>i. ?code i")
    case False
    then show ?thesis by (intro exI [of _ bs] exI [of _ "[]"]) (auto simp: no_code_def before_code_def)
  next
    case True
    define i where "i = (LEAST i. ?code i)"
    have i: "?code i" unfolding i_def by (rule LeastI_ex [OF True])
    have least: "i \<le> j" if "?code j" for j using that unfolding i_def by (intro Least_le [of ?code])
    let ?p = "take i bs" and ?more = "drop (i + 3) bs"
    have l: "i < length bs" "i + 1 < length bs" "i + 2 < length bs" using i by auto
    have "drop i bs = bs ! i # bs ! (i + 1) # bs ! (i + 2) # ?more"
      using Cons_nth_drop_Suc [OF l(1)] Cons_nth_drop_Suc [OF l(2)] Cons_nth_drop_Suc [OF l(3)] by (simp add: numeral_eq_Suc)
    then have "drop i bs = [0, 0, 1] @ ?more" using i by simp
    then have bs: "bs = ?p @ [0, 0, 1] @ ?more" by (metis append_take_drop_id)
    have nc: "no_code (take k bs)" if "k \<le> i" for k
      unfolding no_code_def
    proof (intro allI impI notI)
      fix j assume j: "j < length (take k bs) - 2"
        "take k bs ! j = 0 \<and> take k bs ! (j + 1) = 0 \<and> take k bs ! (j + 2) = 1"
      then have "?code j" by (auto simp: min_def split: if_splits)
      from least [OF this] j(1) that show False by simp
    qed
    have short: "length ?more < length bs" using l(1) by simp
    show ?thesis
    proof (cases "?p = [] \<or> last ?p \<noteq> 0")
      case True
      obtain nal us where "units_ok ((False, nal) # us)" "nal @ unit_stream us = ?more" using 1 short by blast
      with True nc [of i] bs show ?thesis
        by (intro exI [of _ ?p] exI [of _ "(False, nal) # us"]) (simp add: before_code_def start_code_def)
    next
      case False
      obtain nal us where us: "units_ok ((True, nal) # us)" "nal @ unit_stream us = ?more" using 1 short by blast
      have "?p = butlast ?p @ [0]" using False by (metis append_butlast_last_id)
      moreover have "butlast ?p = take (i - 1) bs" using l(1) by (simp add: butlast_take)
      ultimately have p: "?p = take (i - 1) bs @ [0]" by simp
      have "take (i - 1) bs @ unit_stream ((True, nal) # us) = ?p @ [0, 0, 1] @ ?more" unfolding p by (simp add: start_code_def us(2))
      with us(1) nc [of "i - 1"] bs show ?thesis
        by (intro exI [of _ "take (i - 1) bs"] exI [of _ "(True, nal) # us"]) (auto simp: before_code_def)
    qed
  qed
qed

text \<open>A place of a start code, at its last byte.\<close>

definition code_at :: "byte list \<Rightarrow> nat \<Rightarrow> bool" where
  "code_at bs g \<longleftrightarrow> 2 \<le> g \<and> g < length bs \<and> bs ! g = 1 \<and> bs ! (g - 1) = 0 \<and> bs ! (g - 2) = 0"

lemma check_size_step:
  assumes "2 \<le> start" and "start + i < length bs"
  shows "check_size_loop bs start n i (Suc k) =
    (if code_at bs (start + i) then
       Ret (if 3 \<le> i \<and> bs ! (start + i - 3) = 0 then i - 3 else (2 ^ 64 + i - 2) mod 2 ^ 64)
     else check_size_loop bs start n (i + 1) k)"
proof -
  have r: "read_at bs (start + i) = Ret (bs ! (start + i))" "read_at bs (start + i - 1) = Ret (bs ! (start + i - 1))"
      "read_at bs (start + i - 2) = Ret (bs ! (start + i - 2))" "\<not> start + i < 1" "\<not> start + i < 2"
    using assms by auto
  show ?thesis using assms unfolding check_size_loop.simps r code_at_def by (simp add: r)
qed

declare check_size_loop.simps(2) [simp del]

lemma check_size_none:
  assumes "2 \<le> start"
  shows "(\<forall>j. i \<le> j \<and> j < i + k \<longrightarrow> \<not> code_at bs (start + j)) \<Longrightarrow> start + i + k \<le> length bs \<Longrightarrow>
   check_size_loop bs start n i k = Ret n"
proof (induction k arbitrary: i)
  case (Suc k)
  then have "\<not> code_at bs (start + i)" "start + i < length bs" by simp_all
  with check_size_step [OF assms this(2)] Suc show ?case by simp
qed simp

lemma check_size_found:
  assumes "2 \<le> start"
  shows "(\<forall>j. i \<le> j \<and> j < m \<longrightarrow> \<not> code_at bs (start + j)) \<Longrightarrow> code_at bs (start + m) \<Longrightarrow> i \<le> m \<Longrightarrow> m < i + k \<Longrightarrow>
   check_size_loop bs start n i k = Ret (if 3 \<le> m \<and> bs ! (start + m - 3) = 0 then m - 3 else (2 ^ 64 + m - 2) mod 2 ^ 64)"
proof (induction k arbitrary: i)
  case (Suc k)
  have "start + i < length bs" using Suc.prems(2,3) by (simp add: code_at_def)
  note step = check_size_step [OF assms this, of n k]
  show ?case
  proof (cases "i = m")
    case True
    with step Suc.prems show ?thesis by simp
  next
    case False
    with Suc.prems have "\<not> code_at bs (start + i)" by simp
    with step Suc False show ?thesis by simp
  qed
qed simp

text \<open>Inside a unit behind a start code there is none.\<close>

lemma no_code_inside:
  assumes nal: "no_code nal" and j: "j < length nal"
  shows "\<not> code_at (pre @ [1] @ nal @ rest) (length pre + 1 + j)"
proof -
  let ?bs = "pre @ [1] @ nal @ rest"
  have at: "?bs ! (length pre + 1 + k) = nal ! k" if "k < length nal" for k
    using that by (simp add: nth_append)
  have one: "?bs ! length pre = 1" by (simp add: nth_append)
  consider "j = 0" | "j = 1" | i where "j = i + 2" by (metis One_nat_def add_2_eq_Suc' not0_implies_Suc)
  then show ?thesis
  proof cases
    case 1
    then show ?thesis using one by (simp add: code_at_def)
  next
    case 2
    then have e: "length pre + 1 + j - 2 = length pre" by simp
    show ?thesis unfolding code_at_def e one by simp
  next
    case (3 i)
    then have e: "length pre + 1 + j - 1 = length pre + 1 + (i + 1)" "length pre + 1 + j - 2 = length pre + 1 + i" by simp_all
    have l: "i + 1 < length nal" "i < length nal" using j 3 by simp_all
    have "\<not> (nal ! i = 0 \<and> nal ! (i + 1) = 0 \<and> nal ! j = 1)" using nal j 3 by (simp add: no_code_def)
    then show ?thesis by (simp only: code_at_def e at [OF j] at [OF l(1)] at [OF l(2)]) blast
  qed
qed

lemma start_code_parts: "start_code four = replicate (if four then 3 else 2) 0 @ [1]"
  by (simp add: start_code_def numeral_eq_Suc)

lemma check_size_unit:
  assumes nal: "no_code nal" and before: "before_code nal us" and pre: "1 \<le> length pre"
    and size: "length nal + length (unit_stream us) < 2 ^ 31"
  shows "check_size (pre @ [1] @ nal @ unit_stream us) (length pre + 1) (length nal + length (unit_stream us)) = Ret (length nal)"
proof -
  let ?bs = "pre @ [1] @ nal @ unit_stream us" and ?start = "length pre + 1" and ?n = "length nal + length (unit_stream us)"
  have start: "2 \<le> ?start" using pre by simp
  have none: "\<not> code_at ?bs (?start + j)" if "j < length nal" for j using no_code_inside [OF nal that] .
  have cn: "nat (c_int ?n) = ?n" using size by (simp add: c_int_small)
  show ?thesis
  proof (cases us)
    case Nil
    have "check_size_loop ?bs ?start ?n 0 ?n = Ret ?n" by (rule check_size_none [OF start]) (use none Nil in simp_all)
    then show ?thesis using Nil cn by (simp add: check_size_def)
  next
    case (Cons u vs)
    obtain four nal' where u: "u = (four, nal')" by (cases u)
    define z where "z = (if four then 3 else 2 :: nat)"
    define m where "m = length nal + z"
    have z: "2 \<le> z" "z \<le> 3" by (simp_all add: z_def)
    have us: "unit_stream us = replicate z 0 @ [1] @ nal' @ unit_stream vs" by (simp add: Cons u start_code_parts z_def)
    have at: "?bs ! (?start + length nal + k) = unit_stream us ! k" for k
      using nth_append_length_plus [of "pre @ [1] @ nal" "unit_stream us" k] by (simp add: add.assoc)
    have zero: "?bs ! (?start + length nal + k) = 0" if "k < z" for k
      using that unfolding at us by (simp add: nth_append)
    have free: "\<not> code_at ?bs (?start + j)" if "j < m" for j
    proof (cases "j < length nal")
      case False
      then show ?thesis using zero [of "j - length nal"] that by (simp add: code_at_def m_def add.assoc)
    qed (rule none)
    have one: "?bs ! (?start + m) = 1" using at [of z] unfolding us by (simp add: m_def nth_append add.assoc)
    have prev: "?start + m - 1 = ?start + length nal + (z - 1)" "?start + m - 2 = ?start + length nal + (z - 2)"
      using z by (simp_all add: m_def)
    have bounds: "2 \<le> ?start + m" "?start + m < length ?bs" using z by (simp_all add: m_def us)
    have code: "code_at ?bs (?start + m)"
      unfolding code_at_def prev by (intro conjI bounds one zero) (use z in simp_all)
    have "m < 0 + ?n" by (simp add: m_def us)
    with check_size_found [OF start _ code] free
    have loop: "check_size_loop ?bs ?start ?n 0 ?n =
        Ret (if 3 \<le> m \<and> ?bs ! (?start + m - 3) = 0 then m - 3 else (2 ^ 64 + m - 2) mod 2 ^ 64)" by blast
    have "(if 3 \<le> m \<and> ?bs ! (?start + m - 3) = 0 then m - 3 else (2 ^ 64 + m - 2) mod 2 ^ 64) = length nal"
    proof (cases four)
      case True
      then show ?thesis using zero [of 0] by (simp add: m_def z_def)
    next
      case False
      have "nal = [] \<or> last nal \<noteq> 0" using before False by (simp add: before_code_def Cons u)
      moreover have "?bs ! (?start + m - 3) = last nal" if "nal \<noteq> []"
      proof -
        have e: "?start + m - 3 = length (pre @ [1]) + (length nal - 1)" using that False by (cases nal) (simp_all add: m_def z_def)
        have "?bs = (pre @ [1]) @ (nal @ unit_stream us)" by simp
        then have "?bs ! (?start + m - 3) = (nal @ unit_stream us) ! (length nal - 1)" unfolding e by (metis nth_append_length_plus)
        then show ?thesis using that by (simp add: nth_append last_conv_nth)
      qed
      ultimately show ?thesis using False size by (cases "nal = []") (auto simp: m_def z_def)
    qed
    then show ?thesis using loop by (simp only: check_size_def cn)
  qed
qed

lemma next_chunk_at:
  assumes nal: "no_code nal" and before: "before_code nal us"
    and size: "length (unit_stream ((four, nal) # us)) < 2 ^ 31"
  shows "next_chunk (pre @ unit_stream ((four, nal) # us)) (length pre) (length (unit_stream ((four, nal) # us))) =
    Ret (Some (length pre + length (start_code four), length nal))"
proof -
  let ?n = "length nal + length (unit_stream us)" and ?bs = "pre @ unit_stream ((four, nal) # us)"
  define z where "z = (if four then 3 else 2 :: nat)"
  have bs: "?bs = (pre @ replicate z 0) @ [1] @ nal @ unit_stream us" by (simp add: start_code_parts z_def)
  have sz: "?n < 2 ^ 31" using size by simp
  have check: "check_size ?bs (length pre + z + 1) ?n = Ret (length nal)"
    using check_size_unit [OF nal before _ sz, of "pre @ replicate z 0"] unfolding bs by (simp add: z_def)
  have cn: "nat (c_int (z + 1 + ?n)) = z + 1 + ?n" using size by (simp add: c_int_small z_def start_code_def split: if_splits)
  have at: "?bs ! (length pre + k) = (replicate z 0 @ [1]) ! k" if "k \<le> z" for k
    unfolding bs using that by (simp add: nth_append)
  have len: "length pre + z < length ?bs" unfolding bs by simp
  have "next_chunk_loop ?bs (length pre) (z + 1 + ?n) 2 (z + 1 + ?n - 2) = Ret (Some (length pre + z + 1, length nal))"
  proof (cases four)
    case False
    then have z: "z = 2" "z + 1 + ?n - 2 = Suc ?n" by (simp_all add: z_def)
    show ?thesis using at [of 2] at [of 1] at [of 0] len check unfolding z
      by (simp add: read_at_def nth_append numeral_eq_Suc)
  next
    case True
    then have z: "z = 3" "z + 1 + ?n - 2 = Suc (Suc ?n)" by (simp_all add: z_def)
    show ?thesis using at [of 3] at [of 2] at [of 1] len check unfolding z
      by (simp add: read_at_def nth_append numeral_eq_Suc)
  qed
  moreover have "length (unit_stream ((four, nal) # us)) = z + 1 + ?n" by (simp add: start_code_parts z_def)
  moreover have "length (start_code four) = z + 1" by (simp add: start_code_parts z_def)
  ultimately show ?thesis by (simp only: next_chunk_def cn) (simp add: add.assoc)
qed

text \<open>
  C22: the server cuts a bitstream at its start codes, of three or of four bytes, and nowhere else.  The search that has passed \<open>k\<close> units
  finds unit \<open>k\<close>, whole and without the codes around it, and goes on behind it with the size that is left; behind the last one it finds none and
  the stream starts over.  Every bitstream that begins with a start code is of this form; a unit may be empty, and it keeps the zeros in front of a code
  of four bytes.
\<close>

theorem bitstream_cut:
  assumes units: "units_ok us" and size: "length (unit_stream us) < 2 ^ 31"
  shows "(\<forall>k < length us.
      let start = length (unit_stream (take k us)); left = length (unit_stream (drop k us));
          (four, nal) = us ! k; at = start + (if four then 4 else 3) in
      next_chunk (unit_stream us) start left = Ret (Some (at, length nal)) \<and>
      slice at (length nal) (unit_stream us) = nal \<and>
      at + length nal = length (unit_stream (take (Suc k) us)) \<and>
      left - (at - start + length nal) = length (unit_stream (drop (Suc k) us))) \<and>
    next_chunk (unit_stream us) (length (unit_stream us)) 0 = Ret None \<and>
    (\<exists>vs. units_ok vs \<and> unit_stream vs = start_code four @ bs)"
proof (intro conjI allI impI)
  show "next_chunk (unit_stream us) (length (unit_stream us)) 0 = Ret None"
    by (simp add: next_chunk_def c_int_def)
  obtain nal vs where "units_ok ((four, nal) # vs)" "nal @ unit_stream vs = bs" using units_exist by blast
  then show "\<exists>vs. units_ok vs \<and> unit_stream vs = start_code four @ bs" by (intro exI [of _ "(four, nal) # vs"]) simp
next
  fix k assume k: "k < length us"
  obtain f nal where u: "us ! k = (f, nal)" by (cases "us ! k")
  let ?pre = "unit_stream (take k us)" and ?rest = "drop (Suc k) us"
  have drop: "drop k us = (f, nal) # ?rest" using k u by (metis Cons_nth_drop_Suc)
  have all: "unit_stream us = ?pre @ unit_stream ((f, nal) # ?rest)" unfolding drop [symmetric]
    by (metis append_take_drop_id unit_stream_simps(3))
  have "units_ok (drop k us)" using units by (induction us arbitrary: k) (auto split: nat.split simp: drop_Cons)
  then have ok: "no_code nal" "before_code nal ?rest" by (simp_all add: drop)
  have sz: "length (unit_stream ((f, nal) # ?rest)) < 2 ^ 31" using size unfolding all by simp
  have c: "length (start_code f) = (if f then 4 else 3)" by (simp add: start_code_def)
  note cut = next_chunk_at [OF ok sz, of ?pre, folded all, unfolded c]
  have "slice (length ?pre + (if f then 4 else 3)) (length nal) (unit_stream us) = nal"
    unfolding all unit_stream_simps c [symmetric] by (simp add: slice_def)
  moreover have "unit_stream (take (Suc k) us) = ?pre @ start_code f @ nal"
    by (simp add: take_Suc_conv_app_nth [OF k] u)
  ultimately show "let start = length ?pre; left = length (unit_stream (drop k us)); (four, nal) = us ! k;
        at = start + (if four then 4 else 3) in
      next_chunk (unit_stream us) start left = Ret (Some (at, length nal)) \<and>
      slice at (length nal) (unit_stream us) = nal \<and>
      at + length nal = length (unit_stream (take (Suc k) us)) \<and>
      left - (at - start + length nal) = length (unit_stream (drop (Suc k) us))"
    using cut c unfolding u drop Let_def prod.case by (simp split: if_splits)
qed

theorem bitstream_cut_witness:
  "unit_stream [(True, [0x67, 0, 1]), (False, [0x68, 0]), (True, []), (False, [0x65, 0, 0, 3, 1])] =
     [0, 0, 0, 1, 0x67, 0, 1, 0, 0, 1, 0x68, 0, 0, 0, 0, 1, 0, 0, 1, 0x65, 0, 0, 3, 1] \<and>
   next_chunk (unit_stream [(True, [0x67, 0, 1]), (False, [0x68, 0]), (True, []), (False, [0x65, 0, 0, 3, 1])]) 7 17 =
     Ret (Some (10, 2))"
proof -
  let ?us = "[(True, [0x67, 0, 1]), (False, [0x68, 0]), (True, []), (False, [0x65, 0, 0, 3, 1])] :: (bool \<times> byte list) list"
  have ok: "units_ok ?us" by code_simp
  have s: "unit_stream ?us = [0, 0, 0, 1, 0x67, 0, 1, 0, 0, 1, 0x68, 0, 0, 0, 0, 1, 0, 0, 1, 0x65, 0, 0, 3, 1]"
    by (simp add: start_code_def)
  have len: "length (unit_stream ?us) < 2 ^ 31" unfolding s by simp
  from bitstream_cut [OF ok len, THEN conjunct1, rule_format, of 1] s show ?thesis
    by (simp add: start_code_def eval_nat_numeral)
qed

end
