(* ===== verification/ServerCommands.thy ===== *)
theory ServerCommands
  imports MediaServer CJsonSafe
begin

text \<open>
  The commands of the capture server (\<open>wsh264/app/wsh264.cpp\<close>): opening and closing a connection, and the JSON texts by which a
  client starts and stops the streams.  A streaming thread is known by its kind; a handler that only prints is
  modelled by the pointers it follows.  Following a null pointer is \<open>Fault\<close>, waiting for a thread that does not exist
  \<open>Timeout\<close>; printing a null string is left aside.
\<close>

unbundle bit_operations_syntax

section \<open>State\<close>

datatype streaming_thread = Video_thread | Audio_thread

text \<open>\<open>srv_config\<close> is the file \<open>config.json\<close>, if it can be read; \<open>srv_exited\<close> says that \<open>exit\<close> was called.\<close>

record server =
  srv_app :: app
  srv_threads :: "streaming_thread list"
  srv_config :: "byte list option"
  srv_exited :: bool

abbreviation (input) STATE_STREAMING_VIDEO2 :: u32 where "STATE_STREAMING_VIDEO2 \<equiv> 4"

definition has_state :: "server \<Rightarrow> u32 \<Rightarrow> bool" where
  "has_state s m \<longleftrightarrow> app_state (srv_app s) AND m \<noteq> 0"

definition set_state :: "u32 \<Rightarrow> server \<Rightarrow> server" where
  "set_state m s = s\<lparr>srv_app := (srv_app s)\<lparr>app_state := app_state (srv_app s) OR m\<rparr>\<rparr>"

definition clear_state :: "u32 \<Rightarrow> server \<Rightarrow> server" where
  "clear_state m s = s\<lparr>srv_app := (srv_app s)\<lparr>app_state := app_state (srv_app s) AND NOT m\<rparr>\<rparr>"

section \<open>The commands\<close>

definition start_video_stream :: "server \<Rightarrow> server outcome" where
  "start_video_stream s =
     Ret (if \<not> has_state s STATE_STREAMING_VIDEO
          then (set_state STATE_STREAMING_VIDEO s)\<lparr>srv_threads := srv_threads s @ [Video_thread]\<rparr> else s)"

definition start_video_stream2 :: "server \<Rightarrow> server outcome" where
  "start_video_stream2 s = Ret (set_state STATE_STREAMING_VIDEO2 s)"

definition stop_video_stream2 :: "server \<Rightarrow> server outcome" where
  "stop_video_stream2 s = Ret (clear_state STATE_STREAMING_VIDEO2 s)"

text \<open>
  Stopping raises the flag and waits; the thread sees it at the start of its next turn, clears both flags and
  ends (\<open>h264_streaming\<close>, \<open>audio_streaming\<close>).
\<close>

definition stop_video_stream :: "server \<Rightarrow> server outcome" where
  "stop_video_stream s =
     (if has_state s STATE_STREAMING_VIDEO then
        let s = set_state STATE_CLOSING_VIDEO s in
        if Video_thread \<in> set (srv_threads s) then
          Ret ((clear_state STATE_STREAMING_VIDEO (clear_state STATE_CLOSING_VIDEO s))
                \<lparr>srv_threads := removeAll Video_thread (srv_threads s)\<rparr>)
        else Timeout
      else Ret s)"

definition start_audio_stream_cmd :: "server \<Rightarrow> server outcome" where
  "start_audio_stream_cmd s =
     Ret (if \<not> has_state s STATE_STREAMING_AUDIO
          then (set_state STATE_STREAMING_AUDIO s)\<lparr>srv_threads := srv_threads s @ [Audio_thread]\<rparr> else s)"

definition stop_audio_stream :: "server \<Rightarrow> server outcome" where
  "stop_audio_stream s =
     (if has_state s STATE_STREAMING_AUDIO then
        let s = set_state STATE_CLOSING_AUDIO s in
        if Audio_thread \<in> set (srv_threads s) then
          Ret ((clear_state STATE_CLOSING_AUDIO (clear_state STATE_STREAMING_AUDIO s))
                \<lparr>srv_threads := removeAll Audio_thread (srv_threads s)\<rparr>)
        else Timeout
      else Ret s)"

definition deref :: "'a option \<Rightarrow> 'a outcome" where
  "deref p = (case p of None \<Rightarrow> Fault | Some x \<Rightarrow> Ret x)"

definition start_mp4_record :: "json option \<Rightarrow> server \<Rightarrow> server outcome" where
  "start_mp4_record obj s =
     (let param = cJSON_GetObjectItem obj (str ''param'');
          folder = cJSON_GetObjectItem param (str ''folder'');
          record_seconds = cJSON_GetObjectItem param (str ''record_seconds'') in
      obind (deref folder) (\<lambda>_. obind (deref record_seconds) (\<lambda>_. Ret s)))"

definition send_text :: "(nat \<Rightarrow> bool) \<Rightarrow> byte list \<Rightarrow> server \<Rightarrow> server outcome" where
  "send_text malloc_ok txt s =
     obind (ws_sendframe malloc_ok (conn (srv_app s)) txt (word_of_nat (length txt)) WS_FR_OP_TXT) (\<lambda>(rc, cli).
       Ret (s\<lparr>srv_app := (srv_app s)\<lparr>conn := cli\<rparr>\<rparr>))"

definition get_version :: "(nat \<Rightarrow> bool) \<Rightarrow> server \<Rightarrow> server outcome" where
  "get_version malloc_ok s =
     send_text malloc_ok (str ''{'' @ quoted ''type'' @ str '': '' @ quoted ''get_version'' @ str '', '' @ quoted ''result'' @
       str '': { '' @ quoted ''value'' @ str '' : ['' @ quoted ''1.0.0'' @ str '']}}'') s"

text \<open>The text goes up to the first NUL of the file.\<close>

definition get_config :: "(nat \<Rightarrow> bool) \<Rightarrow> server \<Rightarrow> server outcome" where
  "get_config malloc_ok s =
     (case srv_config s of
        None \<Rightarrow> Ret (s\<lparr>srv_exited := True\<rparr>)
      | Some file \<Rightarrow>
          if \<not> malloc_ok (length file + 1) then Ret (s\<lparr>srv_exited := True\<rparr>)
          else send_text malloc_ok (takeWhile (\<lambda>b. b \<noteq> 0) file) s)"

definition ircut_onoff :: "json option \<Rightarrow> server \<Rightarrow> server outcome" where
  "ircut_onoff obj s =
     (let param = cJSON_GetObjectItem obj (str ''param'')
      in obind (deref (cJSON_GetObjectItem param (str ''on''))) (\<lambda>_. Ret s))"

definition isp_fps :: "json option \<Rightarrow> server \<Rightarrow> server outcome" where
  "isp_fps obj s =
     (let param = cJSON_GetObjectItem obj (str ''param'')
      in obind (deref (cJSON_GetObjectItem param (str ''isp_fps''))) (\<lambda>_. Ret s))"

text \<open>The table of the commands; those that only print leave the state as it is.\<close>

definition app_cmd :: "(nat \<Rightarrow> bool) \<Rightarrow> json option \<Rightarrow> (byte list \<times> (server \<Rightarrow> server outcome)) list" where
  "app_cmd malloc_ok obj =
     [(str ''start_stream'', start_video_stream), (str ''start_stream2'', start_video_stream2),
      (str ''stop_stream'', stop_video_stream), (str ''start_audio_stream'', start_audio_stream_cmd),
      (str ''stop_audio_stream'', stop_audio_stream), (str ''get_version'', get_version malloc_ok),
      (str ''set_smartbitrate'', Ret), (str ''set_config'', Ret), (str ''get_config'', get_config malloc_ok),
      (str ''md'', Ret), (str ''ircut'', ircut_onoff obj), (str ''isp_fps'', isp_fps obj),
      (str ''start_mp4_record'', start_mp4_record obj), (str ''stop_mp4_record'', Ret), (str ''mp4_record_status'', Ret)]"

text \<open>The loop over the table; \<open>strcmp\<close> with a null string faults.\<close>

fun dispatch :: "(byte list \<times> (server \<Rightarrow> server outcome)) list \<Rightarrow> byte list option \<Rightarrow> server \<Rightarrow> server outcome" where
  "dispatch [] cmd s = Ret s"
| "dispatch ((name, func) # cmds) cmd s =
     (case cmd of
        None \<Rightarrow> Fault
      | Some c \<Rightarrow> if name = c then func s else dispatch cmds cmd s)"

definition process_command ::
  "(byte list \<Rightarrow> nat \<times> rat) \<Rightarrow> bool list \<Rightarrow> (nat \<Rightarrow> bool) \<Rightarrow> byte list \<Rightarrow> server \<Rightarrow> server outcome" where
  "process_command strtod oks malloc_ok msg s =
     obind (cJSON_Parse strtod oks (Some msg)) (\<lambda>root.
       case cJSON_GetObjectItem root (str ''cmd'') of
         None \<Rightarrow> Ret s
       | Some r_cmd \<Rightarrow> dispatch (app_cmd malloc_ok root) (valuestring r_cmd) s)"

definition app_onmessage ::
  "(byte list \<Rightarrow> nat \<times> rat) \<Rightarrow> bool list \<Rightarrow> (nat \<Rightarrow> bool) \<Rightarrow> byte list \<Rightarrow> byte \<Rightarrow> server \<Rightarrow> server outcome" where
  "app_onmessage strtod oks malloc_ok msg type s =
     (if type AND WS_FR_OP_TXT = WS_FR_OP_TXT then process_command strtod oks malloc_ok msg s else Ret s)"

section \<open>Opening and closing\<close>

text \<open>
  \<open>nonce\<close> is what \<open>crypto_stream_fill_random\<close> puts into the zeroed object; its failure is not looked at, nor is that of
  \<open>malloc\<close>.  The code sets \<open>app->conn\<close> when a stream starts, always to the connection the object belongs to; the model has
  it there from the start.
\<close>

definition app_onopen :: "bool \<Rightarrow> ws_connection \<Rightarrow> byte list \<Rightarrow> server \<Rightarrow> server outcome" where
  "app_onopen alloc cli nonce s =
     (if \<not> alloc then Fault
      else Ret (s\<lparr>srv_app := \<lparr>app_state = 0, conn = cli, session_nonce = nonce, media_seq = 0, audio_chunk_index = 0,
                  video_frame_id = 0, pending_audio_packets = 0, crypto_init_sent = False\<rparr>, srv_threads := []\<rparr>))"

definition app_onclose :: "server \<Rightarrow> server outcome" where
  "app_onclose s = obind (stop_video_stream s) stop_audio_stream"

section \<open>Streams and threads\<close>

text \<open>
  Between two commands the flags say which threads run, no thread runs twice and none is about to stop.
\<close>

definition server_ok :: "server \<Rightarrow> bool" where
  "server_ok s \<longleftrightarrow>
     (has_state s STATE_STREAMING_VIDEO \<longleftrightarrow> Video_thread \<in> set (srv_threads s)) \<and>
     (has_state s STATE_STREAMING_AUDIO \<longleftrightarrow> Audio_thread \<in> set (srv_threads s)) \<and>
     \<not> has_state s STATE_CLOSING_VIDEO \<and> \<not> has_state s STATE_CLOSING_AUDIO \<and> distinct (srv_threads s)"

lemma start_video_ok: "server_ok s \<Longrightarrow> start_video_stream s = Ret s' \<Longrightarrow> server_ok s'"
  by (auto simp: server_ok_def start_video_stream_def has_state_def set_state_def and.assoc bit.conj_disj_distrib2)

lemma start_audio_ok: "server_ok s \<Longrightarrow> start_audio_stream_cmd s = Ret s' \<Longrightarrow> server_ok s'"
  by (auto simp: server_ok_def start_audio_stream_cmd_def has_state_def set_state_def and.assoc bit.conj_disj_distrib2)

lemma second_stream_ok:
  "server_ok s \<Longrightarrow> start_video_stream2 s = Ret s' \<Longrightarrow> server_ok s'"
  "server_ok s \<Longrightarrow> stop_video_stream2 s = Ret s' \<Longrightarrow> server_ok s'"
  by (auto simp: server_ok_def start_video_stream2_def stop_video_stream2_def has_state_def set_state_def clear_state_def
      and.assoc bit.conj_disj_distrib2)

text \<open>Stopping always returns, with the stream's flags down and its thread gone.\<close>

lemma stop_video_ok:
  "server_ok s \<Longrightarrow> \<exists>s'. stop_video_stream s = Ret s' \<and> server_ok s' \<and> Video_thread \<notin> set (srv_threads s') \<and>
     (Audio_thread \<in> set (srv_threads s') \<longleftrightarrow> Audio_thread \<in> set (srv_threads s))"
  by (auto simp: server_ok_def stop_video_stream_def has_state_def set_state_def clear_state_def Let_def distinct_removeAll
      and.assoc bit.conj_disj_distrib2)

lemma stop_audio_ok:
  "server_ok s \<Longrightarrow> \<exists>s'. stop_audio_stream s = Ret s' \<and> server_ok s' \<and> Audio_thread \<notin> set (srv_threads s') \<and>
     (Video_thread \<in> set (srv_threads s') \<longleftrightarrow> Video_thread \<in> set (srv_threads s))"
  by (auto simp: server_ok_def stop_audio_stream_def has_state_def set_state_def clear_state_def Let_def distinct_removeAll
      and.assoc bit.conj_disj_distrib2)

lemma send_text_ok:
  assumes "length txt < 2 ^ 64"
  shows "send_text malloc_ok txt s \<noteq> Fault" and "send_text malloc_ok txt s = Ret s' \<Longrightarrow> server_ok s \<Longrightarrow> server_ok s'"
proof -
  have u: "unat (word_of_nat (length txt) :: 64 word) = length txt" using assms by (intro unat_word_of_nat) simp
  have nf: "client_send cli r \<noteq> Fault" for cli r by (auto simp: client_send_def split: option.split)
  have "ws_response malloc_ok txt (word_of_nat (length txt)) 1 \<noteq> Fault" by (simp add: ws_response_def Let_def u)
  with nf have "ws_sendframe malloc_ok (conn (srv_app s)) txt (word_of_nat (length txt)) 1 \<noteq> Fault"
    by (cases "ws_response malloc_ok txt (word_of_nat (length txt)) 1") (auto simp: ws_sendframe_def split: option.split)
  then show "send_text malloc_ok txt s \<noteq> Fault"
    by (cases "ws_sendframe malloc_ok (conn (srv_app s)) txt (word_of_nat (length txt)) 1") (auto simp: send_text_def)
  show "send_text malloc_ok txt s = Ret s' \<Longrightarrow> server_ok s \<Longrightarrow> server_ok s'"
    by (auto simp: send_text_def obind_Ret_conv server_ok_def has_state_def)
qed

text \<open>The commands that follow pointers they have not looked at, and the members they need.\<close>

definition missing_member :: "byte list \<Rightarrow> json option \<Rightarrow> bool" where
  "missing_member cmd obj \<longleftrightarrow>
     (let param = cJSON_GetObjectItem obj (str ''param'') in
      cmd = str ''ircut'' \<and> cJSON_GetObjectItem param (str ''on'') = None \<or>
      cmd = str ''isp_fps'' \<and> cJSON_GetObjectItem param (str ''isp_fps'') = None \<or>
      cmd = str ''start_mp4_record'' \<and>
        (cJSON_GetObjectItem param (str ''folder'') = None \<or> cJSON_GetObjectItem param (str ''record_seconds'') = None))"

lemma deref_simps [simp]: "deref None = Fault" "deref (Some x) = Ret x"
  by (simp_all add: deref_def)

lemma dispatch_cases:
  "dispatch cmds (Some c) s = Ret s \<or> (\<exists>func. (c, func) \<in> set cmds \<and> dispatch cmds (Some c) s = func s)"
  by (induction cmds "Some c" s rule: dispatch.induct) auto

lemma cmd_effect:
  assumes ok: "server_ok s" and m: "(c, func) \<in> set (app_cmd malloc_ok obj)"
    and config: "\<forall>f. srv_config s = Some f \<longrightarrow> length f < 2 ^ 64"
  shows "(func s = Ret s' \<longrightarrow> server_ok s') \<and> (func s = Fault \<longrightarrow> missing_member c obj)"
proof -
  have version: "length (str ''{'' @ quoted ''type'' @ str '': '' @ quoted ''get_version'' @ str '', '' @ quoted ''result'' @
       str '': { '' @ quoted ''value'' @ str '' : ['' @ quoted ''1.0.0'' @ str '']}}'') < 2 ^ 64"
    by (simp add: quoted_def)
  have v: "(get_version malloc_ok s = Ret s' \<longrightarrow> server_ok s') \<and> get_version malloc_ok s \<noteq> Fault"
    using send_text_ok [OF version] ok unfolding get_version_def by blast
  have g: "(get_config malloc_ok s = Ret s' \<longrightarrow> server_ok s') \<and> get_config malloc_ok s \<noteq> Fault"
  proof (cases "srv_config s")
    case None
    with ok show ?thesis by (auto simp: get_config_def server_ok_def has_state_def)
  next
    case (Some f)
    have "length (takeWhile (\<lambda>b. b \<noteq> 0) f) < 2 ^ 64" using config Some length_takeWhile_le by (meson le_less_trans)
    from send_text_ok [OF this] ok Some show ?thesis by (auto simp: get_config_def server_ok_def has_state_def)
  qed
  have st: "(stop_video_stream s = Ret s' \<longrightarrow> server_ok s') \<and> stop_video_stream s \<noteq> Fault"
      "(stop_audio_stream s = Ret s' \<longrightarrow> server_ok s') \<and> stop_audio_stream s \<noteq> Fault"
    using stop_video_ok [OF ok] stop_audio_ok [OF ok] by auto
  have total: "start_video_stream s \<noteq> Fault" "start_video_stream2 s \<noteq> Fault" "start_audio_stream_cmd s \<noteq> Fault"
    by (simp_all add: start_video_stream_def start_video_stream2_def start_audio_stream_cmd_def)
  have d: "(ircut_onoff obj s = Ret s' \<longrightarrow> server_ok s') \<and> (ircut_onoff obj s = Fault \<longrightarrow> missing_member (str ''ircut'') obj)"
      "(isp_fps obj s = Ret s' \<longrightarrow> server_ok s') \<and> (isp_fps obj s = Fault \<longrightarrow> missing_member (str ''isp_fps'') obj)"
      "(start_mp4_record obj s = Ret s' \<longrightarrow> server_ok s') \<and>
       (start_mp4_record obj s = Fault \<longrightarrow> missing_member (str ''start_mp4_record'') obj)"
    using ok by (auto simp: ircut_onoff_def isp_fps_def start_mp4_record_def missing_member_def Let_def deref_def
        obind_Ret_conv simp del: str_simps split: option.splits)
  from m show ?thesis
    using v g st d total ok start_video_ok [OF ok] start_audio_ok [OF ok] second_stream_ok(1) [OF ok]
    unfolding app_cmd_def set_simps by (elim insertE emptyE) (auto simp del: str_simps)
qed


text \<open>The text \<open>{"cmd":1}\<close>.\<close>

definition demo_server :: server where
  "demo_server = \<lparr>srv_app = \<lparr>app_state = 2, conn = \<lparr>client_sock = None, ws_state = 1, close_thrd = False, last_pong_id = -1,
       current_ping_id = -1\<rparr>, session_nonce = replicate 12 7, media_seq = 3, audio_chunk_index = 0, video_frame_id = 5,
       pending_audio_packets = 0, crypto_init_sent = False\<rparr>, srv_threads = [Video_thread], srv_config = None, srv_exited = False\<rparr>"


end
