(* ===== verification/ClientTransport.thy ===== *)
theory ClientTransport
  imports TcpTransport
begin

text \<open>
  The transport of \<open>gateway_client\<close> (\<open>gateway_client/transport.c\<close>, \<open>gateway_client/transport_libusb.c\<close>):
  a TCP socket or the bulk endpoints of a USB interface behind one set of functions.  What libusb
  answers is a script, like what the operating system answers to the calls on a socket: finding and
  opening devices, and the outcome of every bulk transfer.  The stop flag, which another thread may
  set while a transfer is under way, is raised by an event of the script.
\<close>

unbundle bit_operations_syntax

section \<open>Bulk transfers\<close>

abbreviation (input) LIBUSB_ERROR_NO_DEVICE :: int where "LIBUSB_ERROR_NO_DEVICE \<equiv> -4"
abbreviation (input) LIBUSB_ERROR_TIMEOUT :: int where "LIBUSB_ERROR_TIMEOUT \<equiv> -7"
abbreviation (input) LIBUSB_ERROR_OVERFLOW :: int where "LIBUSB_ERROR_OVERFLOW \<equiv> -8"
abbreviation (input) LIBUSB_ERROR_INTERRUPTED :: int where "LIBUSB_ERROR_INTERRUPTED \<equiv> -10"
abbreviation (input) INT_MAX :: nat where "INT_MAX \<equiv> 2 ^ 31 - 1"

text \<open>
  What the next IN transfer meets: a packet of the device, an error code together with the bytes moved
  before it, or the stop flag raised by another thread before the transfer starts.  The same for OUT
  transfers, with the number of bytes the device takes.
\<close>

datatype bulk_in = InData "byte list" | InError int "byte list" | InStop

datatype bulk_out = OutTake nat | OutError int nat | OutStop

datatype transport_kind = GATEWAY_CLIENT_TRANSPORT_TCP | GATEWAY_CLIENT_TRANSPORT_USB

text \<open>
  A device handle is known by its number.  The last five fields are the environment: the scripts of the two endpoints,
  what the device has received, the handles that are open, and whether the system keeps the rest of a packet that is longer than
  the transfer asked for, for the next transfer; the documented behaviour is to report \<open>LIBUSB_ERROR_OVERFLOW\<close>.
\<close>

record client_transport =
  kind :: transport_kind
  stop_requested :: bool
  tcp_fd :: "sock option"
  usb_ctx :: bool
  usb_handle :: "nat option"
  usb_interface_number :: int
  usb_ep_in :: byte
  usb_ep_out :: byte
  usb_transfer_timeout_ms :: int
  usb_vid :: u16
  usb_pid :: u16
  ins :: "bulk_in list"
  outs :: "bulk_out list"
  usb_sent :: "byte list"
  open_handles :: "nat list"
  keeps_rest :: bool

text \<open>One IN transfer of at most \<open>len\<close> bytes: the return code and the bytes that were moved.\<close>

fun usb_in :: "bool \<Rightarrow> bulk_in list \<Rightarrow> nat \<Rightarrow> (int \<times> byte list \<times> bulk_in list) option" where
  "usb_in keeps [] len = None"
| "usb_in keeps (InData bs # es) len =
     (if length bs \<le> len then Some (0, bs, es)
      else if keeps then Some (0, take len bs, InData (drop len bs) # es)
      else Some (LIBUSB_ERROR_OVERFLOW, take len bs, es))"
| "usb_in keeps (InError rc bs # es) len = Some (if rc < 0 then rc else -1, take len bs, es)"
| "usb_in keeps (InStop # es) len = None"

fun in_size :: "bulk_in list \<Rightarrow> nat" where
  "in_size [] = 0"
| "in_size (InData bs # es) = Suc (length bs) + in_size es"
| "in_size (_ # es) = Suc (in_size es)"

lemma usb_in_shrinks [termination_simp]:
  "usb_in keeps es len = Some (rc, bs, es') \<Longrightarrow> 0 < len \<Longrightarrow> in_size es' < in_size es"
  by (induction keeps es len rule: usb_in.induct) (auto split: if_splits)

text \<open>The stop flag as the next test of the loop finds it.\<close>

fun raised_in :: "client_transport \<Rightarrow> client_transport" where
  "raised_in t = (case ins t of InStop # es \<Rightarrow> t\<lparr>stop_requested := True, ins := es\<rparr> | _ \<Rightarrow> t)"

fun raised_out :: "client_transport \<Rightarrow> client_transport" where
  "raised_out t = (case outs t of OutStop # es \<Rightarrow> t\<lparr>stop_requested := True, outs := es\<rparr> | _ \<Rightarrow> t)"

declare raised_in.simps [simp del] raised_out.simps [simp del]

lemma raised_in_props:
  "in_size (ins (raised_in t)) \<le> in_size (ins t)"
  "kind (raised_in t) = kind t" "usb_handle (raised_in t) = usb_handle t"
  "keeps_rest (raised_in t) = keeps_rest t" "tcp_fd (raised_in t) = tcp_fd t"
  "stop_requested t \<Longrightarrow> stop_requested (raised_in t)"
  by (simp_all add: raised_in.simps split: list.split bulk_in.split)

section \<open>Reading and writing through libusb\<close>

text \<open>
  The loop of \<open>gateway_client_transport_usb_read_exact\<close>.  \<open>offset\<close> is the number of bytes accepted; the bytes moved
  by a transfer that timed out or was interrupted are not counted, and the next transfer overwrites them.
\<close>

function usb_read_loop ::
  "client_transport \<Rightarrow> nat \<Rightarrow> byte list \<Rightarrow> (int \<times> byte list \<times> client_transport) option" where
  "usb_read_loop t len buf =
     (let t = raised_in t in
      if length buf < len \<and> \<not> stop_requested t then
        let chunk_len = (if INT_MAX < len - length buf then INT_MAX else len - length buf) in
        (case usb_in (keeps_rest t) (ins t) chunk_len of
           None \<Rightarrow> None
         | Some (rc, transferred, es) \<Rightarrow>
             let t = t\<lparr>ins := es\<rparr> in
             if rc = 0 then usb_read_loop t len (buf @ transferred)
             else if rc = LIBUSB_ERROR_TIMEOUT then usb_read_loop t len buf
             else if rc = LIBUSB_ERROR_INTERRUPTED then usb_read_loop t len buf
             else if rc = LIBUSB_ERROR_NO_DEVICE then Some (0, buf, t)
             else Some (-1, buf, t))
      else Some (if length buf = len then 1 else 0, buf, t))"
  by pat_completeness auto
termination
  by (relation "measure (\<lambda>(t, len, buf). in_size (ins t))")
     (auto dest!: usb_in_shrinks intro: order_less_le_trans [OF _ raised_in_props(1)] split: if_splits)

declare usb_read_loop.simps [simp del]

lemma usb_read_loop_done:
  "\<not> (length buf < len \<and> \<not> stop_requested (raised_in t)) \<Longrightarrow>
   usb_read_loop t len buf = Some (if length buf = len then 1 else 0, buf, raised_in t)"
  by (subst usb_read_loop.simps) (simp only: Let_def if_False)

lemma usb_read_loop_step:
  assumes "length buf < len \<and> \<not> stop_requested (raised_in t)"
    and "usb_in (keeps_rest (raised_in t)) (ins (raised_in t))
           (if INT_MAX < len - length buf then INT_MAX else len - length buf) = Some (rc, bs, es)"
  shows "usb_read_loop t len buf =
    (if rc = 0 then usb_read_loop (raised_in t\<lparr>ins := es\<rparr>) len (buf @ bs)
     else if rc = LIBUSB_ERROR_TIMEOUT \<or> rc = LIBUSB_ERROR_INTERRUPTED then
       usb_read_loop (raised_in t\<lparr>ins := es\<rparr>) len buf
     else Some (if rc = LIBUSB_ERROR_NO_DEVICE then 0 else -1, buf, raised_in t\<lparr>ins := es\<rparr>))"
  using assms by (subst usb_read_loop.simps) (auto simp: Let_def)

definition usb_read_exact ::
  "client_transport option \<Rightarrow> nat \<Rightarrow> (int \<times> byte list \<times> client_transport option) option" where
  "usb_read_exact transport len =
     (case transport of
        None \<Rightarrow> Some (-1, [], None)
      | Some t \<Rightarrow>
          if usb_handle t = None then Some (-1, [], Some t)
          else map_option (\<lambda>(rc, buf, t). (rc, buf, Some t)) (usb_read_loop t len []))"

text \<open>An OUT transfer: the return code and how many bytes were moved.\<close>

fun usb_out :: "bulk_out list \<Rightarrow> nat \<Rightarrow> (int \<times> nat \<times> bulk_out list) option" where
  "usb_out [] len = None"
| "usb_out (OutTake n # es) len = Some (0, min n len, es)"
| "usb_out (OutError rc n # es) len = Some (if rc < 0 then rc else -1, min n len, es)"
| "usb_out (OutStop # es) len = None"

lemma usb_out_shrinks [termination_simp]: "usb_out es len = Some (rc, n, es') \<Longrightarrow> length es' < length es"
  by (induction es len rule: usb_out.induct) auto

lemma raised_out_props:
  "length (outs (raised_out t)) \<le> length (outs t)" "usb_sent (raised_out t) = usb_sent t"
  by (simp_all add: raised_out.simps split: list.split bulk_out.split)

function usb_write_loop ::
  "client_transport \<Rightarrow> byte list \<Rightarrow> nat \<Rightarrow> (int \<times> client_transport) option" where
  "usb_write_loop t buf offset =
     (let t = raised_out t in
      if offset < length buf \<and> \<not> stop_requested t then
        let chunk_len = (if INT_MAX < length buf - offset then INT_MAX else length buf - offset) in
        (case usb_out (outs t) chunk_len of
           None \<Rightarrow> None
         | Some (rc, transferred, es) \<Rightarrow>
             let t = t\<lparr>outs := es, usb_sent := usb_sent t @ take transferred (drop offset buf)\<rparr> in
             if rc = 0 then
               (if transferred = 0 then Some (-1, t) else usb_write_loop t buf (offset + transferred))
             else if rc = LIBUSB_ERROR_TIMEOUT then usb_write_loop t buf offset
             else if rc = LIBUSB_ERROR_INTERRUPTED then usb_write_loop t buf offset
             else Some (-1, t))
      else Some (if offset = length buf then 0 else -1, t))"
  by pat_completeness auto
termination
  by (relation "measure (\<lambda>(t, buf, offset). length (outs t))")
     (auto dest!: usb_out_shrinks intro: order_less_le_trans [OF _ raised_out_props(1)])

declare usb_write_loop.simps [simp del]

definition usb_write_all ::
  "client_transport option \<Rightarrow> byte list \<Rightarrow> (int \<times> client_transport option) option" where
  "usb_write_all transport buf =
     (case transport of
        None \<Rightarrow> Some (-1, None)
      | Some t \<Rightarrow>
          if usb_handle t = None then Some (-1, Some t)
          else map_option (\<lambda>(rc, t). (rc, Some t)) (usb_write_loop t buf 0))"

section \<open>Finding and opening the device\<close>

record usb_endpoint =
  bmAttributes :: byte
  bEndpointAddress :: byte

record usb_altsetting =
  bInterfaceNumber :: byte
  endpoint :: "usb_endpoint list"

text \<open>
  A device as libusb presents it: its vendor and product (\<open>None\<close>: the descriptor cannot be read), the
  handle \<open>libusb_open\<close> gives, the active and the first configuration, each a list of interfaces with
  their alternate settings.
\<close>

record usb_device =
  device_id :: "(u16 \<times> u16) option"
  device_handle :: "nat option"
  active_config :: "usb_altsetting list list option"
  first_config :: "usb_altsetting list list option"

fun find_endpoints :: "usb_endpoint list \<Rightarrow> byte \<Rightarrow> byte \<Rightarrow> byte \<times> byte" where
  "find_endpoints [] found_in found_out = (found_in, found_out)"
| "find_endpoints (ep # eps) found_in found_out =
     (if bmAttributes ep AND 0x03 \<noteq> 2 then find_endpoints eps found_in found_out
      else if bEndpointAddress ep AND 0x80 = 0x80 then find_endpoints eps (bEndpointAddress ep) found_out
      else find_endpoints eps found_in (bEndpointAddress ep))"

fun find_altsetting :: "usb_altsetting list \<Rightarrow> (int \<times> byte \<times> byte) option" where
  "find_altsetting [] = None"
| "find_altsetting (alt # alts) =
     (case find_endpoints (endpoint alt) 0 0 of (found_in, found_out) \<Rightarrow>
        if found_in \<noteq> 0 \<and> found_out \<noteq> 0 then Some (uint (bInterfaceNumber alt), found_in, found_out)
        else find_altsetting alts)"

fun find_in_interfaces :: "usb_altsetting list list \<Rightarrow> (int \<times> byte \<times> byte) option" where
  "find_in_interfaces [] = None"
| "find_in_interfaces (intf # intfs) =
     (case find_altsetting intf of
        Some found \<Rightarrow> Some found
      | None \<Rightarrow> find_in_interfaces intfs)"

definition usb_find_interface :: "usb_device \<Rightarrow> (int \<times> byte \<times> byte) option" where
  "usb_find_interface device =
     (case (case active_config device of Some config \<Rightarrow> Some config | None \<Rightarrow> first_config device) of
        None \<Rightarrow> None
      | Some config \<Rightarrow> find_in_interfaces config)"

text \<open>
  The loop of \<open>gateway_client_transport_usb_open_matching\<close> over the device list, with the handles that are open;
  a handle whose device has no suitable interface is closed again.
\<close>

fun usb_open_devices ::
  "usb_device list \<Rightarrow> u16 \<Rightarrow> u16 \<Rightarrow> nat list \<Rightarrow> (nat \<times> int \<times> byte \<times> byte) option \<times> nat list" where
  "usb_open_devices [] vid pid opens = (None, opens)"
| "usb_open_devices (d # ds) vid pid opens =
     (if device_id d \<noteq> Some (vid, pid) then usb_open_devices ds vid pid opens
      else
        (case device_handle d of
           None \<Rightarrow> usb_open_devices ds vid pid opens
         | Some handle \<Rightarrow>
             let opens = handle # opens in
             (case usb_find_interface d of
                Some (interface_number, ep_in, ep_out) \<Rightarrow>
                  (Some (handle, interface_number, ep_in, ep_out), opens)
              | None \<Rightarrow> usb_open_devices ds vid pid (remove1 handle opens))))"

definition usb_open_matching ::
  "usb_device list option \<Rightarrow> u16 \<Rightarrow> u16 \<Rightarrow> nat list \<Rightarrow> (nat \<times> int \<times> byte \<times> byte) option \<times> nat list" where
  "usb_open_matching devices vid pid opens =
     (case devices of None \<Rightarrow> (None, opens) | Some ds \<Rightarrow> usb_open_devices ds vid pid opens)"

text \<open>
  What libusb and the user do while the client waits for the device: the list of devices at each poll, or the
  stop flag raised between two polls.
\<close>

datatype usb_poll = Devices "usb_device list option" | StopWaiting

fun usb_wait ::
  "usb_poll list \<Rightarrow> u16 \<Rightarrow> u16 \<Rightarrow> client_transport \<Rightarrow>
   ((nat \<times> int \<times> byte \<times> byte) option \<times> client_transport) option" where
  "usb_wait polls vid pid t =
     (if stop_requested t then Some (None, t)
      else
        (case polls of
           [] \<Rightarrow> None
         | StopWaiting # polls \<Rightarrow> usb_wait polls vid pid (t\<lparr>stop_requested := True\<rparr>)
         | Devices devices # polls \<Rightarrow>
             (case usb_open_matching devices vid pid (open_handles t) of
                (Some found, opens) \<Rightarrow> Some (Some found, t\<lparr>open_handles := opens\<rparr>)
              | (None, opens) \<Rightarrow> usb_wait polls vid pid (t\<lparr>open_handles := opens\<rparr>))))"

declare usb_wait.simps [simp del]

record transport_options =
  opt_kind :: transport_kind
  opt_host :: "byte list"
  opt_port :: u16
  opt_usb_vid :: u16
  opt_usb_pid :: u16
  opt_usb_poll_ms :: int
  opt_usb_transfer_timeout_ms :: int

text \<open>What libusb answers to the other calls of an attempt to open the device.\<close>

record libusb =
  init_rc :: int
  polls :: "usb_poll list"
  claim_rc :: int
  alt_setting_rc :: int

definition usb_open ::
  "libusb \<Rightarrow> client_transport option \<Rightarrow> transport_options option \<Rightarrow> (int \<times> client_transport option) option" where
  "usb_open lib transport options =
     (case (transport, options) of
        (Some t, Some opts) \<Rightarrow>
          if init_rc lib \<noteq> 0 then Some (-1, Some t)
          else
            (case usb_wait (polls lib) (opt_usb_vid opts) (opt_usb_pid opts) t of
               None \<Rightarrow> None
             | Some (None, t) \<Rightarrow> Some (-1, Some t)
             | Some (Some (handle, interface_number, ep_in, ep_out), t) \<Rightarrow>
                 let closed = t\<lparr>open_handles := remove1 handle (open_handles t)\<rparr> in
                 if claim_rc lib \<noteq> 0 then Some (-1, Some closed)
                 else if alt_setting_rc lib \<noteq> 0 then Some (-1, Some closed)
                 else Some (0, Some (t\<lparr>usb_ctx := True, usb_handle := Some handle,
                        usb_interface_number := interface_number, usb_ep_in := ep_in,
                        usb_ep_out := ep_out\<rparr>)))
      | _ \<Rightarrow> Some (-1, transport))"

definition usb_close :: "client_transport option \<Rightarrow> client_transport option" where
  "usb_close transport =
     (case transport of
        None \<Rightarrow> None
      | Some t \<Rightarrow>
          let t = (case usb_handle t of
                     Some handle \<Rightarrow> t\<lparr>open_handles := remove1 handle (open_handles t)\<rparr>
                   | None \<Rightarrow> t)
          in Some (t\<lparr>usb_ctx := False, usb_handle := None, usb_interface_number := -1, usb_ep_in := 0,
                     usb_ep_out := 0\<rparr>))"

section \<open>The transport\<close>

definition gateway_client_transport_options_default :: "transport_options option \<Rightarrow> transport_options option" where
  "gateway_client_transport_options_default options =
     (case options of
        None \<Rightarrow> None
      | Some _ \<Rightarrow> Some \<lparr>opt_kind = GATEWAY_CLIENT_TRANSPORT_USB, opt_host = str ''127.0.0.1'', opt_port = 19000,
          opt_usb_vid = 0x0BDA, opt_usb_pid = 0x8195, opt_usb_poll_ms = 250, opt_usb_transfer_timeout_ms = 100\<rparr>)"

text \<open>\<open>connected\<close> is the socket that \<open>tcp_transport_connect\<close> returns, \<open>None\<close> the invalid one.\<close>

definition gateway_client_transport_open ::
  "libusb \<Rightarrow> sock option \<Rightarrow> client_transport option \<Rightarrow> transport_options option \<Rightarrow>
   (int \<times> client_transport option) option" where
  "gateway_client_transport_open lib connected transport options =
     (case (transport, options) of
        (Some t, Some opts) \<Rightarrow>
          let t = t\<lparr>kind := opt_kind opts, stop_requested := False, tcp_fd := None, usb_ctx := False, usb_handle := None,
                    usb_interface_number := -1, usb_ep_in := 0, usb_ep_out := 0,
                    usb_transfer_timeout_ms := opt_usb_transfer_timeout_ms opts,
                    usb_vid := opt_usb_vid opts, usb_pid := opt_usb_pid opts\<rparr> in
          if opt_kind opts = GATEWAY_CLIENT_TRANSPORT_USB then usb_open lib (Some t) (Some opts)
          else Some (if connected \<noteq> None then 0 else -1, Some (t\<lparr>tcp_fd := connected\<rparr>))
      | _ \<Rightarrow> Some (-1, transport))"

text \<open>A read from a descriptor that may be invalid, on which every \<open>recv\<close> fails.\<close>

definition tcp_read_fd :: "sock option \<Rightarrow> nat \<Rightarrow> (int \<times> byte list \<times> sock option) option" where
  "tcp_read_fd fd len =
     (case fd of
        None \<Rightarrow> Some (if len = 0 then 1 else -1, [], None)
      | Some s \<Rightarrow> map_option (\<lambda>(rc, buf, s). (rc, buf, Some s)) (tcp_transport_read_exact s len))"

definition tcp_write_fd :: "sock option \<Rightarrow> byte list \<Rightarrow> (int \<times> sock option) option" where
  "tcp_write_fd fd buf =
     (case fd of
        None \<Rightarrow> Some (if buf = [] then 0 else -1, None)
      | Some s \<Rightarrow> map_option (\<lambda>(rc, s). (rc, Some s)) (tcp_transport_write_all s buf))"

definition gateway_client_transport_read_exact ::
  "client_transport option \<Rightarrow> nat \<Rightarrow> (int \<times> byte list \<times> client_transport option) option" where
  "gateway_client_transport_read_exact transport len =
     (case transport of
        None \<Rightarrow> Some (-1, [], None)
      | Some t \<Rightarrow>
          if kind t = GATEWAY_CLIENT_TRANSPORT_USB then usb_read_exact (Some t) len
          else map_option (\<lambda>(rc, buf, fd). (rc, buf, Some (t\<lparr>tcp_fd := fd\<rparr>))) (tcp_read_fd (tcp_fd t) len))"

definition gateway_client_transport_write_all ::
  "client_transport option \<Rightarrow> byte list \<Rightarrow> (int \<times> client_transport option) option" where
  "gateway_client_transport_write_all transport buf =
     (case transport of
        None \<Rightarrow> Some (-1, None)
      | Some t \<Rightarrow>
          if kind t = GATEWAY_CLIENT_TRANSPORT_USB then usb_write_all (Some t) buf
          else map_option (\<lambda>(rc, fd). (rc, Some (t\<lparr>tcp_fd := fd\<rparr>))) (tcp_write_fd (tcp_fd t) buf))"

definition gateway_client_transport_request_stop :: "client_transport option \<Rightarrow> client_transport option" where
  "gateway_client_transport_request_stop transport =
     (case transport of
        None \<Rightarrow> None
      | Some t \<Rightarrow>
          let t = t\<lparr>stop_requested := True\<rparr>
          in Some (if kind t = GATEWAY_CLIENT_TRANSPORT_USB then t else t\<lparr>tcp_fd := None\<rparr>))"

definition gateway_client_transport_close :: "client_transport option \<Rightarrow> client_transport option" where
  "gateway_client_transport_close transport =
     (case transport of
        None \<Rightarrow> None
      | Some t \<Rightarrow>
          if kind t = GATEWAY_CLIENT_TRANSPORT_USB then usb_close (Some t) else Some (t\<lparr>tcp_fd := None\<rparr>))"

definition gateway_client_transport_name :: "client_transport option \<Rightarrow> byte list" where
  "gateway_client_transport_name transport =
     (case transport of
        None \<Rightarrow> str ''unknown''
      | Some t \<Rightarrow> if kind t = GATEWAY_CLIENT_TRANSPORT_USB then str ''usb'' else str ''tcp'')"

section \<open>The transport as a reader and a writer\<close>

text \<open>The bytes that successful transfers deliver before the first fatal error or the stop flag.\<close>

fun in_bytes :: "bulk_in list \<Rightarrow> byte list" where
  "in_bytes [] = []"
| "in_bytes (InData bs # es) = bs @ in_bytes es"
| "in_bytes (InError rc bs # es) =
     (if rc = LIBUSB_ERROR_TIMEOUT \<or> rc = LIBUSB_ERROR_INTERRUPTED then in_bytes es else [])"
| "in_bytes (InStop # es) = []"

definition usb_stream :: "client_transport \<Rightarrow> byte list" where
  "usb_stream t = (if stop_requested t then [] else in_bytes (ins t))"

lemma usb_stream_raised [simp]: "usb_stream (raised_in t) = usb_stream t"
  by (simp add: usb_stream_def raised_in.simps split: list.split bulk_in.split)

lemma usb_in_bytes:
  assumes "usb_in keeps es len = Some (rc, bs, es')"
  shows "rc = 0 \<Longrightarrow> length bs \<le> len \<and> in_bytes es = bs @ in_bytes es'"
    and "rc = LIBUSB_ERROR_TIMEOUT \<or> rc = LIBUSB_ERROR_INTERRUPTED \<Longrightarrow> in_bytes es = in_bytes es'"
    and "keeps \<Longrightarrow> rc \<noteq> 0 \<Longrightarrow> \<not> (rc = LIBUSB_ERROR_TIMEOUT \<or> rc = LIBUSB_ERROR_INTERRUPTED) \<Longrightarrow> in_bytes es = []"
  using assms by (induction keeps es len rule: usb_in.induct) (auto split: if_splits simp flip: append_assoc)

text \<open>The environment and the identity of a transport, which reading leaves alone.\<close>

definition same_end :: "client_transport \<Rightarrow> client_transport \<Rightarrow> bool" where
  "same_end t t' \<longleftrightarrow> kind t' = kind t \<and> usb_handle t' = usb_handle t \<and> keeps_rest t' = keeps_rest t"

lemma same_end_refl [simp]: "same_end t t" "same_end t (t\<lparr>ins := es\<rparr>)" "same_end t (t\<lparr>tcp_fd := f\<rparr>)"
  by (simp_all add: same_end_def)

lemma same_end_raised [simp]: "same_end t (raised_in t)"
  by (simp add: same_end_def raised_in_props)

lemma same_end_trans: "same_end t t1 \<Longrightarrow> same_end t1 t2 \<Longrightarrow> same_end t t2"
  by (simp add: same_end_def)

lemma usb_read_loop_ok:
  "usb_read_loop t len buf = Some (rc, out, t') \<Longrightarrow> length buf \<le> len \<Longrightarrow>
   same_end t t' \<and>
   (rc = 1 \<and> length out = len \<and> buf @ usb_stream t = out @ usb_stream t' \<or>
    rc \<in> {0, -1} \<and> length out < len \<and> (\<exists>bs. out = buf @ bs))"
proof (induction t len buf rule: usb_read_loop.induct)
  case (1 t len buf)
  define t1 where "t1 = raised_in t"
  have str: "usb_stream t1 = usb_stream t" and se: "same_end t t1"
    by (simp_all add: t1_def)
  show ?case
  proof (cases "length buf < len \<and> \<not> stop_requested t1")
    case False
    have "usb_read_loop t len buf = Some (if length buf = len then 1 else 0, buf, t1)"
      using False usb_read_loop_done by (simp only: t1_def)
    with "1.prems" str se show ?thesis by (auto split: if_splits)
  next
    case True
    let ?c = "if INT_MAX < len - length buf then INT_MAX else len - length buf"
    obtain r bs es where r: "usb_in (keeps_rest t1) (ins t1) ?c = Some (r, bs, es)"
      using "1.prems"(1) True
      by (cases "usb_in (keeps_rest t1) (ins t1) ?c") (auto simp: usb_read_loop.simps [of t] t1_def Let_def split: prod.splits)
    let ?t = "t1\<lparr>ins := es\<rparr>"
    have step: "usb_read_loop t len buf =
        (if r = 0 then usb_read_loop ?t len (buf @ bs)
         else if r = LIBUSB_ERROR_TIMEOUT \<or> r = LIBUSB_ERROR_INTERRUPTED then usb_read_loop ?t len buf
         else Some (if r = LIBUSB_ERROR_NO_DEVICE then 0 else -1, buf, ?t))"
      using usb_read_loop_step [OF True [unfolded t1_def] r [unfolded t1_def]] by (simp only: t1_def)
    have se': "same_end t ?t" using se by (rule same_end_trans) simp
    have open1: "usb_stream t1 = in_bytes (ins t1)" "usb_stream ?t = in_bytes es"
      using True by (simp_all add: usb_stream_def)
    note IH = "1.IH" [OF t1_def True refl r refl refl refl]
    consider "r = 0" | "r = LIBUSB_ERROR_TIMEOUT \<or> r = LIBUSB_ERROR_INTERRUPTED"
      | "r \<noteq> 0" "\<not> (r = LIBUSB_ERROR_TIMEOUT \<or> r = LIBUSB_ERROR_INTERRUPTED)" by blast
    then show ?thesis
    proof cases
      case 1
      note d = usb_in_bytes(1) [OF r 1]
      have "length (buf @ bs) \<le> len" using d True by (auto split: if_splits)
      with IH(1) [OF 1] "1.prems"(1) step 1
      have "same_end ?t t' \<and> (rc = 1 \<and> length out = len \<and> (buf @ bs) @ usb_stream ?t = out @ usb_stream t' \<or>
          rc \<in> {0, -1} \<and> length out < len \<and> (\<exists>cs. out = (buf @ bs) @ cs))" by simp
      then show ?thesis using same_end_trans [OF se'] d open1 str by auto
    next
      case 2
      have st: "usb_read_loop ?t len buf = Some (rc, out, t')" using "1.prems"(1) step 2 by auto
      have "same_end ?t t' \<and> (rc = 1 \<and> length out = len \<and> buf @ usb_stream ?t = out @ usb_stream t' \<or>
          rc \<in> {0, -1} \<and> length out < len \<and> (\<exists>cs. out = buf @ cs))"
        using 2 IH(2,3) st "1.prems"(2) by auto
      then show ?thesis using same_end_trans [OF se'] usb_in_bytes(2) [OF r 2] open1 str by auto
    next
      case 3
      with step "1.prems"(1) se' True show ?thesis by (auto split: if_splits)
    qed
  qed
qed

lemma usb_in_progress:
  "in_bytes es \<noteq> [] \<Longrightarrow> \<exists>rc bs es'. usb_in keeps es len = Some (rc, bs, es')"
  by (induction keeps es len rule: usb_in.induct) auto

lemma usb_read_loop_returns:
  "keeps_rest t \<Longrightarrow> length buf \<le> len \<Longrightarrow> len \<le> length buf + length (usb_stream t) \<Longrightarrow>
   \<exists>t'. usb_read_loop t len buf = Some (1, buf @ take (len - length buf) (usb_stream t), t')"
proof (induction t len buf rule: usb_read_loop.induct)
  case (1 t len buf)
  define t1 where "t1 = raised_in t"
  have str: "usb_stream t1 = usb_stream t" and keeps: "keeps_rest t1"
    using "1.prems"(1) by (simp_all add: t1_def raised_in_props)
  show ?case
  proof (cases "length buf < len")
    case False
    then show ?thesis using "1.prems" usb_read_loop_done [of buf len t] by simp
  next
    case True
    have ne: "usb_stream t1 \<noteq> []" using "1.prems"(3) True str by auto
    then have run: "length buf < len \<and> \<not> stop_requested t1" and bytes: "usb_stream t1 = in_bytes (ins t1)"
      using True by (auto simp: usb_stream_def split: if_splits)
    let ?c = "if INT_MAX < len - length buf then INT_MAX else len - length buf"
    obtain r bs es where r: "usb_in (keeps_rest t1) (ins t1) ?c = Some (r, bs, es)"
      using usb_in_progress ne bytes by metis
    let ?t = "t1\<lparr>ins := es\<rparr>"
    have keeps': "keeps_rest ?t" and str': "usb_stream ?t = in_bytes es"
      using keeps run by (simp_all add: usb_stream_def)
    have step: "usb_read_loop t len buf =
        (if r = 0 then usb_read_loop ?t len (buf @ bs)
         else if r = LIBUSB_ERROR_TIMEOUT \<or> r = LIBUSB_ERROR_INTERRUPTED then usb_read_loop ?t len buf
         else Some (if r = LIBUSB_ERROR_NO_DEVICE then 0 else -1, buf, ?t))"
      using usb_read_loop_step [OF run [unfolded t1_def] r [unfolded t1_def]] by (simp only: t1_def)
    note IH = "1.IH" [OF t1_def run refl r refl refl refl]
    show ?thesis
    proof (cases "r = 0")
      case True
      note d = usb_in_bytes(1) [OF r True]
      have len: "length (buf @ bs) \<le> len" using d run by (auto split: if_splits)
      have split: "usb_stream t = bs @ usb_stream ?t" using str bytes d str' by simp
      then have "len \<le> length (buf @ bs) + length (usb_stream ?t)" using "1.prems"(3) by simp
      from IH(1) [OF True keeps' len this] step True split len show ?thesis by simp
    next
      case False
      then have t: "r = LIBUSB_ERROR_TIMEOUT \<or> r = LIBUSB_ERROR_INTERRUPTED"
        using usb_in_bytes(3) [OF r keeps] ne bytes by auto
      then have same: "usb_stream ?t = usb_stream t" using usb_in_bytes(2) [OF r t] str bytes str' by simp
      with "1.prems"(3) have l: "len \<le> length buf + length (usb_stream ?t)" by simp
      have "\<exists>t'. usb_read_loop ?t len buf = Some (1, buf @ take (len - length buf) (usb_stream ?t), t')"
        using t IH(2) [OF False _ keeps' "1.prems"(2) l] IH(3) [OF False _ _ keeps' "1.prems"(2) l] by auto
      then show ?thesis using step False t same by simp
    qed
  qed
qed

text \<open>The exact read of the transport as a reader over what the other end sent.\<close>

definition transport_read :: "client_transport \<Rightarrow> nat \<Rightarrow> (byte list option \<times> client_transport) option" where
  "transport_read t n =
     (case gateway_client_transport_read_exact (Some t) n of
        Some (rc, buf, Some t') \<Rightarrow> Some (if rc = 1 then Some buf else None, t')
      | _ \<Rightarrow> None)"

definition transport_stream :: "client_transport \<Rightarrow> byte list" where
  "transport_stream t =
     (if kind t = GATEWAY_CLIENT_TRANSPORT_USB then (if usb_handle t = None then [] else usb_stream t)
      else (case tcp_fd t of None \<Rightarrow> [] | Some s \<Rightarrow> sock_stream s))"

text \<open>
  A TCP transport serves every read for which enough bytes come; a USB transport when it is open and the system keeps the
  rest of a long packet for the next transfer.
\<close>

definition transport_wf :: "client_transport \<Rightarrow> bool" where
  "transport_wf t \<longleftrightarrow> (kind t = GATEWAY_CLIENT_TRANSPORT_USB \<longrightarrow> keeps_rest t \<and> usb_handle t \<noteq> None)"

lemma transport_wf_same_end: "same_end t t' \<Longrightarrow> transport_wf t \<Longrightarrow> transport_wf t'"
  by (simp add: transport_wf_def same_end_def)

lemma tcp_read_fd_ok:
  assumes "tcp_read_fd fd n = Some (1, bs, fd')"
  shows "length bs = n \<and>
    (case fd of None \<Rightarrow> [] | Some s \<Rightarrow> sock_stream s) = bs @ (case fd' of None \<Rightarrow> [] | Some s \<Rightarrow> sock_stream s)"
proof (cases fd)
  case None
  with assms show ?thesis by (auto simp: tcp_read_fd_def split: if_splits)
next
  case (Some s)
  then obtain s' where "tcp_transport_read_exact s n = Some (1, bs, s')" "fd' = Some s'"
    using assms by (auto simp: tcp_read_fd_def)
  then have "tcp_read s n = Some (Some bs, s')" by (simp add: tcp_read_def)
  with tcp.read_sound [OF TrueI this] Some \<open>fd' = Some s'\<close> show ?thesis by simp
qed

lemma tcp_read_fd_rc:
  assumes "tcp_read_fd fd n = Some (rc, bs, fd')"
  shows "rc \<in> {1, 0, -1}"
proof (cases fd)
  case (Some s)
  with assms obtain es where "read_loop (incoming s) n [] = Some (rc, bs, es)"
    by (auto simp: tcp_read_fd_def tcp_transport_read_exact_def split: option.splits)
  from read_loop_ok [OF this] show ?thesis by auto
qed (use assms in \<open>auto simp: tcp_read_fd_def split: if_splits\<close>)

lemma gateway_client_transport_read_sound:
  assumes "gateway_client_transport_read_exact (Some t) n = Some (rc, bs, r)"
  obtains t' where "r = Some t'" "same_end t t'" "rc \<in> {1, 0, -1}"
    "rc = 1 \<Longrightarrow> length bs = n \<and> transport_stream t = bs @ transport_stream t'"
proof (cases "kind t = GATEWAY_CLIENT_TRANSPORT_USB")
  case True
  show ?thesis
  proof (cases "usb_handle t = None")
    case none: True
    with True assms show ?thesis
      by (intro that [of t]) (auto simp: gateway_client_transport_read_exact_def usb_read_exact_def)
  next
    case False
    then obtain t' where "usb_read_loop t n [] = Some (rc, bs, t')" "r = Some t'"
      using True assms by (auto simp: gateway_client_transport_read_exact_def usb_read_exact_def)
    with usb_read_loop_ok [OF this(1)] True False show ?thesis
      by (intro that [of t']) (auto simp: transport_stream_def same_end_def)
  qed
next
  case False
  then obtain fd where f: "tcp_read_fd (tcp_fd t) n = Some (rc, bs, fd)" "r = Some (t\<lparr>tcp_fd := fd\<rparr>)"
    using assms by (auto simp: gateway_client_transport_read_exact_def)
  show ?thesis
    using f False tcp_read_fd_ok [of "tcp_fd t" n bs fd] tcp_read_fd_rc [OF f(1)]
    by (intro that [of "t\<lparr>tcp_fd := fd\<rparr>"]) (simp_all add: transport_stream_def)
qed

lemma transport_read_sound:
  assumes "transport_read t n = Some (r, t')"
  shows "same_end t t'" and "r = Some bs \<Longrightarrow> length bs = n \<and> transport_stream t = bs @ transport_stream t'"
proof -
  obtain rc out where g: "gateway_client_transport_read_exact (Some t) n = Some (rc, out, Some t')"
      and r: "r = (if rc = 1 then Some out else None)"
    using assms by (auto simp: transport_read_def split: option.splits prod.splits)
  obtain t1 where "t1 = t'" "same_end t t1"
      "rc = 1 \<Longrightarrow> length out = n \<and> transport_stream t = out @ transport_stream t1"
    using gateway_client_transport_read_sound [OF g] by (metis option.inject)
  with r show "same_end t t'" and "r = Some bs \<Longrightarrow> length bs = n \<and> transport_stream t = bs @ transport_stream t'"
    by (auto split: if_splits)
qed

lemma transport_read_complete:
  assumes "transport_wf t" and "n \<le> length (transport_stream t)"
  shows "\<exists>bs t'. transport_read t n = Some (Some bs, t')"
proof (cases "kind t = GATEWAY_CLIENT_TRANSPORT_USB")
  case True
  with assms have "keeps_rest t" "usb_handle t \<noteq> None" "n \<le> length (usb_stream t)"
    by (auto simp: transport_wf_def transport_stream_def)
  with usb_read_loop_returns [of t "[]" n] True show ?thesis
    by (auto simp: transport_read_def gateway_client_transport_read_exact_def usb_read_exact_def)
next
  case False
  show ?thesis
  proof (cases "tcp_fd t")
    case None
    with False assms(2) show ?thesis
      by (simp add: transport_read_def gateway_client_transport_read_exact_def tcp_read_fd_def transport_stream_def)
  next
    case (Some s)
    with False assms(2) have "n \<le> length (sock_stream s)" by (simp add: transport_stream_def)
    from tcp.read_complete [OF TrueI this] obtain bs s' where "tcp_read s n = Some (Some bs, s')" by blast
    then have "tcp_transport_read_exact s n = Some (1, bs, s')"
      by (auto simp: tcp_read_def split: option.splits if_splits)
    with False Some show ?thesis
      by (simp add: transport_read_def gateway_client_transport_read_exact_def tcp_read_fd_def)
  qed
qed

interpretation usb_or_tcp: byte_reader transport_read transport_stream transport_wf
  using transport_read_sound transport_read_complete transport_wf_same_end by unfold_locales blast+

text \<open>
  Writing over USB keeps the writer's contract as long as no transfer moves bytes before it times out or is
  interrupted.
\<close>

definition whole_transfers :: "bulk_out list \<Rightarrow> bool" where
  "whole_transfers es \<longleftrightarrow> (\<forall>rc n. OutError rc n \<in> set es \<longrightarrow> n = 0)"

lemma usb_out_cases:
  assumes "usb_out es len = Some (rc, n, es')" and "whole_transfers es"
  shows "whole_transfers es' \<and> n \<le> len \<and> (rc \<noteq> 0 \<longrightarrow> n = 0)"
  using assms by (induction es len rule: usb_out.induct) (auto simp: whole_transfers_def, force)

lemma raised_out_whole: "whole_transfers (outs t) \<Longrightarrow> whole_transfers (outs (raised_out t))"
  by (auto simp: raised_out.simps whole_transfers_def split: list.split bulk_out.split)

lemma usb_write_loop_ok:
  "usb_write_loop t buf offset = Some (rc, t') \<Longrightarrow> offset \<le> length buf \<Longrightarrow> whole_transfers (outs t) \<Longrightarrow>
   rc = 0 \<and> usb_sent t' = usb_sent t @ drop offset buf \<or>
   rc = -1 \<and> (\<exists>k < length buf - offset. usb_sent t' = usb_sent t @ take k (drop offset buf))"
proof (induction t buf offset rule: usb_write_loop.induct)
  case (1 t buf offset)
  define t1 where "t1 = raised_out t"
  have t1: "usb_sent t1 = usb_sent t" "whole_transfers (outs t1)"
    using "1.prems"(3) by (simp_all add: t1_def raised_out_props raised_out_whole)
  show ?case
  proof (cases "offset < length buf \<and> \<not> stop_requested t1")
    case False
    then have "usb_write_loop t buf offset = Some (if offset = length buf then 0 else -1, t1)"
      by (subst usb_write_loop.simps) (auto simp: t1_def Let_def)
    with "1.prems" t1 show ?thesis
      by (cases "offset = length buf") (auto intro!: exI [of _ "0 :: nat"])
  next
    case True
    let ?c = "if INT_MAX < length buf - offset then INT_MAX else length buf - offset"
    obtain r n es where r: "usb_out (outs t1) ?c = Some (r, n, es)"
      using "1.prems"(1) True
      by (cases "usb_out (outs t1) ?c") (auto simp: usb_write_loop.simps [of t] t1_def Let_def split: prod.splits)
    note c = usb_out_cases [OF r t1(2)]
    let ?t = "t1\<lparr>outs := es, usb_sent := usb_sent t1 @ take n (drop offset buf)\<rparr>"
    have step: "usb_write_loop t buf offset =
        (if r = 0 then if n = 0 then Some (-1, ?t) else usb_write_loop ?t buf (offset + n)
         else if r = LIBUSB_ERROR_TIMEOUT \<or> r = LIBUSB_ERROR_INTERRUPTED then usb_write_loop ?t buf offset
         else Some (-1, ?t))"
      using True r by (subst usb_write_loop.simps) (auto simp: t1_def Let_def)
    note IH = "1.IH" [OF t1_def True refl r refl refl refl]
    have n: "n \<le> length buf - offset" using c by (auto split: if_splits)
    consider "r = 0" "n \<noteq> 0" | "r = 0" "n = 0" | "r = LIBUSB_ERROR_TIMEOUT \<or> r = LIBUSB_ERROR_INTERRUPTED"
      | "r \<noteq> 0" "\<not> (r = LIBUSB_ERROR_TIMEOUT \<or> r = LIBUSB_ERROR_INTERRUPTED)" by blast
    then show ?thesis
    proof cases
      case 1
      have d: "drop offset buf = take n (drop offset buf) @ drop (offset + n) buf"
        by (metis append_take_drop_id drop_drop add.commute)
      have le: "offset + n \<le> length buf" using n True by linarith
      have call: "usb_write_loop ?t buf (offset + n) = Some (rc, t')" using "1.prems"(1) step 1 by simp
      from IH(1) [OF 1 call le] c
      consider "rc = 0" "usb_sent t' = usb_sent t @ take n (drop offset buf) @ drop (offset + n) buf"
        | k where "rc = -1" "k < length buf - (offset + n)"
            "usb_sent t' = usb_sent t @ take n (drop offset buf) @ take k (drop (offset + n) buf)"
        using t1 by auto
      then show ?thesis
      proof cases
        case 1
        then show ?thesis using d by simp
      next
        case (2 k)
        have "take (n + k) (drop offset buf) = take n (drop offset buf) @ take k (drop (offset + n) buf)"
          by (simp only: take_add drop_drop) (simp add: add.commute)
        moreover have "n + k < length buf - offset" using 2 by simp
        ultimately show ?thesis using 2 by (metis append_assoc)
      qed
    next
      case 2
      with step "1.prems"(1) t1 True show ?thesis by (auto intro!: exI [of _ "0 :: nat"])
    next
      case 3
      have st: "usb_write_loop ?t buf offset = Some (rc, t')" using "1.prems"(1) step 3 by auto
      show ?thesis using 3 IH(2,3) st "1.prems"(2) c t1 by auto
    next
      case 4
      with step "1.prems"(1) t1 True c show ?thesis by (auto intro!: exI [of _ "0 :: nat"])
    qed
  qed
qed

section \<open>Handles\<close>

lemma usb_open_devices_handles:
  "usb_open_devices ds vid pid opens = (found, opens') \<Longrightarrow>
   opens' = (case found of None \<Rightarrow> opens | Some (handle, _) \<Rightarrow> handle # opens)"
  by (induction ds vid pid opens rule: usb_open_devices.induct)
     (auto simp: Let_def split: if_splits option.splits prod.splits)

lemma usb_wait_handles:
  "usb_wait ps vid pid t = Some (found, t') \<Longrightarrow>
   open_handles t' = (case found of None \<Rightarrow> open_handles t | Some (handle, _) \<Rightarrow> handle # open_handles t) \<and>
   usb_handle t' = usb_handle t \<and> kind t' = kind t \<and> tcp_fd t' = tcp_fd t"
proof (induction ps vid pid t rule: usb_wait.induct)
  case (1 ps vid pid t)
  show ?case
  proof (cases "stop_requested t")
    case True
    with "1.prems" show ?thesis by (subst (asm) usb_wait.simps) auto
  next
    case run: False
    show ?thesis
    proof (cases ps)
      case Nil
      with "1.prems" run show ?thesis by (subst (asm) usb_wait.simps) simp
    next
      case (Cons p ps')
      show ?thesis
      proof (cases p)
        case StopWaiting
        with "1.prems" run Cons have "usb_wait ps' vid pid (t\<lparr>stop_requested := True\<rparr>) = Some (found, t')"
          by (subst (asm) usb_wait.simps) simp
        from "1.IH"(2) [OF run Cons StopWaiting this] show ?thesis by (auto split: option.splits)
      next
        case (Devices devices)
        obtain f opens where m: "usb_open_matching devices vid pid (open_handles t) = (f, opens)"
          by (cases "usb_open_matching devices vid pid (open_handles t)")
        then have opens: "opens = (case f of None \<Rightarrow> open_handles t | Some (handle, _) \<Rightarrow> handle # open_handles t)"
          by (auto simp: usb_open_matching_def dest: usb_open_devices_handles split: option.splits)
        show ?thesis
        proof (cases f)
          case None
          then have "usb_wait ps' vid pid (t\<lparr>open_handles := opens\<rparr>) = Some (found, t')"
            using "1.prems" run Cons Devices m by (subst (asm) usb_wait.simps) simp
          from "1.IH"(1) [OF run Cons Devices m [symmetric] None this] None opens show ?thesis by (auto split: option.splits)
        next
          case (Some h)
          then show ?thesis using "1.prems" run Cons Devices m opens
            by (subst (asm) usb_wait.simps) (auto split: prod.splits)
        qed
      qed
    qed
  qed
qed

text \<open>
  C23: opening and closing the client's transport leaks nothing.  When it opens, exactly the one handle it keeps has been
  added to those that are open (none for TCP), and closing it gives it back; when it does not open,
  every handle opened on the way has been closed and the transport holds none.
\<close>

theorem client_transport_no_leak:
  assumes "gateway_client_transport_open lib connected (Some t) (Some opts) = Some (rc, Some t')"
  shows "(rc = 0 \<longrightarrow>
            open_handles t' = (case usb_handle t' of None \<Rightarrow> open_handles t | Some h \<Rightarrow> h # open_handles t) \<and>
            (usb_handle t' \<noteq> None \<longleftrightarrow> opt_kind opts = GATEWAY_CLIENT_TRANSPORT_USB) \<and>
            (\<exists>t''. gateway_client_transport_close (Some t') = Some t'' \<and>
               open_handles t'' = open_handles t \<and> usb_handle t'' = None \<and> tcp_fd t'' = None)) \<and>
         (rc \<noteq> 0 \<longrightarrow> open_handles t' = open_handles t \<and> usb_handle t' = None \<and> tcp_fd t' = None)"
proof (cases "opt_kind opts = GATEWAY_CLIENT_TRANSPORT_USB")
  case False
  with assms show ?thesis
    by (cases "opt_kind opts")
       (cases connected; auto simp: gateway_client_transport_open_def gateway_client_transport_close_def Let_def)+
next
  case True
  let ?t = "t\<lparr>kind := GATEWAY_CLIENT_TRANSPORT_USB, stop_requested := False, tcp_fd := None, usb_ctx := False,
     usb_handle := None, usb_interface_number := -1, usb_ep_in := 0, usb_ep_out := 0,
     usb_transfer_timeout_ms := opt_usb_transfer_timeout_ms opts, usb_vid := opt_usb_vid opts,
     usb_pid := opt_usb_pid opts\<rparr>"
  have u: "usb_open lib (Some ?t) (Some opts) = Some (rc, Some t')"
    using assms True by (simp add: gateway_client_transport_open_def Let_def)
  show ?thesis
  proof (cases "init_rc lib = 0")
    case False
    with u show ?thesis by (auto simp: usb_open_def)
  next
    case True
    then obtain found t1 where w: "usb_wait (polls lib) (opt_usb_vid opts) (opt_usb_pid opts) ?t = Some (found, t1)"
      using u by (auto simp: usb_open_def split: option.splits)
    note h = usb_wait_handles [OF w]
    show ?thesis using u True w h \<open>opt_kind opts = _\<close>
      by (auto simp: usb_open_def gateway_client_transport_close_def usb_close_def Let_def
               split: option.splits if_splits)
  qed
qed

text \<open>A board with one interface, whose bulk endpoints are 0x81 and 0x02, after a poll without devices.\<close>

definition demo_transport :: client_transport where
  "demo_transport = \<lparr>kind = GATEWAY_CLIENT_TRANSPORT_TCP, stop_requested = False, tcp_fd = None, usb_ctx = False,
     usb_handle = None, usb_interface_number = 0, usb_ep_in = 0, usb_ep_out = 0, usb_transfer_timeout_ms = 0,
     usb_vid = 0, usb_pid = 0, ins = [], outs = [], usb_sent = [], open_handles = [], keeps_rest = False\<rparr>"

definition demo_board :: usb_device where
  "demo_board = \<lparr>device_id = Some (0x0BDA, 0x8195), device_handle = Some 7, active_config = None,
     first_config = Some [[\<lparr>bInterfaceNumber = 3,
       endpoint = [\<lparr>bmAttributes = 3, bEndpointAddress = 0x83\<rparr>, \<lparr>bmAttributes = 2, bEndpointAddress = 0x81\<rparr>,
                   \<lparr>bmAttributes = 2, bEndpointAddress = 0x02\<rparr>]\<rparr>]]\<rparr>"

theorem client_transport_no_leak_witness:
  "\<exists>t' t'' opts. gateway_client_transport_options_default (Some opts) = Some opts \<and>
     gateway_client_transport_open
       \<lparr>init_rc = 0, polls = [Devices (Some []), Devices (Some [demo_board])], claim_rc = 0, alt_setting_rc = 0\<rparr>
       None (Some demo_transport) (Some opts) = Some (0, Some t') \<and>
     usb_handle t' = Some 7 \<and> usb_interface_number t' = 3 \<and> usb_ep_in t' = 0x81 \<and> usb_ep_out t' = 2 \<and>
     gateway_client_transport_close (Some t') = Some t'' \<and> open_handles t'' = []"
proof -
  define opts where "opts = the (gateway_client_transport_options_default
     (Some \<lparr>opt_kind = GATEWAY_CLIENT_TRANSPORT_TCP, opt_host = [], opt_port = 0, opt_usb_vid = 0, opt_usb_pid = 0,
            opt_usb_poll_ms = 0, opt_usb_transfer_timeout_ms = 0\<rparr>))"
  define lib where "lib = \<lparr>init_rc = 0, polls = [Devices (Some []), Devices (Some [demo_board])],
     claim_rc = 0, alt_setting_rc = 0\<rparr>"
  obtain t' where t': "gateway_client_transport_open lib None (Some demo_transport) (Some opts) = Some (0, Some t')"
      "usb_handle t' = Some 7" "usb_interface_number t' = 3" "usb_ep_in t' = 0x81" "usb_ep_out t' = 2"
    by (simp add: gateway_client_transport_open_def usb_open_def lib_def opts_def
        gateway_client_transport_options_default_def demo_transport_def demo_board_def usb_wait.simps
        usb_open_matching_def usb_find_interface_def Let_def)
  have "gateway_client_transport_options_default (Some opts) = Some opts"
    by (simp add: opts_def gateway_client_transport_options_default_def)
  moreover obtain t'' where "gateway_client_transport_close (Some t') = Some t''" "open_handles t'' = []"
    using client_transport_no_leak [OF t'(1)] by (auto simp: demo_transport_def)
  ultimately show ?thesis using t' unfolding lib_def by blast
qed

section \<open>Transfers that move bytes and fail\<close>

text \<open>
  A transfer that moves bytes before it times out: the read drops them and goes on with the next transfer, and the write
  sends them a second time.
\<close>

lemma timed_out_bytes:
  assumes "usb_handle t = Some h" and "\<not> stop_requested t" and "buf \<noteq> []" and "length buf \<le> INT_MAX"
  shows "ins t = InError LIBUSB_ERROR_TIMEOUT lost # InData buf # es \<Longrightarrow>
           \<exists>t'. usb_read_exact (Some t) (length buf) = Some (1, buf, Some t')"
    and "outs t = OutError LIBUSB_ERROR_TIMEOUT n # OutTake (length buf) # os \<Longrightarrow>
           \<exists>t'. usb_write_all (Some t) buf = Some (0, Some t') \<and> usb_sent t' = usb_sent t @ take n buf @ buf"
proof -
  show "\<exists>t'. usb_read_exact (Some t) (length buf) = Some (1, buf, Some t')"
    if "ins t = InError LIBUSB_ERROR_TIMEOUT lost # InData buf # es"
    using that assms by (simp add: usb_read_exact_def usb_read_loop_step raised_in.simps)
      (cases es; simp add: usb_read_loop_done)
  show "\<exists>t'. usb_write_all (Some t) buf = Some (0, Some t') \<and> usb_sent t' = usb_sent t @ take n buf @ buf"
    if "outs t = OutError LIBUSB_ERROR_TIMEOUT n # OutTake (length buf) # os"
    using that assms by (simp add: usb_write_all_def usb_write_loop.simps [of t] usb_write_loop.simps raised_out.simps Let_def
        min_def split: list.split bulk_out.split)
qed

end
