(* ===== verification/ClientStream.thy ===== *)
theory ClientStream
  imports ClientTransport GatewayProto CryptoStream
begin

text \<open>
  How \<open>gateway_client/gateway_client.cpp\<close> cuts its input into packets: reading through the bytes left over
  from the USB start-up, looking for the next header among bytes that do not belong to one, reading a payload
  that turns out to be the next packet, and opening the payload.  The input is the transport together with
  the prefetched bytes and the offset up to which they are used; \<open>None\<close> stands for null pointers to these.
\<close>

unbundle bit_operations_syntax

record client_input =
  link :: client_transport
  prefetch :: "(byte list \<times> nat) option"

section \<open>Reading\<close>

function copy_prefetched :: "byte list \<Rightarrow> nat \<Rightarrow> byte list \<Rightarrow> nat \<Rightarrow> nat \<times> byte list" where
  "copy_prefetched pf off dst len =
     (if length dst < len \<and> off < length pf then
        let avail = length pf - off;
            n = len - length dst;
            n = (if avail < n then avail else n)
        in copy_prefetched pf (off + n) (dst @ slice off n pf) len
      else (off, dst))"
  by pat_completeness auto
termination
  by (relation "measure (\<lambda>(pf, off, dst, len). length pf - off)") auto

declare copy_prefetched.simps [simp del]

text \<open>The return value, the bytes copied to the buffer, the input; \<open>None\<close>: the call does not return.\<close>

definition read_exact_prefetched ::
  "client_input \<Rightarrow> nat \<Rightarrow> (int \<times> byte list \<times> client_input) option" where
  "read_exact_prefetched s len =
     (let (dst, s) =
        (case prefetch s of
           None \<Rightarrow> ([], s)
         | Some (pf, off) \<Rightarrow>
             (case copy_prefetched pf off [] len of (off, dst) \<Rightarrow>
                (dst, s\<lparr>prefetch := Some (if length pf \<le> off then ([], 0) else (pf, off))\<rparr>)))
      in
      if length dst = len then Some (1, dst, s)
      else
        (case gateway_client_transport_read_exact (Some (link s)) (len - length dst) of
           None \<Rightarrow> None
         | Some (rc, bs, t) \<Rightarrow> Some (rc, dst @ bs, s\<lparr>link := the t\<rparr>)))"

definition read_be32_host :: "byte list \<Rightarrow> u32" where
  "read_be32_host p =
     push_bit 24 (ucast (p ! 0)) OR push_bit 16 (ucast (p ! 1)) OR push_bit 8 (ucast (p ! 2)) OR ucast (p ! 3)"

definition starts_gateway_magic :: "byte list option \<Rightarrow> nat \<Rightarrow> bool" where
  "starts_gateway_magic buf len =
     (case buf of
        None \<Rightarrow> False
      | Some b \<Rightarrow>
          if len < 4 then False
          else let magic = read_be32_host b
               in magic = GATEWAY_PROTO_INIT_MAGIC \<or> magic = GATEWAY_PROTO_PACKET_MAGIC)"

definition prepend_prefetch :: "(byte list \<times> nat) option \<Rightarrow> byte list option \<Rightarrow> (byte list \<times> nat) option" where
  "prepend_prefetch pf buf =
     (case (pf, buf) of
        (Some (bytes, off), Some b) \<Rightarrow>
          if length b = 0 then pf
          else Some (b @ (if off < length bytes then drop off bytes else []), 0)
      | _ \<Rightarrow> pf)"

section \<open>Headers\<close>

text \<open>
  What the next read of the input can take from it, which bounds the search for a header: it takes one more byte in every
  turn.
\<close>

definition input_stream :: "client_input \<Rightarrow> byte list" where
  "input_stream s =
     (case prefetch s of None \<Rightarrow> [] | Some (pf, off) \<Rightarrow> drop off pf) @ transport_stream (link s)"

lemma copy_prefetched_eq:
  "length dst \<le> len \<Longrightarrow>
   copy_prefetched pf off dst len =
     (let n = min (len - length dst) (length pf - off) in (off + n, dst @ slice off n pf))"
proof (induction pf off dst len rule: copy_prefetched.induct)
  case (1 pf off dst len)
  show ?case
  proof (cases "length dst < len \<and> off < length pf")
    case False
    with "1.prems" show ?thesis by (subst copy_prefetched.simps) (auto simp: slice_def Let_def)
  next
    case True
    let ?n = "min (len - length dst) (length pf - off)"
    have n: "(if length pf - off < len - length dst then length pf - off else len - length dst) = ?n" by simp
    have l: "length (dst @ slice off ?n pf) = length dst + ?n"
      by (simp add: slice_def)
    have "copy_prefetched pf off dst len = copy_prefetched pf (off + ?n) (dst @ slice off ?n pf) len"
      using True by (subst copy_prefetched.simps) (simp only: Let_def n simp_thms if_True)
    also have "\<dots> = (off + ?n, dst @ slice off ?n pf)"
    proof -
      have m: "min (len - length (dst @ slice off ?n pf)) (length pf - (off + ?n)) = 0"
        unfolding l by linarith
      have "length (dst @ slice off ?n pf) \<le> len" unfolding l using True by linarith
      from "1.IH" [OF True refl refl refl, unfolded n, OF this, unfolded Let_def m]
      show ?thesis by (simp add: slice_def)
    qed
    finally show ?thesis by (simp add: Let_def)
  qed
qed

text \<open>The read in one equation: first what is prefetched, then the transport.\<close>

definition prefetched :: "client_input \<Rightarrow> byte list" where
  "prefetched s = (case prefetch s of None \<Rightarrow> [] | Some (pf, off) \<Rightarrow> drop off pf)"

lemma input_stream_eq: "input_stream s = prefetched s @ transport_stream (link s)"
  by (simp add: input_stream_def prefetched_def)

lemma read_exact_prefetched_eq:
  obtains s1 where "link s1 = link s" "(prefetch s1 = None) = (prefetch s = None)"
    "prefetched s1 = drop n (prefetched s)"
    "read_exact_prefetched s n =
       (if n \<le> length (prefetched s) then Some (1, take n (prefetched s), s1)
        else (case gateway_client_transport_read_exact (Some (link s)) (n - length (prefetched s)) of
                None \<Rightarrow> None
              | Some (rc, bs, t) \<Rightarrow> Some (rc, prefetched s @ bs, s1\<lparr>link := the t\<rparr>)))"
proof (cases "prefetch s")
  case None
  show ?thesis
    by (rule that [of s]) (simp_all add: None read_exact_prefetched_def prefetched_def split: option.split)
next
  case (Some p)
  obtain pf off where p: "p = (pf, off)" by (cases p)
  let ?n = "min n (length pf - off)"
  have c: "copy_prefetched pf off [] n = (off + ?n, take n (drop off pf))"
    by (simp add: copy_prefetched_eq Let_def slice_def min_def)
  let ?s = "s\<lparr>prefetch := Some (if length pf \<le> off + ?n then ([], 0) else (pf, off + ?n))\<rparr>"
  have "drop n (drop off pf) = [] \<longleftrightarrow> length pf \<le> off + n" by (auto simp: add.commute)
  then show ?thesis
    by (intro that [of ?s])
       (auto simp: Some p c read_exact_prefetched_def prefetched_def min_def add.commute split: option.split)
qed

lemma read_exact_prefetched_sound:
  assumes "read_exact_prefetched s n = Some (rc, bs, s')"
  shows "same_end (link s) (link s')" and "(prefetch s' = None) = (prefetch s = None)"
    and "rc = 1 \<Longrightarrow> length bs = n \<and> input_stream s = bs @ input_stream s'" and "rc \<in> {1, 0, -1}"
proof -
  obtain s1 where s1: "link s1 = link s" "(prefetch s1 = None) = (prefetch s = None)"
      "prefetched s1 = drop n (prefetched s)"
    and r: "read_exact_prefetched s n =
       (if n \<le> length (prefetched s) then Some (1, take n (prefetched s), s1)
        else (case gateway_client_transport_read_exact (Some (link s)) (n - length (prefetched s)) of
                None \<Rightarrow> None
              | Some (rc, bs, t) \<Rightarrow> Some (rc, prefetched s @ bs, s1\<lparr>link := the t\<rparr>)))"
    by (rule read_exact_prefetched_eq)
  have "same_end (link s) (link s') \<and> (prefetch s' = None) = (prefetch s = None) \<and>
    (rc = 1 \<longrightarrow> length bs = n \<and> input_stream s = bs @ input_stream s') \<and> rc \<in> {1, 0, -1}"
  proof (cases "n \<le> length (prefetched s)")
    case True
    with assms r s1 show ?thesis
      by (auto simp: input_stream_eq)
  next
    case False
    then obtain cs r' where g: "gateway_client_transport_read_exact (Some (link s)) (n - length (prefetched s)) = Some (rc, cs, r')"
        and bs: "bs = prefetched s @ cs" "s' = s1\<lparr>link := the r'\<rparr>"
      using assms r by (auto split: option.splits)
    obtain t' where t: "r' = Some t'" "same_end (link s) t'" "rc \<in> {1, 0, -1}"
        "rc = 1 \<Longrightarrow> length cs = n - length (prefetched s) \<and> transport_stream (link s) = cs @ transport_stream t'"
      using gateway_client_transport_read_sound [OF g] by metis
    have "prefetched s' = []" using s1 bs False by (simp add: prefetched_def)
    with t bs s1 False show ?thesis by (auto simp: input_stream_eq)
  qed
  then show "same_end (link s) (link s')" and "(prefetch s' = None) = (prefetch s = None)"
    and "rc = 1 \<Longrightarrow> length bs = n \<and> input_stream s = bs @ input_stream s'" and "rc \<in> {1, 0, -1}"
    by simp_all
qed

lemma read_exact_positive:
  "read_exact_prefetched s n = Some (rc, bs, s') \<Longrightarrow> \<not> rc \<le> 0 \<Longrightarrow>
   read_exact_prefetched s n = Some (1, bs, s') \<and> rc = 1"
  using read_exact_prefetched_sound(4) by fastforce

lemma read_one_shrinks:
  "read_exact_prefetched s 1 = Some (rc, bs, s') \<Longrightarrow> \<not> rc \<le> 0 \<Longrightarrow>
   length (input_stream s') < length (input_stream s)"
  using read_exact_prefetched_sound(3) [of s 1] read_exact_positive [of s 1 rc bs s'] by fastforce

definition input_read :: "client_input \<Rightarrow> nat \<Rightarrow> (byte list option \<times> client_input) option" where
  "input_read s n =
     (case read_exact_prefetched s n of
        None \<Rightarrow> None
      | Some (rc, bs, s') \<Rightarrow> Some (if rc = 1 then Some bs else None, s'))"

lemma input_read_complete:
  assumes "transport_wf (link s)" and "n \<le> length (input_stream s)"
  shows "\<exists>bs s'. input_read s n = Some (Some bs, s')"
proof -
  obtain s1 where r: "read_exact_prefetched s n =
       (if n \<le> length (prefetched s) then Some (1, take n (prefetched s), s1)
        else (case gateway_client_transport_read_exact (Some (link s)) (n - length (prefetched s)) of
                None \<Rightarrow> None
              | Some (rc, bs, t) \<Rightarrow> Some (rc, prefetched s @ bs, s1\<lparr>link := the t\<rparr>)))"
    by (rule read_exact_prefetched_eq)
  show ?thesis
  proof (cases "n \<le> length (prefetched s)")
    case True
    with r show ?thesis by (simp add: input_read_def)
  next
    case False
    then have "n - length (prefetched s) \<le> length (transport_stream (link s))"
      using assms(2) by (simp add: input_stream_eq)
    from transport_read_complete [OF assms(1) this] obtain bs t'
      where "transport_read (link s) (n - length (prefetched s)) = Some (Some bs, t')" by blast
    with r False show ?thesis
      by (auto simp: input_read_def transport_read_def split: option.splits prod.splits if_splits)
  qed
qed

interpretation input: byte_reader input_read input_stream "\<lambda>s. transport_wf (link s)"
proof unfold_locales
  fix s n bs s'
  assume wf: "transport_wf (link s)" and "input_read s n = Some (Some bs, s')"
  then have r: "read_exact_prefetched s n = Some (1, bs, s')"
    by (auto simp: input_read_def split: option.splits if_splits)
  note sound = read_exact_prefetched_sound [OF r]
  with wf show "length bs = n \<and> input_stream s = bs @ input_stream s' \<and> transport_wf (link s')"
    using transport_wf_same_end by blast
qed (rule input_read_complete)

text \<open>The loop of \<open>read_next_gateway_header\<close>; \<open>skipped\<close>, which is only printed, counts without bound.\<close>

function header_loop ::
  "client_input \<Rightarrow> gateway_proto_media_info option \<Rightarrow> gateway_proto_init_info option \<Rightarrow> byte list \<Rightarrow> int \<Rightarrow>
   (int \<times> gateway_proto_media_info option \<times> gateway_proto_init_info option \<times> bool \<times> int \<times> client_input) option" where
  "header_loop s media_info init_info header_buf skipped =
     (case gateway_proto_read_media_header media_info (Some header_buf) of (rc, media_info) \<Rightarrow>
        if rc = 0 then Some (1, media_info, init_info, False, skipped, s)
        else
          (case gateway_proto_read_init init_info (Some header_buf) of (rc, init_info) \<Rightarrow>
             if rc = 0 then Some (2, media_info, init_info, True, skipped, s)
             else
               (case read_exact_prefetched s 1 of
                  None \<Rightarrow> None
                | Some (rc, bs, s) \<Rightarrow>
                    if rc \<le> 0 then Some (rc, media_info, init_info, False, 0, s)
                    else header_loop s media_info init_info (tl header_buf @ bs) (skipped + 1))))"
  by pat_completeness auto
termination
  by (relation "measure (\<lambda>(s, _). length (input_stream s))")
     (auto intro: read_one_shrinks)

declare header_loop.simps [simp del]

definition read_next_gateway_header ::
  "client_input \<Rightarrow> gateway_proto_media_info option \<Rightarrow> gateway_proto_init_info option \<Rightarrow>
   (int \<times> gateway_proto_media_info option \<times> gateway_proto_init_info option \<times> bool \<times> int \<times> client_input) option" where
  "read_next_gateway_header s media_info init_info =
     (case read_exact_prefetched s GATEWAY_PROTO_PACKET_HEADER_SIZE of
        None \<Rightarrow> None
      | Some (rc, header_buf, s) \<Rightarrow>
          if rc \<le> 0 then Some (rc, media_info, init_info, False, 0, s)
          else header_loop s media_info init_info header_buf 0)"

section \<open>Payloads\<close>

definition read_gateway_payload_resync ::
  "client_input \<Rightarrow> nat \<Rightarrow> (int \<times> byte list \<times> client_input) option" where
  "read_gateway_payload_resync s payload_len' =
     (if payload_len' = 0 then Some (1, [], s)
      else
        let prefix_len = (if payload_len' > GATEWAY_PROTO_PACKET_HEADER_SIZE then GATEWAY_PROTO_PACKET_HEADER_SIZE else payload_len') in
        (case read_exact_prefetched s prefix_len of
           None \<Rightarrow> None
         | Some (rc, prefix, s) \<Rightarrow>
             if rc \<le> 0 then Some (-1, [], s)
             else if starts_gateway_magic (Some prefix) prefix_len then
               Some (0, [], s\<lparr>prefetch := prepend_prefetch (prefetch s) (Some prefix)\<rparr>)
             else if payload_len' > prefix_len then
               (case read_exact_prefetched s (payload_len' - prefix_len) of
                  None \<Rightarrow> None
                | Some (rc, rest, s) \<Rightarrow>
                    if rc \<le> 0 then Some (-1, [], s) else Some (1, prefix @ rest, s))
             else Some (1, prefix, s)))"

definition kUsbCryptoSessionNonce :: "byte list" where
  "kUsbCryptoSessionNonce = str ''USBRelayV1!!''"

text \<open>\<open>payload.swap(plaintext)\<close> after \<open>plaintext.resize(decrypted_len)\<close>.\<close>

definition decrypt_usb_media_payload ::
  "cipher \<Rightarrow> gateway_proto_media_info \<Rightarrow> byte list \<Rightarrow> bool \<times> byte list" where
  "decrypt_usb_media_payload chacha20_xor media_info payload =
     (if payload = [] then (True, payload)
      else
        let r = crypto_stream_decrypt_packet chacha20_xor (Some (replicate (length payload) 0)) (length payload)
                  (Some 0) (Some 0) (Some kUsbCryptoSessionNonce) (Some payload) (length payload) in
        if dr_rc r < 0 then (False, payload)
        else if dr_stream_id r \<noteq> Some (stream_id media_info) \<or> dr_seq_no r \<noteq> Some (seq_no media_info) then (False, payload)
        else (True, take (nat (dr_rc r)) (the (dr_plaintext r))))"

section \<open>Finding the next header\<close>

definition is_magic :: "byte list \<Rightarrow> bool" where
  "is_magic b \<longleftrightarrow> take 4 b = str ''GWP1'' \<or> take 4 b = str ''GWI1''"

lemma read_be32_host_eq: "read_be32_host b = read_be32 b 0"
  by (simp add: read_be32_host_def read_be32_def numeral_2_eq_2)

lemma starts_magic: "4 \<le> n \<Longrightarrow> n \<le> length b \<Longrightarrow> starts_gateway_magic (Some b) n = is_magic b"
  using magic_bytes [of b] read_be32_host_eq [of b]
  by (auto simp: starts_gateway_magic_def is_magic_def Let_def simp del: str_simps)

text \<open>Bytes in front of a header that no magic can be seen in, wherever one starts to read.\<close>

definition junk_before :: "byte list \<Rightarrow> byte list \<Rightarrow> bool" where
  "junk_before junk w \<longleftrightarrow> (\<forall>k < length junk. \<not> is_magic (drop k (junk @ w)))"

lemma junk_before_Cons: "junk_before (j # junk) w \<longleftrightarrow> \<not> is_magic (j # junk @ w) \<and> junk_before junk w"
  unfolding junk_before_def by (auto simp: less_Suc_eq_0_disj)

lemma junk_before_Nil [simp]: "junk_before [] w"
  by (simp add: junk_before_def)

lemma is_magic_append: "4 \<le> length b \<Longrightarrow> is_magic (b @ c) = is_magic b"
  by (simp add: is_magic_def)

lemma read_ok:
  assumes "transport_wf (link s)" and "input_stream s = bs @ rest" and "length bs = n"
  obtains s' where "read_exact_prefetched s n = Some (1, bs, s')" "input_stream s' = rest"
    "transport_wf (link s')" "(prefetch s' = None) = (prefetch s = None)"
proof -
  obtain s' where r: "input_read s n = Some (Some bs, s')" "input_stream s' = rest" "transport_wf (link s')"
    by (rule input.read_success [OF assms])
  then have "read_exact_prefetched s n = Some (1, bs, s')"
    by (auto simp: input_read_def split: option.splits if_splits)
  with r read_exact_prefetched_sound(2) [OF this] show thesis by (intro that [of s']) auto
qed

lemma header_loop_skip:
  assumes "length hdr = 16" and "\<not> is_magic hdr" and "read_exact_prefetched s 1 = Some (1, bs, s')"
  shows "header_loop s (Some m) (Some i) hdr sk = header_loop s' (Some m) (Some i) (tl hdr @ bs) (sk + 1)"
  using assms header_magic(1) [of hdr m] header_magic(2) [of hdr i] by (subst header_loop.simps) (simp add: is_magic_def)

lemma header_loop_junk:
  assumes "transport_wf (link s)" and "length hdr = 16" and "hdr @ input_stream s = junk @ w @ rest"
    and "length w = 16" and "junk_before junk w"
  shows "\<exists>s'. header_loop s (Some m) (Some i) hdr sk = header_loop s' (Some m) (Some i) w (sk + int (length junk)) \<and>
    input_stream s' = rest \<and> transport_wf (link s') \<and> (prefetch s' = None) = (prefetch s = None)"
  using assms
proof (induction junk arbitrary: s hdr sk)
  case Nil
  then have "hdr = w" "input_stream s = rest" by auto
  with Nil.prems(1) show ?case by auto
next
  case (Cons j junk)
  obtain hs where hdr: "hdr = j # hs" and hs: "hs @ input_stream s = junk @ w @ rest" "length hs = 15"
    using Cons.prems(2,3) by (cases hdr) auto
  have "input_stream s \<noteq> []"
    using arg_cong [OF hs(1), of length] hs(2) Cons.prems(4) by auto
  then obtain b more where b: "input_stream s = [b] @ more" by (cases "input_stream s") auto
  obtain s1 where s1: "read_exact_prefetched s 1 = Some (1, [b], s1)" "input_stream s1 = more"
      "transport_wf (link s1)" "(prefetch s1 = None) = (prefetch s = None)"
    using read_ok [OF Cons.prems(1) b, of 1] by auto
  have "is_magic hdr = is_magic (hdr @ input_stream s)" using Cons.prems(2) by (simp add: is_magic_append)
  also have "\<dots> = is_magic ((j # junk @ w) @ rest)" using Cons.prems(3) by simp
  also have "\<dots> = is_magic (j # junk @ w)" using Cons.prems(4) by (intro is_magic_append) simp
  finally have nm: "\<not> is_magic hdr" using Cons.prems(5) by (simp add: junk_before_Cons)
  have step: "header_loop s (Some m) (Some i) hdr sk = header_loop s1 (Some m) (Some i) (hs @ [b]) (sk + 1)"
    using header_loop_skip [OF Cons.prems(2) nm s1(1)] by (simp add: hdr)
  have "\<exists>s'. header_loop s1 (Some m) (Some i) (hs @ [b]) (sk + 1) =
      header_loop s' (Some m) (Some i) w (sk + 1 + int (length junk)) \<and>
      input_stream s' = rest \<and> transport_wf (link s') \<and> (prefetch s' = None) = (prefetch s1 = None)"
    using hs b s1 Cons.prems(4,5) by (intro Cons.IH) (simp_all add: junk_before_Cons)
  then show ?case using step s1(4) by (simp add: algebra_simps)
qed

lemma read_next_junk:
  assumes "transport_wf (link s)" and "input_stream s = junk @ w @ rest" and "length w = 16" and "junk_before junk w"
  obtains s' where "read_next_gateway_header s (Some m) (Some i) = header_loop s' (Some m) (Some i) w (int (length junk))"
    "input_stream s' = rest" "transport_wf (link s')" "(prefetch s' = None) = (prefetch s = None)"
proof -
  let ?h = "take 16 (input_stream s)"
  have split: "input_stream s = ?h @ drop 16 (input_stream s)" by simp
  have l: "length ?h = 16" using assms(2,3) by simp
  obtain s1 where s1: "read_exact_prefetched s 16 = Some (1, ?h, s1)" "input_stream s1 = drop 16 (input_stream s)"
      "transport_wf (link s1)" "(prefetch s1 = None) = (prefetch s = None)"
    by (rule read_ok [OF assms(1) split l])
  have "\<exists>s'. header_loop s1 (Some m) (Some i) ?h 0 = header_loop s' (Some m) (Some i) w (0 + int (length junk)) \<and>
    input_stream s' = rest \<and> transport_wf (link s') \<and> (prefetch s' = None) = (prefetch s1 = None)"
    by (rule header_loop_junk [OF s1(3) l _ assms(3,4)]) (simp only: s1(2) append_take_drop_id assms(2))
  then obtain s' where "header_loop s1 (Some m) (Some i) ?h 0 = header_loop s' (Some m) (Some i) w (int (length junk))"
      "input_stream s' = rest" "transport_wf (link s')" "(prefetch s' = None) = (prefetch s = None)"
    using s1(4) by auto
  then show thesis using that s1(1) by (simp add: read_next_gateway_header_def)
qed

text \<open>Whatever comes, a header that is reported was in the input, and what stands before it was skipped.\<close>

lemma header_loop_sound:
  "header_loop s m i hdr sk = Some (rc, m', i', saw, skipped, s') \<Longrightarrow> 0 < rc \<Longrightarrow> length hdr = 16 \<Longrightarrow>
   m \<noteq> None \<Longrightarrow> i \<noteq> None \<Longrightarrow>
   \<exists>junk w. hdr @ input_stream s = junk @ w @ input_stream s' \<and> length w = 16 \<and> is_magic w \<and>
     skipped = sk + int (length junk) \<and> rc = (if saw then 2 else 1) \<and>
     (rc = 1 \<longleftrightarrow> take 4 w = str ''GWP1'')"
proof (induction s m i hdr sk rule: header_loop.induct)
  case (1 s m i hdr sk)
  obtain m0 i0 where mi: "m = Some m0" "i = Some i0" using "1.prems" by auto
  obtain rm m1 where rm: "gateway_proto_read_media_header m (Some hdr) = (rm, m1)" by fastforce
  obtain ri i1 where ri: "gateway_proto_read_init i (Some hdr) = (ri, i1)" by fastforce
  note magic = header_magic(1) [of hdr m0, folded mi] header_magic(2) [of hdr i0, folded mi] header_magic(3) [of hdr m0, folded mi]
  show ?case
  proof (cases "rm = 0")
    case True
    with "1.prems" rm magic(3) show ?thesis
      by (subst (asm) header_loop.simps) (auto simp: is_magic_def intro!: exI [of _ "[]"])
  next
    case rm0: False
    then have m: "m1 = m" "take 4 hdr \<noteq> str ''GWP1''" using magic rm "1.prems"(3) by auto
    show ?thesis
    proof (cases "ri = 0")
      case True
      have "take 4 hdr = str ''GWI1''" using magic(2) ri True "1.prems"(3) by force
      with "1.prems" rm ri rm0 True m show ?thesis
        by (subst (asm) header_loop.simps) (auto simp: is_magic_def intro!: exI [of _ "[]"])
    next
      case ri0: False
      have i: "i1 = i" using ri ri0 mi by (auto simp: gateway_proto_read_init_def split: if_splits)
      obtain r bs s1 where r: "read_exact_prefetched s 1 = Some (r, bs, s1)" "\<not> r \<le> 0"
          and step: "header_loop s1 m i (tl hdr @ bs) (sk + 1) = Some (rc, m', i', saw, skipped, s')"
        using "1.prems"(1,2) rm ri rm0 ri0 m i
        by (subst (asm) header_loop.simps) (auto split: option.splits prod.splits if_splits)
      have sound: "length bs = 1" "input_stream s = bs @ input_stream s1"
        using read_exact_positive [OF r] read_exact_prefetched_sound(3) [of s 1 r bs s1] by auto
      have l: "length (tl hdr @ bs) = 16" using "1.prems"(3) sound(1) by simp
      from "1.IH" [OF rm [symmetric] rm0 ri [symmetric] ri0 r(1) refl refl r(2)] step "1.prems"(2,4,5) l m i
      obtain junk w where "(tl hdr @ bs) @ input_stream s1 = junk @ w @ input_stream s'" "length w = 16" "is_magic w"
          "skipped = sk + 1 + int (length junk)" "rc = (if saw then 2 else 1)" "rc = 1 \<longleftrightarrow> take 4 w = str ''GWP1''"
        by blast
      moreover have "hdr @ input_stream s = hd hdr # (tl hdr @ bs) @ input_stream s1"
        using "1.prems"(3) sound(2) by (cases hdr) simp_all
      ultimately show ?thesis by (intro exI [of _ "hd hdr # junk"] exI [of _ w]) simp
    qed
  qed
qed

section \<open>Reading a payload\<close>

lemma starts_magic_take:
  "n = min 16 (length body) \<Longrightarrow> starts_gateway_magic (Some (take n body)) n = is_magic body"
proof (cases "4 \<le> length body")
  case True
  assume "n = min 16 (length body)"
  with True have n: "4 \<le> n" "n \<le> length (take n body)" by simp_all
  from starts_magic [OF n] show ?thesis using n by (simp add: is_magic_def min_absorb1)
next
  case False
  assume "n = min 16 (length body)"
  with False show ?thesis
    by (auto simp: starts_gateway_magic_def is_magic_def dest: arg_cong [where f = length])
qed

lemma prepend_stream:
  "prefetch s \<noteq> None \<Longrightarrow>
   input_stream (s\<lparr>prefetch := prepend_prefetch (prefetch s) (Some b)\<rparr>) = b @ input_stream s"
  by (auto simp: input_stream_def prepend_prefetch_def)

lemma prepend_Some [simp]: "(prepend_prefetch pf b = None) = (pf = None)"
  by (auto simp: prepend_prefetch_def split: option.split)

lemma read_payload:
  assumes wf: "transport_wf (link s)" and str: "input_stream s = body @ rest" and pf: "prefetch s \<noteq> None"
  obtains s' where "transport_wf (link s')" "prefetch s' \<noteq> None"
    "read_gateway_payload_resync s (length body) = Some (if is_magic body then (0, [], s') else (1, body, s'))"
    "input_stream s' = (if is_magic body then body @ rest else rest)"
proof (cases "body = []")
  case True
  then show ?thesis
    using assms by (intro that [of s]) (simp_all add: read_gateway_payload_resync_def is_magic_def)
next
  case False
  define n where "n = min 16 (length body)"
  have n: "(if length body > 16 then 16 else length body) = n" by (simp add: n_def)
  have l: "length (take n body) = n" by (simp add: n_def)
  have split: "input_stream s = take n body @ (drop n body @ rest)" by (simp add: str)
  obtain s1 where s1: "read_exact_prefetched s n = Some (1, take n body, s1)" "input_stream s1 = drop n body @ rest"
      "transport_wf (link s1)" "prefetch s1 \<noteq> None"
    using read_ok [OF wf split l] pf by auto
  note magic = starts_magic_take [OF n_def]
  show ?thesis
  proof (cases "is_magic body")
    case True
    let ?s = "s1\<lparr>prefetch := prepend_prefetch (prefetch s1) (Some (take n body))\<rparr>"
    have "input_stream ?s = body @ rest" by (simp only: prepend_stream [OF s1(4)] s1(2) append_assoc [symmetric] append_take_drop_id)
    with True False s1 magic show ?thesis
      by (intro that [of ?s]) (simp_all add: read_gateway_payload_resync_def Let_def n [simplified])
  next
    case nm: False
    show ?thesis
    proof (cases "n < length body")
      case True
      obtain s2 where "read_exact_prefetched s1 (length body - n) = Some (1, drop n body, s2)" "input_stream s2 = rest"
          "transport_wf (link s2)" "prefetch s2 \<noteq> None"
        using read_ok [OF s1(3) s1(2), of "length body - n"] s1(4) by auto
      with True False nm s1 magic show ?thesis
        by (intro that [of s2]) (simp_all add: read_gateway_payload_resync_def Let_def n [simplified])
    next
      case no: False
      then have "n = length body" by (simp add: n_def)
      with False nm s1 magic show ?thesis
        by (intro that [of s1]) (simp_all add: read_gateway_payload_resync_def Let_def n [simplified])
    qed
  qed
qed

text \<open>
  C14: the client finds the next packet again after bytes that belong to none, and trusts no length over a header.
  When the input is some bytes without a magic in or across them, a media header, as many bytes as it announces, and more,
  then \<open>read_next_gateway_header\<close> reports that header and how many bytes it skipped, and \<open>read_gateway_payload_resync\<close> delivers the
  announced bytes, leaving what follows; except that it delivers nothing when these bytes begin with the magic of a header, and the
  search goes on from there.
\<close>

theorem client_resync:
  assumes wf: "transport_wf (link s)" and pf: "prefetch s \<noteq> None"
    and str: "input_stream s = junk @ media_wire info @ body @ rest" and junk: "junk_before junk (media_wire info)"
    and len: "unat (payload_len info) = length body"
  shows "\<exists>s1 s2. read_next_gateway_header s (Some m) (Some i) =
      Some (1, Some info, Some i, False, int (length junk), s1) \<and>
    read_gateway_payload_resync s1 (unat (payload_len info)) =
      Some (if is_magic body then (0, [], s2) else (1, body, s2)) \<and>
    input_stream s2 = (if is_magic body then body @ rest else rest) \<and> transport_wf (link s2) \<and> prefetch s2 \<noteq> None"
proof -
  obtain s1 where s1: "read_next_gateway_header s (Some m) (Some i) =
        header_loop s1 (Some m) (Some i) (media_wire info) (int (length junk))"
      "input_stream s1 = body @ rest" "transport_wf (link s1)" "prefetch s1 \<noteq> None"
    using read_next_junk [OF wf str _ junk, of m i] pf by (metis length_wire(2))
  have "read_next_gateway_header s (Some m) (Some i) = Some (1, Some info, Some i, False, int (length junk), s1)"
    unfolding s1(1) by (subst header_loop.simps) (simp add: read_media_wire)
  moreover obtain s2 where "transport_wf (link s2)" "prefetch s2 \<noteq> None"
      "read_gateway_payload_resync s1 (length body) = Some (if is_magic body then (0, [], s2) else (1, body, s2))"
      "input_stream s2 = (if is_magic body then body @ rest else rest)"
    using read_payload [OF s1(3,2,4)] by blast
  ultimately show ?thesis unfolding len by (intro exI [of _ s1] exI [of _ s2]) simp
qed

definition demo_input :: "byte list \<Rightarrow> client_input" where
  "demo_input bs = \<lparr>link = demo_transport\<lparr>tcp_fd := Some \<lparr>incoming = [RData 9 (tl bs), RIntr], outgoing = [], sent = []\<rparr>\<rparr>,
     prefetch = Some ([hd bs, 9], 0)\<rparr>"

theorem client_resync_witness:
  "\<exists>s1 s2. read_next_gateway_header (demo_input (7 # media_wire \<lparr>stream_id = 1, flags = 0, seq_no = 4, payload_len = 3\<rparr> @ [5, 6, 7, 8]))
       (Some \<lparr>stream_id = 0, flags = 0, seq_no = 0, payload_len = 0\<rparr>) (Some \<lparr>version = 0, video_codec = 0, audio_codec = 0,
          audio_channels = 0, audio_sample_rate = 0, audio_sample_bits = 0\<rparr>) =
     Some (1, Some \<lparr>stream_id = 1, flags = 0, seq_no = 4, payload_len = 3\<rparr>, Some \<lparr>version = 0, video_codec = 0, audio_codec = 0,
          audio_channels = 0, audio_sample_rate = 0, audio_sample_bits = 0\<rparr>, False, 3, s1) \<and>
     read_gateway_payload_resync s1 3 = Some (1, [5, 6, 7], s2) \<and> input_stream s2 = [8]"
proof -
  let ?info = "\<lparr>stream_id = 1, flags = 0, seq_no = 4, payload_len = 3\<rparr> :: gateway_proto_media_info"
  have str: "input_stream (demo_input (7 # media_wire ?info @ [5, 6, 7, 8])) = [7, 9, 9] @ media_wire ?info @ [5, 6, 7] @ [8]"
    by (simp add: demo_input_def input_stream_def transport_stream_def demo_transport_def sock_stream_def)
  have "transport_wf (link (demo_input (7 # media_wire ?info @ [5, 6, 7, 8])))"
      "prefetch (demo_input (7 # media_wire ?info @ [5, 6, 7, 8])) \<noteq> None"
      "junk_before [7, 9, 9] (media_wire ?info)" "unat (payload_len ?info) = length [5 :: byte, 6, 7]"
    by (simp_all add: demo_input_def transport_wf_def demo_transport_def junk_before_Cons is_magic_def)
  from client_resync [OF this(1,2) str this(3,4),
      of "\<lparr>stream_id = 0, flags = 0, seq_no = 0, payload_len = 0\<rparr>"
         "\<lparr>version = 0, video_codec = 0, audio_codec = 0, audio_channels = 0, audio_sample_rate = 0, audio_sample_bits = 0\<rparr>"]
  show ?thesis by (auto simp: is_magic_def)
qed

text \<open>Opening what the board sealed.\<close>

lemma packet_not_magic: "xor_stream_cipher c \<Longrightarrow> \<not> is_magic (packet_wire c sid seq sn pt)"
  by (simp add: is_magic_def packet_wire_def packet_header_def)

lemma decrypt_media:
  assumes "xor_stream_cipher c" and "8 + length pt < 2 ^ 31"
  shows "decrypt_usb_media_payload c info (packet_wire c (stream_id info) (seq_no info) kUsbCryptoSessionNonce pt) = (True, pt)"
proof -
  let ?p = "packet_wire c (stream_id info) (seq_no info) kUsbCryptoSessionNonce pt"
  have l: "length ?p = 8 + length pt" by (rule length_packet_wire [OF assms(1)])
  then have "?p \<noteq> []" by auto
  then show ?thesis
    using decrypt_packet_wire [OF assms, of "8 + length pt" "replicate (8 + length pt) 0" 0 0 kUsbCryptoSessionNonce
        "stream_id info" "seq_no info" "[]"]
    by (simp add: decrypt_usb_media_payload_def l Let_def)
qed

lemma decrypt_media_empty [simp]: "decrypt_usb_media_payload c info [] = (True, [])"
  by (simp add: decrypt_usb_media_payload_def)

end
