(* ===== verification/ClientAudio.thy ===== *)
theory ClientAudio
  imports ClientVideo "HOL-Library.Sublist"
begin

text \<open>
  The audio side of \<open>gateway_client/gateway_client.cpp\<close>: taking the debug header off a payload, the bounded queue of packets, and the
  routine that both threads call to feed the audio device from it.  The device is SDL's queue, of which the code
  relies on the documented behaviour: what was queued and not yet played is counted, it is played in order, and nothing is played
  while the device is paused.  Telemetry that is only printed is left out, except what the debug header is compared with.
\<close>

section \<open>State\<close>

abbreviation (input) audio_prebuffer_bytes :: nat where "audio_prebuffer_bytes \<equiv> 8192"
abbreviation (input) audio_target_bytes :: nat where "audio_target_bytes \<equiv> 16384"
abbreviation (input) audio_max_buffer_bytes :: nat where "audio_max_buffer_bytes \<equiv> 49152"

record audio_debug =
  debug_header_packets :: nat
  debug_index_gaps :: nat
  debug_offset_jumps :: nat
  have_debug_prev :: bool
  last_debug_index :: u32
  last_debug_offset :: u32
  last_debug_pcm_bytes :: u32

record shared_audio_state =
  audio_queue :: "byte list list"
  queued_bytes :: nat
  audio_started :: bool
  audio_dropped :: nat

definition audio_start :: shared_audio_state where
  "audio_start = \<lparr>audio_queue = [], queued_bytes = 0, audio_started = False, audio_dropped = 0\<rparr>"

definition audio_debug_start :: audio_debug where
  "audio_debug_start = \<lparr>debug_header_packets = 0, debug_index_gaps = 0, debug_offset_jumps = 0, have_debug_prev = False,
     last_debug_index = 0, last_debug_offset = 0, last_debug_pcm_bytes = 0\<rparr>"

text \<open>The device: whether it is paused, how many bytes wait in it, and the packets it was given so far.\<close>

record sdl_device =
  paused :: bool
  waiting_bytes :: nat
  fed :: "byte list list"

section \<open>Operations\<close>

definition unwrap_audio_debug_payload :: "audio_debug \<Rightarrow> byte list \<Rightarrow> audio_debug \<times> byte list" where
  "unwrap_audio_debug_payload t payload =
     (if length payload < 12 \<or> take 4 payload \<noteq> str ''AUD0'' then (t, payload)
      else
        let chunk_index = read_u32le payload 4;
            offset = read_u32le payload 8;
            pcm_size = length payload - 12;
            t = t\<lparr>debug_header_packets := debug_header_packets t + 1\<rparr>;
            t = (if have_debug_prev t then
                   let expected_index = last_debug_index t + 1;
                       expected_offset = last_debug_offset t + last_debug_pcm_bytes t;
                       t = (if chunk_index \<noteq> expected_index then t\<lparr>debug_index_gaps := debug_index_gaps t + 1\<rparr> else t)
                   in if offset \<noteq> expected_offset \<and> offset \<noteq> 0 then t\<lparr>debug_offset_jumps := debug_offset_jumps t + 1\<rparr> else t
                 else t)
        in (t\<lparr>have_debug_prev := True, last_debug_index := chunk_index, last_debug_offset := offset,
              last_debug_pcm_bytes := word_of_nat pcm_size\<rparr>, drop 12 payload))"

text \<open>The loop that makes room, and the queueing; \<open>queued_bytes\<close> never falls below zero (\<open>audio_ok\<close> below).\<close>

function drop_oldest :: "nat \<Rightarrow> shared_audio_state \<Rightarrow> shared_audio_state" where
  "drop_oldest n a =
     (if audio_queue a \<noteq> [] \<and> audio_max_buffer_bytes < queued_bytes a + n then
        drop_oldest n (a\<lparr>queued_bytes := queued_bytes a - length (hd (audio_queue a)), audio_queue := tl (audio_queue a),
                            audio_dropped := audio_dropped a + 1\<rparr>)
      else a)"
  by pat_completeness auto
termination
  by (relation "measure (\<lambda>(n, a). length (audio_queue a))") auto

declare drop_oldest.simps [simp del]

definition enqueue_audio_packet :: "shared_audio_state \<Rightarrow> byte list \<Rightarrow> shared_audio_state" where
  "enqueue_audio_packet a payload =
     (let a = drop_oldest (length payload) a in
      if audio_max_buffer_bytes < length payload then a\<lparr>audio_dropped := audio_dropped a + 1\<rparr>
      else a\<lparr>queued_bytes := queued_bytes a + length payload, audio_queue := audio_queue a @ [payload]\<rparr>)"

text \<open>
  Where a thread is in \<open>service_audio_output\<close>: outside, at the start of a turn with the number of bytes it takes the
  device to hold, or between taking a packet from the queue and giving it to the device, starting it first or not.
\<close>

datatype service_pc = Outside | Turn u32 | Feeding u32 "byte list" bool

text \<open>The part of a turn under the lock.\<close>

definition service_turn :: "u32 \<Rightarrow> shared_audio_state \<Rightarrow> service_pc \<times> shared_audio_state" where
  "service_turn sdl_queued a =
     (let total_available = unat sdl_queued + queued_bytes a in
      if \<not> audio_started a \<and> total_available < audio_prebuffer_bytes then (Outside, a)
      else
        let should_start = (\<not> audio_started a);
            a = a\<lparr>audio_started := True\<rparr> in
        if audio_target_bytes \<le> unat sdl_queued \<or> audio_queue a = [] then (Outside, a)
        else
          let pkt = hd (audio_queue a) in
          (Feeding sdl_queued pkt should_start,
           a\<lparr>audio_queue := tl (audio_queue a), queued_bytes := queued_bytes a - length pkt\<rparr>))"

text \<open>The rest of the turn; \<open>ok\<close> is what \<open>SDL_QueueAudio\<close> answers.\<close>

definition feed_packet :: "bool \<Rightarrow> u32 \<Rightarrow> byte list \<Rightarrow> bool \<Rightarrow> sdl_device \<Rightarrow> service_pc \<times> sdl_device" where
  "feed_packet ok sdl_queued pkt should_start d =
     (let d = (if should_start then d\<lparr>paused := False\<rparr> else d) in
      if pkt = [] then (Turn sdl_queued, d)
      else if \<not> ok then (Outside, d)
      else (Turn (sdl_queued + word_of_nat (length pkt)),
            d\<lparr>waiting_bytes := waiting_bytes d + length pkt, fed := fed d @ [pkt]\<rparr>))"

text \<open>The whole routine run by one thread; \<open>ok i\<close> is the device's answer in turn \<open>i\<close>.\<close>

function service_loop ::
  "(nat \<Rightarrow> bool) \<Rightarrow> nat \<Rightarrow> u32 \<Rightarrow> shared_audio_state \<Rightarrow> sdl_device \<Rightarrow> shared_audio_state \<times> sdl_device" where
  "service_loop ok i sdl_queued a d =
     (case service_turn sdl_queued a of
        (Feeding sdl_queued pkt should_start, a) \<Rightarrow>
          (case feed_packet (ok i) sdl_queued pkt should_start d of
             (Turn sdl_queued, d) \<Rightarrow> service_loop ok (i + 1) sdl_queued a d
           | (_, d) \<Rightarrow> (a, d))
      | (_, a) \<Rightarrow> (a, d))"
  by pat_completeness auto
termination
  by (relation "measure (\<lambda>(ok, i, q, a, d). length (audio_queue a))")
     (auto simp: service_turn_def Let_def split: if_splits)

declare service_loop.simps [simp del]

definition service_audio_output ::
  "(nat \<Rightarrow> bool) \<Rightarrow> bool \<Rightarrow> shared_audio_state \<Rightarrow> sdl_device \<Rightarrow> shared_audio_state \<times> sdl_device" where
  "service_audio_output ok audio_dev a d =
     (if \<not> audio_dev then (a, d) else service_loop ok 0 (word_of_nat (waiting_bytes d)) a d)"

section \<open>The queue's accounts\<close>

definition audio_ok :: "shared_audio_state \<Rightarrow> bool" where
  "audio_ok a \<longleftrightarrow> queued_bytes a = sum_list (map length (audio_queue a)) \<and> queued_bytes a \<le> audio_max_buffer_bytes"

lemma drop_oldest_ok:
  "queued_bytes a = sum_list (map length (audio_queue a)) \<Longrightarrow>
   queued_bytes (drop_oldest n a) = sum_list (map length (audio_queue (drop_oldest n a))) \<and>
   (audio_queue (drop_oldest n a) = [] \<or> queued_bytes (drop_oldest n a) + n \<le> audio_max_buffer_bytes) \<and>
   (\<exists>dropped. audio_queue a = dropped @ audio_queue (drop_oldest n a)) \<and>
   audio_started (drop_oldest n a) = audio_started a"
proof (induction n a rule: drop_oldest.induct)
  case (1 n a)
  show ?case
  proof (cases "audio_queue a \<noteq> [] \<and> audio_max_buffer_bytes < queued_bytes a + n")
    case False
    with "1.prems" show ?thesis by (subst (1 2 3 4 5 6) drop_oldest.simps) auto
  next
    case True
    let ?a = "a\<lparr>queued_bytes := queued_bytes a - length (hd (audio_queue a)), audio_queue := tl (audio_queue a),
        audio_dropped := audio_dropped a + 1\<rparr>"
    have step: "drop_oldest n a = drop_oldest n ?a" using True by (subst drop_oldest.simps) simp
    obtain p ps where q: "audio_queue a = p # ps" using True by (cases "audio_queue a") auto
    have "queued_bytes ?a = sum_list (map length (audio_queue ?a))" using "1.prems" q by simp
    note ih = "1.IH" [OF True this]
    then obtain dropped where "audio_queue ?a = dropped @ audio_queue (drop_oldest n ?a)" by blast
    then have "audio_queue a = (p # dropped) @ audio_queue (drop_oldest n ?a)" by (simp add: q)
    with ih show ?thesis unfolding step by (intro conjI) (blast | simp)+
  qed
qed

lemma enqueue_audio_ok:
  assumes "audio_ok a"
  shows "audio_ok (enqueue_audio_packet a p)" and "audio_started (enqueue_audio_packet a p) = audio_started a"
    and "subseq (audio_queue (enqueue_audio_packet a p)) (audio_queue a @ [p])"
proof -
  let ?d = "drop_oldest (length p) a"
  have d: "queued_bytes ?d = sum_list (map length (audio_queue ?d))"
      "audio_queue ?d = [] \<or> queued_bytes ?d + length p \<le> audio_max_buffer_bytes"
      "\<exists>dropped. audio_queue a = dropped @ audio_queue ?d" "audio_started ?d = audio_started a"
    using drop_oldest_ok [of a "length p"] assms unfolding audio_ok_def by blast+
  have le: "queued_bytes ?d \<le> audio_max_buffer_bytes" using d(1,2) by auto
  from d(1,2) le show "audio_ok (enqueue_audio_packet a p)"
    by (auto simp: enqueue_audio_packet_def Let_def audio_ok_def)
  show "audio_started (enqueue_audio_packet a p) = audio_started a"
    using d(4) by (simp add: enqueue_audio_packet_def Let_def)
  obtain dropped where "audio_queue a = dropped @ audio_queue ?d" using d(3) by blast
  then have s: "subseq (audio_queue ?d) (audio_queue a)" by (metis subseq_drop_many subseq_order.refl)
  show "subseq (audio_queue (enqueue_audio_packet a p)) (audio_queue a @ [p])"
    using s by (auto simp: enqueue_audio_packet_def Let_def intro: list_emb_append_mono subseq_append')
qed

section \<open>Two threads and a device\<close>

text \<open>
  Both threads call the routine, one at a time (\<open>audio_service_lock\<close>); the network thread adds packets between the turns, and
  the device plays.  \<open>received\<close> is the history of what was offered to the queue.
\<close>

record audio_threads =
  audio :: shared_audio_state
  sdl :: sdl_device
  service :: service_pc
  debug :: audio_debug
  received :: "byte list list"

definition receive_audio :: "byte list \<Rightarrow> audio_threads \<Rightarrow> audio_threads" where
  "receive_audio payload v =
     (case unwrap_audio_debug_payload (debug v) payload of (t, pcm) \<Rightarrow>
        v\<lparr>debug := t, audio := enqueue_audio_packet (audio v) pcm, received := received v @ [pcm]\<rparr>)"

definition service_begin :: "audio_threads \<Rightarrow> audio_threads" where
  "service_begin v = v\<lparr>service := Turn (word_of_nat (waiting_bytes (sdl v)))\<rparr>"

definition service_take :: "u32 \<Rightarrow> audio_threads \<Rightarrow> audio_threads" where
  "service_take q v = (case service_turn q (audio v) of (pc, a) \<Rightarrow> v\<lparr>audio := a, service := pc\<rparr>)"

definition service_feed :: "bool \<Rightarrow> u32 \<Rightarrow> byte list \<Rightarrow> bool \<Rightarrow> audio_threads \<Rightarrow> audio_threads" where
  "service_feed ok q pkt should_start v =
     (case feed_packet ok q pkt should_start (sdl v) of (pc, d) \<Rightarrow> v\<lparr>sdl := d, service := pc\<rparr>)"

inductive audio_step :: "audio_threads \<Rightarrow> audio_threads \<Rightarrow> bool" where
  Receive: "audio_step v (receive_audio payload v)"
| Begin: "service v = Outside \<Longrightarrow> audio_step v (service_begin v)"
| Take: "service v = Turn q \<Longrightarrow> audio_step v (service_take q v)"
| Feed: "service v = Feeding q pkt start \<Longrightarrow> audio_step v (service_feed ok q pkt start v)"
| Play: "\<not> paused (sdl v) \<Longrightarrow> n \<le> waiting_bytes (sdl v) \<Longrightarrow>
    audio_step v (v\<lparr>sdl := (sdl v)\<lparr>waiting_bytes := waiting_bytes (sdl v) - n\<rparr>\<rparr>)"

inductive_cases audio_stepE: "audio_step v v'"

definition audio_threads_start :: audio_threads where
  "audio_threads_start = \<lparr>audio = audio_start, sdl = \<lparr>paused = True, waiting_bytes = 0, fed = []\<rparr>, service = Outside,
     debug = audio_debug_start, received = []\<rparr>"

inductive audio_reachable :: "audio_threads \<Rightarrow> bool" where
  Start: "audio_reachable audio_threads_start"
| Step: "audio_reachable v \<Longrightarrow> audio_step v v' \<Longrightarrow> audio_reachable v'"

text \<open>
  The invariant: what a thread has taken from the queue stands between what was played and what is queued; its count of the
  device's bytes is not below the device's; the device is paused and empty until a thread starts it, and starts before the first packet.
\<close>

fun in_hand :: "service_pc \<Rightarrow> byte list list" where
  "in_hand (Feeding q pkt start) = [pkt]"
| "in_hand _ = []"

fun service_ok :: "service_pc \<Rightarrow> bool \<Rightarrow> sdl_device \<Rightarrow> bool" where
  "service_ok Outside started d \<longleftrightarrow> (started \<longleftrightarrow> \<not> paused d)"
| "service_ok (Turn q) started d \<longleftrightarrow> (started \<longleftrightarrow> \<not> paused d) \<and> waiting_bytes d \<le> unat q \<and> (\<not> started \<longrightarrow> q = 0)"
| "service_ok (Feeding q pkt start) started d \<longleftrightarrow>
     started \<and> (start \<longleftrightarrow> paused d) \<and> waiting_bytes d \<le> unat q \<and> unat q < audio_target_bytes \<and>
     length pkt \<le> audio_max_buffer_bytes"

definition audio_inv :: "audio_threads \<Rightarrow> bool" where
  "audio_inv v \<longleftrightarrow>
     audio_ok (audio v) \<and> service_ok (service v) (audio_started (audio v)) (sdl v) \<and>
     (paused (sdl v) \<longrightarrow> fed (sdl v) = [] \<and> waiting_bytes (sdl v) = 0) \<and>
     waiting_bytes (sdl v) < audio_target_bytes + audio_max_buffer_bytes \<and>
     subseq (fed (sdl v) @ in_hand (service v) @ audio_queue (audio v)) (received v)"

lemma receive_audio_inv:
  assumes "audio_inv v" shows "audio_inv (receive_audio payload v)"
proof -
  obtain t pcm where u: "unwrap_audio_debug_payload (debug v) payload = (t, pcm)" by fastforce
  have ok: "audio_ok (audio v)" using assms by (simp add: audio_inv_def)
  note e = enqueue_audio_ok [OF ok, of pcm]
  have "subseq ((fed (sdl v) @ in_hand (service v)) @ audio_queue (enqueue_audio_packet (audio v) pcm))
      ((fed (sdl v) @ in_hand (service v)) @ audio_queue (audio v) @ [pcm])"
    using e(3) by (intro list_emb_append_mono) simp_all
  also have "subseq \<dots> (received v @ [pcm])"
    using assms by (simp add: audio_inv_def flip: append_assoc)
  finally show ?thesis using assms e by (simp add: audio_inv_def receive_audio_def u)
qed

lemma service_take_inv:
  assumes inv: "audio_inv v" and pc: "service v = Turn q" shows "audio_inv (service_take q v)"
proof -
  have ok: "audio_ok (audio v)" "service_ok (Turn q) (audio_started (audio v)) (sdl v)" using inv pc by (simp_all add: audio_inv_def)
  show ?thesis
  proof (cases "audio_queue (audio v)")
    case Nil
    have "queued_bytes (audio v) = 0" using ok(1) Nil by (simp add: audio_ok_def)
    with inv pc ok Nil show ?thesis
      by (auto simp: audio_inv_def service_take_def service_turn_def Let_def audio_ok_def)
  next
    case (Cons p ps)
    then have b: "queued_bytes (audio v) = length p + sum_list (map length ps)" "length p \<le> audio_max_buffer_bytes"
      using ok(1) by (auto simp: audio_ok_def)
    with inv pc ok Cons show ?thesis
      by (auto simp: audio_inv_def service_take_def service_turn_def Let_def audio_ok_def)
  qed
qed

lemma service_feed_inv:
  assumes inv: "audio_inv v" and pc: "service v = Feeding q pkt start" shows "audio_inv (service_feed ok q pkt start v)"
proof -
  have s: "service_ok (Feeding q pkt start) (audio_started (audio v)) (sdl v)" using inv pc by (simp add: audio_inv_def)
  then have "unat q + length pkt < 2 ^ 32" by simp
  then have u: "unat (q + word_of_nat (length pkt)) = unat q + length pkt"
    by (simp add: unat_word_ariths unat_of_nat take_bit_nat_eq_self unsigned_of_nat)
  have drop: "subseq (fed (sdl v) @ audio_queue (audio v)) (received v)"
  proof -
    have "subseq (fed (sdl v) @ audio_queue (audio v)) (fed (sdl v) @ [pkt] @ audio_queue (audio v))"
      by (intro list_emb_append_mono) auto
    then show ?thesis using inv pc by (auto simp: audio_inv_def intro: subseq_order.trans)
  qed
  show ?thesis using inv pc s u drop
    by (auto simp: audio_inv_def service_feed_def feed_packet_def Let_def)
qed

lemma audio_reachable_inv: "audio_reachable v \<Longrightarrow> audio_inv v"
proof (induction rule: audio_reachable.induct)
  case Start
  then show ?case by (simp add: audio_inv_def audio_threads_start_def audio_start_def audio_ok_def)
next
  case (Step v v')
  have "unat (word_of_nat (waiting_bytes (sdl v)) :: u32) = waiting_bytes (sdl v)"
    using Step.IH by (simp add: unat_word_of_nat audio_inv_def)
  then have enters: "service v = Outside \<Longrightarrow> audio_inv (service_begin v)"
    using Step.IH by (auto simp: audio_inv_def service_begin_def)
  have play: "audio_inv (v\<lparr>sdl := (sdl v)\<lparr>waiting_bytes := waiting_bytes (sdl v) - n\<rparr>\<rparr>)" if "\<not> paused (sdl v)" for n
    using Step.IH that by (cases "service v") (auto simp: audio_inv_def)
  from Step.hyps(2) Step.IH enters play show ?case
    by (cases rule: audio_stepE) (auto intro: receive_audio_inv service_take_inv service_feed_inv)
qed

text \<open>A thread that runs the routine alone, with a device that takes what it is given.\<close>

definition served :: "shared_audio_state \<times> sdl_device \<Rightarrow> shared_audio_state \<times> sdl_device \<Rightarrow> bool" where
  "served s s' \<longleftrightarrow> (case (s, s') of ((a, d), (a', d')) \<Rightarrow>
     audio_started a' \<and> \<not> paused d' \<and> (audio_queue a' = [] \<or> audio_target_bytes \<le> waiting_bytes d') \<and>
     concat (fed d' @ audio_queue a') = concat (fed d @ audio_queue a))"

lemma unat_add_packet:
  "unat q < audio_target_bytes \<Longrightarrow> n \<le> audio_max_buffer_bytes \<Longrightarrow> unat (q + word_of_nat n :: u32) = unat q + n"
  by (simp add: unat_word_ariths unat_of_nat take_bit_nat_eq_self unsigned_of_nat)

lemma service_loop_turn:
  assumes ok: "audio_ok a" and q: "audio_queue a = p # ps" "unat q < audio_target_bytes" "waiting_bytes d = unat q"
    and go: "audio_started a \<or> audio_prebuffer_bytes \<le> unat q + queued_bytes a"
    and st: "audio_started a \<longleftrightarrow> \<not> paused d"
  obtains a' d' q' where "service_loop (\<lambda>_. True) i q a d = service_loop (\<lambda>_. True) (i + 1) q' a' d'"
    "audio_ok a'" "audio_queue a' = ps" "audio_started a'" "\<not> paused d'" "waiting_bytes d' = unat q'"
    "concat (fed d' @ ps) = concat (fed d @ audio_queue a)"
proof -
  let ?a = "a\<lparr>audio_started := True, audio_queue := ps, queued_bytes := queued_bytes a - length p\<rparr>"
  let ?d = "if \<not> audio_started a then d\<lparr>paused := False\<rparr> else d"
  let ?q = "if p = [] then q else q + word_of_nat (length p)"
  let ?d' = "if p = [] then ?d else ?d\<lparr>waiting_bytes := waiting_bytes d + length p, fed := fed d @ [p]\<rparr>"
  have b: "queued_bytes a = length p + sum_list (map length ps)" "length p \<le> audio_max_buffer_bytes"
    using ok q(1) by (auto simp: audio_ok_def)
  have step: "service_loop (\<lambda>_. True) i q a d = service_loop (\<lambda>_. True) (i + 1) ?q ?a ?d'"
    using go q by (subst service_loop.simps) (auto simp: service_turn_def feed_packet_def Let_def)
  have d: "\<not> paused ?d'" "waiting_bytes ?d' = unat ?q" "concat (fed ?d' @ ps) = concat (fed d @ audio_queue a)"
    using st q unat_add_packet [OF q(2) b(2)] by auto
  have a: "audio_ok ?a" using b ok by (auto simp: audio_ok_def)
  show thesis by (rule that [OF step a _ _ d]) simp_all
qed

lemma service_loop_started:
  "audio_queue a = ps \<Longrightarrow> audio_ok a \<Longrightarrow> audio_started a \<Longrightarrow> \<not> paused d \<Longrightarrow> waiting_bytes d = unat q \<Longrightarrow>
   served (a, d) (service_loop (\<lambda>_. True) i q a d)"
proof (induction ps arbitrary: i q a d)
  case Nil
  then show ?case by (subst service_loop.simps) (simp add: service_turn_def served_def)
next
  case (Cons p ps)
  show ?case
  proof (cases "audio_target_bytes \<le> unat q")
    case True
    with Cons.prems show ?thesis by (subst service_loop.simps) (simp add: service_turn_def served_def)
  next
    case False
    then have q: "unat q < audio_target_bytes" by simp
    obtain a' d' q' where t: "service_loop (\<lambda>_. True) i q a d = service_loop (\<lambda>_. True) (i + 1) q' a' d'"
        "audio_ok a'" "audio_queue a' = ps" "audio_started a'" "\<not> paused d'" "waiting_bytes d' = unat q'"
        "concat (fed d' @ ps) = concat (fed d @ audio_queue a)"
      by (rule service_loop_turn [OF Cons.prems(2,1) q Cons.prems(5)]) (use Cons.prems in auto)
    from Cons.IH [OF t(3,2,4,5,6), of "i + 1"] t show ?thesis
      by (auto simp: served_def)
  qed
qed

text \<open>
  C15: sound is played in order, once, and never before enough of it is there.  However the network thread, the two threads' calls
  of the service routine and the device interleave, what the device was given, what a thread has in hand and what is queued are
  together a subsequence of what was received; the queue holds at most 49152 bytes and its counter is right, the
  device holds less than 65536, and is given nothing while it is paused.  A thread that runs the routine undisturbed leaves everything as it is when playing
  has not started and fewer than 8192 bytes are there; otherwise the device plays afterwards, holds 16384 bytes or all there are, and
  no byte is lost.
\<close>

theorem client_audio:
  assumes "audio_reachable v"
  shows "subseq (fed (sdl v) @ in_hand (service v) @ audio_queue (audio v)) (received v) \<and>
    queued_bytes (audio v) = sum_list (map length (audio_queue (audio v))) \<and> queued_bytes (audio v) \<le> 49152 \<and>
    waiting_bytes (sdl v) < 65536 \<and> (paused (sdl v) \<longrightarrow> fed (sdl v) = []) \<and>
    (service v = Outside \<longrightarrow>
       (if \<not> audio_started (audio v) \<and> queued_bytes (audio v) < 8192
        then service_audio_output (\<lambda>_. True) True (audio v) (sdl v) = (audio v, sdl v)
        else served (audio v, sdl v) (service_audio_output (\<lambda>_. True) True (audio v) (sdl v))))"
proof -
  from audio_reachable_inv [OF assms] have inv: "audio_inv v" .
  have ok: "audio_ok (audio v)" using inv by (simp add: audio_inv_def)
  let ?q = "word_of_nat (waiting_bytes (sdl v)) :: u32"
  have q: "waiting_bytes (sdl v) = unat ?q" using inv by (simp add: unat_word_of_nat audio_inv_def)
  have serve: "if \<not> audio_started (audio v) \<and> queued_bytes (audio v) < 8192
        then service_audio_output (\<lambda>_. True) True (audio v) (sdl v) = (audio v, sdl v)
        else served (audio v, sdl v) (service_audio_output (\<lambda>_. True) True (audio v) (sdl v))" if "service v = Outside"
  proof (cases "audio_started (audio v)")
    case True
    with inv that have "\<not> paused (sdl v)" by (simp add: audio_inv_def)
    from service_loop_started [OF refl ok True this q] True show ?thesis by (simp add: service_audio_output_def)
  next
    case False
    with inv that have p: "paused (sdl v)" "waiting_bytes (sdl v) = 0" by (auto simp: audio_inv_def)
    show ?thesis
    proof (cases "queued_bytes (audio v) < 8192")
      case True
      with False p show ?thesis
        by (simp add: service_audio_output_def service_loop.simps [of _ _ 0] service_turn_def)
    next
      case enough: False
      then obtain pkt ps where ps: "audio_queue (audio v) = pkt # ps"
        using ok by (cases "audio_queue (audio v)") (auto simp: audio_ok_def)
      obtain a' d' q' where t: "service_loop (\<lambda>_. True) 0 ?q (audio v) (sdl v) = service_loop (\<lambda>_. True) (0 + 1) q' a' d'"
          "audio_ok a'" "audio_queue a' = ps" "audio_started a'" "\<not> paused d'" "waiting_bytes d' = unat q'"
          "concat (fed d' @ ps) = concat (fed (sdl v) @ audio_queue (audio v))"
        by (rule service_loop_turn [OF ok ps _ q]) (use p enough False in auto)
      from service_loop_started [OF t(3,2,4,5,6), of "0 + 1"] t enough show ?thesis
        by (auto simp: service_audio_output_def served_def)
    qed
  qed
  with inv show ?thesis by (simp add: audio_inv_def audio_ok_def)
qed

text \<open>One packet of 9000 bytes: it starts the device.\<close>

definition demo_audio :: audio_threads where
  "demo_audio = receive_audio (str ''AUD0'' @ replicate 8 0 @ replicate 9000 5) audio_threads_start"

lemma demo_audio_fields:
  "audio demo_audio = \<lparr>audio_queue = [replicate 9000 5], queued_bytes = 9000, audio_started = False, audio_dropped = 0\<rparr>"
  "sdl demo_audio = \<lparr>paused = True, waiting_bytes = 0, fed = []\<rparr>" "service demo_audio = Outside"
  by (simp_all add: demo_audio_def receive_audio_def unwrap_audio_debug_payload_def audio_threads_start_def audio_start_def
      audio_debug_start_def enqueue_audio_packet_def drop_oldest.simps Let_def)

theorem client_audio_witness:
  "service_audio_output (\<lambda>_. True) True (audio demo_audio) (sdl demo_audio) =
     (\<lparr>audio_queue = [], queued_bytes = 0, audio_started = True, audio_dropped = 0\<rparr>,
      \<lparr>paused = False, waiting_bytes = 9000, fed = [replicate 9000 5]\<rparr>) \<and>
   served (audio demo_audio, sdl demo_audio) (service_audio_output (\<lambda>_. True) True (audio demo_audio) (sdl demo_audio))"
proof -
  have "audio_reachable demo_audio"
    unfolding demo_audio_def by (intro audio_reachable.Step [OF audio_reachable.Start] audio_step.Receive)
  from client_audio [OF this] show ?thesis
    by (simp add: demo_audio_fields service_audio_output_def service_loop.simps service_turn_def feed_packet_def Let_def)
qed

end
