(* ===== verification/ClientReader.thy ===== *)
theory ClientReader
  imports ClientStream ClientAudio
begin

text \<open>
  The network thread of \<open>gateway_client/gateway_client.cpp\<close> (\<open>network_reader\<close>): one packet per turn, read, opened and handed to the video or
  the audio side, until the input ends.  The thread is modelled as it runs when the main thread neither stops it nor uses the queues
  at the same time; \<open>ClientVideo\<close> and \<open>ClientAudio\<close> hold what the two threads do to them together.
\<close>

section \<open>State\<close>

text \<open>What the packets go to, and the thread's input.\<close>

record player =
  pl_video :: shared_video_state
  pl_audio :: shared_audio_state
  pl_debug :: audio_debug
  pl_sdl :: sdl_device
  pl_audio_dev :: bool

record playback_state =
  pb_input :: client_input
  pb_player :: player
  pb_running :: bool

section \<open>One packet\<close>

definition audio_payload :: "(nat \<Rightarrow> bool) \<Rightarrow> byte list \<Rightarrow> player \<Rightarrow> player" where
  "audio_payload ok payload p =
     (if \<not> pl_audio_dev p then p
      else
        (case unwrap_audio_debug_payload (pl_debug p) payload of (t, payload) \<Rightarrow>
           (case service_audio_output ok (pl_audio_dev p) (enqueue_audio_packet (pl_audio p) payload) (pl_sdl p) of (a, d) \<Rightarrow>
              p\<lparr>pl_debug := t, pl_audio := a, pl_sdl := d\<rparr>)))"

definition deliver_payload :: "(nat \<Rightarrow> bool) \<Rightarrow> gateway_proto_media_info \<Rightarrow> byte list \<Rightarrow> player \<Rightarrow> player" where
  "deliver_payload ok info payload p =
     (if stream_id info = GATEWAY_PROTO_STREAM_VIDEO then
        p\<lparr>pl_video := video_payload (pl_video p) payload (flags info) (seq_no info)\<rparr>
      else if stream_id info = GATEWAY_PROTO_STREAM_AUDIO then audio_payload ok payload p
      else p)"

text \<open>The locals that a turn fills; \<open>media_info\<close> is read only after a header was stored in it.\<close>

definition media_local :: gateway_proto_media_info where
  "media_local = \<lparr>stream_id = 0, flags = 0, seq_no = 0, payload_len = 0\<rparr>"

definition resync_init :: gateway_proto_init_info where
  "resync_init = \<lparr>version = 0, video_codec = 0, audio_codec = 0, audio_channels = 0,
     audio_sample_rate = 0, audio_sample_bits = 0\<rparr>"

text \<open>Whether the loop goes on, and the state.\<close>

definition network_reader_turn :: "cipher \<Rightarrow> (nat \<Rightarrow> bool) \<Rightarrow> playback_state \<Rightarrow> (bool \<times> playback_state) option" where
  "network_reader_turn c ok s =
     (case read_next_gateway_header (pb_input s) (Some media_local) (Some resync_init) of
        None \<Rightarrow> None
      | Some (rc, media_info, init_info, saw_init, skipped, inp) \<Rightarrow>
          let s = s\<lparr>pb_input := inp\<rparr> in
          if rc \<le> 0 then Some (False, s)
          else if rc = 2 \<and> saw_init then Some (True, s)
          else
            (case read_gateway_payload_resync inp (unat (payload_len (the media_info))) of
               None \<Rightarrow> None
             | Some (rc, payload, inp) \<Rightarrow>
                 let s = s\<lparr>pb_input := inp\<rparr> in
                 if rc < 0 then Some (False, s)
                 else if rc = 0 then Some (True, s)
                 else
                   (case decrypt_usb_media_payload c (the media_info) payload of (decrypted, payload) \<Rightarrow>
                      if \<not> decrypted then Some (True, s)
                      else Some (True, s\<lparr>pb_player := deliver_payload ok (the media_info) payload (pb_player s)\<rparr>))))"

section \<open>The loop\<close>

text \<open>Every turn that goes on takes a header from the input.\<close>

lemma read_next_shrinks:
  assumes "read_next_gateway_header s (Some m) (Some i) = Some (rc, m', i', saw, sk, s')" and "\<not> rc \<le> 0"
  shows "length (input_stream s') < length (input_stream s)"
proof -
  obtain r hdr s1 where r: "read_exact_prefetched s 16 = Some (r, hdr, s1)" "\<not> r \<le> 0"
      "header_loop s1 (Some m) (Some i) hdr 0 = Some (rc, m', i', saw, sk, s')"
    using assms by (auto simp: read_next_gateway_header_def split: option.splits prod.splits if_splits)
  then have l: "length hdr = 16" "input_stream s = hdr @ input_stream s1"
    using read_exact_positive [OF r(1,2)] read_exact_prefetched_sound(3) [of s 16 1 hdr s1] by auto
  obtain junk w where "hdr @ input_stream s1 = junk @ w @ input_stream s'" "length w = 16"
    using header_loop_sound [OF r(3) _ l(1)] assms(2) by auto
  then show ?thesis using arg_cong [of _ _ length] l(2) by fastforce
qed

lemma read_payload_shrinks:
  assumes "read_gateway_payload_resync s n = Some (rc, p, s')" and "\<not> rc < 0"
  shows "length (input_stream s') \<le> length (input_stream s)"
proof (cases "n = 0")
  case True
  with assms show ?thesis by (simp add: read_gateway_payload_resync_def)
next
  case False
  define m where "m = (if n > 16 then 16 else n)"
  obtain r prefix s1 where r: "read_exact_prefetched s m = Some (r, prefix, s1)" "\<not> r \<le> 0"
    using assms False by (auto simp: read_gateway_payload_resync_def Let_def m_def split: option.splits if_splits)
  then have s1: "input_stream s = prefix @ input_stream s1"
    using read_exact_positive [OF r] read_exact_prefetched_sound(3) [of s m 1 prefix s1] by auto
  show ?thesis
  proof (cases "starts_gateway_magic (Some prefix) m")
    case True
    have "length (input_stream (s1\<lparr>prefetch := prepend_prefetch (prefetch s1) (Some prefix)\<rparr>)) \<le>
        length (prefix @ input_stream s1)"
      using prepend_stream [of s1 prefix] by (cases "prefetch s1") (auto simp: input_stream_def prepend_prefetch_def)
    with True r s1 assms False show ?thesis
      by (auto simp: read_gateway_payload_resync_def Let_def simp flip: m_def)
  next
    case nm: False
    show ?thesis
    proof (cases "m < n")
      case no: False
      with nm r s1 assms False show ?thesis by (auto simp: read_gateway_payload_resync_def Let_def simp flip: m_def)
    next
      case True
      obtain r2 more s2 where r2: "read_exact_prefetched s1 (n - m) = Some (r2, more, s2)" "\<not> r2 \<le> 0" "s' = s2"
        using True nm r assms False
        by (auto simp: read_gateway_payload_resync_def Let_def simp flip: m_def split: option.splits prod.splits if_splits)
      then have "input_stream s1 = more @ input_stream s2"
        using read_exact_positive [OF r2(1,2)] read_exact_prefetched_sound(3) [of s1 "n - m" 1 more s2] by auto
      with s1 r2(3) show ?thesis by simp
    qed
  qed
qed

lemma reader_turn_shrinks:
  "network_reader_turn c ok s = Some (True, s') \<Longrightarrow>
   length (input_stream (pb_input s')) < length (input_stream (pb_input s))"
  by (auto simp: network_reader_turn_def Let_def split: option.splits prod.splits if_splits
      dest!: read_next_shrinks read_payload_shrinks)

definition reader_end :: "playback_state \<Rightarrow> playback_state" where
  "reader_end s = s\<lparr>pb_running := False,
     pb_input := (pb_input s)\<lparr>link := the (gateway_client_transport_request_stop (Some (link (pb_input s))))\<rparr>\<rparr>"

text \<open>The whole thread; \<open>oks k\<close> is what the audio device answers during turn \<open>k\<close>, \<open>None\<close> a read that never returns.\<close>

function network_reader :: "cipher \<Rightarrow> (nat \<Rightarrow> nat \<Rightarrow> bool) \<Rightarrow> nat \<Rightarrow> playback_state \<Rightarrow> playback_state option" where
  "network_reader c oks k s =
     (if \<not> pb_running s then Some (reader_end s)
      else
        (case network_reader_turn c (oks k) s of
           None \<Rightarrow> None
         | Some (goes_on, s) \<Rightarrow> if goes_on then network_reader c oks (k + 1) s else Some (reader_end s)))"
  by pat_completeness auto
termination
  by (relation "measure (\<lambda>(c, oks, k, s). length (input_stream (pb_input s)))") (auto dest: reader_turn_shrinks)

declare network_reader.simps [simp del]

section \<open>The packets of a stream\<close>

text \<open>A turn on a sealed packet: it is delivered opened, and the input is left behind it.\<close>

definition sealed_packet :: "cipher \<Rightarrow> byte list \<Rightarrow> gateway_proto_media_info \<Rightarrow> byte list \<Rightarrow> byte list" where
  "sealed_packet c nonce info pt =
     media_wire (info\<lparr>payload_len := (if pt = [] then 0 else word_of_nat (8 + length pt))\<rparr>) @
     (if pt = [] then [] else packet_wire c (stream_id info) (seq_no info) nonce pt)"

lemma reader_turn_packet:
  assumes c: "xor_stream_cipher c" and wf: "transport_wf (link (pb_input s))" and pf: "prefetch (pb_input s) \<noteq> None"
    and str: "input_stream (pb_input s) = sealed_packet c kUsbCryptoSessionNonce info pt @ rest"
    and len: "8 + length pt < 2 ^ 31" and run: "pb_running s"
  obtains s' where "network_reader c oks k s = network_reader c oks (k + 1) s'"
    "input_stream (pb_input s') = rest" "transport_wf (link (pb_input s'))" "prefetch (pb_input s') \<noteq> None" "pb_running s'"
    "pb_player s' = deliver_payload (oks k) info pt (pb_player s)"
proof -
  let ?i = "info\<lparr>payload_len := (if pt = [] then 0 else word_of_nat (8 + length pt))\<rparr>"
  let ?b = "if pt = [] then [] else packet_wire c (stream_id info) (seq_no info) kUsbCryptoSessionNonce pt"
  have l: "unat (payload_len ?i) = length ?b"
    using len by (simp add: length_packet_wire [OF c] unat_word_of_nat del: of_nat_add)
  have nm: "\<not> is_magic ?b" using packet_not_magic [OF c] by (simp add: is_magic_def)
  obtain s1 where s1: "read_next_gateway_header (pb_input s) (Some media_local) (Some resync_init) =
        header_loop s1 (Some media_local) (Some resync_init) (media_wire ?i) (int (length ([] :: byte list)))"
      "input_stream s1 = ?b @ rest" "transport_wf (link s1)" "(prefetch s1 = None) = (prefetch (pb_input s) = None)"
    using read_next_junk [OF wf, of "[]" "media_wire ?i" "?b @ rest" media_local resync_init] str
    by (auto simp: sealed_packet_def)
  have h: "read_next_gateway_header (pb_input s) (Some media_local) (Some resync_init) =
      Some (1, Some ?i, Some resync_init, False, 0, s1)"
    unfolding s1(1) by (subst header_loop.simps) (simp add: read_media_wire)
  have pf1: "prefetch s1 \<noteq> None" using s1(4) pf by simp
  obtain s2 where s2: "transport_wf (link s2)" "prefetch s2 \<noteq> None"
      "read_gateway_payload_resync s1 (length ?b) = Some (1, ?b, s2)" "input_stream s2 = rest"
    using read_payload [OF s1(3,2) pf1] nm by (auto simp del: length_packet_wire)
  have open_it: "decrypt_usb_media_payload c ?i ?b = (True, pt)"
    using decrypt_media [OF c len, of ?i] by (cases "pt = []") (simp_all del: of_nat_add)
  have same: "deliver_payload (oks k) ?i pt p = deliver_payload (oks k) info pt p" for p by (simp add: deliver_payload_def)
  let ?s = "s\<lparr>pb_input := s2, pb_player := deliver_payload (oks k) info pt (pb_player s)\<rparr>"
  have t: "network_reader_turn c (oks k) s = Some (True, ?s)"
    unfolding network_reader_turn_def h Let_def option.case prod.case option.sel l
    by (simp only: s2(3) open_it same option.case prod.case if_True if_False not_False_eq_True simp_thms) simp
  have "network_reader c oks k s = network_reader c oks (k + 1) ?s"
    using run by (subst network_reader.simps) (simp add: t)
  then show thesis by (rule that) (simp_all add: s2 run)
qed

text \<open>An announcement between the packets is passed over.\<close>

lemma reader_turn_init:
  assumes wf: "transport_wf (link (pb_input s))" and pf: "prefetch (pb_input s) \<noteq> None"
    and str: "input_stream (pb_input s) = init_wire info @ rest" and run: "pb_running s"
  obtains s' where "network_reader c oks k s = network_reader c oks (k + 1) s'"
    "input_stream (pb_input s') = rest" "transport_wf (link (pb_input s'))" "prefetch (pb_input s') \<noteq> None" "pb_running s'"
    "pb_player s' = pb_player s"
proof -
  obtain s1 where s1: "read_next_gateway_header (pb_input s) (Some media_local) (Some resync_init) =
        header_loop s1 (Some media_local) (Some resync_init) (init_wire info) (int (length ([] :: byte list)))"
      "input_stream s1 = rest" "transport_wf (link s1)" "(prefetch s1 = None) = (prefetch (pb_input s) = None)"
    using read_next_junk [OF wf, of "[]" "init_wire info" rest media_local resync_init] str by auto
  have h: "read_next_gateway_header (pb_input s) (Some media_local) (Some resync_init) =
      Some (2, Some media_local, Some info, True, 0, s1)"
    unfolding s1(1) using header_magic(1,3) [of "init_wire info" media_local] wire_magic
    by (subst header_loop.simps) (auto simp: read_init_wire split: prod.split)
  have "network_reader c oks k s = network_reader c oks (k + 1) (s\<lparr>pb_input := s1\<rparr>)"
    using run by (subst network_reader.simps) (simp add: network_reader_turn_def h)
  then show thesis by (rule that) (use s1 pf run in simp_all)
qed

fun deliver_all :: "(nat \<Rightarrow> nat \<Rightarrow> bool) \<Rightarrow> nat \<Rightarrow> (gateway_proto_media_info \<times> byte list) list \<Rightarrow> player \<Rightarrow> player" where
  "deliver_all oks k [] p = p"
| "deliver_all oks k ((info, pt) # ms) p = deliver_all oks (k + 1) ms (deliver_payload (oks k) info pt p)"

lemma reader_packets:
  assumes c: "xor_stream_cipher c"
  shows "transport_wf (link (pb_input s)) \<Longrightarrow> prefetch (pb_input s) \<noteq> None \<Longrightarrow> pb_running s \<Longrightarrow>
    input_stream (pb_input s) = concat (map (\<lambda>(info, pt). sealed_packet c kUsbCryptoSessionNonce info pt) ms) @ rest \<Longrightarrow>
    \<forall>(info, pt) \<in> set ms. 8 + length pt < 2 ^ 31 \<Longrightarrow>
    \<exists>s'. network_reader c oks k s = network_reader c oks (k + length ms) s' \<and> input_stream (pb_input s') = rest \<and>
      transport_wf (link (pb_input s')) \<and> prefetch (pb_input s') \<noteq> None \<and> pb_running s' \<and>
      pb_player s' = deliver_all oks k ms (pb_player s)"
proof (induction ms arbitrary: s k)
  case Nil
  then show ?case by auto
next
  case (Cons m ms)
  obtain info pt where m: "m = (info, pt)" by (cases m)
  let ?rest = "concat (map (\<lambda>(info, pt). sealed_packet c kUsbCryptoSessionNonce info pt) ms) @ rest"
  have str: "input_stream (pb_input s) = sealed_packet c kUsbCryptoSessionNonce info pt @ ?rest"
    using Cons.prems(4) m by simp
  have len: "8 + length pt < 2 ^ 31" using Cons.prems(5) m by simp
  obtain s1 where s1: "network_reader c oks k s = network_reader c oks (k + 1) s1" "input_stream (pb_input s1) = ?rest"
      "transport_wf (link (pb_input s1))" "prefetch (pb_input s1) \<noteq> None" "pb_running s1"
      "pb_player s1 = deliver_payload (oks k) info pt (pb_player s)"
    by (rule reader_turn_packet [OF c Cons.prems(1,2) str len Cons.prems(3)])
  have "\<forall>(info, pt) \<in> set ms. 8 + length pt < 2 ^ 31" using Cons.prems(5) by simp
  from Cons.IH [OF s1(3,4,5,2) this, of "k + 1"] s1(1,6) m show ?case by (auto simp: add.assoc)
qed

section \<open>What reaches the player on any link\<close>

text \<open>Without any assumption on the reads, a payload that is no header is read whole, or the read fails.\<close>

lemma read_payload_sound:
  assumes r: "read_gateway_payload_resync s (length body) = Some (rc, bs, s')"
    and str: "input_stream s @ unseen = body @ rest" and nm: "\<not> is_magic body"
  shows "rc = 1 \<and> bs = body \<and> input_stream s' @ unseen = rest \<or> rc < 0"
proof (cases "body = []")
  case True
  with assms show ?thesis by (simp add: read_gateway_payload_resync_def)
next
  case False
  define n where "n = min 16 (length body)"
  have n: "(if length body > 16 then 16 else length body) = n" by (simp add: n_def)
  obtain r1 prefix s1 where r1: "read_exact_prefetched s n = Some (r1, prefix, s1)"
    using r False by (auto simp: read_gateway_payload_resync_def Let_def n [simplified] split: option.splits)
  show ?thesis
  proof (cases "r1 \<le> 0")
    case True
    with r r1 False show ?thesis by (simp add: read_gateway_payload_resync_def Let_def n [simplified])
  next
    case pos: False
    then have s1: "length prefix = n" "input_stream s = prefix @ input_stream s1"
      using read_exact_positive [OF r1 pos] read_exact_prefetched_sound(3) [of s n 1 prefix s1] by auto
    have "take n body @ (drop n body @ rest) = prefix @ (input_stream s1 @ unseen)" using str s1(2) by simp
    moreover have "length (take n body) = length prefix" using s1(1) by (simp add: n_def)
    ultimately have pre: "prefix = take n body" and rest1: "input_stream s1 @ unseen = drop n body @ rest"
      unfolding append_eq_append_conv [OF disjI1] by simp_all
    have nomagic: "\<not> starts_gateway_magic (Some prefix) n" using starts_magic_take [OF n_def] nm pre by simp
    show ?thesis
    proof (cases "n < length body")
      case no: False
      then have "n = length body" by (simp add: n_def)
      with r r1 pos nomagic False pre rest1 show ?thesis
        by (auto simp: read_gateway_payload_resync_def Let_def n [simplified])
    next
      case more: True
      obtain r2 tail s2 where r2: "read_exact_prefetched s1 (length body - n) = Some (r2, tail, s2)"
        using r r1 pos nomagic False more
        by (auto simp: read_gateway_payload_resync_def Let_def n [simplified] split: option.splits)
      have call: "Some (rc, bs, s') = (if r2 \<le> 0 then Some (-1, [], s2) else Some (1, prefix @ tail, s2))"
        using r r1 pos nomagic False more r2
        by (simp add: read_gateway_payload_resync_def Let_def n [simplified])
      show ?thesis
      proof (cases "r2 \<le> 0")
        case True
        with call show ?thesis by simp
      next
        case pos2: False
        then have s2: "length tail = length body - n" "input_stream s1 = tail @ input_stream s2"
          using read_exact_positive [OF r2 pos2] read_exact_prefetched_sound(3) [of s1 "length body - n" 1 tail s2] by auto
        then have "tail = drop n body" "input_stream s2 @ unseen = rest"
          using rest1 by (simp_all add: append_eq_append_conv)
        with call pos2 pre show ?thesis by simp
      qed
    qed
  qed
qed


text \<open>
  Without any assumption on the reads: a turn that goes on has taken a whole packet and delivered it, and a turn that ends the loop has
  delivered nothing.  \<open>unseen\<close> is what the input breaks off before.
\<close>

lemma reader_turn_sound:
  assumes c: "xor_stream_cipher c" and turn: "network_reader_turn c ok s = Some (goes_on, s')"
    and str: "input_stream (pb_input s) @ unseen = sealed_packet c kUsbCryptoSessionNonce info pt @ rest"
    and len: "8 + length pt < 2 ^ 31"
  shows "if goes_on then input_stream (pb_input s') @ unseen = rest \<and> pb_player s' = deliver_payload ok info pt (pb_player s)
    else pb_player s' = pb_player s"
proof -
  let ?i = "info\<lparr>payload_len := (if pt = [] then 0 else word_of_nat (8 + length pt))\<rparr>"
  let ?b = "if pt = [] then [] else packet_wire c (stream_id info) (seq_no info) kUsbCryptoSessionNonce pt"
  have l: "unat (payload_len ?i) = length ?b"
    using len by (simp add: length_packet_wire [OF c] unat_word_of_nat del: of_nat_add)
  have nm: "\<not> is_magic ?b" using packet_not_magic [OF c] by (simp add: is_magic_def)
  have open_it: "decrypt_usb_media_payload c ?i ?b = (True, pt)"
    using decrypt_media [OF c len, of ?i] by (cases "pt = []") (simp_all del: of_nat_add)
  have same: "deliver_payload ok ?i pt p = deliver_payload ok info pt p" for p by (simp add: deliver_payload_def)
  have str': "input_stream (pb_input s) @ unseen = media_wire ?i @ ?b @ rest" using str by (simp add: sealed_packet_def)
  obtain rc hdr s1 where r: "read_exact_prefetched (pb_input s) 16 = Some (rc, hdr, s1)"
    using turn by (auto simp: network_reader_turn_def read_next_gateway_header_def split: option.splits)
  show ?thesis
  proof (cases "rc \<le> 0")
    case True
    with turn r show ?thesis by (auto simp: network_reader_turn_def read_next_gateway_header_def)
  next
    case False
    then have h: "length hdr = 16" "input_stream (pb_input s) = hdr @ input_stream s1"
      using read_exact_positive [OF r False] read_exact_prefetched_sound(3) [of "pb_input s" 16 1 hdr s1] by auto
    then have hdr: "hdr = media_wire ?i" and s1: "input_stream s1 @ unseen = ?b @ rest"
      using str' by (simp_all add: append_eq_append_conv)
    have nxt: "read_next_gateway_header (pb_input s) (Some media_local) (Some resync_init) =
        Some (1, Some ?i, Some resync_init, False, 0, s1)"
      using r False unfolding hdr read_next_gateway_header_def
      by (simp only: option.case prod.case if_False) (subst header_loop.simps, simp only: read_media_wire prod.case if_True simp_thms)
    obtain rc2 body s2 where p: "read_gateway_payload_resync s1 (length ?b) = Some (rc2, body, s2)"
      using turn unfolding network_reader_turn_def nxt Let_def option.case prod.case option.sel l by (auto split: option.splits)
    have body: "rc2 = 1 \<and> body = ?b \<and> input_stream s2 @ unseen = rest \<or> rc2 < 0"
      by (rule read_payload_sound [OF p s1 nm])
    from body show ?thesis
    proof
      assume "rc2 < 0"
      with turn p show ?thesis
        unfolding network_reader_turn_def nxt Let_def option.case prod.case option.sel l by auto
    next
      assume ok: "rc2 = 1 \<and> body = ?b \<and> input_stream s2 @ unseen = rest"
      have "Some (goes_on, s') =
          Some (True, s\<lparr>pb_input := s2, pb_player := deliver_payload ok info pt (pb_player s)\<rparr>)"
        unfolding turn [symmetric] network_reader_turn_def nxt Let_def option.case prod.case option.sel l p
        by (simp only: ok open_it same option.case prod.case if_True if_False not_False_eq_True simp_thms) simp
      with ok show ?thesis by simp
    qed
  qed
qed

lemma reader_empty:
  assumes "input_stream (pb_input s) = []"
  shows "network_reader c oks k s = None \<or>
    (\<exists>e. network_reader c oks k s = Some e \<and> pb_player e = pb_player s \<and> \<not> pb_running e)"
proof (cases "network_reader_turn c (oks k) s")
  case None
  then show ?thesis by (subst (1 2) network_reader.simps) (simp add: reader_end_def)
next
  case (Some r)
  obtain rc hdr s1 where r: "read_exact_prefetched (pb_input s) 16 = Some (rc, hdr, s1)"
    using Some by (auto simp: network_reader_turn_def read_next_gateway_header_def split: option.splits)
  have "rc \<le> 0"
  proof (rule ccontr)
    assume pos: "\<not> rc \<le> 0"
    then have "length hdr = 16 \<and> input_stream (pb_input s) = hdr @ input_stream s1"
      using read_exact_positive [OF r pos] read_exact_prefetched_sound(3) [of "pb_input s" 16 1 hdr s1] by auto
    with assms show False by auto
  qed
  with r have "network_reader_turn c (oks k) s = Some (False, s\<lparr>pb_input := s1\<rparr>)"
    by (simp add: network_reader_turn_def read_next_gateway_header_def)
  then show ?thesis by (subst (1 2) network_reader.simps) (simp add: reader_end_def)
qed

lemma reader_packets_sound:
  assumes c: "xor_stream_cipher c"
  shows "input_stream (pb_input s) @ unseen = concat (map (\<lambda>(info, pt). sealed_packet c kUsbCryptoSessionNonce info pt) ms) \<Longrightarrow>
    \<forall>(info, pt) \<in> set ms. 8 + length pt < 2 ^ 31 \<Longrightarrow>
    \<exists>j \<le> length ms. \<exists>s'. network_reader c oks k s = network_reader c oks (k + j) s' \<and>
      pb_player s' = deliver_all oks k (take j ms) (pb_player s) \<and>
      input_stream (pb_input s') @ unseen = concat (map (\<lambda>(info, pt). sealed_packet c kUsbCryptoSessionNonce info pt) (drop j ms)) \<and>
      (network_reader c oks k s = None \<or>
       (\<exists>e. network_reader c oks k s = Some e \<and> pb_player e = pb_player s' \<and> \<not> pb_running e))"
proof (induction ms arbitrary: s k)
  case Nil
  then show ?case using reader_empty [of s c oks k] by (intro exI [of _ 0] conjI exI [of _ s]) auto
next
  case (Cons m ms)
  obtain info pt where m: "m = (info, pt)" by (cases m)
  let ?rest = "concat (map (\<lambda>(info, pt). sealed_packet c kUsbCryptoSessionNonce info pt) ms)"
  have str: "input_stream (pb_input s) @ unseen = sealed_packet c kUsbCryptoSessionNonce info pt @ ?rest"
    using Cons.prems(1) m by simp
  have len: "8 + length pt < 2 ^ 31" using Cons.prems(2) m by simp
  have stay: ?case if "network_reader c oks k s = None \<or>
      (\<exists>e. network_reader c oks k s = Some e \<and> pb_player e = pb_player s \<and> \<not> pb_running e)"
    using that str m by (intro exI [of _ 0] conjI exI [of _ s]) auto
  show ?case
  proof (cases "pb_running s")
    case False
    then have "network_reader c oks k s = Some (reader_end s)" by (subst network_reader.simps) simp
    then show ?thesis by (intro stay) (simp add: reader_end_def)
  next
    case run: True
    show ?thesis
    proof (cases "network_reader_turn c (oks k) s")
      case None
      then show ?thesis using run by (intro stay) (subst network_reader.simps, simp)
    next
      case (Some r)
      obtain g s1 where r: "r = (g, s1)" by (cases r)
      note sound = reader_turn_sound [OF c Some [unfolded r] str len]
      show ?thesis
      proof (cases g)
        case False
        then have "network_reader c oks k s = Some (reader_end s1)" using run Some r by (subst network_reader.simps) simp
        then show ?thesis using sound False by (intro stay) (simp add: reader_end_def)
      next
        case True
        then have go: "network_reader c oks k s = network_reader c oks (k + 1) s1"
          using run Some r by (subst network_reader.simps) simp
        have str1: "input_stream (pb_input s1) @ unseen = ?rest" using sound True by simp
        have "\<forall>(info, pt) \<in> set ms. 8 + length pt < 2 ^ 31" using Cons.prems(2) by simp
        from Cons.IH [OF str1 this, of "k + 1"] obtain j s' where j: "j \<le> length ms" "network_reader c oks (k + 1) s1 = network_reader c oks (k + 1 + j) s'"
            "pb_player s' = deliver_all oks (k + 1) (take j ms) (pb_player s1)"
            "input_stream (pb_input s') @ unseen =
               concat (map (\<lambda>(info, pt). sealed_packet c kUsbCryptoSessionNonce info pt) (drop j ms))"
            "network_reader c oks (k + 1) s1 = None \<or>
             (\<exists>e. network_reader c oks (k + 1) s1 = Some e \<and> pb_player e = pb_player s' \<and> \<not> pb_running e)"
          by (elim exE conjE) blast
        then show ?thesis using go m sound True
          by (intro exI [of _ "Suc j"] conjI exI [of _ s']) (auto simp: add.assoc)
      qed
    qed
  qed
qed

text \<open>The documented behaviour of libusb on a packet longer than the header that is asked for: the loop ends with it.\<close>

lemma reader_overflow:
  assumes usb: "kind (link (pb_input s)) = GATEWAY_CLIENT_TRANSPORT_USB" "usb_handle (link (pb_input s)) \<noteq> None"
    and documented: "\<not> keeps_rest (link (pb_input s))" and go: "\<not> stop_requested (link (pb_input s))"
    and none: "prefetched (pb_input s) = []" and long: "ins (link (pb_input s)) = InData b # es" "16 < length b"
  shows "\<exists>e. network_reader c oks k s = Some e \<and> pb_player e = pb_player s \<and> \<not> pb_running e"
proof (cases "pb_running s")
  case False
  then show ?thesis by (subst network_reader.simps) (simp add: reader_end_def)
next
  case True
  let ?t = "link (pb_input s)"
  have stay: "raised_in ?t = ?t" by (simp add: raised_in.simps long(1))
  have "usb_in (keeps_rest ?t) (ins ?t) 16 = Some (LIBUSB_ERROR_OVERFLOW, take 16 b, es)"
    using documented long by simp
  then have "usb_read_loop ?t 16 [] = Some (-1, [], ?t\<lparr>ins := es\<rparr>)"
    using usb_read_loop_step [of "[]" 16 ?t] go stay by simp
  then have g: "gateway_client_transport_read_exact (Some ?t) 16 = Some (-1, [], Some (?t\<lparr>ins := es\<rparr>))"
    using usb by (auto simp: gateway_client_transport_read_exact_def usb_read_exact_def)
  obtain s1 where "read_exact_prefetched (pb_input s) 16 =
       (if 16 \<le> length (prefetched (pb_input s)) then Some (1, take 16 (prefetched (pb_input s)), s1)
        else (case gateway_client_transport_read_exact (Some ?t) (16 - length (prefetched (pb_input s))) of
                None \<Rightarrow> None
              | Some (rc, bs, t) \<Rightarrow> Some (rc, prefetched (pb_input s) @ bs, s1\<lparr>link := the t\<rparr>)))"
    by (rule read_exact_prefetched_eq)
  then obtain s2 where "read_exact_prefetched (pb_input s) 16 = Some (-1, [], s2)" using g none by simp
  then have "network_reader_turn c (oks k) s = Some (False, s\<lparr>pb_input := s2\<rparr>)"
    by (simp add: network_reader_turn_def read_next_gateway_header_def)
  with True show ?thesis by (subst network_reader.simps) (simp add: reader_end_def)
qed

end
