(* ===== verification/BoardToClient.thy ===== *)
theory BoardToClient
  imports ClientReader AmebaUsbMachine
begin

text \<open>
  Both ends of the USB link together: what the board's handlers (\<open>ameba_gateway/example_gateway_ameba.c\<close>) queue and send in a session,
  and what the client's network thread (\<open>gateway_client/gateway_client.cpp\<close>) makes of it.
\<close>

text \<open>A media packet as it is forwarded: stream, sequence number and plaintext; the header the client sees with it.\<close>

definition board_media :: "byte \<times> u32 \<times> byte list \<Rightarrow> gateway_proto_media_info \<times> byte list" where
  "board_media m = (case m of (sid, seq, pt) \<Rightarrow>
     (\<lparr>stream_id = sid, flags = (if sid = GATEWAY_PROTO_STREAM_VIDEO then gateway_video_flags (Some pt) (length pt) else 0),
       seq_no = seq, payload_len = 0\<rparr>, pt))"

definition board_packet :: "cipher \<Rightarrow> byte \<times> u32 \<times> byte list \<Rightarrow> byte list" where
  "board_packet c m = (case m of (sid, seq, pt) \<Rightarrow> media_packet c sid seq pt)"

text \<open>The two programs write the nonce down separately.\<close>

lemma same_nonce: "kUsbCryptoSessionNonce = g_gateway_usb_crypto_nonce"
  by (simp add: kUsbCryptoSessionNonce_def g_gateway_usb_crypto_nonce_def)

lemma board_packet_sealed:
  "board_packet c m = (case board_media m of (info, pt) \<Rightarrow> sealed_packet c kUsbCryptoSessionNonce info pt)"
  by (cases m) (simp add: board_packet_def board_media_def media_packet_def sealed_packet_def same_nonce)

lemma subseq_map_image: "subseq qs (map f xs) \<Longrightarrow> \<exists>ys. subseq ys xs \<and> qs = map f ys"
  by (auto simp: subseq_conv_nths nths_map)

text \<open>
  C4: what the board forwards reaches the client's player.  Let the client have read the announcement of a USB session and its
  input be what the session has sent or still has in the ring, up to some point.  These bytes are the packets of a subsequence of
  those forwarded (the ones the ring had room for).  Then, whatever the link does to the transfers, the network thread hands
  to the video or the audio side only these packets, from the first one on, whole, decrypted to the plaintext the board was given, with
  the board's flags and sequence numbers, in order and once each; it ends, or waits for ever, at a read that fails.
  On TCP, and on a USB link where the system keeps the rest of a packet that is longer than the transfer for the next one, it hands over all
  of them and uses up the input.  On a USB link with the documented behaviour of libusb (\<open>LIBUSB_ERROR_OVERFLOW\<close>), it ends with nothing
  delivered as soon as the next transfer of the board is longer than the 16 bytes of the header that are asked for.
\<close>

theorem board_to_client:
  assumes c: "xor_stream_cipher c"
    and session: "usb_session c aton (map (board_packet c) media) delivered board"
    and sizes: "\<forall>(sid, seq, pt) \<in> set media. 8 + length pt < 2 ^ 31"
    and str: "init_wire default_info @ input_stream (pb_input s) @ unseen = delivered @ ring_queued (us_ring board)"
  shows "\<exists>ms. subseq ms media \<and> delivered @ ring_queued (us_ring board) = init_wire default_info @ concat (map (board_packet c) ms) \<and>
    (\<exists>j \<le> length ms. \<exists>s'. network_reader c oks k s = network_reader c oks (k + j) s' \<and>
       pb_player s' = deliver_all oks k (map board_media (take j ms)) (pb_player s) \<and>
       input_stream (pb_input s') @ unseen = concat (map (board_packet c) (drop j ms)) \<and>
       (network_reader c oks k s = None \<or>
        (\<exists>e. network_reader c oks k s = Some e \<and> pb_player e = pb_player s' \<and> \<not> pb_running e))) \<and>
    (transport_wf (link (pb_input s)) \<and> prefetch (pb_input s) \<noteq> None \<and> pb_running s \<and> unseen = [] \<longrightarrow>
       (\<exists>s'. network_reader c oks k s = network_reader c oks (k + length ms) s' \<and> input_stream (pb_input s') = [] \<and>
          pb_running s' \<and> pb_player s' = deliver_all oks k (map board_media ms) (pb_player s))) \<and>
    (kind (link (pb_input s)) = GATEWAY_CLIENT_TRANSPORT_USB \<and> usb_handle (link (pb_input s)) \<noteq> None \<and>
       \<not> keeps_rest (link (pb_input s)) \<and> \<not> stop_requested (link (pb_input s)) \<and> prefetched (pb_input s) = [] \<and>
       ins (link (pb_input s)) = InData b # es \<and> 16 < length b \<longrightarrow>
       (\<exists>e. network_reader c oks k s = Some e \<and> pb_player e = pb_player s \<and> \<not> pb_running e))"
proof -
  obtain qs where qs: "subseq qs (map (board_packet c) media)"
      "delivered @ ring_queued (us_ring board) = session_stream board qs"
    using usb_session_ok [OF c session] by blast
  obtain ms where ms: "subseq ms media" "qs = map (board_packet c) ms" using subseq_map_image [OF qs(1)] by blast
  have sent: "delivered @ ring_queued (us_ring board) = init_wire default_info @ concat (map (board_packet c) ms)"
    using str qs(2) ms(2) by (cases "proto_init_sent board") (auto simp: session_stream_def init_wire_def)
  have pkts: "concat (map (board_packet c) xs) =
      concat (map (\<lambda>(info, pt). sealed_packet c kUsbCryptoSessionNonce info pt) (map board_media xs))" for xs
    by (simp add: o_def flip: board_packet_sealed)
  have stream: "input_stream (pb_input s) @ unseen =
      concat (map (\<lambda>(info, pt). sealed_packet c kUsbCryptoSessionNonce info pt) (map board_media ms))"
    using str unfolding sent pkts by simp
  have "set ms \<subseteq> set media" using ms(1) by (auto simp: subseq_conv_nths dest: in_set_nthsD)
  then have sz: "\<forall>(info, pt) \<in> set (map board_media ms). 8 + length pt < 2 ^ 31"
    using sizes by (auto simp: board_media_def split: prod.splits)
  have any: "\<exists>j \<le> length ms. \<exists>s'. network_reader c oks k s = network_reader c oks (k + j) s' \<and>
       pb_player s' = deliver_all oks k (map board_media (take j ms)) (pb_player s) \<and>
       input_stream (pb_input s') @ unseen = concat (map (board_packet c) (drop j ms)) \<and>
       (network_reader c oks k s = None \<or>
        (\<exists>e. network_reader c oks k s = Some e \<and> pb_player e = pb_player s' \<and> \<not> pb_running e))"
    using reader_packets_sound [OF c stream sz, of oks k] unfolding pkts take_map drop_map by (simp only: length_map)
  have all: "\<exists>s'. network_reader c oks k s = network_reader c oks (k + length ms) s' \<and> input_stream (pb_input s') = [] \<and>
      pb_running s' \<and> pb_player s' = deliver_all oks k (map board_media ms) (pb_player s)"
    if "transport_wf (link (pb_input s))" "prefetch (pb_input s) \<noteq> None" "pb_running s" "unseen = []"
  proof -
    have "input_stream (pb_input s) =
        concat (map (\<lambda>(info, pt). sealed_packet c kUsbCryptoSessionNonce info pt) (map board_media ms)) @ []"
      using stream that(4) by simp
    from reader_packets [OF c that(1-3) this sz, of oks k] show ?thesis by auto
  qed
  show ?thesis using ms(1) sent any all reader_overflow [of s b es c oks k] by (intro exI [of _ ms] conjI impI) blast+
qed

text \<open>A packet that finds room in the ring is queued.\<close>

lemma forward_room:
  assumes ok: "usb_ok s" and c: "xor_stream_cipher c" and len: "8 + length pt < 2 ^ 31"
    and ready: "usb_started s" "usb_configured s" "host_ready s" "proto_init_sent s"
    and room: "tx_count (us_ring s) + length (media_packet c sid seq pt) \<le> GATEWAY_AMEBA_USB_TX_RING_SIZE"
  shows "ring_queued (us_ring (gateway_usb_forward c True sid seq pt s)) = ring_queued (us_ring s) @ media_packet c sid seq pt"
proof -
  let ?body = "if pt = [] then [] else packet_wire c sid seq g_gateway_usb_crypto_nonce pt"
  let ?hdr = "media_wire \<lparr>stream_id = sid,
       flags = (if sid = GATEWAY_PROTO_STREAM_VIDEO then gateway_video_flags (Some pt) (length pt) else 0),
       seq_no = seq, payload_len = (if pt = [] then 0 else word_of_nat (8 + length pt))\<rparr>"
  note e = enqueue_media_eq [OF c len, where alloc = True and sid = sid and seq = seq, OF disjI1 [OF TrueI]]
  have inv: "ring_inv (us_ring s)" using ok by (simp add: usb_ok_def)
  have "tx_count (us_ring s) + (16 + length ?body) \<le> GATEWAY_AMEBA_USB_TX_RING_SIZE" using room e(2) by simp
  from enqueue_fits [OF inv _ refl this, of ?hdr] obtain r where r:
      "gateway_usb_tx_enqueue_packet (us_ring s) (Some ?hdr) 16 (Some ?body) (length ?body) = (0, r)" "ring_inv r"
      "ring_queued r = ring_queued (us_ring s) @ media_packet c sid seq pt"
    by (auto simp: media_packet_def)
  have "gateway_usb_enqueue_init_packet s = (0, s)" using ready by (simp add: gateway_usb_enqueue_init_packet_def)
  then have "gateway_usb_forward c True sid seq pt s = snd (gateway_usb_kick_tx (s\<lparr>us_ring := r\<rparr>))"
    using e(1) r ready by (simp add: gateway_usb_forward_def)
  moreover have "usb_ok (s\<lparr>us_ring := r\<rparr>)" by (rule usb_ok_append [OF ok r(2,3)])
  ultimately show ?thesis using kick_snd r(3) by simp
qed

text \<open>The state of the link, which the packets of a session leave alone.\<close>

definition up_state :: "gateway_usb \<Rightarrow> bool \<times> bool \<times> bool" where
  "up_state s = (usb_started s, usb_configured s, host_ready s)"

lemma up_state_answer: "controller_answer s = (rc, s') \<Longrightarrow> up_state s' = up_state s"
  by (auto simp: controller_answer_def up_state_def split: list.splits)

lemma up_state_kick: "up_state (snd (gateway_usb_kick_tx s)) = up_state s"
  by (simp add: gateway_usb_kick_tx_def queue_in_def controller_answer_def up_state_def Let_def split: list.split)

lemma up_state_ping:
  assumes "length b = 64" "take 4 b = str ''PING''" "12 \<le> actual"
  shows "up_state (gateway_usb_out_complete aton 0 actual (Some b) s) = (usb_started s, usb_configured s, True)"
proof -
  have ne: "str ''PING'' \<noteq> str ''CFG1''" by simp
  have r: "up_state (gateway_usb_reset_stream_session u) = up_state u" for u
    by (auto simp: gateway_usb_reset_stream_session_def gateway_usb_fifo_flush_def gateway_usb_tx_reset_def controller_answer_def
        up_state_def Let_def split: list.split)
  have p: "up_state (snd (gateway_usb_send_pong q u)) = up_state u" for q u
    by (simp add: gateway_usb_send_pong_def queue_in_def controller_answer_def up_state_def Let_def split: list.split)
  have i: "gateway_usb_enqueue_init_packet u = (rc, u') \<Longrightarrow> up_state u' = up_state u" for u u' rc
    by (auto simp: gateway_usb_enqueue_init_packet_def up_state_def split: if_splits prod.splits)
  have a: "up_state (announce u) = up_state u" for u
    using i [of u] by (auto simp: announce_def up_state_kick split: prod.split)
  have q: "up_state (snd (gateway_usb_queue_out_request u)) = up_state u" for u
    by (simp add: gateway_usb_queue_out_request_def controller_answer_def up_state_def split: list.split)
  let ?h = "(out_header b (out_stats actual (Some b) s))\<lparr>last_ping_valid := 1\<rparr>"
  have "gateway_usb_out_complete aton 0 actual (Some b) s =
      snd (gateway_usb_queue_out_request (announce (snd (gateway_usb_send_pong (read_le32 b 4) (gateway_usb_reset_stream_session ?h)))))"
    using assms ne by (simp add: out_complete_eq Let_def out_raw_def del: str_simps)
  moreover have "up_state ?h = (usb_started s, usb_configured s, True)"
    by (simp add: up_state_def out_header_def out_stats_def)
  ultimately show ?thesis by (simp add: q a p r)
qed

text \<open>A session of one video packet, which a USB transfer brings to the client in one piece.\<close>

definition demo_playback :: "bool \<Rightarrow> byte list \<Rightarrow> playback_state" where
  "demo_playback keeps bs = \<lparr>pb_input = \<lparr>link = demo_transport\<lparr>kind := GATEWAY_CLIENT_TRANSPORT_USB, usb_handle := Some 7,
       ins := [InData bs], keeps_rest := keeps\<rparr>, prefetch = Some ([], 0)\<rparr>,
     pb_player = \<lparr>pl_video = video_start, pl_audio = audio_start, pl_debug = audio_debug_start,
       pl_sdl = \<lparr>paused = True, waiting_bytes = 0, fed = []\<rparr>, pl_audio_dev = True\<rparr>, pb_running = True\<rparr>"

theorem board_to_client_witness:
  "\<exists>board. usb_session toy_cipher (\<lambda>_. True) [media_packet toy_cipher 1 7 [0x65, 1]] [] board \<and>
     ring_queued (us_ring board) = init_wire default_info @ media_packet toy_cipher 1 7 [0x65, 1] \<and>
     (\<exists>s'. network_reader toy_cipher (\<lambda>_ _. True) 0 (demo_playback True (media_packet toy_cipher 1 7 [0x65, 1])) =
          network_reader toy_cipher (\<lambda>_ _. True) 1 s' \<and> pb_running s' \<and>
        pb_player s' = deliver_all (\<lambda>_ _. True) 0 (map board_media [(1, 7, [0x65, 1])])
          (pb_player (demo_playback True (media_packet toy_cipher 1 7 [0x65, 1])))) \<and>
     (\<exists>e. network_reader toy_cipher (\<lambda>_ _. True) 0 (demo_playback False (media_packet toy_cipher 1 7 [0x65, 1])) = Some e \<and>
        pb_player e = pb_player (demo_playback False (media_packet toy_cipher 1 7 [0x65, 1])))"
proof -
  let ?b = "str ''PING'' @ replicate 60 0"
  let ?ping = "gateway_usb_out_complete (\<lambda>_. True) 0 64 (Some ?b) demo_usb"
  let ?m = "[(1, 7, [0x65, 1])] :: (byte \<times> u32 \<times> byte list) list"
  let ?p = "media_packet toy_cipher 1 7 [0x65, 1]"
  let ?board = "gateway_usb_forward toy_cipher True 1 7 [0x65, 1] ?ping"
  have i: "usb_inv (\<lambda>_. True) demo_usb"
    by (simp add: usb_inv_def usb_ok_def flight_ok_def config_ok_def demo_usb_def usb_boot_def)
  have ready: "in_ep demo_usb" "in_req demo_usb" "length ?b = 64" "take 4 ?b = str ''PING''" "12 \<le> (64 :: nat)"
    by (simp_all add: demo_usb_def)
  note ping = ping_session [OF i ready]
  have ok: "usb_ok ?ping" using ping usb_inv_of by blast
  have up: "usb_started ?ping" "usb_configured ?ping" "host_ready ?ping" "proto_init_sent ?ping"
    using up_state_ping [OF ready(3-5), of "\<lambda>_. True" demo_usb] ping by (simp_all add: up_state_def demo_usb_def)
  have lp: "length ?p = 26" by (simp add: media_packet_def length_packet_wire [OF toy_cipher_xor])
  have "length (ring_queued (us_ring ?ping)) = 16" using ping by simp
  then have room: "tx_count (us_ring ?ping) + length ?p \<le> GATEWAY_AMEBA_USB_TX_RING_SIZE"
    using lp by (simp add: ring_queued_def GATEWAY_AMEBA_USB_TX_RING_SIZE_def)
  have queued: "ring_queued (us_ring ?board) = init_wire default_info @ ?p"
    using forward_room [OF ok toy_cipher_xor _ up room] ping by simp
  have p: "usb_session toy_cipher (\<lambda>_. True) [] [] ?ping" by (rule usb_session.ping [OF i ready])
  have "usb_session toy_cipher (\<lambda>_. True) ([] @ [?p]) [] ?board" by (rule usb_session.media [OF p]) simp
  then have u: "usb_session toy_cipher (\<lambda>_. True) (map (board_packet toy_cipher) ?m) [] ?board" by (simp add: board_packet_def)
  have sizes: "\<forall>(sid, seq, pt) \<in> set ?m. 8 + length pt < 2 ^ 31" by simp
  have str: "init_wire default_info @ input_stream (pb_input (demo_playback keeps ?p)) @ [] = [] @ ring_queued (us_ring ?board)" for keeps
    unfolding queued
    by (simp add: demo_playback_def input_stream_def transport_stream_def usb_stream_def demo_transport_def)
  note main = board_to_client [OF toy_cipher_xor u sizes str, of "\<lambda>_ _. True" 0 _ ?p "[]"]
  have keeps: "transport_wf (link (pb_input (demo_playback True ?p)))" "prefetch (pb_input (demo_playback True ?p)) \<noteq> None"
      "pb_running (demo_playback True ?p)"
    by (simp_all add: demo_playback_def transport_wf_def)
  from main [of True] keeps obtain ms s' where ms: "subseq ms ?m"
      "[] @ ring_queued (us_ring ?board) = init_wire default_info @ concat (map (board_packet toy_cipher) ms)"
      "network_reader toy_cipher (\<lambda>_ _. True) 0 (demo_playback True ?p) = network_reader toy_cipher (\<lambda>_ _. True) (0 + length ms) s'"
      "pb_running s'" "pb_player s' = deliver_all (\<lambda>_ _. True) 0 (map board_media ms) (pb_player (demo_playback True ?p))"
    by blast
  have "ms \<noteq> []" using ms(2) queued lp by auto
  with ms(1) have "ms = ?m" by (cases ms) (auto split: if_splits)
  with ms(3-5) have kept: "network_reader toy_cipher (\<lambda>_ _. True) 0 (demo_playback True ?p) = network_reader toy_cipher (\<lambda>_ _. True) 1 s'"
      "pb_running s'" "pb_player s' = deliver_all (\<lambda>_ _. True) 0 (map board_media ?m) (pb_player (demo_playback True ?p))"
    by simp_all
  have lost: "kind (link (pb_input (demo_playback False ?p))) = GATEWAY_CLIENT_TRANSPORT_USB"
      "usb_handle (link (pb_input (demo_playback False ?p))) \<noteq> None" "\<not> keeps_rest (link (pb_input (demo_playback False ?p)))"
      "\<not> stop_requested (link (pb_input (demo_playback False ?p)))" "prefetched (pb_input (demo_playback False ?p)) = []"
      "ins (link (pb_input (demo_playback False ?p))) = InData ?p # []" "16 < length ?p"
    by (simp_all add: demo_playback_def prefetched_def demo_transport_def lp)
  from main [of False] lost obtain e where e: "network_reader toy_cipher (\<lambda>_ _. True) 0 (demo_playback False ?p) = Some e"
      "pb_player e = pb_player (demo_playback False ?p)"
    by blast
  have u': "usb_session toy_cipher (\<lambda>_. True) [?p] [] ?board" using u by (simp add: board_packet_def)
  show ?thesis using u' queued kept e by blast
qed

end
