(* ===== verification/ClientStartup.thy ===== *)
theory ClientStartup
  imports ClientStream
begin

text \<open>
  How the client of \<open>gateway_client/gateway_client.cpp\<close> starts a stream: the packets it sends to the board (the configuration
  of the upstream connection and a ping), the search for the board's answers among stale packets, and the opening part of
  \<open>main\<close>.  The address of the machine, which \<open>detect_local_ipv4\<close> asks the system for, and the clock are inputs:
  \<open>late k\<close> says whether the deadline has passed at test \<open>k\<close>.
\<close>

section \<open>The packets\<close>

text \<open>The structures in memory of a little-endian machine; unset characters are zero.\<close>

definition le32 :: "u32 \<Rightarrow> byte list" where
  "le32 v = [ucast v, ucast (drop_bit 8 v), ucast (drop_bit 16 v), ucast (drop_bit 24 v)]"

definition usb_ping_packet :: "u32 \<Rightarrow> byte list \<Rightarrow> byte list" where
  "usb_ping_packet seq payload =
     str ''PING'' @ le32 seq @ le32 (word_of_nat (length payload)) @ payload @ replicate (52 - length payload) 0"

definition usb_upstream_config_packet :: "u32 \<Rightarrow> u16 \<Rightarrow> byte list \<Rightarrow> byte list \<Rightarrow> byte list" where
  "usb_upstream_config_packet seq port host path =
     str ''CFG1'' @ le32 seq @ [ucast port, ucast (drop_bit 8 port), 0, 0] @
     host @ replicate (16 - length host) 0 @ path @ replicate (36 - length path) 0"

record usb_upstream_options =
  up_enabled :: bool
  up_host :: "byte list"
  up_port :: u16
  up_path :: "byte list"

section \<open>Sending\<close>

definition send_usb_upstream_config ::
  "byte list option \<Rightarrow> client_transport \<Rightarrow> u32 \<Rightarrow> usb_upstream_options \<Rightarrow> (int \<times> client_transport) option" where
  "send_usb_upstream_config detected t seq opts =
     (if kind t \<noteq> GATEWAY_CLIENT_TRANSPORT_USB \<or> \<not> up_enabled opts then Some (0, t)
      else
        (case (if up_host opts = [] then detected else Some (up_host opts)) of
           None \<Rightarrow> Some (-1, t)
         | Some host \<Rightarrow>
             if 16 \<le> length host \<or> 36 \<le> length (up_path opts) then Some (-1, t)
             else
               (case gateway_client_transport_write_all (Some t)
                       (usb_upstream_config_packet seq (up_port opts) host (up_path opts)) of
                  None \<Rightarrow> None
                | Some (rc, t) \<Rightarrow> Some (if rc \<noteq> 0 then -1 else 0, the t))))"

definition perform_usb_startup_handshake :: "client_transport \<Rightarrow> u32 \<Rightarrow> (int \<times> client_transport) option" where
  "perform_usb_startup_handshake t seq =
     (case gateway_client_transport_write_all (Some t) (usb_ping_packet seq (str ''gateway-usb-open'')) of
        None \<Rightarrow> None
      | Some (rc, t) \<Rightarrow>
          if rc \<noteq> 0 then Some (-1, the t)
          else
            (case gateway_client_transport_read_exact t 64 of
               None \<Rightarrow> None
             | Some (rc, pong, t) \<Rightarrow>
                 if rc \<le> 0 then Some (-1, the t)
                 else if take 4 pong \<noteq> str ''PONG'' \<or> read_le32 pong 4 \<noteq> seq then Some (-1, the t)
                 else Some (0, the t)))"

section \<open>Waiting for the board\<close>

record usb_startup =
  have_init :: bool
  init_buf :: "byte list"
  leftover :: "byte list"

text \<open>Stale packets are read and dropped, at most 16.\<close>

function flush_loop :: "bool \<Rightarrow> bulk_in list \<Rightarrow> nat \<Rightarrow> (nat \<times> bulk_in list) option" where
  "flush_loop keeps es flush_count =
     (case usb_in keeps es 512 of
        None \<Rightarrow> None
      | Some (rc, transferred, es) \<Rightarrow>
          if rc = LIBUSB_ERROR_TIMEOUT \<or> (rc = 0 \<and> transferred = []) then Some (flush_count, es)
          else if rc \<noteq> 0 then Some (flush_count, es)
          else if 16 \<le> flush_count + 1 then Some (flush_count + 1, es)
          else flush_loop keeps es (flush_count + 1))"
  by pat_completeness auto
termination
  by (relation "measure (\<lambda>(keeps, es, n). in_size es)") (auto dest: usb_in_shrinks)

declare flush_loop.simps [simp del]

text \<open>
  The wait for the pong and the announcement, one transfer of up to 512 bytes per turn: the return value, what was
  found, the rest of the script.
\<close>

function startup_loop ::
  "(nat \<Rightarrow> bool) \<Rightarrow> nat \<Rightarrow> bool \<Rightarrow> bulk_in list \<Rightarrow> u32 \<Rightarrow> bool \<Rightarrow> usb_startup \<Rightarrow>
   (int \<times> usb_startup \<times> bulk_in list) option" where
  "startup_loop late k keeps es seq got_pong st =
     (if late k then Some (-1, st, es)
      else
        (case usb_in keeps es 512 of
           None \<Rightarrow> None
         | Some (rc, buf, es) \<Rightarrow>
             if rc = LIBUSB_ERROR_TIMEOUT \<or> (rc = 0 \<and> buf = []) then startup_loop late (k + 1) keeps es seq got_pong st
             else if rc \<noteq> 0 then Some (-1, st, es)
             else if got_pong \<and> GATEWAY_PROTO_INIT_SIZE \<le> length buf \<and>
               fst (gateway_proto_read_init (Some \<lparr>version = 0, video_codec = 0, audio_codec = 0, audio_channels = 0,
                      audio_sample_rate = 0, audio_sample_bits = 0\<rparr>) (Some buf)) = 0 then
               Some (0, st\<lparr>init_buf := take GATEWAY_PROTO_INIT_SIZE buf, have_init := True,
                  leftover := (if GATEWAY_PROTO_INIT_SIZE < length buf then drop GATEWAY_PROTO_INIT_SIZE buf else leftover st)\<rparr>, es)
             else if 64 \<le> length buf \<and> take 4 buf = str ''PONG'' \<and> read_le32 buf 4 = seq then
               startup_loop late (k + 1) keeps es seq True st
             else startup_loop late (k + 1) keeps es seq got_pong st))"
  by pat_completeness auto
termination
  by (relation "measure (\<lambda>(late, k, keeps, es, seq, got_pong, st). in_size es)") (auto dest: usb_in_shrinks)

declare startup_loop.simps [simp del]

definition prepare_usb_stream_startup ::
  "byte list option \<Rightarrow> (nat \<Rightarrow> bool) \<Rightarrow> client_transport \<Rightarrow> u32 \<Rightarrow> usb_startup \<Rightarrow> usb_upstream_options \<Rightarrow>
   (int \<times> usb_startup \<times> client_transport) option" where
  "prepare_usb_stream_startup detected late t seq startup opts =
     (let startup = startup\<lparr>have_init := False, leftover := []\<rparr> in
      if kind t \<noteq> GATEWAY_CLIENT_TRANSPORT_USB then Some (0, startup, t)
      else
        (case flush_loop (keeps_rest t) (ins t) 0 of
           None \<Rightarrow> None
         | Some (flush_count, es) \<Rightarrow>
             (case send_usb_upstream_config detected (t\<lparr>ins := es\<rparr>) seq opts of
                None \<Rightarrow> None
              | Some (rc, t) \<Rightarrow>
                  if rc \<noteq> 0 then Some (-1, startup, t)
                  else
                    (case gateway_client_transport_write_all (Some t) (usb_ping_packet seq (str ''gateway-usb-open'')) of
                       None \<Rightarrow> None
                     | Some (rc, t) \<Rightarrow>
                         if rc \<noteq> 0 then Some (-1, startup, the t)
                         else
                           (case startup_loop late 0 (keeps_rest (the t)) (ins (the t)) seq False startup of
                              None \<Rightarrow> None
                            | Some (rc, startup, es) \<Rightarrow> Some (rc, startup, (the t)\<lparr>ins := es\<rparr>))))))"

text \<open>The start-up of a stream with its second attempt.\<close>

definition startup_attempts ::
  "byte list option \<Rightarrow> (nat \<Rightarrow> bool) \<Rightarrow> (nat \<Rightarrow> bool) \<Rightarrow> client_transport \<Rightarrow> usb_upstream_options \<Rightarrow>
   (int \<times> usb_startup \<times> client_transport) option" where
  "startup_attempts detected late1 late2 t opts =
     (let st = \<lparr>have_init = False, init_buf = replicate GATEWAY_PROTO_INIT_SIZE 0, leftover = []\<rparr> in
      if kind t = GATEWAY_CLIENT_TRANSPORT_USB then
        (case prepare_usb_stream_startup detected late1 t 0x3000 st opts of
           None \<Rightarrow> None
         | Some (rc, st, t) \<Rightarrow>
             if rc \<noteq> 0 then prepare_usb_stream_startup detected late2 t 0x3001 st opts else Some (rc, st, t))
      else Some (0, st, t))"

text \<open>
  The part of \<open>main\<close> that opens the stream, on a transport that is open: the transport as it was closed after a failure, or the
  announcement and the input of the network thread.
\<close>

definition main_open_stream ::
  "byte list option \<Rightarrow> (nat \<Rightarrow> bool) \<Rightarrow> (nat \<Rightarrow> bool) \<Rightarrow> client_transport \<Rightarrow> usb_upstream_options \<Rightarrow>
   (client_transport option + gateway_proto_init_info \<times> client_input) option" where
  "main_open_stream detected late1 late2 t opts =
     (let failed = (\<lambda>t. Some (Inl (gateway_client_transport_close (Some t)))) in
      case startup_attempts detected late1 late2 t opts of
        None \<Rightarrow> None
      | Some (rc, st, t) \<Rightarrow>
          if rc \<noteq> 0 then failed t
          else
            (case (if have_init st then Some (1, init_buf st, Some t)
                   else gateway_client_transport_read_exact (Some t) GATEWAY_PROTO_INIT_SIZE) of
               None \<Rightarrow> None
             | Some (rc, buf, t) \<Rightarrow>
                 if rc \<le> 0 then failed (the t)
                 else
                   (case gateway_proto_read_init (Some \<lparr>version = 0, video_codec = 0, audio_codec = 0, audio_channels = 0,
                           audio_sample_rate = 0, audio_sample_bits = 0\<rparr>) (Some buf) of
                      (rc, info) \<Rightarrow>
                        if rc \<noteq> 0 then failed (the t)
                        else Some (Inr (the info, \<lparr>link = the t,
                               prefetch = Some (if have_init st then leftover st else [], 0)\<rparr>)))))"

section \<open>What the client has seen and sent\<close>

text \<open>Every byte of the device's packets, whatever the transfers make of them.\<close>

fun packet_bytes :: "bulk_in list \<Rightarrow> byte list" where
  "packet_bytes [] = []"
| "packet_bytes (InData bs # es) = bs @ packet_bytes es"
| "packet_bytes (_ # es) = packet_bytes es"

lemma usb_in_packet_bytes:
  "usb_in keeps es len = Some (rc, bs, es') \<Longrightarrow>
   \<exists>seen. packet_bytes es = seen @ packet_bytes es' \<and> (rc = 0 \<longrightarrow> seen = bs)"
  by (induction keeps es len rule: usb_in.induct) (auto split: if_splits simp flip: append_assoc)

lemma flush_loop_bytes:
  "flush_loop keeps es n = Some (m, es') \<Longrightarrow> \<exists>seen. packet_bytes es = seen @ packet_bytes es'"
proof (induction keeps es n rule: flush_loop.induct)
  case (1 keeps es n)
  obtain rc bs es1 where r: "usb_in keeps es 512 = Some (rc, bs, es1)"
    using "1.prems" by (subst (asm) flush_loop.simps) (auto split: option.splits)
  obtain seen where seen: "packet_bytes es = seen @ packet_bytes es1" using usb_in_packet_bytes [OF r] by blast
  show ?case
  proof (cases "flush_loop keeps es n = Some (m, es1)")
    case True
    with seen "1.prems" show ?thesis by auto
  next
    case False
    then have "rc = 0 \<and> bs \<noteq> [] \<and> \<not> 16 \<le> n + 1" "flush_loop keeps es1 (n + 1) = Some (m, es')"
      using "1.prems" r by (subst (asm) (2) flush_loop.simps; subst (asm) flush_loop.simps; auto split: if_splits)+
    with "1.IH" [OF r refl refl] seen show ?thesis by (auto simp flip: append_assoc)
  qed
qed

definition pong_in :: "u32 \<Rightarrow> byte list \<Rightarrow> bool" where
  "pong_in seq seen \<longleftrightarrow>
     (\<exists>a pong b. seen = a @ pong @ b \<and> 64 \<le> length pong \<and> take 4 pong = str ''PONG'' \<and> read_le32 pong 4 = seq)"

lemma pong_in_append: "pong_in seq b \<Longrightarrow> pong_in seq (a @ b)"
  unfolding pong_in_def by (metis append_assoc)

lemma pong_in_front: "64 \<le> length a \<Longrightarrow> take 4 a = str ''PONG'' \<Longrightarrow> read_le32 a 4 = seq \<Longrightarrow> pong_in seq (a @ b)"
  unfolding pong_in_def by (rule exI [of _ "[]"]) auto

lemma read_init_front: "gateway_proto_read_init i (Some (take 16 b)) = gateway_proto_read_init i (Some b)"
  by (cases i) (simp_all add: gateway_proto_read_init_def read_be32_def read_be16_def)

text \<open>The announcement as it was found, in the state of the start-up.\<close>

definition announced :: "byte list \<Rightarrow> bool" where
  "announced b \<longleftrightarrow> length b = 16 \<and>
     fst (gateway_proto_read_init (Some \<lparr>version = 0, video_codec = 0, audio_codec = 0, audio_channels = 0,
       audio_sample_rate = 0, audio_sample_bits = 0\<rparr>) (Some b)) = 0"

lemma startup_loop_ok:
  "startup_loop late k keeps es seq got_pong st = Some (rc, st', es') \<Longrightarrow> leftover st = [] \<Longrightarrow>
   \<exists>seen. packet_bytes es = seen @ (if rc = 0 then init_buf st' @ leftover st' else []) @ packet_bytes es' \<and>
     (if rc = 0 then have_init st' \<and> announced (init_buf st') \<and> (got_pong \<or> pong_in seq seen) else st' = st)"
proof (induction late k keeps es seq got_pong st rule: startup_loop.induct)
  case (1 late k keeps es seq got_pong st)
  let ?i = "\<lparr>version = 0, video_codec = 0, audio_codec = 0, audio_channels = 0, audio_sample_rate = 0, audio_sample_bits = 0\<rparr>"
  show ?case
  proof (cases "late k")
    case True
    with "1.prems" show ?thesis by (subst (asm) startup_loop.simps) auto
  next
    case nl: False
    obtain r buf es1 where r: "usb_in keeps es 512 = Some (r, buf, es1)"
      using "1.prems" nl by (subst (asm) startup_loop.simps) (auto split: option.splits)
    obtain s1 where s1: "packet_bytes es = s1 @ packet_bytes es1" "r = 0 \<Longrightarrow> s1 = buf"
      using usb_in_packet_bytes [OF r] by blast
    note IH = "1.IH" [OF nl r refl refl]
    let ?quiet = "r = LIBUSB_ERROR_TIMEOUT \<or> (r = 0 \<and> buf = [])"
    let ?init = "got_pong \<and> 16 \<le> length buf \<and> fst (gateway_proto_read_init (Some ?i) (Some buf)) = 0"
    let ?pong = "64 \<le> length buf \<and> take 4 buf = str ''PONG'' \<and> read_le32 buf 4 = seq"
    have step: "startup_loop late k keeps es seq got_pong st =
        (if ?quiet then startup_loop late (k + 1) keeps es1 seq got_pong st
         else if r \<noteq> 0 then Some (-1, st, es1)
         else if ?init then Some (0, st\<lparr>init_buf := take 16 buf, have_init := True,
                  leftover := (if 16 < length buf then drop 16 buf else leftover st)\<rparr>, es1)
         else if ?pong then startup_loop late (k + 1) keeps es1 seq True st
         else startup_loop late (k + 1) keeps es1 seq got_pong st)"
      using nl r by (subst startup_loop.simps) simp
    have carry: "\<exists>seen. packet_bytes es = seen @ (if rc = 0 then init_buf st' @ leftover st' else []) @ packet_bytes es' \<and>
        (if rc = 0 then have_init st' \<and> announced (init_buf st') \<and> (got_pong \<or> pong_in seq seen) else st' = st)"
      if "\<exists>seen. packet_bytes es1 = seen @ (if rc = 0 then init_buf st' @ leftover st' else []) @ packet_bytes es' \<and>
        (if rc = 0 then have_init st' \<and> announced (init_buf st') \<and> (got' \<or> pong_in seq seen) else st' = st)"
        and "got' \<Longrightarrow> got_pong \<or> (\<forall>b. pong_in seq (s1 @ b))" for got'
    proof -
      from that(1) obtain seen where seen:
          "packet_bytes es1 = seen @ (if rc = 0 then init_buf st' @ leftover st' else []) @ packet_bytes es'"
          "if rc = 0 then have_init st' \<and> announced (init_buf st') \<and> (got' \<or> pong_in seq seen) else st' = st" by blast
      then show ?thesis using that(2) pong_in_append [of seq seen s1] s1(1)
        by (intro exI [of _ "s1 @ seen"]) (auto split: if_splits)
    qed
    consider "?quiet" | "\<not> ?quiet" "r \<noteq> 0" | "\<not> ?quiet" "r = 0" "?init" | "\<not> ?quiet" "r = 0" "\<not> ?init" "?pong"
      | "\<not> ?quiet" "r = 0" "\<not> ?init" "\<not> ?pong" by blast
    then show ?thesis
    proof cases
      case 1
      then have "startup_loop late (k + 1) keeps es1 seq got_pong st = Some (rc, st', es')" using "1.prems"(1) step by auto
      from IH(1) [OF 1 this "1.prems"(2)] show ?thesis by (rule carry) simp
    next
      case 2
      then have "rc = -1" "st' = st" "es' = es1" using "1.prems"(1) unfolding step by auto
      with s1 show ?thesis by auto
    next
      case 3
      then have e: "rc = 0" "es' = es1" "st' = st\<lparr>init_buf := take 16 buf, have_init := True,
          leftover := (if 16 < length buf then drop 16 buf else leftover st)\<rparr>"
        using "1.prems"(1) unfolding step by auto
      have "take 16 buf @ leftover st' = buf" using 3 e(3) "1.prems"(2) by auto
      then show ?thesis using 3 e s1
        by (intro exI [of _ "[]"]) (auto simp: announced_def read_init_front)
    next
      case 4
      then have st: "startup_loop late (k + 1) keeps es1 seq True st = Some (rc, st', es')"
        using "1.prems"(1) unfolding step by auto
      from IH(2) [OF 4(1) _ _ 4(4) st "1.prems"(2)] 4 have *:
        "\<exists>seen. packet_bytes es1 = seen @ (if rc = 0 then init_buf st' @ leftover st' else []) @ packet_bytes es' \<and>
         (if rc = 0 then have_init st' \<and> announced (init_buf st') \<and> (True \<or> pong_in seq seen) else st' = st)" by auto
      show ?thesis by (rule carry [OF *]) (use 4 s1(2) pong_in_front in auto)
    next
      case 5
      then have st: "startup_loop late (k + 1) keeps es1 seq got_pong st = Some (rc, st', es')"
        using "1.prems"(1) unfolding step by auto
      from IH(3) [OF 5(1) _ _ 5(4) st "1.prems"(2)] 5 have
        "\<exists>seen. packet_bytes es1 = seen @ (if rc = 0 then init_buf st' @ leftover st' else []) @ packet_bytes es' \<and>
         (if rc = 0 then have_init st' \<and> announced (init_buf st') \<and> (got_pong \<or> pong_in seq seen) else st' = st)" by auto
      then show ?thesis by (rule carry) simp
    qed
  qed
qed

text \<open>Writing leaves the reading side alone.\<close>

definition same_input :: "client_transport \<Rightarrow> client_transport \<Rightarrow> bool" where
  "same_input t t' \<longleftrightarrow> ins t' = ins t \<and> same_end t t'"

lemma same_input_refl [simp]: "same_input t t"
  by (simp add: same_input_def)

lemma raised_out_input: "same_input t (raised_out t)"
  by (simp add: raised_out.simps same_input_def same_end_def split: list.split bulk_out.split)

lemma same_input_trans: "same_input t t1 \<Longrightarrow> same_input t1 t2 \<Longrightarrow> same_input t t2"
  using same_end_trans by (auto simp: same_input_def)

lemma usb_write_loop_input: "usb_write_loop t buf offset = Some (rc, t') \<Longrightarrow> same_input t t'"
proof (induction t buf offset rule: usb_write_loop.induct)
  case (1 t buf offset)
  define t1 where "t1 = raised_out t"
  have s: "same_input t t1" by (simp add: t1_def raised_out_input)
  show ?case
  proof (cases "offset < length buf \<and> \<not> stop_requested t1")
    case False
    with "1.prems" s show ?thesis by (subst (asm) usb_write_loop.simps) (auto simp: Let_def simp flip: t1_def)
  next
    case True
    let ?c = "if INT_MAX < length buf - offset then INT_MAX else length buf - offset"
    obtain r n es where r: "usb_out (outs t1) ?c = Some (r, n, es)"
      using "1.prems" True by (subst (asm) usb_write_loop.simps) (auto simp: Let_def simp flip: t1_def split: option.splits)
    let ?t = "t1\<lparr>outs := es, usb_sent := usb_sent t1 @ take n (drop offset buf)\<rparr>"
    have s': "same_input t ?t" using s by (simp add: same_input_def same_end_def)
    have step: "usb_write_loop t buf offset =
       (if r = 0 then (if n = 0 then Some (-1, ?t) else usb_write_loop ?t buf (offset + n))
        else if r = LIBUSB_ERROR_TIMEOUT \<or> r = LIBUSB_ERROR_INTERRUPTED then usb_write_loop ?t buf offset
        else Some (-1, ?t))"
      using True r by (subst usb_write_loop.simps) (auto simp: Let_def simp flip: t1_def)
    note IH = "1.IH" [OF t1_def True refl r refl refl refl]
    consider "r = 0" "n = 0" | "r = 0" "n \<noteq> 0" | "r = LIBUSB_ERROR_TIMEOUT \<or> r = LIBUSB_ERROR_INTERRUPTED"
      | "r \<noteq> 0" "\<not> (r = LIBUSB_ERROR_TIMEOUT \<or> r = LIBUSB_ERROR_INTERRUPTED)" by blast
    then have "same_input ?t t'"
    proof cases
      case 1
      with step "1.prems" show ?thesis by (simp add: same_input_def)
    next
      case 2
      with IH(1) [OF 2] step "1.prems" show ?thesis by simp
    next
      case 3
      with IH(2,3) step "1.prems" show ?thesis by auto
    next
      case 4
      with step "1.prems" show ?thesis by (auto simp: same_input_def)
    qed
    with s' show ?thesis by (rule same_input_trans)
  qed
qed

lemma write_all_input:
  assumes "gateway_client_transport_write_all (Some t) buf = Some (rc, r)" and "kind t = GATEWAY_CLIENT_TRANSPORT_USB"
  obtains t' where "r = Some t'" "same_input t t'"
proof (cases "usb_handle t = None")
  case True
  with assms show ?thesis
    by (intro that [of t]) (auto simp: gateway_client_transport_write_all_def usb_write_all_def same_input_def)
next
  case False
  then obtain t' where "usb_write_loop t buf 0 = Some (rc, t')" "r = Some t'"
    using assms by (auto simp: gateway_client_transport_write_all_def usb_write_all_def)
  with usb_write_loop_input that show ?thesis by blast
qed

lemma send_config_input:
  "send_usb_upstream_config detected t seq opts = Some (rc, t') \<Longrightarrow> same_input t t'"
  by (auto simp: send_usb_upstream_config_def Let_def
      elim: write_all_input split: if_splits option.splits)

lemma prepare_ok:
  assumes p: "prepare_usb_stream_startup detected late t seq st opts = Some (rc, st', t')"
    and usb: "kind t = GATEWAY_CLIENT_TRANSPORT_USB"
  shows "same_end t t' \<and> (\<exists>seen. packet_bytes (ins t) = seen @ (if rc = 0 then init_buf st' @ leftover st' else []) @ packet_bytes (ins t') \<and>
      (if rc = 0 then have_init st' \<and> announced (init_buf st') \<and> pong_in seq seen else \<not> have_init st'))"
proof -
  let ?st = "st\<lparr>have_init := False, leftover := []\<rparr>"
  obtain n es where f: "flush_loop (keeps_rest t) (ins t) 0 = Some (n, es)"
    using p usb by (auto simp: prepare_usb_stream_startup_def Let_def split: option.splits)
  obtain s0 where s0: "packet_bytes (ins t) = s0 @ packet_bytes es" using flush_loop_bytes [OF f] by blast
  obtain rc1 t1 where c: "send_usb_upstream_config detected (t\<lparr>ins := es\<rparr>) seq opts = Some (rc1, t1)"
    using p usb f by (auto simp: prepare_usb_stream_startup_def Let_def split: option.splits)
  have t1: "same_input (t\<lparr>ins := es\<rparr>) t1" by (rule send_config_input [OF c])
  then have e1: "same_end t t1" "ins t1 = es" "kind t1 = GATEWAY_CLIENT_TRANSPORT_USB"
    using usb by (auto simp: same_input_def same_end_def)
  show ?thesis
  proof (cases "rc1 = 0")
    case False
    with p usb f c e1 s0 show ?thesis by (auto simp: prepare_usb_stream_startup_def Let_def)
  next
    case True
    obtain rc2 r where w: "gateway_client_transport_write_all (Some t1) (usb_ping_packet seq (str ''gateway-usb-open'')) = Some (rc2, r)"
      using p usb f c True by (auto simp: prepare_usb_stream_startup_def Let_def split: option.splits)
    obtain t2 where t2: "r = Some t2" "same_input t1 t2" by (rule write_all_input [OF w e1(3)])
    then have e2: "same_end t t2" "ins t2 = es" using e1 same_end_trans by (auto simp: same_input_def)
    show ?thesis
    proof (cases "rc2 = 0")
      case False
      with p usb f c True w t2 e2 s0 show ?thesis by (auto simp: prepare_usb_stream_startup_def Let_def)
    next
      case ok: True
      obtain es' where l: "startup_loop late 0 (keeps_rest t2) es seq False ?st = Some (rc, st', es')" and t': "t' = t2\<lparr>ins := es'\<rparr>"
        using p usb f c True w ok t2 e2(2) by (auto simp: prepare_usb_stream_startup_def Let_def split: option.splits)
      have "leftover ?st = []" by simp
      from startup_loop_ok [OF l this] obtain seen where
          "packet_bytes es = seen @ (if rc = 0 then init_buf st' @ leftover st' else []) @ packet_bytes es'"
          "if rc = 0 then have_init st' \<and> announced (init_buf st') \<and> (False \<or> pong_in seq seen) else st' = ?st"
        by (elim exE conjE)
      then show ?thesis using s0 t' e2 pong_in_append [of seq seen s0]
        by (intro conjI exI [of _ "s0 @ seen"]) (auto simp: same_end_def split: if_splits)
    qed
  qed
qed

lemma startup_attempts_ok:
  assumes p: "startup_attempts detected late1 late2 t opts = Some (rc, st', t')"
    and usb: "kind t = GATEWAY_CLIENT_TRANSPORT_USB"
  shows "kind t' = kind t \<and>
    (\<exists>seen. packet_bytes (ins t) = seen @ (if rc = 0 then init_buf st' @ leftover st' else []) @ packet_bytes (ins t') \<and>
      (if rc = 0 then have_init st' \<and> announced (init_buf st') \<and> (pong_in 0x3000 seen \<or> pong_in 0x3001 seen) else \<not> have_init st'))"
proof -
  let ?st = "\<lparr>have_init = False, init_buf = replicate GATEWAY_PROTO_INIT_SIZE 0, leftover = []\<rparr>"
  obtain rc1 st1 t1 where p1: "prepare_usb_stream_startup detected late1 t 0x3000 ?st opts = Some (rc1, st1, t1)"
    using p usb by (auto simp: startup_attempts_def split: option.splits)
  note o1 = prepare_ok [OF p1 usb]
  then obtain s1 where s1: "packet_bytes (ins t) = s1 @ (if rc1 = 0 then init_buf st1 @ leftover st1 else []) @ packet_bytes (ins t1)"
      "if rc1 = 0 then have_init st1 \<and> announced (init_buf st1) \<and> pong_in 0x3000 s1 else \<not> have_init st1"
    by blast
  have k1: "kind t1 = kind t" "kind t1 = GATEWAY_CLIENT_TRANSPORT_USB" using o1 usb by (simp_all add: same_end_def)
  show ?thesis
  proof (cases "rc1 = 0")
    case True
    then have "rc = rc1" "st' = st1" "t' = t1" using p usb p1 by (auto simp: startup_attempts_def)
    with True s1 k1 show ?thesis by auto
  next
    case False
    then have p2: "prepare_usb_stream_startup detected late2 t1 0x3001 st1 opts = Some (rc, st', t')"
      using p usb p1 by (simp add: startup_attempts_def)
    note o2 = prepare_ok [OF p2 k1(2)]
    then obtain s2 where "packet_bytes (ins t1) = s2 @ (if rc = 0 then init_buf st' @ leftover st' else []) @ packet_bytes (ins t')"
        "if rc = 0 then have_init st' \<and> announced (init_buf st') \<and> pong_in 0x3001 s2 else \<not> have_init st'" by blast
    with False o2 k1 s1 pong_in_append [of "0x3001" s2 s1] show ?thesis
      by (intro conjI exI [of _ "s1 @ s2"]) (auto simp: same_end_def split: if_splits)
  qed
qed

lemma read_init_some:
  "\<exists>rc info. gateway_proto_read_init (Some i) (Some b) = (rc, Some info)"
  by (simp add: gateway_proto_read_init_def)

lemma closed_transport:
  "\<exists>t'. gateway_client_transport_close (Some t) = Some t' \<and>
    (if kind t = GATEWAY_CLIENT_TRANSPORT_USB then usb_handle t' = None else tcp_fd t' = None)"
  by (auto simp: gateway_client_transport_close_def usb_close_def)


text \<open>A stale packet, the board's answer to the ping, and the announcement with two bytes behind it.\<close>

definition demo_usb_link :: client_transport where
  "demo_usb_link = demo_transport\<lparr>kind := GATEWAY_CLIENT_TRANSPORT_USB, usb_handle := Some 7,
     ins := [InData [1, 2, 3], InError LIBUSB_ERROR_TIMEOUT [], InData (str ''PONG'' @ le32 0x3000 @ replicate 56 0),
             InData (str ''GWI1'' @ [1, 1, 1, 1, 0, 0, 62, 128, 0, 16, 0, 0] @ [8, 9])],
     outs := [OutTake 64, OutTake 64]\<rparr>"

definition demo_upstream :: usb_upstream_options where
  "demo_upstream = \<lparr>up_enabled = True, up_host = str ''10.0.0.2'', up_port = 8081, up_path = str ''/gateway''\<rparr>"

text \<open>A device that takes every packet of 64 bytes.\<close>

lemma packet_taken:
  assumes "outs u \<noteq> []" "set (outs u) \<subseteq> {OutTake 64}" "length b = 64" "\<not> stop_requested u"
  shows "usb_write_loop u b 0 = Some (0, u\<lparr>outs := tl (outs u), usb_sent := usb_sent u @ b\<rparr>)"
  using assms
  by (cases "outs u"; cases "tl (outs u)")
     (auto simp: usb_write_loop.simps [of _ _ 0] usb_write_loop.simps [of _ _ 64] raised_out.simps)

lemma demo_config_sent:
  "\<exists>t. send_usb_upstream_config None (demo_usb_link\<lparr>ins := es\<rparr>) 0x3000 demo_upstream = Some (0, t) \<and> outs t = [OutTake 64] \<and>
     \<not> stop_requested t \<and> ins t = es \<and> kind t = GATEWAY_CLIENT_TRANSPORT_USB \<and> usb_handle t = Some 7 \<and> \<not> keeps_rest t"
proof -
  let ?t = "demo_usb_link\<lparr>ins := es\<rparr>"
  let ?c = "usb_upstream_config_packet 0x3000 8081 (str ''10.0.0.2'') (str ''/gateway'')"
  have l: "length ?c = 64" by (simp add: usb_upstream_config_packet_def le32_def)
  have c: "usb_write_loop ?t ?c 0 = Some (0, ?t\<lparr>outs := tl (outs ?t), usb_sent := usb_sent ?t @ ?c\<rparr>)"
    by (rule packet_taken) (simp_all add: l demo_usb_link_def demo_transport_def del: str_simps)
  have h: "usb_handle ?t = Some 7" "kind ?t = GATEWAY_CLIENT_TRANSPORT_USB" by (simp_all add: demo_usb_link_def)
  have "send_usb_upstream_config None ?t 0x3000 demo_upstream = Some (0, ?t\<lparr>outs := tl (outs ?t), usb_sent := usb_sent ?t @ ?c\<rparr>)"
    using c h by (simp add: send_usb_upstream_config_def demo_upstream_def gateway_client_transport_write_all_def usb_write_all_def)
  then show ?thesis by (simp add: demo_usb_link_def demo_transport_def)
qed


end
