(* ===== verification/BoardConfig.thy ===== *)
theory BoardConfig
  imports ClientStartup AmebaUsbMachine
begin

text \<open>
  The start of a USB stream at both ends: the configuration packet and the ping of the client's start-up
  (\<open>gateway_client/gateway_client.cpp\<close>), as the board's completion handler (\<open>ameba_gateway/example_gateway_ameba.c\<close>) takes them.
\<close>

lemma length_config_packet:
  "length host < 16 \<Longrightarrow> length path < 36 \<Longrightarrow> length (usb_upstream_config_packet seq port host path) = 64"
  by (simp add: usb_upstream_config_packet_def le32_def)

lemma c_str_padded: "0 \<notin> set xs \<Longrightarrow> 0 < n \<Longrightarrow> c_str (xs @ replicate n 0) = xs"
  using c_str_append_nul [of xs "replicate (n - 1) 0"] by (cases n) auto

lemma config_packet_fields:
  fixes seq :: u32 and port :: u16
  assumes host: "length host < 16" "0 \<notin> set host" and path: "length path < 36" "0 \<notin> set path"
  defines "p \<equiv> usb_upstream_config_packet seq port host path"
  shows "take 4 p = str ''CFG1''" and "read_le32 p 4 = seq" and "read_le16 p 8 = port"
    and "c_str (slice 12 16 p) = host" and "c_str (slice 28 36 p) = path"
proof -
  show "take 4 p = str ''CFG1''" by (simp add: p_def usb_upstream_config_packet_def)
  show "read_le32 p 4 = seq" "read_le16 p 8 = port"
    by (simp_all add: p_def usb_upstream_config_packet_def le32_def read_le32_def read_le16_def codec)
  have "slice 12 16 p = host @ replicate (16 - length host) 0"
    using host by (simp add: p_def usb_upstream_config_packet_def le32_def slice_def)
  then show "c_str (slice 12 16 p) = host" using host by (simp add: c_str_padded)
  have "slice 28 36 p = path @ replicate (36 - length path) 0"
    using host path by (simp add: p_def usb_upstream_config_packet_def le32_def slice_def)
  then show "c_str (slice 28 36 p) = path" using path by (simp add: c_str_padded)
qed

lemma queue_out_frame [simp]:
  "in_ep (snd (gateway_usb_queue_out_request s)) = in_ep s" "in_req (snd (gateway_usb_queue_out_request s)) = in_req s"
  "upstream_cfg (snd (gateway_usb_queue_out_request s)) = upstream_cfg s"
  "config_valid (snd (gateway_usb_queue_out_request s)) = config_valid s"
  "reconnect_requested (snd (gateway_usb_queue_out_request s)) = reconnect_requested s"
  by (simp_all add: gateway_usb_queue_out_request_def controller_answer_def split: list.split)

lemma copy_field_of:
  assumes "c_str b = xs" "xs \<noteq> []" "length xs < n" "length b = n" "length d = n"
  obtains h where "gateway_upstream_copy_field (Some d) n (Some b) n = (0, Some h)" "c_str h = xs"
proof -
  have "fst (gateway_upstream_copy_field (Some d) n (Some b) n) = 0"
    using assms by (intro copy_field_accepts) auto
  moreover have "snd (gateway_upstream_copy_field (Some d) n (Some b) n) \<noteq> None"
    by (simp add: gateway_upstream_copy_field_def Let_def)
  ultimately obtain h where h: "gateway_upstream_copy_field (Some d) n (Some b) n = (0, Some h)"
    by (metis option.exhaust prod.collapse)
  with copy_field_ok [OF h assms(5,4)] assms(1) that show thesis by auto
qed

lemma apply_config_packet:
  assumes host: "length host < 16" "0 \<notin> set host" "host \<noteq> []" and path: "length path < 36" "0 \<notin> set path" "path \<noteq> []"
    and port: "port \<noteq> 0" and aton: "aton host"
  obtains cf where
    "gateway_upstream_apply_usb_config aton (Some (usb_upstream_config_packet seq port host path)) s =
       (0, s\<lparr>upstream_cfg := cf, config_valid := True, config_seq := seq, reconnect_requested := True\<rparr>)"
    "c_str (cfg_host cf) = host" "c_str (cfg_path cf) = path" "cfg_port cf = port" "cfg_seq_no cf = seq"
proof -
  let ?p = "usb_upstream_config_packet seq port host path"
  note f = config_packet_fields [OF host(1,2) path(1,2), of seq port]
  note l = length_config_packet [OF host(1) path(1), of seq port]
  obtain h where h: "gateway_upstream_copy_field (Some (replicate 16 0)) 16 (Some (slice 12 16 ?p)) 16 = (0, Some h)" "c_str h = host"
    by (rule copy_field_of [OF f(4) host(3,1) _ length_replicate]) (simp_all add: l)
  obtain q where q: "gateway_upstream_copy_field (Some (replicate 36 0)) 36 (Some (slice 28 36 ?p)) 36 = (0, Some q)" "c_str q = path"
    by (rule copy_field_of [OF f(5) path(3,1) _ length_replicate]) (simp_all add: l)
  show thesis
    by (rule that [of "\<lparr>cfg_host = h, cfg_path = q, cfg_port = port, cfg_valid = True, cfg_seq_no = seq\<rparr>"])
       (simp_all add: gateway_upstream_apply_usb_config_def h q f port aton)
qed

text \<open>The client's ping, as the board sees it.\<close>

lemma ping_packet_fields:
  "length (usb_ping_packet seq (str ''gateway-usb-open'')) = 64"
  "take 4 (usb_ping_packet seq (str ''gateway-usb-open'')) = str ''PING''"
  by (simp_all add: usb_ping_packet_def le32_def)

text \<open>
  C17: the client's start-up configures the board and opens a session.  When \<open>send_usb_upstream_config\<close> reports success for an address
  and a path that are not empty, it has sent one packet of 64 bytes; the board's handler, given this packet, takes exactly the client's host, path,
  port and sequence number as its upstream configuration and asks for a reconnection; and the ping that follows starts a stream session in which
  the announcement is all that is queued.
\<close>

theorem config_reaches_board:
  assumes sent: "send_usb_upstream_config detected t seq opts = Some (0, t')"
    and usb: "kind t = GATEWAY_CLIENT_TRANSPORT_USB" "up_enabled opts" "whole_transfers (outs t)"
    and host: "(if up_host opts = [] then detected else Some (up_host opts)) = Some host" "host \<noteq> []" "0 \<notin> set host" "aton host"
    and path: "up_path opts \<noteq> []" "0 \<notin> set (up_path opts)" and port: "up_port opts \<noteq> 0"
    and board: "usb_inv aton s" "in_ep s" "in_req s"
  shows "\<exists>pkt. usb_sent t' = usb_sent t @ pkt \<and> length pkt = 64 \<and>
    (let s1 = gateway_usb_out_complete aton 0 64 (Some pkt) s;
         s2 = gateway_usb_out_complete aton 0 64 (Some (usb_ping_packet seq' (str ''gateway-usb-open''))) s1 in
     config_valid s1 \<and> reconnect_requested s1 \<and> c_str (cfg_host (upstream_cfg s1)) = host \<and>
     c_str (cfg_path (upstream_cfg s1)) = up_path opts \<and> cfg_port (upstream_cfg s1) = up_port opts \<and>
     cfg_seq_no (upstream_cfg s1) = seq \<and>
     usb_session c aton [] [] s2 \<and> ring_queued (us_ring s2) = init_wire default_info)"
proof -
  let ?p = "usb_upstream_config_packet seq (up_port opts) host (up_path opts)"
  have len: "length host < 16" "length (up_path opts) < 36"
    and w: "\<exists>r. gateway_client_transport_write_all (Some t) ?p = Some (0, r) \<and> t' = the r"
    using sent usb(1,2) host(1) by (auto simp: send_usb_upstream_config_def not_le split: if_splits option.splits)
  have h: "usb_handle t \<noteq> None"
    using w usb(1) by (auto simp: gateway_client_transport_write_all_def usb_write_all_def split: if_splits)
  then have "usb_write_loop t ?p 0 = Some (0, t')"
    using w usb(1) by (auto simp: gateway_client_transport_write_all_def usb_write_all_def)
  from usb_write_loop_ok [OF this _ usb(3)] have sent': "usb_sent t' = usb_sent t @ ?p" by simp
  note l = length_config_packet [OF len, of seq "up_port opts"]
  note f = config_packet_fields [OF len(1) host(3) len(2) path(2), of seq "up_port opts"]
  let ?h = "out_header ?p (out_stats 64 (Some ?p) s)"
  obtain cf where cf: "gateway_upstream_apply_usb_config aton (Some ?p) ?h =
       (0, ?h\<lparr>upstream_cfg := cf, config_valid := True, config_seq := seq, reconnect_requested := True\<rparr>)"
      "c_str (cfg_host cf) = host" "c_str (cfg_path cf) = up_path opts" "cfg_port cf = up_port opts" "cfg_seq_no cf = seq"
    by (rule apply_config_packet [where aton = aton, OF len(1) host(3,2) len(2) path(2,1) port host(4)])
  let ?s1 = "gateway_usb_out_complete aton 0 64 (Some ?p) s"
  have s1: "?s1 = snd (gateway_usb_queue_out_request (?h\<lparr>upstream_cfg := cf, config_valid := True, config_seq := seq,
      reconnect_requested := True, last_ping_valid := 3\<rparr>))"
    by (simp add: out_complete_eq out_raw_def Let_def f(1) cf(1))
  have inv: "usb_inv aton ?s1" using out_complete_inv [OF board(1), of "Some ?p" 0 64] l by simp
  have ep: "in_ep ?s1" "in_req ?s1" using board(2,3) by (simp_all add: s1)
  note ping = ping_session [OF inv ep ping_packet_fields, of 64] usb_session.ping [OF inv ep ping_packet_fields, of 64]
  have "config_valid ?s1" "reconnect_requested ?s1" "upstream_cfg ?s1 = cf" by (simp_all add: s1)
  with sent' l cf(2-5) ping show ?thesis by (intro exI [of _ ?p]) (simp add: Let_def)
qed

theorem config_reaches_board_witness:
  "\<exists>t' pkt. send_usb_upstream_config None demo_usb_link 0x3000 demo_upstream = Some (0, t') \<and> usb_sent t' = pkt \<and> length pkt = 64 \<and>
     (let s1 = gateway_usb_out_complete (\<lambda>_. True) 0 64 (Some pkt) demo_usb in
      config_valid s1 \<and> c_str (cfg_host (upstream_cfg s1)) = str ''10.0.0.2'' \<and> cfg_port (upstream_cfg s1) = 8081)"
proof -
  have self: "demo_usb_link\<lparr>ins := ins demo_usb_link\<rparr> = demo_usb_link" by simp
  obtain t' where sent: "send_usb_upstream_config None demo_usb_link 0x3000 demo_upstream = Some (0, t')"
    using demo_config_sent [of "ins demo_usb_link"] unfolding self by blast
  have usb: "kind demo_usb_link = GATEWAY_CLIENT_TRANSPORT_USB" "up_enabled demo_upstream" "whole_transfers (outs demo_usb_link)"
      "usb_sent demo_usb_link = []"
    by (simp_all add: demo_usb_link_def demo_transport_def demo_upstream_def whole_transfers_def)
  have host: "(if up_host demo_upstream = [] then None else Some (up_host demo_upstream)) = Some (str ''10.0.0.2'')"
      "str ''10.0.0.2'' \<noteq> []" "0 \<notin> set (str ''10.0.0.2'')" "up_path demo_upstream \<noteq> []" "0 \<notin> set (up_path demo_upstream)"
      "up_port demo_upstream \<noteq> 0" "up_port demo_upstream = 8081"
    by (simp_all add: demo_upstream_def)
  have board: "usb_inv (\<lambda>_. True) demo_usb" "in_ep demo_usb" "in_req demo_usb"
    by (simp_all add: usb_inv_def usb_ok_def flight_ok_def config_ok_def demo_usb_def usb_boot_def)
  from config_reaches_board [OF sent usb(1-3) host(1-3) TrueI host(4-6) board, of 0 toy_cipher] obtain pkt where
    "usb_sent t' = usb_sent demo_usb_link @ pkt" "length pkt = 64"
    "let s1 = gateway_usb_out_complete (\<lambda>_. True) 0 64 (Some pkt) demo_usb in
      config_valid s1 \<and> c_str (cfg_host (upstream_cfg s1)) = str ''10.0.0.2'' \<and> cfg_port (upstream_cfg s1) = up_port demo_upstream"
    unfolding Let_def by blast
  with sent usb(4) host(7) show ?thesis by (intro exI [of _ t'] exI [of _ pkt]) (simp only: append_Nil simp_thms)
qed

end
