(* ===== verification/Spec2Isabelle.thy ===== *)
theory Spec2Isabelle
  imports GatewayProto CryptoStream TcpTransport Utf8 Base64 Sha1 Frames WsUpstream TxRing AmebaTask CJsonSafe GatewayRelay BitrateCtrl Handshake WsSession WsOverflow VideoPath ServerCommands ClientReader BoardToClient BoardConfig
begin

text \<open>
  A verification development of a CarPlay streaming proof of concept: H.264 video and PCM audio
  travel from a capture server over an encrypted WebSocket to a gateway, and from there to the
  client that plays them.

  \<^bold>\<open>The program.\<close>  Three programs and a board take part.

    \<^item> \<open>wsh264\<close> serves the stream: a WebSocket server (\<open>wsh264/src/ws.c\<close> with \<open>handshake.c\<close>, \<open>sha1.c\<close>,
      \<open>base64.c\<close>, \<open>utf8.c\<close>), the encoder's rate control (\<open>wsh264/app/bitrate_ctrl.c\<close>), JSON commands
      (\<open>wsh264/cJSON/cJSON.c\<close>).  Media packets are sealed by \<open>wsh264/src/crypto_stream.c\<close>.
    \<^item> The desktop gateway (\<open>gateway/gateway.c\<close>) accepts one TCP client at a time, connects to the
      server with the WebSocket client of \<open>gateway/ws_upstream_client.c\<close>, opens each media packet and
      relays its plaintext behind a header of \<open>wsh264/src/gateway_proto.c\<close>.
    \<^item> The Ameba board (\<open>ameba_gateway/example_gateway_ameba.c\<close>) does the same over USB: its own
      WebSocket client over lwIP, then the packet sealed again for the USB link, queued in a ring
      from which the USB controller's completion handler feeds the host.
    \<^item> \<open>gateway_client\<close> reads either stream, opens the packets and decodes and plays them.

  \<^bold>\<open>Theories and sources.\<close>  Each theory opens with what it holds; a definition has the name of the C
  function, type or table it models, with a suffix such as \<open>_loop\<close> for a loop of it.

    \<^item> \<open>Prelude\<close>: bytes, words, C casts, slices, masking, endian recombination; the collection \<open>codec\<close>.
    \<^item> \<open>Outcome\<close>: values, faults and exhausted fuel of code that indexes buffers through pointers.
    \<^item> \<open>GatewayProto\<close> (\<open>gateway_proto.c\<close>): the init message and the media header; round trips and the
      wire layout.
    \<^item> \<open>CryptoStream\<close> (\<open>crypto_stream.c\<close>): nonces, sealing and opening; round trip, exact acceptance,
      when two packets share a nonce.
    \<^item> \<open>TcpTransport\<close> (\<open>gateway/tcp_transport.c\<close>): every function's POSIX branch over a script of the
      operating system's answers; the locales \<open>byte_reader\<close> and \<open>byte_writer\<close>.
    \<^item> \<open>Utf8\<close>, \<open>Base64\<close>, \<open>Sha1\<close>: each with a reference definition (encodings of scalar values, the round
      trip, the digest of the standard) and the equivalence with it.
    \<^item> \<open>Frames\<close>: RFC 6455 frames as bytes, shared by both peers.
    \<^item> \<open>WsUpstream\<close> (\<open>ws_upstream_client.c\<close>): handshake, buffered reader, frames in and out.
    \<^item> \<open>GatewayMedia\<close>, \<open>Gateway\<close>, \<open>GatewayRelay\<close> (\<open>gateway.c\<close>): inspection of video packets; the session
      and the interleaving of its thread with the accept loop; what a session sends its client.
    \<^item> \<open>TxRing\<close>, \<open>AmebaUsb\<close>, \<open>AmebaUsbInvariant\<close>, \<open>AmebaUsbMachine\<close>, \<open>AmebaUpstream\<close>, \<open>AmebaTask\<close>
      (\<open>example_gateway_ameba.c\<close>): the ring and its refinement of a bounded queue; the USB handlers,
      their invariant, the step relation \<open>usb_step\<close> of everything the host and the controller can do;
      the upstream client; the task's loop, interleaved with the USB events by \<open>ameba_step\<close>.
    \<^item> \<open>CJson\<close>, \<open>CJsonSafe\<close> (\<open>cJSON.c\<close>): the parser, its memory safety and termination.
    \<^item> \<open>BitrateCtrl\<close> (\<open>bitrate_ctrl.c\<close>), \<open>Handshake\<close> (\<open>handshake.c\<close>).
    \<^item> \<open>WsServer\<close>, \<open>WsMessage\<close>, \<open>WsConnection\<close>, \<open>WsSession\<close>, \<open>WsOverflow\<close> (\<open>ws.c\<close>): frames and sending;
      delivery of fragmented messages; a connection's thread and the slots; a whole session; the
      inputs that make the server write outside its buffers.
    \<^item> \<open>MediaServer\<close>, \<open>ServerCommands\<close> (\<open>wsh264/app/wsh264.cpp\<close>): cutting the bitstream and the audio, sealing,
      the announcement of the nonce, fragments of large frames, the turns of the two streaming threads; a connection's
      object and the JSON commands that start and stop the streams.
    \<^item> \<open>ClientTransport\<close> (\<open>gateway_client/transport.c\<close>, \<open>transport_libusb.c\<close>): finding, opening, reading, writing and
      closing over libusb or TCP.
    \<^item> \<open>ClientStream\<close>, \<open>ClientVideo\<close>, \<open>ClientAudio\<close>, \<open>ClientReader\<close>, \<open>ClientStartup\<close> (\<open>gateway_client/gateway_client.cpp\<close>):
      the search for headers, payloads and their decryption; reassembly of frames, and the queue between the network
      thread and the decoding main thread as the step relation \<open>video_step\<close>; the audio queue and the routine that
      feeds the device, as \<open>audio_step\<close>; the network thread's loop; the start over USB.
    \<^item> Both ends together: \<open>VideoPath\<close>, from the server's fragments to the client's frame, and from the bitstream to its
      NAL units; \<open>BoardToClient\<close>, from the board's USB ring to the client's player; \<open>BoardConfig\<close>, from the client's
      start-up packets to the board's configuration and session.

  \<^bold>\<open>Shape of the models.\<close>  A socket is a script of what the operating system answers to each
  \<open>recv\<close>, \<open>send\<close> or \<open>connect\<close> together with what was sent; a theorem about all scripts covers every
  segmentation, interruption and failure, and \<open>None\<close> is a call that blocks for ever because its script
  is used up.  \<open>byte_reader\<close> states what a reader over such a stream keeps (the bytes returned are
  the front of the stream) and proves \<open>read_exact\<close>-style lemmas once; it is interpreted on the plain
  socket, on both WebSocket clients' prebuffered readers, on the client's transport and on its prefetched input.  \<open>byte_writer\<close> is its counterpart
  for sending, \<open>byte_fifo\<close> that of the USB ring.  Allocation is a parameter saying which sizes
  succeed, or a list of answers.  A buffer access outside its object, a division by zero or a signed
  overflow is \<open>Fault\<close>.  Global variables are fields of the records that the functions pass on.

  \<^bold>\<open>Bounds and fuel.\<close>  Sizes are 64 bits on the desktop (\<open>size_t\<close> wrap-around is written out where the
  code can reach it) and 32 bits on the board; frames are at most \<open>MAX_FRAME\<close> = 16 MiB for the server
  and as their receivers' limits say for the clients.  Most loops have termination proofs.  The JSON parser runs on fuel
  because its functions call each other; \<open>2 * length + 2\<close> is proved to be enough for every text.
  The server's loops over frames and messages take a number of turns: \<open>next_frame\<close> needs more than
  the frames of the message, \<open>message_loop\<close> more than the messages sent, and the theorems state
  the result for every larger number.

  \<^bold>\<open>Parameters.\<close>  ChaCha20 (a submodule) is any function that xors its input with a key stream of
  key, nonce and counter; \<open>malloc\<close>, \<open>strtod\<close>, \<open>inet_aton\<close>, the application's callbacks and the choice
  \<open>VALIDATE_UTF8\<close>, which the build leaves open, are arguments of the definitions that use them.

  \<^bold>\<open>Not modelled.\<close>
    \<^item> In \<open>ws.c\<close>: the set-up of the listening socket and its options, the fuzzing entry point, locks
      and the interleaving of several threads on one connection (the desktop gateway's two threads are interleaved);
      the NULs that \<open>strtok_r\<close> writes into the request; the order in which C evaluates the operands of
      \<open>|\<close> in \<open>read_frame\<close> is open, and left to right is taken.
    \<^item> In \<open>cJSON.c\<close>: printing, building, duplicating, comparing and minifying items.
    \<^item> On the board: USB descriptors, Wi-Fi bring-up and callbacks, AT commands and messages; whether the network is up is an input.
    \<^item> \<open>ws_wsfs_compat.c\<close>, which passes the calls of one API to a third-party server; drawing, the FFmpeg encoder
      and the containers under \<open>wsh264/app\<close>, which the server does not call.
    \<^item> In \<open>wsh264.cpp\<close>: the locks of \<open>app_t\<close> (a call runs as if no other thread held them, waiting for pending audio is
      \<open>Timeout\<close>), the reading of the files, \<open>main\<close> and the second port, whose handlers only print.
    \<^item> In \<open>gateway_client.cpp\<close>: rendering, the set-up of FFmpeg and SDL, the diagnostic modes, allocation failure
      as C++ exceptions; what the decoder, the clock and the audio device answer
      is an input; the network thread is modelled without the main thread's request to stop.
    \<^item> Everywhere: the command lines and the messages printed; the sample of the board's SDK under \<open>.scratch\<close>
      and the packaging scripts.
\<close>

end
